(* ===== verification/Prelude.thy ===== *)
theory Prelude
  imports Main "HOL-Library.Word" "HOL-Library.Code_Target_Nat" "HOL-Library.Monad_Syntax" "HOL-Library.Multiset"
begin

text \<open>
  Shared vocabulary of the development.

  The kernel is freestanding C for a 32-bit x86: \<open>int\<close>, \<open>unsigned\<close>, \<open>size_t\<close> and pointers
  are 32 bits wide.  A C function that may panic (a failed \<^verbatim>\<open>ASSERT\<close>, a \<^verbatim>\<open>PANIC\<close>, a
  \<^verbatim>\<open>NOT_REACHED\<close>) or run into undefined behaviour (an access outside an array, through a null
  or dangling pointer) is modelled as a function into \<open>option\<close>: \<^term>\<open>None\<close> is the panic, and
  the \<open>do\<close> notation of the library sequences the steps.  Error returns of the C code (null
  pointers, \<^verbatim>\<open>false\<close>, \<open>-1\<close>) are ordinary values.
\<close>

section \<open>Machine types\<close>

type_synonym u8 = "8 word"
type_synonym u16 = "16 word"
type_synonym u32 = "32 word"
type_synonym u64 = "64 word"

text \<open>A \<open>size_t\<close> kept as a natural number: arithmetic on it wraps at \<open>2 ^ 32\<close>.\<close>

definition wrap32 :: "nat \<Rightarrow> nat" where
  "wrap32 n = n mod 2 ^ 32"

definition SIZE_MAX :: nat where
  "SIZE_MAX = 2 ^ 32 - 1"

lemma wrap32_less [simp]: "n < 2 ^ 32 \<Longrightarrow> wrap32 n = n"
  by (simp add: wrap32_def)

lemma wrap32_bound: "wrap32 n < 2 ^ 32"
  by (simp add: wrap32_def)

section \<open>Panics\<close>

named_theorems panic_iff \<open>when a step of the panic monad returns, and with what\<close>

definition ASSERT :: "bool \<Rightarrow> unit option" where
  "ASSERT P = (if P then Some () else None)"

lemma ASSERT_simps [simp]: "ASSERT True = Some ()" "ASSERT False = None"
  by (simp_all add: ASSERT_def)

lemma ASSERT_eq_Some [panic_iff]: "ASSERT P = Some u \<longleftrightarrow> P"
  by (simp add: ASSERT_def)

lemma ASSERT_eq_None [panic_iff]: "ASSERT P = None \<longleftrightarrow> \<not> P"
  by (simp add: ASSERT_def)

declare bind_eq_Some_conv [panic_iff]

lemma if_Some_conv [panic_iff]:
  "(if P then None else x) = Some y \<longleftrightarrow> \<not> P \<and> x = Some y"
  "(if P then x else None) = Some y \<longleftrightarrow> P \<and> x = Some y"
  by auto

section \<open>Arrays\<close>

text \<open>Array accesses: out of bounds is undefined behaviour.\<close>

definition aread :: "'a list \<Rightarrow> nat \<Rightarrow> 'a option" where
  "aread xs i = (if i < length xs then Some (xs ! i) else None)"

definition awrite :: "'a list \<Rightarrow> nat \<Rightarrow> 'a \<Rightarrow> 'a list option" where
  "awrite xs i v = (if i < length xs then Some (xs[i := v]) else None)"

lemma aread_eq_Some [panic_iff]: "aread xs i = Some v \<longleftrightarrow> i < length xs \<and> v = xs ! i"
  by (auto simp: aread_def)

lemma awrite_eq_Some [panic_iff]: "awrite xs i v = Some ys \<longleftrightarrow> i < length xs \<and> ys = xs[i := v]"
  by (auto simp: awrite_def)

lemma aread_in [simp]: "i < length xs \<Longrightarrow> aread xs i = Some (xs ! i)"
  by (simp add: aread_def)

lemma awrite_in [simp]: "i < length xs \<Longrightarrow> awrite xs i v = Some (xs[i := v])"
  by (simp add: awrite_def)

text \<open>\<^verbatim>\<open>memcpy\<close> of the bytes \<open>src\<close> to offset \<open>ofs\<close> of a buffer.\<close>

definition overwrite :: "'a list \<Rightarrow> nat \<Rightarrow> 'a list \<Rightarrow> 'a list" where
  "overwrite buf ofs src = take ofs buf @ src @ drop (ofs + length src) buf"

lemma length_overwrite [simp]:
  "ofs + length src \<le> length buf \<Longrightarrow> length (overwrite buf ofs src) = length buf"
  by (simp add: overwrite_def)

lemma nth_overwrite:
  "ofs + length src \<le> length buf \<Longrightarrow> i < length buf \<Longrightarrow>
   overwrite buf ofs src ! i =
     (if ofs \<le> i \<and> i < ofs + length src then src ! (i - ofs) else buf ! i)"
  by (auto simp: overwrite_def nth_append min_def)

lemma take_drop_overwrite [simp]:
  "ofs + length src \<le> length buf \<Longrightarrow> take (length src) (drop ofs (overwrite buf ofs src)) = src"
  by (simp add: overwrite_def)

lemma overwrite_full [simp]: "length src = length buf \<Longrightarrow> overwrite buf 0 src = src"
  by (simp add: overwrite_def)

section \<open>Slices of a sequence of blocks of one length\<close>

lemma concat_take_drop:
  "\<forall>l \<in> set ls. length l = m \<Longrightarrow> i \<le> length ls \<Longrightarrow>
   drop (m * i) (concat ls) = concat (drop i ls) \<and> take (m * i) (concat ls) = concat (take i ls)"
proof (induction ls arbitrary: i)
  case (Cons l ls)
  then show ?case by (cases i) auto
qed simp

lemma length_concat_const: "\<forall>l \<in> set ls. length l = m \<Longrightarrow> length (concat ls) = m * length ls"
  by (induction ls) auto

lemma concat_split_at:
  assumes "\<forall>l \<in> set ls. length l = m" and "i < length ls"
  shows "concat ls = concat (take i ls) @ ls ! i @ concat (drop (Suc i) ls)" and "length (concat (take i ls)) = m * i"
proof -
  show "concat ls = concat (take i ls) @ ls ! i @ concat (drop (Suc i) ls)"
    using id_take_nth_drop [OF assms(2)] by (metis concat.simps(2) concat_append)
  have "\<forall>l \<in> set (take i ls). length l = m" using assms(1) by (meson in_set_takeD)
  then show "length (concat (take i ls)) = m * i" using length_concat_const [of "take i ls" m] assms(2) by simp
qed

lemma concat_slice:
  assumes "\<forall>l \<in> set ls. length l = m" and "i < length ls" and "r + k \<le> m"
  shows "take k (drop (m * i + r) (concat ls)) = take k (drop r (ls ! i))"
proof -
  have "length (ls ! i) = m" using assms(1,2) by simp
  then show ?thesis using concat_split_at [OF assms(1,2)] assms(3) by simp
qed

lemma overwrite_append:
  "r + length src \<le> length ys \<Longrightarrow> overwrite (xs @ ys @ zs) (length xs + r) src = xs @ overwrite ys r src @ zs"
  by (simp add: overwrite_def)

lemma concat_overwrite:
  assumes "\<forall>l \<in> set ls. length l = m" and "i < length ls" and "r + length src \<le> m"
  shows "overwrite (concat ls) (m * i + r) src = concat (ls[i := overwrite (ls ! i) r src])"
proof -
  have "length (ls ! i) = m" using assms(1,2) by simp
  then have "overwrite (concat ls) (m * i + r) src = concat (take i ls) @ overwrite (ls ! i) r src @ concat (drop (Suc i) ls)"
    using overwrite_append [of r src "ls ! i" "concat (take i ls)"] concat_split_at [OF assms(1,2)] assms(3) by simp
  then show ?thesis using assms(2) by (simp add: upd_conv_take_nth_drop)
qed

lemma take_overwrite: "r + length src \<le> n \<Longrightarrow> n \<le> length xs \<Longrightarrow> take n (overwrite xs r src) = overwrite (take n xs) r src"
  by (simp add: overwrite_def drop_take)

section \<open>Rounding macros of lib/round.h\<close>

text \<open>The three macros, on operands that do not wrap (the callers write the wrap-around).\<close>

definition ROUND_UP :: "nat \<Rightarrow> nat \<Rightarrow> nat" where
  "ROUND_UP x step = (x + step - 1) div step * step"

definition DIV_ROUND_UP :: "nat \<Rightarrow> nat \<Rightarrow> nat" where
  "DIV_ROUND_UP x step = (x + step - 1) div step"

definition ROUND_DOWN :: "nat \<Rightarrow> nat \<Rightarrow> nat" where
  "ROUND_DOWN x step = x div step * step"

lemma DIV_ROUND_UP_le_iff: "0 < step \<Longrightarrow> DIV_ROUND_UP x step \<le> n \<longleftrightarrow> x \<le> n * step"
proof -
  assume s: "0 < step"
  have "DIV_ROUND_UP x step \<le> n \<longleftrightarrow> (x + step - 1) div step < Suc n"
    by (simp add: DIV_ROUND_UP_def less_Suc_eq_le)
  also have "\<dots> \<longleftrightarrow> x + step - 1 < Suc n * step"
    using s by (simp add: div_less_iff_less_mult)
  also have "\<dots> \<longleftrightarrow> x \<le> n * step"
    using s by auto
  finally show ?thesis .
qed

lemma DIV_ROUND_UP_mono: "x \<le> y \<Longrightarrow> DIV_ROUND_UP x step \<le> DIV_ROUND_UP y step"
  by (simp add: DIV_ROUND_UP_def div_le_mono)

lemma div_less_DIV_ROUND_UP: "0 < step \<Longrightarrow> i < x \<Longrightarrow> i div step < DIV_ROUND_UP x step"
  using DIV_ROUND_UP_le_iff [of step x "i div step"] div_mult_mod_eq [of i step]
  by (metis le_trans not_le times_div_less_eq_dividend mult.commute)

lemma DIV_ROUND_UP_0 [simp]: "0 < step \<Longrightarrow> DIV_ROUND_UP 0 step = 0"
  by (simp add: DIV_ROUND_UP_def)

section \<open>Bounded loops\<close>

text \<open>\<open>for (i = lo; i < hi; i++) if (P i) return i;\<close> and \<open>hi\<close> when no index satisfies \<open>P\<close>.\<close>

function find_from :: "(nat \<Rightarrow> bool) \<Rightarrow> nat \<Rightarrow> nat \<Rightarrow> nat option" where
  "find_from P i hi = (if i < hi then (if P i then Some i else find_from P (Suc i) hi) else None)"
  by pat_completeness auto
termination
  by (relation "measure (\<lambda>(P, i, hi). hi - i)") auto

declare find_from.simps [simp del]

lemma find_from_None: "find_from P i hi = None \<longleftrightarrow> (\<forall>j. i \<le> j \<and> j < hi \<longrightarrow> \<not> P j)"
proof (induction P i hi rule: find_from.induct)
  case (1 P i hi)
  show ?case
  proof (cases "i < hi \<and> \<not> P i")
    case True
    then have "find_from P i hi = find_from P (Suc i) hi" by (simp add: find_from.simps [of P i])
    then show ?thesis using 1 True
      by (metis Suc_leD Suc_leI le_neq_implies_less)
  next
    case False
    then show ?thesis
      by (subst find_from.simps) auto
  qed
qed

lemma find_from_Some:
  "find_from P i hi = Some k \<longleftrightarrow> i \<le> k \<and> k < hi \<and> P k \<and> (\<forall>j. i \<le> j \<and> j < k \<longrightarrow> \<not> P j)"
proof (induction P i hi rule: find_from.induct)
  case (1 P i hi)
  show ?case
  proof (cases "i < hi \<and> \<not> P i")
    case True
    then have "find_from P i hi = find_from P (Suc i) hi" by (simp add: find_from.simps [of P i])
    then show ?thesis using 1 True
      by (metis Suc_leD Suc_leI le_neq_implies_less)
  next
    case False
    then show ?thesis
      by (subst find_from.simps) (auto dest: le_neq_implies_less)
  qed
qed

end
