(* ===== verification/Block.thy ===== *)
theory Block
  imports Prelude
begin

text \<open>
  Block devices (devices/block.c).  A device keeps its type, size and statistics; the driver
  behind \<^verbatim>\<open>ops\<close> is an array of sectors: reading returns the last bytes written to that sector.
  Devices live in a registry in probe order; a device is named by its position there, and
  \<^verbatim>\<open>block_by_role\<close> maps the four Pintos roles to devices.
\<close>

section \<open>Data\<close>

definition BLOCK_SECTOR_SIZE :: nat where
  "BLOCK_SECTOR_SIZE = 512"

type_synonym block_sector_t = u32
type_synonym sector_data = "u8 list"

datatype block_type = BLOCK_KERNEL | BLOCK_FILESYS | BLOCK_SCRATCH | BLOCK_SWAP | BLOCK_RAW | BLOCK_FOREIGN

text \<open>The value of the C enumeration; \<^verbatim>\<open>BLOCK_ROLE_CNT\<close> is 4.\<close>

primrec block_type_val :: "block_type \<Rightarrow> nat" where
  "block_type_val BLOCK_KERNEL = 0"
| "block_type_val BLOCK_FILESYS = 1"
| "block_type_val BLOCK_SCRATCH = 2"
| "block_type_val BLOCK_SWAP = 3"
| "block_type_val BLOCK_RAW = 4"
| "block_type_val BLOCK_FOREIGN = 5"

definition BLOCK_ROLE_CNT :: nat where
  "BLOCK_ROLE_CNT = 4"

record block =
  blk_name :: string
  blk_type :: block_type
  blk_size :: block_sector_t
  blk_data :: "sector_data list"
  read_cnt :: u64
  write_cnt :: u64

record block_registry =
  all_blocks :: "block list"
  block_by_role :: "nat option list"

definition sector_ok :: "sector_data \<Rightarrow> bool" where
  "sector_ok d \<longleftrightarrow> length d = BLOCK_SECTOR_SIZE"

definition block_wf :: "block \<Rightarrow> bool" where
  "block_wf b \<longleftrightarrow> length (blk_data b) = unat (blk_size b) \<and> (\<forall>d \<in> set (blk_data b). sector_ok d)"

section \<open>Sector access\<close>

definition check_sector :: "block \<Rightarrow> block_sector_t \<Rightarrow> unit option" where
  "check_sector b sector = (if sector \<ge> blk_size b then None else Some ())"

definition block_read :: "block \<Rightarrow> block_sector_t \<Rightarrow> (sector_data \<times> block) option" where
  "block_read b sector = do {
     check_sector b sector;
     Some (blk_data b ! unat sector, b\<lparr>read_cnt := read_cnt b + 1\<rparr>)
   }"

definition block_write :: "block \<Rightarrow> block_sector_t \<Rightarrow> sector_data \<Rightarrow> block option" where
  "block_write b sector buf = do {
     check_sector b sector;
     ASSERT (blk_type b \<noteq> BLOCK_FOREIGN);
     Some (b\<lparr>blk_data := (blk_data b)[unat sector := buf], write_cnt := write_cnt b + 1\<rparr>)
   }"

section \<open>The registry\<close>

definition blocks_init :: "block_registry \<Rightarrow> block_registry" where
  "blocks_init r = r\<lparr>all_blocks := []\<rparr>"

primrec block_type_name :: "block_type \<Rightarrow> string" where
  "block_type_name BLOCK_KERNEL = ''kernel''"
| "block_type_name BLOCK_FILESYS = ''filesys''"
| "block_type_name BLOCK_SCRATCH = ''scratch''"
| "block_type_name BLOCK_SWAP = ''swap''"
| "block_type_name BLOCK_RAW = ''raw''"
| "block_type_name BLOCK_FOREIGN = ''foreign''"

definition block_get_role :: "block_registry \<Rightarrow> block_type \<Rightarrow> nat option option" where
  "block_get_role r role = do {
     ASSERT (block_type_val role < BLOCK_ROLE_CNT);
     aread (block_by_role r) (block_type_val role)
   }"

definition block_set_role :: "block_registry \<Rightarrow> block_type \<Rightarrow> nat option \<Rightarrow> block_registry option" where
  "block_set_role r role b = do {
     ASSERT (block_type_val role < BLOCK_ROLE_CNT);
     roles \<leftarrow> awrite (block_by_role r) (block_type_val role) b;
     Some (r\<lparr>block_by_role := roles\<rparr>)
   }"

text \<open>The device at a position of the list, or null at its end (\<^verbatim>\<open>list_elem_to_block\<close>).\<close>

definition list_elem_to_block :: "block_registry \<Rightarrow> nat \<Rightarrow> nat option" where
  "list_elem_to_block r i = (if i \<noteq> length (all_blocks r) then Some i else None)"

definition block_first :: "block_registry \<Rightarrow> nat option" where
  "block_first r = list_elem_to_block r 0"

definition block_next :: "block_registry \<Rightarrow> nat \<Rightarrow> nat option" where
  "block_next r b = list_elem_to_block r (b + 1)"

definition block_get_by_name :: "block_registry \<Rightarrow> string \<Rightarrow> nat option" where
  "block_get_by_name r name = find_from (\<lambda>i. name = blk_name (all_blocks r ! i)) 0 (length (all_blocks r))"

text \<open>\<open>mem\<close> says whether the allocation of the descriptor succeeds.  The name field holds 16
  bytes with its terminator.\<close>

definition block_register ::
  "block_registry \<Rightarrow> bool \<Rightarrow> string \<Rightarrow> block_type \<Rightarrow> block_sector_t \<Rightarrow> sector_data list \<Rightarrow> (nat \<times> block_registry) option" where
  "block_register r mem name type sz data = do {
     ASSERT mem;
     Some (length (all_blocks r),
           r\<lparr>all_blocks := all_blocks r @ [\<lparr>blk_name = take 15 name, blk_type = type, blk_size = sz,
              blk_data = data, read_cnt = 0, write_cnt = 0\<rparr>]\<rparr>)
   }"

section \<open>Lemmas\<close>

lemma block_read_eq:
  "block_read b s = (if s < blk_size b then Some (blk_data b ! unat s, b\<lparr>read_cnt := read_cnt b + 1\<rparr>) else None)"
  by (auto simp: block_read_def check_sector_def)

lemma block_write_eq:
  "block_write b s d = (if s < blk_size b \<and> blk_type b \<noteq> BLOCK_FOREIGN
     then Some (b\<lparr>blk_data := (blk_data b)[unat s := d], write_cnt := write_cnt b + 1\<rparr>) else None)"
  by (auto simp: block_write_def check_sector_def ASSERT_def)

lemma block_wf_nth: "block_wf b \<Longrightarrow> s < blk_size b \<Longrightarrow> sector_ok (blk_data b ! unat s)"
  by (simp add: block_wf_def word_less_nat_alt)

lemma block_wf_write:
  "block_wf b \<Longrightarrow> sector_ok d \<Longrightarrow> block_wf (b\<lparr>blk_data := (blk_data b)[unat s := d], write_cnt := n\<rparr>)"
  using set_update_subset_insert [of "blk_data b" "unat s" d] by (auto simp: block_wf_def)

lemma block_get_by_name_register:
  "block_register r mem name type sz data = Some (b, r') \<Longrightarrow> block_get_by_name r (take 15 name) = None \<Longrightarrow>
   block_get_by_name r' (take 15 name) = Some b"
  unfolding block_register_def block_get_by_name_def
  by (auto simp: panic_iff nth_append find_from_None find_from_Some)

end
