(* ===== verification/Buffer_Cache.thy ===== *)
theory Buffer_Cache
  imports Block
begin

text \<open>
  The write-back buffer cache (filesys/buffer-cache.c): \<^verbatim>\<open>CACHE_SIZE\<close> entries, looked up by
  sector, filled on a miss and evicted round robin.  Every operation runs between acquiring and
  releasing \<^verbatim>\<open>cache_lock\<close>, so it is one step on the state.

  The contract is a disk: \<open>cview c s\<close> is what sector \<open>s\<close> holds as seen through the cache.  Reads
  return it, a write changes it in the written bytes of one sector, evictions and write-back leave
  it alone, and after a write-back the device itself holds it.
\<close>

section \<open>State\<close>

definition CACHE_SIZE :: nat where
  "CACHE_SIZE = 64"

definition INT_MAX :: int where
  "INT_MAX = 2147483647"

record cache_table_entry =
  occupied :: bool
  open_cnt :: int
  accessed :: bool
  dirty :: bool
  cblock :: sector_data
  disk_sector :: block_sector_t

record cache =
  fs_device :: block
  cache_table :: "cache_table_entry list"
  round_robin_idx :: int

definition set_entry :: "cache \<Rightarrow> nat \<Rightarrow> cache_table_entry \<Rightarrow> cache option" where
  "set_entry c i e = do { t \<leftarrow> awrite (cache_table c) i e; Some (c\<lparr>cache_table := t\<rparr>) }"

definition clear_entry :: "cache_table_entry \<Rightarrow> cache_table_entry" where
  "clear_entry e = e\<lparr>occupied := False, open_cnt := 0, dirty := False, accessed := False\<rparr>"

section \<open>Operations\<close>

definition cache_writeback_entry :: "bool \<Rightarrow> nat \<Rightarrow> cache \<Rightarrow> cache option" where
  "cache_writeback_entry last_write_back i c = do {
     e \<leftarrow> aread (cache_table c) i;
     c1 \<leftarrow> (if occupied e \<and> dirty e then do {
              dev \<leftarrow> block_write (fs_device c) (disk_sector e) (cblock e);
              set_entry (c\<lparr>fs_device := dev\<rparr>) i (e\<lparr>dirty := False\<rparr>)
            } else Some c);
     if last_write_back then do {
       e1 \<leftarrow> aread (cache_table c1) i;
       set_entry c1 i (clear_entry e1)
     } else Some c1
   }"

primrec cache_writeback_loop :: "bool \<Rightarrow> nat list \<Rightarrow> cache \<Rightarrow> cache option" where
  "cache_writeback_loop b [] c = Some c"
| "cache_writeback_loop b (i # is) c = do { c1 \<leftarrow> cache_writeback_entry b i c; cache_writeback_loop b is c1 }"

definition cache_writeback :: "bool \<Rightarrow> cache \<Rightarrow> cache option" where
  "cache_writeback last_write_back c = cache_writeback_loop last_write_back [0..<CACHE_SIZE] c"

text \<open>Starting the write-back thread is left to the thread model; the loop of \<^verbatim>\<open>periodic_write\<close>
  runs \<open>cache_writeback False\<close>.\<close>

definition cache_init :: "cache \<Rightarrow> cache" where
  "cache_init c = c\<lparr>cache_table := map clear_entry (cache_table c)\<rparr>"

definition cache_lookup :: "cache \<Rightarrow> block_sector_t \<Rightarrow> int" where
  "cache_lookup c sector =
     (case find_from (\<lambda>i. disk_sector (cache_table c ! i) = sector \<and> occupied (cache_table c ! i)) 0 CACHE_SIZE of
        Some i \<Rightarrow> int i | None \<Rightarrow> -1)"

definition cache_get_free_entry :: "cache \<Rightarrow> int \<times> cache" where
  "cache_get_free_entry c =
     (case find_from (\<lambda>i. \<not> occupied (cache_table c ! i)) 0 CACHE_SIZE of
        Some i \<Rightarrow> (int i, c\<lparr>cache_table := (cache_table c)[i := (cache_table c ! i)\<lparr>occupied := True\<rparr>]\<rparr>)
      | None \<Rightarrow> (-1, c))"

text \<open>\<^verbatim>\<open>round_robin_idx\<close> is a signed counter that is never reduced; incrementing it past
  \<^const>\<open>INT_MAX\<close> is undefined.\<close>

definition cache_evict :: "cache \<Rightarrow> (int \<times> cache) option" where
  "cache_evict c = (
     let (idx, c) = cache_get_free_entry c in
     if idx = -1 then do {
       ASSERT (round_robin_idx c < INT_MAX);
       let c = c\<lparr>round_robin_idx := round_robin_idx c + 1\<rparr>;
       let idx = round_robin_idx c mod int CACHE_SIZE;
       e \<leftarrow> aread (cache_table c) (nat idx);
       dev \<leftarrow> (if dirty e then block_write (fs_device c) (disk_sector e) (cblock e) else Some (fs_device c));
       c \<leftarrow> set_entry (c\<lparr>fs_device := dev\<rparr>) (nat idx) (clear_entry e);
       Some (idx, c)
     } else Some (idx, c))"

definition cache_write :: "cache \<Rightarrow> block_sector_t \<Rightarrow> u8 list \<Rightarrow> nat \<Rightarrow> nat \<Rightarrow> cache option" where
  "cache_write c sector source_buffer sector_ofs sz = do {
     let idx = cache_lookup c sector;
     (idx, c) \<leftarrow> (if idx = -1 then do {
         (idx, c) \<leftarrow> cache_evict c;
         e \<leftarrow> aread (cache_table c) (nat idx);
         (data, dev) \<leftarrow> block_read (fs_device c) sector;
         c \<leftarrow> set_entry (c\<lparr>fs_device := dev\<rparr>) (nat idx)
                (e\<lparr>occupied := True, disk_sector := sector, cblock := data\<rparr>);
         Some (idx, c)
       } else Some (idx, c));
     e \<leftarrow> aread (cache_table c) (nat idx);
     ASSERT (sector_ofs + sz \<le> BLOCK_SECTOR_SIZE \<and> sz \<le> length source_buffer);
     set_entry c (nat idx)
       (e\<lparr>accessed := True, dirty := True, cblock := overwrite (cblock e) sector_ofs (take sz source_buffer)\<rparr>)
   }"

definition cache_write_block :: "cache \<Rightarrow> block_sector_t \<Rightarrow> u8 list \<Rightarrow> cache option" where
  "cache_write_block c sector source_buffer = cache_write c sector source_buffer 0 BLOCK_SECTOR_SIZE"

definition cache_read :: "cache \<Rightarrow> block_sector_t \<Rightarrow> nat \<Rightarrow> nat \<Rightarrow> (u8 list \<times> cache) option" where
  "cache_read c sector sector_ofs sz = do {
     let idx = cache_lookup c sector;
     (idx, c) \<leftarrow> (if idx = -1 then do {
         (idx, c) \<leftarrow> cache_evict c;
         e \<leftarrow> aread (cache_table c) (nat idx);
         (data, dev) \<leftarrow> block_read (fs_device c) sector;
         c \<leftarrow> set_entry (c\<lparr>fs_device := dev\<rparr>) (nat idx)
                (e\<lparr>occupied := True, disk_sector := sector, dirty := False, cblock := data\<rparr>);
         Some (idx, c)
       } else Some (idx, c));
     e \<leftarrow> aread (cache_table c) (nat idx);
     c \<leftarrow> set_entry c (nat idx) (e\<lparr>accessed := True\<rparr>);
     ASSERT (sector_ofs + sz \<le> BLOCK_SECTOR_SIZE);
     Some (take sz (drop sector_ofs (cblock e)), c)
   }"

definition cache_read_block :: "cache \<Rightarrow> block_sector_t \<Rightarrow> (u8 list \<times> cache) option" where
  "cache_read_block c sector = cache_read c sector 0 BLOCK_SECTOR_SIZE"

section \<open>Invariant and abstraction\<close>

definition entry_ok :: "block \<Rightarrow> cache_table_entry \<Rightarrow> bool" where
  "entry_ok b e \<longleftrightarrow> sector_ok (cblock e) \<and>
     (occupied e \<longrightarrow> disk_sector e < blk_size b \<and>
        (dirty e \<or> cblock e = blk_data b ! unat (disk_sector e)))"

definition cache_wf :: "cache \<Rightarrow> bool" where
  "cache_wf c \<longleftrightarrow> length (cache_table c) = CACHE_SIZE \<and> block_wf (fs_device c) \<and>
     blk_type (fs_device c) \<noteq> BLOCK_FOREIGN \<and> 0 \<le> round_robin_idx c \<and>
     (\<forall>i < CACHE_SIZE. entry_ok (fs_device c) (cache_table c ! i)) \<and>
     (\<forall>i < CACHE_SIZE. \<forall>j < CACHE_SIZE. occupied (cache_table c ! i) \<and> occupied (cache_table c ! j) \<and>
        disk_sector (cache_table c ! i) = disk_sector (cache_table c ! j) \<longrightarrow> i = j)"

definition cview :: "cache \<Rightarrow> block_sector_t \<Rightarrow> sector_data" where
  "cview c s = (if cache_lookup c s = -1 then blk_data (fs_device c) ! unat s
                else cblock (cache_table c ! nat (cache_lookup c s)))"

definition cached :: "cache \<Rightarrow> block_sector_t \<Rightarrow> bool" where
  "cached c s \<longleftrightarrow> (\<exists>i < CACHE_SIZE. occupied (cache_table c ! i) \<and> disk_sector (cache_table c ! i) = s)"

abbreviation csize :: "cache \<Rightarrow> block_sector_t" where
  "csize c \<equiv> blk_size (fs_device c)"

lemma cache_lookup_hit:
  assumes "cache_wf c" and "i < CACHE_SIZE" and "occupied (cache_table c ! i)"
  shows "cache_lookup c (disk_sector (cache_table c ! i)) = int i"
proof -
  have "find_from (\<lambda>j. disk_sector (cache_table c ! j) = disk_sector (cache_table c ! i) \<and>
          occupied (cache_table c ! j)) 0 CACHE_SIZE = Some i"
    unfolding find_from_Some using assms by (auto simp: cache_wf_def) (metis less_trans nat_neq_iff)
  then show ?thesis by (simp add: cache_lookup_def)
qed

lemma cache_lookup_cases:
  obtains i where "i < CACHE_SIZE" "cache_lookup c s = int i" "occupied (cache_table c ! i)"
      "disk_sector (cache_table c ! i) = s"
  | "cache_lookup c s = -1" "\<And>i. i < CACHE_SIZE \<Longrightarrow> occupied (cache_table c ! i) \<Longrightarrow> disk_sector (cache_table c ! i) \<noteq> s"
  unfolding cache_lookup_def
  by (cases "find_from (\<lambda>i. disk_sector (cache_table c ! i) = s \<and> occupied (cache_table c ! i)) 0 CACHE_SIZE")
     (auto simp: find_from_None find_from_Some)

lemma cview_uncached: "\<not> cached c s \<Longrightarrow> cview c s = blk_data (fs_device c) ! unat s"
  by (rule cache_lookup_cases [of c s]) (auto simp: cached_def cview_def)

lemma cview_hit:
  assumes "cache_wf c" and "i < CACHE_SIZE" and "occupied (cache_table c ! i)"
    and "disk_sector (cache_table c ! i) = s"
  shows "cview c s = cblock (cache_table c ! i)"
  using cache_lookup_hit [OF assms(1-3)] assms(4) by (simp add: cview_def)

lemma cview_miss:
  assumes "\<And>i. i < CACHE_SIZE \<Longrightarrow> occupied (cache_table c ! i) \<Longrightarrow> disk_sector (cache_table c ! i) \<noteq> s"
  shows "cview c s = blk_data (fs_device c) ! unat s"
  using cache_lookup_cases [of c s] assms by (auto simp: cview_def)

section \<open>Replacing one entry\<close>

text \<open>The step all operations share: entry \<open>i\<close> is written back where needed and then holds \<open>s\<close>.\<close>

lemma cache_install:
  assumes wf: "cache_wf c" and i: "i < CACHE_SIZE" and s: "s < csize c"
    and others: "\<And>j. j < CACHE_SIZE \<Longrightarrow> j \<noteq> i \<Longrightarrow> occupied (cache_table c ! j) \<Longrightarrow> disk_sector (cache_table c ! j) \<noteq> s"
    and dev: "block_wf dev" "blk_size dev = csize c" "blk_type dev \<noteq> BLOCK_FOREIGN" "0 \<le> r"
    and keep: "\<And>t. t < csize c \<Longrightarrow> \<not> (occupied (cache_table c ! i) \<and> disk_sector (cache_table c ! i) = t) \<Longrightarrow>
        blk_data dev ! unat t = blk_data (fs_device c) ! unat t"
    and flushed: "occupied (cache_table c ! i) \<Longrightarrow> disk_sector (cache_table c ! i) \<noteq> s \<Longrightarrow>
        blk_data dev ! unat (disk_sector (cache_table c ! i)) = cblock (cache_table c ! i)"
    and e: "occupied e" "disk_sector e = s" "sector_ok (cblock e)"
      "dirty e \<or> cblock e = blk_data dev ! unat s"
  defines "c' \<equiv> c\<lparr>fs_device := dev, cache_table := (cache_table c)[i := e], round_robin_idx := r\<rparr>"
  shows "cache_wf c'" and "\<And>t. t < csize c \<Longrightarrow> cview c' t = (if t = s then cblock e else cview c t)"
proof -
  have len: "length (cache_table c) = CACHE_SIZE" using wf by (simp add: cache_wf_def)
  have tab: "cache_table c' ! j = (if j = i then e else cache_table c ! j)" if "j < CACHE_SIZE" for j
    using that i len by (simp add: c'_def)
  have ents: "entry_ok dev (cache_table c ! j)" if "j < CACHE_SIZE" "j \<noteq> i" for j
  proof -
    have "entry_ok (fs_device c) (cache_table c ! j)" using wf that by (simp add: cache_wf_def)
    moreover have "\<not> (occupied (cache_table c ! i) \<and> disk_sector (cache_table c ! i) = disk_sector (cache_table c ! j))"
      if "occupied (cache_table c ! j)"
      using wf i that \<open>j < CACHE_SIZE\<close> \<open>j \<noteq> i\<close> unfolding cache_wf_def by metis
    ultimately show ?thesis using keep dev by (auto simp: entry_ok_def)
  qed
  have inj: "j = k" if "j < CACHE_SIZE" "k < CACHE_SIZE" "occupied (cache_table c' ! j)"
    "occupied (cache_table c' ! k)" "disk_sector (cache_table c' ! j) = disk_sector (cache_table c' ! k)" for j k
    using that tab others e(2) wf unfolding cache_wf_def by (metis (full_types))
  have "entry_ok dev e" using e s dev by (simp add: entry_ok_def)
  then have ents': "entry_ok dev (cache_table c' ! j)" if "j < CACHE_SIZE" for j
    using that ents tab by simp
  have fields: "fs_device c' = dev" "round_robin_idx c' = r" "length (cache_table c') = CACHE_SIZE"
    using len by (simp_all add: c'_def)
  show wf': "cache_wf c'"
    unfolding cache_wf_def fields using inj ents' dev by blast
  fix t assume t: "t < csize c"
  show "cview c' t = (if t = s then cblock e else cview c t)"
  proof (cases "t = s")
    case True
    then show ?thesis using cview_hit [OF wf' i] tab [OF i] e by simp
  next
    case False
    show ?thesis
    proof (cases rule: cache_lookup_cases [of c' t])
      case (1 j)
      then have "j \<noteq> i" using tab e False by auto
      then show ?thesis using 1 tab cview_hit [OF wf'] cview_hit [OF wf] False by simp
    next
      case 2
      have c't: "cview c' t = blk_data dev ! unat t" using cview_miss [OF 2(2)] by (simp add: c'_def)
      show ?thesis
      proof (cases "occupied (cache_table c ! i) \<and> disk_sector (cache_table c ! i) = t")
        case True
        then show ?thesis using c't flushed False cview_hit [OF wf i] by auto
      next
        case notT: False
        have "occupied (cache_table c ! j) \<Longrightarrow> disk_sector (cache_table c ! j) \<noteq> t" if "j < CACHE_SIZE" for j
          using notT 2(2) [of j] tab [of j] that by (cases "j = i") auto
        then show ?thesis using c't keep [OF t notT] cview_miss [of c t] False by simp
      qed
    qed
  qed
qed

text \<open>What eviction leaves behind: a slot, and a device that has its old contents.\<close>

lemma cache_evict_cases:
  assumes wf: "cache_wf c" and r: "round_robin_idx c < INT_MAX"
  obtains i dev e r where
    "cache_evict c = Some (int i, c\<lparr>fs_device := dev, cache_table := (cache_table c)[i := e], round_robin_idx := r\<rparr>)"
    "i < CACHE_SIZE" "sector_ok (cblock e)" "block_wf dev" "blk_size dev = csize c" "blk_type dev \<noteq> BLOCK_FOREIGN"
    "round_robin_idx c \<le> r" "r \<le> round_robin_idx c + 1"
    "\<forall>t < csize c. \<not> (occupied (cache_table c ! i) \<and> disk_sector (cache_table c ! i) = t) \<longrightarrow>
        blk_data dev ! unat t = blk_data (fs_device c) ! unat t"
    "occupied (cache_table c ! i) \<longrightarrow>
        blk_data dev ! unat (disk_sector (cache_table c ! i)) = cblock (cache_table c ! i)"
proof (cases "find_from (\<lambda>i. \<not> occupied (cache_table c ! i)) 0 CACHE_SIZE")
  case (Some i)
  let ?e = "(cache_table c ! i)\<lparr>occupied := True\<rparr>"
  have i: "i < CACHE_SIZE" "\<not> occupied (cache_table c ! i)" using Some by (auto simp: find_from_Some)
  have ev: "cache_evict c = Some (int i, c\<lparr>fs_device := fs_device c, cache_table := (cache_table c)[i := ?e],
      round_robin_idx := round_robin_idx c\<rparr>)"
    using Some by (simp add: cache_evict_def cache_get_free_entry_def)
  have "sector_ok (cblock ?e)" using wf i by (simp add: cache_wf_def entry_ok_def)
  then show ?thesis by (rule that [OF ev i(1)]) (use i wf in \<open>auto simp: cache_wf_def\<close>)
next
  case None
  then have occ: "occupied (cache_table c ! j)" if "j < CACHE_SIZE" for j using that by (auto simp: find_from_None)
  define r' i where "r' = round_robin_idx c + 1" and "i = nat (r' mod int CACHE_SIZE)"
  define e where "e = cache_table c ! i"
  define dev where "dev = (if dirty e then (fs_device c)\<lparr>blk_data := (blk_data (fs_device c))[unat (disk_sector e) := cblock e],
      write_cnt := write_cnt (fs_device c) + 1\<rparr> else fs_device c)"
  have i: "i < CACHE_SIZE" "int i = r' mod int CACHE_SIZE" by (simp_all add: i_def CACHE_SIZE_def nat_less_iff)
  have len: "length (cache_table c) = CACHE_SIZE" using wf by (simp add: cache_wf_def)
  have eok: "entry_ok (fs_device c) e" "occupied e" using wf i occ by (auto simp: cache_wf_def e_def)
  have bw: "(if dirty e then block_write (fs_device c) (disk_sector e) (cblock e) else Some (fs_device c)) = Some dev"
    using eok wf by (simp add: dev_def block_write_eq entry_ok_def cache_wf_def)
  have ev: "cache_evict c = Some (int i, c\<lparr>fs_device := dev, cache_table := (cache_table c)[i := clear_entry e], round_robin_idx := r'\<rparr>)"
    using None r i len bw unfolding cache_evict_def cache_get_free_entry_def
    by (cases "dirty (cache_table c ! i)")
       (simp_all add: Let_def aread_def awrite_def set_entry_def e_def r'_def [symmetric] flip: i_def)
  have "block_wf dev" using wf eok by (simp add: dev_def block_wf_write cache_wf_def entry_ok_def)
  moreover have "unat (disk_sector e) < length (blk_data (fs_device c))"
    using wf eok by (simp add: cache_wf_def block_wf_def entry_ok_def word_less_nat_alt)
  ultimately show ?thesis
    by (intro that [OF ev i(1)])
       (use eok wf in \<open>auto simp: dev_def cache_wf_def clear_entry_def entry_ok_def r'_def nth_list_update
          simp flip: e_def dest: word_unat_eq_iff [THEN iffD2]\<close>)
qed

text \<open>\<open>good_slot c s i c1\<close>: in \<open>c1\<close>, entry \<open>i\<close> may be given any contents for sector \<open>s\<close>, and the rest of
  the disk stays as it was in \<open>c\<close>.\<close>

definition good_slot :: "cache \<Rightarrow> block_sector_t \<Rightarrow> nat \<Rightarrow> cache \<Rightarrow> bool" where
  "good_slot c s i c1 \<longleftrightarrow> i < length (cache_table c1) \<and>
     round_robin_idx c \<le> round_robin_idx c1 \<and> round_robin_idx c1 \<le> round_robin_idx c + 1 \<and> csize c1 = csize c \<and>
     (\<forall>j. j \<noteq> i \<longrightarrow> cache_table c1 ! j = cache_table c ! j) \<and>
     (\<forall>e. occupied e \<and> disk_sector e = s \<and> sector_ok (cblock e) \<and>
        (dirty e \<or> cblock e = blk_data (fs_device c1) ! unat s) \<longrightarrow>
        cache_wf (c1\<lparr>cache_table := (cache_table c1)[i := e]\<rparr>) \<and>
        (\<forall>t < csize c. cview (c1\<lparr>cache_table := (cache_table c1)[i := e]\<rparr>) t =
           (if t = s then cblock e else cview c t)))"

lemma cview_sector_ok:
  assumes "cache_wf c" and "s < csize c"
  shows "sector_ok (cview c s)"
proof (cases rule: cache_lookup_cases [of c s])
  case (1 i)
  then show ?thesis using assms cview_hit [OF assms(1)] by (auto simp: cache_wf_def entry_ok_def)
next
  case 2
  then show ?thesis using cview_miss [OF 2(2)] block_wf_nth assms by (simp add: cache_wf_def)
qed

lemma cache_hit:
  assumes wf: "cache_wf c" and s: "s < csize c" and i: "cache_lookup c s = int i"
  shows "good_slot c s i c" and "cache_table c ! i = e \<Longrightarrow> occupied e \<and> disk_sector e = s \<and>
    cblock e = cview c s \<and> (dirty e \<or> cblock e = blk_data (fs_device c) ! unat s)"
proof -
  from i have h: "i < CACHE_SIZE" "occupied (cache_table c ! i)" "disk_sector (cache_table c ! i) = s"
    by - (rule cache_lookup_cases [of c s]; auto)+
  have oth: "disk_sector (cache_table c ! j) \<noteq> s"
    if "j < CACHE_SIZE" "j \<noteq> i" "occupied (cache_table c ! j)" for j
    using that h wf unfolding cache_wf_def by metis
  have wf': "block_wf (fs_device c)" "blk_type (fs_device c) \<noteq> BLOCK_FOREIGN" "0 \<le> round_robin_idx c"
    "i < length (cache_table c)"
    using wf h by (simp_all add: cache_wf_def)
  show "good_slot c s i c"
    unfolding good_slot_def
    using cache_install [OF wf h(1) s oth wf'(1) refl wf'(2,3)] h wf'(4) by simp
  show "cache_table c ! i = e \<Longrightarrow> occupied e \<and> disk_sector e = s \<and> cblock e = cview c s \<and>
      (dirty e \<or> cblock e = blk_data (fs_device c) ! unat s)"
    using h cview_hit [OF wf h] wf by (auto simp: cache_wf_def entry_ok_def)
qed

lemma cache_miss:
  assumes wf: "cache_wf c" and s: "s < csize c" and r: "round_robin_idx c < INT_MAX"
    and m: "cache_lookup c s = -1"
  obtains i c1 e dev where "cache_evict c = Some (int i, c1)" "cache_table c1 ! i = e"
    "sector_ok (cblock e)" "block_read (fs_device c1) s = Some (cview c s, dev)"
    "blk_data dev ! unat s = cview c s" "good_slot c s i (c1\<lparr>fs_device := dev\<rparr>)"
proof -
  have notin: "disk_sector (cache_table c ! j) \<noteq> s" if "j < CACHE_SIZE" "occupied (cache_table c ! j)" for j
    using that m by - (rule cache_lookup_cases [of c s]; auto)
  obtain i dev e r' where ev:
    "cache_evict c = Some (int i, c\<lparr>fs_device := dev, cache_table := (cache_table c)[i := e], round_robin_idx := r'\<rparr>)"
    "i < CACHE_SIZE" "sector_ok (cblock e)" "block_wf dev" "blk_size dev = csize c" "blk_type dev \<noteq> BLOCK_FOREIGN"
    "round_robin_idx c \<le> r'" "r' \<le> round_robin_idx c + 1"
    "\<forall>t < csize c. \<not> (occupied (cache_table c ! i) \<and> disk_sector (cache_table c ! i) = t) \<longrightarrow>
        blk_data dev ! unat t = blk_data (fs_device c) ! unat t"
    "occupied (cache_table c ! i) \<longrightarrow> blk_data dev ! unat (disk_sector (cache_table c ! i)) = cblock (cache_table c ! i)"
    using cache_evict_cases [OF wf r] .
  define c1 where "c1 = c\<lparr>fs_device := dev, cache_table := (cache_table c)[i := e], round_robin_idx := r'\<rparr>"
  let ?dev = "dev\<lparr>read_cnt := read_cnt dev + 1\<rparr>"
  have len: "i < length (cache_table c)" and r0: "0 \<le> r'" using wf ev(2,7) by (simp_all add: cache_wf_def)
  have data: "blk_data dev ! unat s = cview c s"
    using ev(9) s notin [OF ev(2)] cview_miss [of c s] notin by auto
  have dev': "block_wf ?dev" "blk_size ?dev = csize c" "blk_type ?dev \<noteq> BLOCK_FOREIGN"
    using ev(4-6) by (simp_all add: block_wf_def)
  have ord: "c\<lparr>round_robin_idx := r', fs_device := d, cache_table := t\<rparr> =
      c\<lparr>fs_device := d, cache_table := t, round_robin_idx := r'\<rparr>" for d t
    by simp
  have gs: "good_slot c s i (c1\<lparr>fs_device := ?dev\<rparr>)"
    unfolding good_slot_def c1_def
    using cache_install [OF wf ev(2) s _ dev' r0] notin ev(5,7-10) len by (simp add: ord)
  show ?thesis
    by (rule that [of i c1 e ?dev]) (use ev s data len gs in \<open>simp_all add: c1_def block_read_eq\<close>)
qed

section \<open>Reading, writing, writing back\<close>

lemma good_slot_set:
  assumes "good_slot c s i c1" and "occupied e" "disk_sector e = s" "sector_ok (cblock e)"
    "dirty e \<or> cblock e = blk_data (fs_device c1) ! unat s"
  obtains c2 where "set_entry c1 i e = Some c2" "cache_wf c2" "csize c2 = csize c"
    "round_robin_idx c \<le> round_robin_idx c2" "round_robin_idx c2 \<le> round_robin_idx c + 1"
    "\<forall>t < csize c. cview c2 t = (if t = s then cblock e else cview c t)"
    "\<forall>t. t \<noteq> s \<longrightarrow> cached c2 t \<longrightarrow> cached c t"
proof -
  let ?c = "c1\<lparr>cache_table := (cache_table c1)[i := e]\<rparr>"
  have "\<forall>t. t \<noteq> s \<longrightarrow> cached ?c t \<longrightarrow> cached c t"
  proof (intro allI impI)
    fix t assume "t \<noteq> s" "cached ?c t"
    then obtain j where j: "j < CACHE_SIZE" "occupied ((cache_table c1)[i := e] ! j)"
      "disk_sector ((cache_table c1)[i := e] ! j) = t" by (auto simp: cached_def)
    then have "j \<noteq> i" using \<open>t \<noteq> s\<close> assms(1,3) by (auto simp: good_slot_def)
    with j assms(1) show "cached c t" by (auto simp: cached_def good_slot_def)
  qed
  with assms that [of ?c] show ?thesis unfolding good_slot_def by (auto simp: set_entry_def awrite_def)
qed

lemma cache_write_ok:
  assumes wf: "cache_wf c" and s: "s < csize c" and r: "round_robin_idx c < INT_MAX"
    and b: "ofs + sz \<le> BLOCK_SECTOR_SIZE" "sz \<le> length src"
  obtains c' where "cache_write c s src ofs sz = Some c'" "cache_wf c'" "csize c' = csize c"
    "round_robin_idx c \<le> round_robin_idx c'" "round_robin_idx c' \<le> round_robin_idx c + 1"
    "\<forall>t < csize c. cview c' t =
       (if t = s then overwrite (cview c s) ofs (take sz src) else cview c t)"
    "\<forall>t. t \<noteq> s \<longrightarrow> cached c' t \<longrightarrow> cached c t"
proof -
  have upd: "sector_ok (overwrite (cview c s) ofs (take sz src))"
    using cview_sector_ok [OF wf s] b by (simp add: sector_ok_def)
  show ?thesis
  proof (cases rule: cache_lookup_cases [of c s])
    case (1 i)
    let ?e = "cache_table c ! i"
    note hit = cache_hit [OF wf s 1(2)]
    obtain c2 where c2: "set_entry c i (?e\<lparr>accessed := True, dirty := True,
        cblock := overwrite (cblock ?e) ofs (take sz src)\<rparr>) = Some c2" "cache_wf c2" "csize c2 = csize c"
      "round_robin_idx c \<le> round_robin_idx c2" "round_robin_idx c2 \<le> round_robin_idx c + 1"
      "\<forall>t < csize c. cview c2 t = (if t = s then overwrite (cview c s) ofs (take sz src) else cview c t)"
      "\<forall>t. t \<noteq> s \<longrightarrow> cached c2 t \<longrightarrow> cached c t"
      using hit(2) [OF refl] upd
      by - (rule good_slot_set [OF hit(1), of "?e\<lparr>accessed := True, dirty := True,
          cblock := overwrite (cblock ?e) ofs (take sz src)\<rparr>"]; simp)
    moreover have "i < length (cache_table c)" using hit(1) by (simp add: good_slot_def)
    ultimately show ?thesis using that 1(2) b by (auto simp: cache_write_def aread_def)
  next
    case 2
    obtain i c1 e dev where m: "cache_evict c = Some (int i, c1)" "cache_table c1 ! i = e"
      "sector_ok (cblock e)" "block_read (fs_device c1) s = Some (cview c s, dev)"
      "blk_data dev ! unat s = cview c s" "good_slot c s i (c1\<lparr>fs_device := dev\<rparr>)"
      using cache_miss [OF wf s r 2(1)] .
    let ?e = "e\<lparr>occupied := True, disk_sector := s, cblock := cview c s\<rparr>"
    obtain c2 where c2: "set_entry (c1\<lparr>fs_device := dev\<rparr>) i (?e\<lparr>accessed := True, dirty := True,
        cblock := overwrite (cview c s) ofs (take sz src)\<rparr>) = Some c2" "cache_wf c2" "csize c2 = csize c"
      "round_robin_idx c \<le> round_robin_idx c2" "round_robin_idx c2 \<le> round_robin_idx c + 1"
      "\<forall>t < csize c. cview c2 t = (if t = s then overwrite (cview c s) ofs (take sz src) else cview c t)"
      "\<forall>t. t \<noteq> s \<longrightarrow> cached c2 t \<longrightarrow> cached c t"
      using upd by - (rule good_slot_set [OF m(6), of "?e\<lparr>accessed := True, dirty := True,
          cblock := overwrite (cview c s) ofs (take sz src)\<rparr>"]; simp)
    have "i < length (cache_table c1)" using m(6) by (simp add: good_slot_def)
    then have "cache_write c s src ofs sz = Some c2"
      using m c2(1) 2(1) b by (simp add: cache_write_def aread_def awrite_def set_entry_def)
    then show ?thesis using that c2 by blast
  qed
qed

lemma cache_read_ok:
  assumes wf: "cache_wf c" and s: "s < csize c" and r: "round_robin_idx c < INT_MAX"
    and b: "ofs + sz \<le> BLOCK_SECTOR_SIZE"
  obtains c' where "cache_read c s ofs sz = Some (take sz (drop ofs (cview c s)), c')" "cache_wf c'"
    "csize c' = csize c" "round_robin_idx c \<le> round_robin_idx c'" "round_robin_idx c' \<le> round_robin_idx c + 1"
    "\<forall>t < csize c. cview c' t = cview c t" "\<forall>t. t \<noteq> s \<longrightarrow> cached c' t \<longrightarrow> cached c t"
proof -
  note vok = cview_sector_ok [OF wf s]
  show ?thesis
  proof (cases rule: cache_lookup_cases [of c s])
    case (1 i)
    let ?e = "cache_table c ! i"
    note hit = cache_hit [OF wf s 1(2)]
    obtain c2 where c2: "set_entry c i (?e\<lparr>accessed := True\<rparr>) = Some c2" "cache_wf c2" "csize c2 = csize c"
      "round_robin_idx c \<le> round_robin_idx c2" "round_robin_idx c2 \<le> round_robin_idx c + 1"
      "\<forall>t < csize c. cview c2 t = cview c t" "\<forall>t. t \<noteq> s \<longrightarrow> cached c2 t \<longrightarrow> cached c t"
      using hit(2) [OF refl] vok by - (rule good_slot_set [OF hit(1), of "?e\<lparr>accessed := True\<rparr>"]; auto)
    moreover have "i < length (cache_table c)" using hit(1) by (simp add: good_slot_def)
    ultimately show ?thesis using that 1(2) b hit(2) [OF refl] by (auto simp: cache_read_def aread_def)
  next
    case 2
    obtain i c1 e dev where m: "cache_evict c = Some (int i, c1)" "cache_table c1 ! i = e"
      "sector_ok (cblock e)" "block_read (fs_device c1) s = Some (cview c s, dev)"
      "blk_data dev ! unat s = cview c s" "good_slot c s i (c1\<lparr>fs_device := dev\<rparr>)"
      using cache_miss [OF wf s r 2(1)] .
    let ?e = "e\<lparr>occupied := True, disk_sector := s, dirty := False, cblock := cview c s, accessed := True\<rparr>"
    obtain c2 where c2: "set_entry (c1\<lparr>fs_device := dev\<rparr>) i ?e = Some c2" "cache_wf c2" "csize c2 = csize c"
      "round_robin_idx c \<le> round_robin_idx c2" "round_robin_idx c2 \<le> round_robin_idx c + 1"
      "\<forall>t < csize c. cview c2 t = cview c t" "\<forall>t. t \<noteq> s \<longrightarrow> cached c2 t \<longrightarrow> cached c t"
      using vok m(5) by - (rule good_slot_set [OF m(6), of ?e]; simp)
    have "i < length (cache_table c1)" using m(6) by (simp add: good_slot_def)
    then have "cache_read c s ofs sz = Some (take sz (drop ofs (cview c s)), c2)"
      using m c2(1) 2(1) b by (simp add: cache_read_def aread_def awrite_def set_entry_def)
    then show ?thesis using that c2 by blast
  qed
qed

lemma cache_flush_entry:
  assumes wf: "cache_wf c" and i: "i < CACHE_SIZE" and e: "e = cache_table c ! i" "occupied e" "dirty e"
  obtains dev c1 where "block_write (fs_device c) (disk_sector e) (cblock e) = Some dev"
    "set_entry (c\<lparr>fs_device := dev\<rparr>) i (e\<lparr>dirty := False\<rparr>) = Some c1" "cache_wf c1" "csize c1 = csize c"
    "round_robin_idx c1 = round_robin_idx c" "\<forall>t < csize c. cview c1 t = cview c t"
    "cache_table c1 = (cache_table c)[i := e\<lparr>dirty := False\<rparr>]"
proof -
  let ?s = "disk_sector e"
  let ?dev = "(fs_device c)\<lparr>blk_data := (blk_data (fs_device c))[unat ?s := cblock e],
      write_cnt := write_cnt (fs_device c) + 1\<rparr>"
  have w: "length (cache_table c) = CACHE_SIZE" "block_wf (fs_device c)" "blk_type (fs_device c) \<noteq> BLOCK_FOREIGN"
    "0 \<le> round_robin_idx c" "sector_ok (cblock e)" "?s < csize c"
    using wf i e by (auto simp: cache_wf_def entry_ok_def)
  have bw: "block_write (fs_device c) ?s (cblock e) = Some ?dev" using w by (simp add: block_write_eq)
  have oth: "disk_sector (cache_table c ! j) \<noteq> ?s"
    if "j < CACHE_SIZE" "j \<noteq> i" "occupied (cache_table c ! j)" for j
    using that i e wf unfolding cache_wf_def by metis
  have dw: "block_wf ?dev" "blk_size ?dev = csize c" "blk_type ?dev \<noteq> BLOCK_FOREIGN"
    using w block_wf_write by simp_all
  have at_s: "blk_data ?dev ! unat ?s = cblock e"
    using w by (simp add: block_wf_def word_less_nat_alt)
  have keep: "blk_data ?dev ! unat t = blk_data (fs_device c) ! unat t"
    if "\<not> (occupied (cache_table c ! i) \<and> disk_sector (cache_table c ! i) = t)" for t
    using that e by (auto simp: word_unat_eq_iff)
  let ?c = "c\<lparr>fs_device := ?dev, cache_table := (cache_table c)[i := e\<lparr>dirty := False\<rparr>],
      round_robin_idx := round_robin_idx c\<rparr>"
  note inst = cache_install [OF wf i w(6) oth dw w(4) keep, of "e\<lparr>dirty := False\<rparr>"]
  have "cache_wf ?c" using e at_s w(5) by (intro inst) simp_all
  moreover have "\<forall>t < csize c. cview ?c t = cview c t"
    using e at_s w(5) inst(2) cview_hit [OF wf i] by auto
  ultimately show ?thesis
    by (intro that [OF bw, of ?c]) (simp_all add: set_entry_def awrite_def w i)
qed

lemma cache_clear_entry:
  assumes wf: "cache_wf c" and i: "i < CACHE_SIZE" and e: "e = cache_table c ! i" "\<not> (occupied e \<and> dirty e)"
  defines "c1 \<equiv> c\<lparr>cache_table := (cache_table c)[i := clear_entry e]\<rparr>"
  shows "cache_wf c1" and "cview c1 t = cview c t"
proof -
  have len: "length (cache_table c) = CACHE_SIZE" using wf by (simp add: cache_wf_def)
  have tab: "cache_table c1 ! j = (if j = i then clear_entry e else cache_table c ! j)" if "j < CACHE_SIZE" for j
    using that i len by (simp add: c1_def)
  have cl: "\<not> occupied (clear_entry e)" "cblock (clear_entry e) = cblock e" by (simp_all add: clear_entry_def)
  have fields: "fs_device c1 = fs_device c" "round_robin_idx c1 = round_robin_idx c" "length (cache_table c1) = CACHE_SIZE"
    using len by (simp_all add: c1_def)
  have "entry_ok (fs_device c) (cache_table c1 ! j)" if "j < CACHE_SIZE" for j
    using wf i e tab [OF that] cl that by (auto simp: cache_wf_def entry_ok_def)
  moreover have "j = k" if "j < CACHE_SIZE" "k < CACHE_SIZE" "occupied (cache_table c1 ! j)"
    "occupied (cache_table c1 ! k)" "disk_sector (cache_table c1 ! j) = disk_sector (cache_table c1 ! k)" for j k
    using wf that tab cl unfolding cache_wf_def by (metis (full_types))
  ultimately show wf1: "cache_wf c1" using wf fields unfolding cache_wf_def by metis
  show "cview c1 t = cview c t"
  proof (cases rule: cache_lookup_cases [of c1 t])
    case (1 j)
    then have "j \<noteq> i" using tab cl by auto
    then show ?thesis using 1 tab cview_hit [OF wf1] cview_hit [OF wf] by simp
  next
    case 2
    have c1t: "cview c1 t = blk_data (fs_device c) ! unat t" using cview_miss [OF 2(2)] fields by simp
    show ?thesis
    proof (cases "occupied e \<and> disk_sector e = t")
      case True
      then show ?thesis using c1t cview_hit [OF wf i] e wf i by (auto simp: cache_wf_def entry_ok_def)
    next
      case False
      have "occupied (cache_table c ! j) \<Longrightarrow> disk_sector (cache_table c ! j) \<noteq> t" if "j < CACHE_SIZE" for j
        using False e 2(2) [of j] tab [of j] that by (cases "j = i") auto
      then show ?thesis using c1t cview_miss [of c t] by simp
    qed
  qed
qed

definition flushed :: "bool \<Rightarrow> cache_table_entry \<Rightarrow> bool" where
  "flushed b e \<longleftrightarrow> \<not> (occupied e \<and> dirty e) \<and> (b \<longrightarrow> \<not> occupied e)"

lemma cache_writeback_entry_ok:
  assumes wf: "cache_wf c" and i: "i < CACHE_SIZE"
  obtains c' where "cache_writeback_entry b i c = Some c'" "cache_wf c'" "csize c' = csize c"
    "round_robin_idx c' = round_robin_idx c" "\<forall>t < csize c. cview c' t = cview c t"
    "flushed b (cache_table c' ! i)" "\<forall>j. j \<noteq> i \<longrightarrow> cache_table c' ! j = cache_table c ! j"
proof -
  define e where "e = cache_table c ! i"
  have len: "i < length (cache_table c)" using wf i by (simp add: cache_wf_def)
  obtain c1 where c1: "(if occupied e \<and> dirty e then do {
              dev \<leftarrow> block_write (fs_device c) (disk_sector e) (cblock e);
              set_entry (c\<lparr>fs_device := dev\<rparr>) i (e\<lparr>dirty := False\<rparr>)
            } else Some c) = Some c1" "cache_wf c1" "csize c1 = csize c"
    "round_robin_idx c1 = round_robin_idx c" "\<forall>t < csize c. cview c1 t = cview c t"
    "cache_table c1 = (cache_table c)[i := (if occupied e \<and> dirty e then e\<lparr>dirty := False\<rparr> else e)]"
  proof (cases "occupied e \<and> dirty e")
    case True
    then obtain dev c1 where "block_write (fs_device c) (disk_sector e) (cblock e) = Some dev"
      "set_entry (c\<lparr>fs_device := dev\<rparr>) i (e\<lparr>dirty := False\<rparr>) = Some c1" "cache_wf c1" "csize c1 = csize c"
      "round_robin_idx c1 = round_robin_idx c" "\<forall>t < csize c. cview c1 t = cview c t"
      "cache_table c1 = (cache_table c)[i := e\<lparr>dirty := False\<rparr>]"
      using cache_flush_entry [OF wf i e_def] by metis
    with True show ?thesis using that [of c1] by simp
  next
    case False
    moreover have "(cache_table c)[i := e] = cache_table c" by (simp add: e_def)
    ultimately show ?thesis by (intro that [of c]) (auto simp: wf)
  qed
  define e1 where "e1 = cache_table c1 ! i"
  have e1: "\<not> (occupied e1 \<and> dirty e1)" using c1(6) len by (auto simp: e1_def)
  have len1: "i < length (cache_table c1)" using len c1(6) by simp
  have step: "cache_writeback_entry b i c =
      Some (if b then c1\<lparr>cache_table := (cache_table c1)[i := clear_entry e1]\<rparr> else c1)"
    using c1(1) len len1 unfolding cache_writeback_entry_def
    by (simp add: aread_def set_entry_def awrite_def flip: e_def e1_def)
  note clr = cache_clear_entry [OF c1(2) i e1_def e1]
  show ?thesis
    by (rule that [OF step]; cases b)
       (use c1 clr e1 len1 in \<open>auto simp: flushed_def clear_entry_def simp flip: e1_def\<close>)
qed

lemma cache_writeback_loop_ok:
  assumes "cache_wf c" and "set is \<subseteq> {..<CACHE_SIZE}"
  shows "\<exists>c'. cache_writeback_loop b is c = Some c' \<and> cache_wf c' \<and> csize c' = csize c \<and>
    round_robin_idx c' = round_robin_idx c \<and> (\<forall>t < csize c. cview c' t = cview c t) \<and>
    (\<forall>j < CACHE_SIZE. j \<in> set is \<or> flushed b (cache_table c ! j) \<longrightarrow> flushed b (cache_table c' ! j))"
  using assms
proof (induction "is" arbitrary: c)
  case (Cons i "is")
  obtain c1 where c1: "cache_writeback_entry b i c = Some c1" "cache_wf c1" "csize c1 = csize c"
    "round_robin_idx c1 = round_robin_idx c" "\<forall>t < csize c. cview c1 t = cview c t"
    "flushed b (cache_table c1 ! i)" "\<forall>j. j \<noteq> i \<longrightarrow> cache_table c1 ! j = cache_table c ! j"
    using cache_writeback_entry_ok [OF Cons.prems(1), of i b] Cons.prems(2) by auto
  obtain c' where c': "cache_writeback_loop b is c1 = Some c'" "cache_wf c'" "csize c' = csize c1"
    "round_robin_idx c' = round_robin_idx c1" "\<forall>t < csize c1. cview c' t = cview c1 t"
    "\<forall>j < CACHE_SIZE. j \<in> set is \<or> flushed b (cache_table c1 ! j) \<longrightarrow> flushed b (cache_table c' ! j)"
    using Cons.IH [OF c1(2)] Cons.prems(2) by auto
  have "flushed b (cache_table c' ! j)"
    if "j < CACHE_SIZE" "j \<in> set (i # is) \<or> flushed b (cache_table c ! j)" for j
    using that c1(6,7) c'(6) by (cases "j = i") auto
  with c1 c' show ?case by auto
qed simp

lemma cache_writeback_ok:
  assumes "cache_wf c"
  obtains c' where "cache_writeback b c = Some c'" "cache_wf c'" "csize c' = csize c"
    "round_robin_idx c' = round_robin_idx c" "\<forall>t < csize c. cview c' t = cview c t"
    "\<forall>j < CACHE_SIZE. flushed b (cache_table c' ! j)"
  using cache_writeback_loop_ok [OF assms, of "[0..<CACHE_SIZE]" b] that
  by (auto simp: cache_writeback_def lessThan_atLeast0)

section \<open>The disk interface\<close>

text \<open>What the file system does with the cache: a sequence of reads, writes and write-backs.\<close>

datatype disk_op =
  Op_read block_sector_t nat nat
| Op_write block_sector_t "u8 list" nat
| Op_writeback bool

primrec op_valid :: "block_sector_t \<Rightarrow> disk_op \<Rightarrow> bool" where
  "op_valid n (Op_read s ofs sz) \<longleftrightarrow> s < n \<and> ofs + sz \<le> BLOCK_SECTOR_SIZE"
| "op_valid n (Op_write s src ofs) \<longleftrightarrow> s < n \<and> ofs + length src \<le> BLOCK_SECTOR_SIZE"
| "op_valid n (Op_writeback b) \<longleftrightarrow> True"

text \<open>The operations on an ideal disk.\<close>

primrec disk_step :: "disk_op \<Rightarrow> (block_sector_t \<Rightarrow> sector_data) \<Rightarrow> u8 list \<times> (block_sector_t \<Rightarrow> sector_data)" where
  "disk_step (Op_read s ofs sz) d = (take sz (drop ofs (d s)), d)"
| "disk_step (Op_write s src ofs) d = ([], d(s := overwrite (d s) ofs src))"
| "disk_step (Op_writeback b) d = ([], d)"

fun disk_run :: "disk_op list \<Rightarrow> (block_sector_t \<Rightarrow> sector_data) \<Rightarrow> u8 list list \<times> (block_sector_t \<Rightarrow> sector_data)" where
  "disk_run [] d = ([], d)"
| "disk_run (p # ps) d =
     (let (out, d1) = disk_step p d; (outs, d2) = disk_run ps d1 in (out # outs, d2))"

fun run_ops :: "(disk_op \<Rightarrow> 'c \<Rightarrow> (u8 list \<times> 'c) option) \<Rightarrow> disk_op list \<Rightarrow> 'c \<Rightarrow> (u8 list list \<times> 'c) option" where
  "run_ops step [] c = Some ([], c)"
| "run_ops step (p # ps) c = do { (out, c1) \<leftarrow> step p c; (outs, c2) \<leftarrow> run_ops step ps c1; Some (out # outs, c2) }"

text \<open>\<open>ready n c\<close>: the store is good for \<open>n\<close> more operations.\<close>

locale sector_store =
  fixes step :: "disk_op \<Rightarrow> 'c \<Rightarrow> (u8 list \<times> 'c) option"
    and ready :: "nat \<Rightarrow> 'c \<Rightarrow> bool"
    and sectors :: "'c \<Rightarrow> block_sector_t"
    and view :: "'c \<Rightarrow> block_sector_t \<Rightarrow> sector_data"
  assumes step_ok: "ready (Suc n) c \<Longrightarrow> op_valid (sectors c) p \<Longrightarrow>
    \<exists>c'. step p c = Some (fst (disk_step p (view c)), c') \<and> ready n c' \<and> sectors c' = sectors c \<and>
      (\<forall>t < sectors c. view c' t = snd (disk_step p (view c)) t)"
begin

lemma disk_step_cong:
  "op_valid n p \<Longrightarrow> (\<And>t. t < n \<Longrightarrow> d t = d' t) \<Longrightarrow>
   fst (disk_step p d) = fst (disk_step p d') \<and> (\<forall>t < n. snd (disk_step p d) t = snd (disk_step p d') t)"
  by (cases p) auto

lemma disk_run_cong:
  "list_all (op_valid n) ps \<Longrightarrow> (\<And>t. t < n \<Longrightarrow> d t = d' t) \<Longrightarrow>
   fst (disk_run ps d) = fst (disk_run ps d') \<and> (\<forall>t < n. snd (disk_run ps d) t = snd (disk_run ps d') t)"
proof (induction ps arbitrary: d d')
  case (Cons p ps)
  obtain out d1 out' d1' where st: "disk_step p d = (out, d1)" "disk_step p d' = (out', d1')" by fastforce
  with disk_step_cong [of n p d d'] Cons.prems have "out = out'" "\<And>t. t < n \<Longrightarrow> d1 t = d1' t" by auto
  with Cons.IH [of d1 d1'] Cons.prems(1) st show ?case by (auto simp: split_beta)
qed simp

lemma run_refines:
  "ready (length ps) c \<Longrightarrow> list_all (op_valid (sectors c)) ps \<Longrightarrow>
   \<exists>c'. run_ops step ps c = Some (fst (disk_run ps (view c)), c') \<and> ready 0 c' \<and> sectors c' = sectors c \<and>
     (\<forall>t < sectors c. view c' t = snd (disk_run ps (view c)) t)"
proof (induction ps arbitrary: c)
  case (Cons p ps)
  obtain out d1 where st: "disk_step p (view c) = (out, d1)" by fastforce
  obtain c1 where c1: "step p c = Some (out, c1)" "ready (length ps) c1" "sectors c1 = sectors c"
    "\<And>t. t < sectors c \<Longrightarrow> view c1 t = d1 t"
    using step_ok [of "length ps" c p] Cons.prems st by auto
  obtain c' where c': "run_ops step ps c1 = Some (fst (disk_run ps (view c1)), c')" "ready 0 c'"
    "sectors c' = sectors c1" "\<forall>t < sectors c1. view c' t = snd (disk_run ps (view c1)) t"
    using Cons.IH [OF c1(2)] Cons.prems(2) c1(3) by auto
  have "fst (disk_run ps (view c1)) = fst (disk_run ps d1)"
    "\<forall>t < sectors c. snd (disk_run ps (view c1)) t = snd (disk_run ps d1) t"
    using disk_run_cong [of "sectors c" ps "view c1" d1] Cons.prems(2) c1(4) by auto
  with c1 c' st show ?case by (auto simp: split_beta)
qed simp

end

primrec cache_step :: "disk_op \<Rightarrow> cache \<Rightarrow> (u8 list \<times> cache) option" where
  "cache_step (Op_read s ofs sz) c = cache_read c s ofs sz"
| "cache_step (Op_write s src ofs) c = do { c' \<leftarrow> cache_write c s src ofs (length src); Some ([], c') }"
| "cache_step (Op_writeback b) c = do { c' \<leftarrow> cache_writeback b c; Some ([], c') }"

definition cache_ready :: "nat \<Rightarrow> cache \<Rightarrow> bool" where
  "cache_ready n c \<longleftrightarrow> cache_wf c \<and> round_robin_idx c + int n \<le> INT_MAX"

interpretation cs: sector_store cache_step cache_ready csize cview
proof
  fix n c p assume r: "cache_ready (Suc n) c" and v: "op_valid (csize c) p"
  have wf: "cache_wf c" and lt: "round_robin_idx c < INT_MAX" using r by (auto simp: cache_ready_def)
  show "\<exists>c'. cache_step p c = Some (fst (disk_step p (cview c)), c') \<and> cache_ready n c' \<and>
    csize c' = csize c \<and> (\<forall>t < csize c. cview c' t = snd (disk_step p (cview c)) t)"
  proof (cases p)
    case (Op_read s ofs sz)
    with v have "s < csize c" "ofs + sz \<le> BLOCK_SECTOR_SIZE" by auto
    from cache_read_ok [OF wf this(1) lt this(2)] Op_read r show ?thesis by (fastforce simp: cache_ready_def)
  next
    case (Op_write s src ofs)
    with v have "s < csize c" "ofs + length src \<le> BLOCK_SECTOR_SIZE" by auto
    from cache_write_ok [OF wf this(1) lt this(2) order_refl] Op_write r show ?thesis
      by (fastforce simp: cache_ready_def)
  next
    case (Op_writeback b)
    from cache_writeback_ok [OF wf, of b] Op_writeback r show ?thesis by (fastforce simp: cache_ready_def)
  qed
qed

section \<open>Properties\<close>

text \<open>A one-sector device behind an empty cache.\<close>

definition ex_cache :: cache where
  "ex_cache = \<lparr>fs_device = \<lparr>blk_name = ''hdb'', blk_type = BLOCK_FILESYS, blk_size = 1,
     blk_data = [replicate BLOCK_SECTOR_SIZE 0], read_cnt = 0, write_cnt = 0\<rparr>,
     cache_table = replicate CACHE_SIZE \<lparr>occupied = False, open_cnt = 0, accessed = False, dirty = False,
       cblock = replicate BLOCK_SECTOR_SIZE 0, disk_sector = 0\<rparr>, round_robin_idx = 0\<rparr>"

lemma ex_cache_wf: "cache_wf ex_cache"
  by (simp add: cache_wf_def ex_cache_def entry_ok_def block_wf_def sector_ok_def)

lemma cache_init_wf:
  "length (cache_table c) = CACHE_SIZE \<Longrightarrow> \<forall>e \<in> set (cache_table c). sector_ok (cblock e) \<Longrightarrow>
   block_wf (fs_device c) \<Longrightarrow> blk_type (fs_device c) \<noteq> BLOCK_FOREIGN \<Longrightarrow> 0 \<le> round_robin_idx c \<Longrightarrow>
   cache_wf (cache_init c)"
  by (auto simp: cache_init_def cache_wf_def entry_ok_def clear_entry_def)

text \<open>C2. The buffer cache is a disk: any sequence of reads, writes and write-backs within the sectors
  and within a sector's 512 bytes succeeds, every read returns the bytes last written there, and what
  the cache then shows of every sector is what an ideal disk would hold, whatever was evicted on the
  way, provided fewer than 2^31 evictions happen.\<close>

theorem cache_refines_disk:
  assumes "cache_wf c" and "round_robin_idx c + int (length ps) \<le> INT_MAX"
    and "list_all (op_valid (csize c)) ps"
  shows "\<exists>c'. run_ops cache_step ps c = Some (fst (disk_run ps (cview c)), c') \<and> cache_wf c' \<and>
    csize c' = csize c \<and> (\<forall>t < csize c. cview c' t = snd (disk_run ps (cview c)) t)"
  using cs.run_refines [of ps c] assms by (auto simp: cache_ready_def)

theorem cache_refines_disk_witness:
  "\<exists>c'. run_ops cache_step [Op_write 0 [7, 8] 3, Op_read 0 3 2] ex_cache = Some ([[], [7, 8]], c') \<and> cache_wf c'"
proof -
  let ?ps = "[Op_write 0 [7, 8] 3, Op_read 0 3 2]"
  have "cview ex_cache 0 = replicate BLOCK_SECTOR_SIZE 0"
    by (subst cview_miss) (simp_all add: ex_cache_def)
  then have "fst (disk_run ?ps (cview ex_cache)) = [[], [7, 8]]"
    by (simp add: BLOCK_SECTOR_SIZE_def overwrite_def numeral_eq_Suc)
  moreover have "\<exists>c'. run_ops cache_step ?ps ex_cache = Some (fst (disk_run ?ps (cview ex_cache)), c') \<and>
      cache_wf c' \<and> csize c' = csize ex_cache \<and>
      (\<forall>t < csize ex_cache. cview c' t = snd (disk_run ?ps (cview ex_cache)) t)"
    by (rule cache_refines_disk [OF ex_cache_wf]) (simp_all add: ex_cache_def INT_MAX_def BLOCK_SECTOR_SIZE_def)
  ultimately show ?thesis by auto
qed

text \<open>C16. Write-back makes the device current: after \<^verbatim>\<open>cache_writeback\<close> every sector on the device holds
  what the cache showed before, nothing the cache shows has changed and no entry is dirty; the last
  write-back also empties the cache.\<close>

theorem cache_writeback_durable:
  assumes "cache_wf c"
  shows "\<exists>c'. cache_writeback b c = Some c' \<and> cache_wf c' \<and>
    (\<forall>t < csize c. blk_data (fs_device c') ! unat t = cview c t \<and> cview c' t = cview c t) \<and>
    (\<forall>e \<in> set (cache_table c'). \<not> (occupied e \<and> dirty e) \<and> (b \<longrightarrow> \<not> occupied e))"
proof -
  obtain c' where c': "cache_writeback b c = Some c'" "cache_wf c'" "csize c' = csize c"
    "\<forall>t < csize c. cview c' t = cview c t" "\<forall>j < CACHE_SIZE. flushed b (cache_table c' ! j)"
    using cache_writeback_ok [OF assms, of b] by metis
  have "blk_data (fs_device c') ! unat t = cview c' t" for t
  proof (cases rule: cache_lookup_cases [of c' t])
    case (1 i)
    then show ?thesis using c'(2,5) cview_hit [OF c'(2)] by (auto simp: cache_wf_def entry_ok_def flushed_def)
  next
    case 2
    then show ?thesis using cview_miss [OF 2(2)] by simp
  qed
  moreover have "flushed b e" if "e \<in> set (cache_table c')" for e
    using that c'(2,5) by (auto simp: in_set_conv_nth cache_wf_def)
  ultimately show ?thesis using c' by (auto simp: flushed_def)
qed

theorem cache_writeback_durable_witness:
  "\<exists>c'. cache_writeback True ex_cache = Some c' \<and> cache_wf c' \<and>
    (\<forall>t < csize ex_cache. blk_data (fs_device c') ! unat t = cview ex_cache t \<and> cview c' t = cview ex_cache t) \<and>
    (\<forall>e \<in> set (cache_table c'). \<not> (occupied e \<and> dirty e) \<and> (True \<longrightarrow> \<not> occupied e))"
  using cache_writeback_durable [OF ex_cache_wf] .

end
