(* ===== verification/Bytes.thy ===== *)
theory Bytes
  imports Prelude
begin

text \<open>
  Little-endian images of 32-bit words, as the kernel lays structures out in a disk sector, in a
  file or in the page of a user program.
\<close>

unbundle bit_operations_syntax

definition u32_bytes :: "u32 \<Rightarrow> u8 list" where
  "u32_bytes w = [ucast w, ucast (drop_bit 8 w), ucast (drop_bit 16 w), ucast (drop_bit 24 w)]"

definition bytes_u32 :: "u8 list \<Rightarrow> u32" where
  "bytes_u32 bs = ucast (bs ! 0) OR push_bit 8 (ucast (bs ! 1)) OR push_bit 16 (ucast (bs ! 2)) OR
     push_bit 24 (ucast (bs ! 3))"

lemma length_u32_bytes [simp]: "length (u32_bytes w) = 4"
  by (simp add: u32_bytes_def)

lemma bytes_u32_bytes [simp]: "bytes_u32 (u32_bytes w) = w"
proof (rule bit_word_eqI)
  fix n assume n: "n < LENGTH(32)"
  then show "bit (bytes_u32 (u32_bytes w)) n = bit w n"
    by (cases "n < 8"; cases "n < 16"; cases "n < 24") (auto simp: bytes_u32_def u32_bytes_def bit_simps)
qed

lemma u32_bytes_bytes:
  assumes "length bs = 4"
  shows "u32_bytes (bytes_u32 bs) = bs"
proof -
  obtain a b c d where bs: "bs = [a, b, c, d]"
    using assms by (auto simp: numeral_eq_Suc length_Suc_conv)
  have "ucast (bytes_u32 bs) = a" "ucast (drop_bit 8 (bytes_u32 bs)) = b"
    "ucast (drop_bit 16 (bytes_u32 bs)) = c" "ucast (drop_bit 24 (bytes_u32 bs)) = d"
    unfolding bs by (rule bit_word_eqI; auto simp: bytes_u32_def bit_simps dest: bit_imp_le_length)+
  then show ?thesis by (simp add: u32_bytes_def bs)
qed

text \<open>Arrays of words.\<close>

fun enc_words :: "u32 list \<Rightarrow> u8 list" where
  "enc_words [] = []"
| "enc_words (w # ws) = u32_bytes w @ enc_words ws"

primrec dec_words :: "nat \<Rightarrow> u8 list \<Rightarrow> u32 list" where
  "dec_words 0 bs = []"
| "dec_words (Suc n) bs = bytes_u32 (take 4 bs) # dec_words n (drop 4 bs)"

lemma length_enc_words [simp]: "length (enc_words ws) = 4 * length ws"
  by (induction ws) auto

lemma length_dec_words [simp]: "length (dec_words n bs) = n"
  by (induction n arbitrary: bs) auto

lemma dec_enc_words: "dec_words (length ws) (enc_words ws @ bs) = ws"
  by (induction ws) auto

lemma dec_enc_words' [simp]: "dec_words (length ws) (enc_words ws) = ws"
  using dec_enc_words [of ws "[]"] by simp

lemma enc_dec_words: "length bs = 4 * n \<Longrightarrow> enc_words (dec_words n bs) = bs"
proof (induction n arbitrary: bs)
  case (Suc n)
  then show ?case using u32_bytes_bytes [of "take 4 bs"] by simp
qed simp

lemma dec_words_nth: "i < n \<Longrightarrow> dec_words n bs ! i = bytes_u32 (take 4 (drop (4 * i) bs))"
proof (induction n arbitrary: bs i)
  case (Suc n)
  then show ?case by (cases i) (simp_all add: add.commute)
qed simp

text \<open>32-bit signed integers (\<^verbatim>\<open>int\<close>, \<^verbatim>\<open>off_t\<close>).\<close>

definition int_u32 :: "int \<Rightarrow> u32" where
  "int_u32 i = word_of_int i"

definition u32_int :: "u32 \<Rightarrow> int" where
  "u32_int w = sint w"

definition in_int32 :: "int \<Rightarrow> bool" where
  "in_int32 i \<longleftrightarrow> -2147483648 \<le> i \<and> i < 2147483648"

lemma u32_int_u32: "in_int32 i \<Longrightarrow> u32_int (int_u32 i) = i"
  unfolding u32_int_def int_u32_def in_int32_def
  by (simp add: int_word_sint)

lemma int_u32_int [simp]: "int_u32 (u32_int w) = w"
  by (simp add: u32_int_def int_u32_def)

text \<open>A C \<^verbatim>\<open>bool\<close> in memory: one byte, any nonzero value reads as true.\<close>

definition bool_byte :: "bool \<Rightarrow> u8" where
  "bool_byte b = (if b then 1 else 0)"

definition byte_bool :: "u8 \<Rightarrow> bool" where
  "byte_bool w \<longleftrightarrow> w \<noteq> 0"

lemma byte_bool_byte [simp]: "byte_bool (bool_byte b) = b"
  by (simp add: byte_bool_def bool_byte_def)

end
