(* ===== verification/Bitmap.thy ===== *)
theory Bitmap
  imports Prelude
begin

text \<open>
  The bitmap of lib/kernel/bitmap.c, word by word: a record of the bit count and the array of
  32-bit elements (\<^verbatim>\<open>elem_type\<close> is \<^verbatim>\<open>unsigned long\<close>).  The abstraction \<open>bm_bits\<close> reads a
  bitmap as the list of its bits; every operation is shown to act on that list as its comment
  promises.  The page allocator and the free map of the file system are clients.
\<close>

unbundle bit_operations_syntax

section \<open>Representation\<close>

definition ELEM_BITS :: nat where
  "ELEM_BITS = 32"

record bitmap =
  bit_cnt :: nat
  bits :: "u32 list"

definition BITMAP_ERROR :: nat where
  "BITMAP_ERROR = SIZE_MAX"

definition elem_idx :: "nat \<Rightarrow> nat" where
  "elem_idx bit_idx = bit_idx div ELEM_BITS"

definition bit_mask :: "nat \<Rightarrow> u32" where
  "bit_mask bit_idx = push_bit (bit_idx mod ELEM_BITS) 1"

definition elem_cnt :: "nat \<Rightarrow> nat" where
  "elem_cnt n = wrap32 (n + ELEM_BITS - 1) div ELEM_BITS"

definition byte_cnt :: "nat \<Rightarrow> nat" where
  "byte_cnt n = 4 * elem_cnt n"

definition last_mask :: "bitmap \<Rightarrow> u32" where
  "last_mask b =
     (let last_bits = bit_cnt b mod ELEM_BITS
      in if last_bits \<noteq> 0 then push_bit last_bits 1 - 1 else - 1)"

definition bitmap_size :: "bitmap \<Rightarrow> nat" where
  "bitmap_size b = bit_cnt b"

section \<open>Single bits\<close>

definition bitmap_mark :: "bitmap \<Rightarrow> nat \<Rightarrow> bitmap option" where
  "bitmap_mark b bit_idx = do {
     let idx = elem_idx bit_idx;
     w \<leftarrow> aread (bits b) idx;
     ws \<leftarrow> awrite (bits b) idx (w OR bit_mask bit_idx);
     Some (b\<lparr>bits := ws\<rparr>)
   }"

definition bitmap_reset :: "bitmap \<Rightarrow> nat \<Rightarrow> bitmap option" where
  "bitmap_reset b bit_idx = do {
     let idx = elem_idx bit_idx;
     w \<leftarrow> aread (bits b) idx;
     ws \<leftarrow> awrite (bits b) idx (w AND NOT (bit_mask bit_idx));
     Some (b\<lparr>bits := ws\<rparr>)
   }"

definition bitmap_flip :: "bitmap \<Rightarrow> nat \<Rightarrow> bitmap option" where
  "bitmap_flip b bit_idx = do {
     let idx = elem_idx bit_idx;
     w \<leftarrow> aread (bits b) idx;
     ws \<leftarrow> awrite (bits b) idx (w XOR bit_mask bit_idx);
     Some (b\<lparr>bits := ws\<rparr>)
   }"

definition bitmap_set :: "bitmap \<Rightarrow> nat \<Rightarrow> bool \<Rightarrow> bitmap option" where
  "bitmap_set b idx value = do {
     ASSERT (idx < bit_cnt b);
     if value then bitmap_mark b idx else bitmap_reset b idx
   }"

definition bitmap_test :: "bitmap \<Rightarrow> nat \<Rightarrow> bool option" where
  "bitmap_test b idx = do {
     ASSERT (idx < bit_cnt b);
     w \<leftarrow> aread (bits b) (elem_idx idx);
     Some (w AND bit_mask idx \<noteq> 0)
   }"

section \<open>Groups of bits\<close>

text \<open>The loop of \<^verbatim>\<open>bitmap_set_multiple\<close>: bits \<open>i\<close>, \<open>i + 1\<close>, and so on, \<open>n\<close> of them.\<close>

fun bitmap_set_loop :: "bitmap \<Rightarrow> nat \<Rightarrow> nat \<Rightarrow> bool \<Rightarrow> bitmap option" where
  "bitmap_set_loop b i 0 value = Some b"
| "bitmap_set_loop b i (Suc n) value = do {
     b' \<leftarrow> bitmap_set b i value;
     bitmap_set_loop b' (i + 1) n value
   }"

definition bitmap_set_multiple :: "bitmap \<Rightarrow> nat \<Rightarrow> nat \<Rightarrow> bool \<Rightarrow> bitmap option" where
  "bitmap_set_multiple b start cnt value = do {
     ASSERT (start \<le> bit_cnt b);
     ASSERT (wrap32 (start + cnt) \<le> bit_cnt b);
     bitmap_set_loop b start cnt value
   }"

definition bitmap_set_all :: "bitmap \<Rightarrow> bool \<Rightarrow> bitmap option" where
  "bitmap_set_all b value = bitmap_set_multiple b 0 (bitmap_size b) value"

fun bitmap_count_loop :: "bitmap \<Rightarrow> nat \<Rightarrow> nat \<Rightarrow> bool \<Rightarrow> nat \<Rightarrow> nat option" where
  "bitmap_count_loop b i 0 value value_cnt = Some value_cnt"
| "bitmap_count_loop b i (Suc n) value value_cnt = do {
     t \<leftarrow> bitmap_test b i;
     bitmap_count_loop b (i + 1) n value (if t = value then value_cnt + 1 else value_cnt)
   }"

definition bitmap_count :: "bitmap \<Rightarrow> nat \<Rightarrow> nat \<Rightarrow> bool \<Rightarrow> nat option" where
  "bitmap_count b start cnt value = do {
     ASSERT (start \<le> bit_cnt b);
     ASSERT (wrap32 (start + cnt) \<le> bit_cnt b);
     bitmap_count_loop b start cnt value 0
   }"

fun bitmap_contains_loop :: "bitmap \<Rightarrow> nat \<Rightarrow> nat \<Rightarrow> bool \<Rightarrow> bool option" where
  "bitmap_contains_loop b i 0 value = Some False"
| "bitmap_contains_loop b i (Suc n) value = do {
     t \<leftarrow> bitmap_test b i;
     if t = value then Some True else bitmap_contains_loop b (i + 1) n value
   }"

definition bitmap_contains :: "bitmap \<Rightarrow> nat \<Rightarrow> nat \<Rightarrow> bool \<Rightarrow> bool option" where
  "bitmap_contains b start cnt value = do {
     ASSERT (start \<le> bit_cnt b);
     ASSERT (wrap32 (start + cnt) \<le> bit_cnt b);
     bitmap_contains_loop b start cnt value
   }"

definition bitmap_any :: "bitmap \<Rightarrow> nat \<Rightarrow> nat \<Rightarrow> bool option" where
  "bitmap_any b start cnt = bitmap_contains b start cnt True"

definition bitmap_none :: "bitmap \<Rightarrow> nat \<Rightarrow> nat \<Rightarrow> bool option" where
  "bitmap_none b start cnt = map_option Not (bitmap_contains b start cnt True)"

definition bitmap_all :: "bitmap \<Rightarrow> nat \<Rightarrow> nat \<Rightarrow> bool option" where
  "bitmap_all b start cnt = map_option Not (bitmap_contains b start cnt False)"

section \<open>Scanning\<close>

text \<open>The loop \<^verbatim>\<open>for (i = start; i <= last; i++)\<close>, from index \<open>i\<close> on.\<close>

function bitmap_scan_loop :: "bitmap \<Rightarrow> nat \<Rightarrow> nat \<Rightarrow> nat \<Rightarrow> bool \<Rightarrow> nat option" where
  "bitmap_scan_loop b i lst cnt value =
     (if i \<le> lst then do {
        c \<leftarrow> bitmap_contains b i cnt (\<not> value);
        if \<not> c then Some i else bitmap_scan_loop b (i + 1) lst cnt value
      } else Some BITMAP_ERROR)"
  by pat_completeness auto
termination
  by (relation "measure (\<lambda>(b, i, lst, cnt, value). Suc lst - i)") auto

definition bitmap_scan :: "bitmap \<Rightarrow> nat \<Rightarrow> nat \<Rightarrow> bool \<Rightarrow> nat option" where
  "bitmap_scan b start cnt value = do {
     ASSERT (start \<le> bit_cnt b);
     if cnt \<le> bit_cnt b then bitmap_scan_loop b start (bit_cnt b - cnt) cnt value
     else Some BITMAP_ERROR
   }"

definition bitmap_scan_and_flip ::
  "bitmap \<Rightarrow> nat \<Rightarrow> nat \<Rightarrow> bool \<Rightarrow> (nat \<times> bitmap) option" where
  "bitmap_scan_and_flip b start cnt value = do {
     idx \<leftarrow> bitmap_scan b start cnt value;
     if idx \<noteq> BITMAP_ERROR then do {
       b' \<leftarrow> bitmap_set_multiple b idx cnt (\<not> value);
       Some (idx, b')
     } else Some (idx, b)
   }"

section \<open>Creation\<close>

text \<open>
  \<^verbatim>\<open>bitmap_create\<close> makes two allocations.  \<open>hdr_ok\<close> says whether the first one succeeds and
  \<open>mem\<close> is the second one: \<open>None\<close> for a null pointer, otherwise the (uninitialised) contents
  of the new block.  The outer option is the panic, the inner one the null pointer.
\<close>

definition bitmap_create :: "bool \<Rightarrow> u32 list option \<Rightarrow> nat \<Rightarrow> bitmap option option" where
  "bitmap_create hdr_ok mem n =
     (if hdr_ok then
        (if mem \<noteq> None \<or> n = 0 then do {
           b \<leftarrow> bitmap_set_all \<lparr>bit_cnt = n, bits = (case mem of Some ws \<Rightarrow> ws | None \<Rightarrow> [])\<rparr> False;
           Some (Some b)
         } else Some None)
      else Some None)"

definition bitmap_buf_size :: "nat \<Rightarrow> nat" where
  "bitmap_buf_size n = 8 + byte_cnt n"

text \<open>\<open>block\<close> is the preallocated storage behind the eight-byte bitmap header.\<close>

definition bitmap_create_in_buf :: "nat \<Rightarrow> u32 list \<Rightarrow> nat \<Rightarrow> bitmap option" where
  "bitmap_create_in_buf n block block_size = do {
     ASSERT (block_size \<ge> bitmap_buf_size n);
     bitmap_set_all \<lparr>bit_cnt = n, bits = block\<rparr> False
   }"

declare bitmap_scan_loop.simps [simp del]

section \<open>The bitmap as a list of bits\<close>

definition bm_bits :: "bitmap \<Rightarrow> bool list" where
  "bm_bits b = map (\<lambda>i. bit (bits b ! elem_idx i) (i mod ELEM_BITS)) [0..<bit_cnt b]"

text \<open>The element array has the size computed by \<^verbatim>\<open>elem_cnt\<close>, which has not wrapped.\<close>

definition bitmap_wf :: "bitmap \<Rightarrow> bool" where
  "bitmap_wf b \<longleftrightarrow> bit_cnt b + 31 < 2 ^ 32 \<and> length (bits b) = elem_cnt (bit_cnt b)"

named_theorems bitmap_defs \<open>definitions of the bitmap's representation\<close>

lemmas [bitmap_defs] = ELEM_BITS_def elem_idx_def bit_mask_def elem_cnt_def bitmap_size_def

lemma length_bm_bits [simp]: "length (bm_bits b) = bit_cnt b"
  by (simp add: bm_bits_def)

lemma nth_bm_bits: "i < bit_cnt b \<Longrightarrow> bm_bits b ! i = bit (bits b ! elem_idx i) (i mod ELEM_BITS)"
  by (simp add: bm_bits_def)

lemma elem_idx_in: "bitmap_wf b \<Longrightarrow> i < bit_cnt b \<Longrightarrow> elem_idx i < length (bits b)"
  by (auto simp: bitmap_wf_def bitmap_defs)

lemma bit_masked:
  "(w AND bit_mask i \<noteq> 0) = bit w (i mod ELEM_BITS)" for w :: u32
  by (simp add: bit_mask_def push_bit_of_1 and_exp_eq_0_iff_not_bit)

lemma bitmap_test_eq:
  "bitmap_wf b \<Longrightarrow> i < bit_cnt b \<Longrightarrow> bitmap_test b i = Some (bm_bits b ! i)"
  by (simp add: bitmap_test_def elem_idx_in bit_masked nth_bm_bits)

text \<open>What one word update does to the list of bits.\<close>

lemma bm_bits_word_update:
  assumes "bitmap_wf b" and "i < bit_cnt b"
    and "\<And>k. k < ELEM_BITS \<Longrightarrow> bit w k = (if k = i mod ELEM_BITS then v else bit (bits b ! elem_idx i) k)"
  shows "bm_bits (b\<lparr>bits := (bits b)[elem_idx i := w]\<rparr>) = (bm_bits b)[i := v]"
proof (rule nth_equalityI)
  fix j assume "j < length (bm_bits (b\<lparr>bits := (bits b)[elem_idx i := w]\<rparr>))"
  then have j: "j < bit_cnt b" by simp
  have "j mod ELEM_BITS < ELEM_BITS" by (simp add: ELEM_BITS_def)
  moreover have "j = i" if "elem_idx j = elem_idx i" "j mod ELEM_BITS = i mod ELEM_BITS"
    using that by (metis elem_idx_def div_mult_mod_eq)
  ultimately show "bm_bits (b\<lparr>bits := (bits b)[elem_idx i := w]\<rparr>) ! j = (bm_bits b)[i := v] ! j"
    using assms j elem_idx_in [OF assms(1,2)]
    by (auto simp: nth_bm_bits nth_list_update)
qed simp

lemma bitmap_wf_word_update [simp]:
  "bitmap_wf b \<Longrightarrow> bitmap_wf (b\<lparr>bits := (bits b)[k := w]\<rparr>)"
  by (simp add: bitmap_wf_def)

lemma bit_bit_mask: "bit (bit_mask i) k \<longleftrightarrow> k = i mod ELEM_BITS"
  by (auto simp: bit_mask_def push_bit_of_1 bit_exp_iff ELEM_BITS_def)

lemma bitmap_set_eq:
  assumes "bitmap_wf b" and "i < bit_cnt b"
  obtains b' where "bitmap_set b i v = Some b'" "bitmap_wf b'" "bit_cnt b' = bit_cnt b"
    "bm_bits b' = (bm_bits b)[i := v]"
proof
  let ?w = "bits b ! elem_idx i"
  let ?w' = "if v then ?w OR bit_mask i else ?w AND NOT (bit_mask i)"
  let ?b' = "b\<lparr>bits := (bits b)[elem_idx i := ?w']\<rparr>"
  show "bitmap_set b i v = Some ?b'"
    using assms by (simp add: bitmap_set_def bitmap_mark_def bitmap_reset_def elem_idx_in Let_def)
  show "bitmap_wf ?b'" using assms by simp
  show "bit_cnt ?b' = bit_cnt b" by simp
  show "bm_bits ?b' = (bm_bits b)[i := v]"
    by (rule bm_bits_word_update [OF assms])
      (auto simp: bit_or_iff bit_and_iff bit_not_iff bit_bit_mask ELEM_BITS_def)
qed

lemma bitmap_set_loop_eq:
  "bitmap_wf b \<Longrightarrow> i + n \<le> bit_cnt b \<Longrightarrow>
   \<exists>b'. bitmap_set_loop b i n v = Some b' \<and> bitmap_wf b' \<and> bit_cnt b' = bit_cnt b
      \<and> bm_bits b' = overwrite (bm_bits b) i (replicate n v)"
proof (induction n arbitrary: b i)
  case 0
  then show ?case by (simp add: overwrite_def)
next
  case (Suc n)
  then have "i < bit_cnt b" by simp
  with Suc.prems obtain b1 where b1: "bitmap_set b i v = Some b1" "bitmap_wf b1"
    "bit_cnt b1 = bit_cnt b" "bm_bits b1 = (bm_bits b)[i := v]"
    using bitmap_set_eq by blast
  with Suc.prems obtain b2 where b2: "bitmap_set_loop b1 (i + 1) n v = Some b2" "bitmap_wf b2"
    "bit_cnt b2 = bit_cnt b1" "bm_bits b2 = overwrite (bm_bits b1) (i + 1) (replicate n v)"
    using Suc.IH [of b1 "i + 1"] by auto
  have "overwrite ((bm_bits b)[i := v]) (i + 1) (replicate n v)
      = overwrite (bm_bits b) i (replicate (Suc n) v)"
    using Suc.prems by (intro nth_equalityI) (auto simp: nth_overwrite nth_list_update nth_Cons' not_le)
  with b1 b2 show ?case by auto
qed

lemma bitmap_set_multiple_ex:
  assumes "bitmap_wf b" and "start + cnt \<le> bit_cnt b"
  obtains b' where "bitmap_set_multiple b start cnt v = Some b'" "bitmap_wf b'"
    "bit_cnt b' = bit_cnt b" "bm_bits b' = overwrite (bm_bits b) start (replicate cnt v)"
proof -
  from assms have "start + cnt < 2 ^ 32" by (auto simp: bitmap_wf_def)
  with assms bitmap_set_loop_eq [OF assms, of v] that show thesis
    by (auto simp: bitmap_set_multiple_def)
qed

lemma bitmap_contains_loop_eq:
  "bitmap_wf b \<Longrightarrow> i + n \<le> bit_cnt b \<Longrightarrow>
   bitmap_contains_loop b i n v = Some (v \<in> set (take n (drop i (bm_bits b))))"
proof (induction n arbitrary: i)
  case (Suc n)
  then have "drop i (bm_bits b) = bm_bits b ! i # drop (Suc i) (bm_bits b)"
    by (simp add: Cons_nth_drop_Suc)
  with Suc show ?case by (auto simp: bitmap_test_eq)
qed simp

lemma bitmap_contains_eq:
  "bitmap_wf b \<Longrightarrow> start + cnt \<le> bit_cnt b \<Longrightarrow>
   bitmap_contains b start cnt v = Some (v \<in> set (take cnt (drop start (bm_bits b))))"
proof -
  assume a: "bitmap_wf b" "start + cnt \<le> bit_cnt b"
  then have "start + cnt < 2 ^ 32" by (auto simp: bitmap_wf_def)
  with a show ?thesis by (simp add: bitmap_contains_def bitmap_contains_loop_eq)
qed

lemma bitmap_all_eq:
  "bitmap_wf b \<Longrightarrow> start + cnt \<le> bit_cnt b \<Longrightarrow>
   bitmap_all b start cnt = Some (list_all id (take cnt (drop start (bm_bits b))))"
  by (auto simp: bitmap_all_def bitmap_contains_eq list_all_iff) (metis (full_types))

lemma bitmap_count_loop_eq:
  "bitmap_wf b \<Longrightarrow> i + n \<le> bit_cnt b \<Longrightarrow>
   bitmap_count_loop b i n v c = Some (c + count_list (take n (drop i (bm_bits b))) v)"
proof (induction n arbitrary: i c)
  case (Suc n)
  then have "drop i (bm_bits b) = bm_bits b ! i # drop (Suc i) (bm_bits b)"
    by (simp add: Cons_nth_drop_Suc)
  with Suc show ?case by (auto simp: bitmap_test_eq)
qed simp

lemma bitmap_scan_loop_eq:
  assumes "bitmap_wf b" and "cnt \<le> bit_cnt b"
  shows "i \<le> Suc (bit_cnt b - cnt) \<Longrightarrow>
     bitmap_scan_loop b i (bit_cnt b - cnt) cnt v =
       Some (case find_from (\<lambda>k. (\<not> v) \<notin> set (take cnt (drop k (bm_bits b)))) i (Suc (bit_cnt b - cnt))
             of Some k \<Rightarrow> k | None \<Rightarrow> BITMAP_ERROR)"
proof (induction "Suc (bit_cnt b - cnt) - i" arbitrary: i)
  case 0
  then show ?case by (simp add: bitmap_scan_loop.simps find_from.simps)
next
  case (Suc d)
  then have "i + cnt \<le> bit_cnt b" using assms(2) by arith
  with Suc assms show ?case
    by (subst bitmap_scan_loop.simps, subst find_from.simps)
      (auto simp: bitmap_contains_eq)
qed

lemma bitmap_scan_eq:
  assumes "bitmap_wf b" and "start \<le> bit_cnt b" and "cnt \<le> bit_cnt b"
  shows "bitmap_scan b start cnt v =
       Some (case find_from (\<lambda>k. (\<not> v) \<notin> set (take cnt (drop k (bm_bits b)))) start (Suc (bit_cnt b - cnt))
             of Some k \<Rightarrow> k | None \<Rightarrow> BITMAP_ERROR)"
proof (cases "start \<le> Suc (bit_cnt b - cnt)")
  case True
  with assms show ?thesis by (simp add: bitmap_scan_def bitmap_scan_loop_eq)
next
  case False
  with assms show ?thesis
    by (simp add: bitmap_scan_def bitmap_scan_loop.simps find_from.simps)
qed

lemma set_take_drop_conv:
  "i + n \<le> length xs \<Longrightarrow> x \<in> set (take n (drop i xs)) \<longleftrightarrow> (\<exists>j<n. xs ! (i + j) = x)"
  by (auto simp: in_set_conv_nth)

lemma bitmap_scan_cases:
  assumes "bitmap_wf b" and "start \<le> bit_cnt b"
  obtains (miss) "bitmap_scan b start cnt v = Some BITMAP_ERROR"
      "\<And>k. start \<le> k \<Longrightarrow> k + cnt \<le> bit_cnt b \<Longrightarrow> \<exists>j<cnt. bm_bits b ! (k + j) \<noteq> v"
    | (hit) i where "bitmap_scan b start cnt v = Some i" "i \<noteq> BITMAP_ERROR" "start \<le> i"
      "i + cnt \<le> bit_cnt b" "\<And>j. j < cnt \<Longrightarrow> bm_bits b ! (i + j) = v"
      "\<And>k. start \<le> k \<Longrightarrow> k < i \<Longrightarrow> \<exists>j<cnt. bm_bits b ! (k + j) \<noteq> v"
proof (cases "cnt \<le> bit_cnt b")
  case False
  with assms miss show thesis by (simp add: bitmap_scan_def)
next
  case True
  let ?P = "\<lambda>k. (\<not> v) \<notin> set (take cnt (drop k (bm_bits b)))"
  let ?f = "find_from ?P start (Suc (bit_cnt b - cnt))"
  have P: "?P k \<longleftrightarrow> (\<forall>j<cnt. bm_bits b ! (k + j) = v)" if "k + cnt \<le> bit_cnt b" for k
    using that by (auto simp: set_take_drop_conv)
  have le: "k + cnt \<le> bit_cnt b \<longleftrightarrow> k < Suc (bit_cnt b - cnt)" for k
    using True by arith
  show thesis
  proof (cases ?f)
    case None
    with assms True have "bitmap_scan b start cnt v = Some BITMAP_ERROR"
      by (simp add: bitmap_scan_eq)
    moreover have "\<exists>j<cnt. bm_bits b ! (k + j) \<noteq> v" if "start \<le> k" "k + cnt \<le> bit_cnt b" for k
      using None P [OF that(2)] that le by (auto simp: find_from_None)
    ultimately show thesis by (rule miss)
  next
    case (Some i)
    then have i: "start \<le> i" "i + cnt \<le> bit_cnt b" "?P i"
      and first: "\<And>k. start \<le> k \<Longrightarrow> k < i \<Longrightarrow> \<not> ?P k"
      using le by (auto simp: find_from_Some)
    from i(2) assms(1) have "i \<noteq> BITMAP_ERROR"
      by (auto simp: BITMAP_ERROR_def SIZE_MAX_def bitmap_wf_def)
    moreover have "\<exists>j<cnt. bm_bits b ! (k + j) \<noteq> v" if "start \<le> k" "k < i" for k
      using first [OF that] P [of k] that i(2) by auto
    ultimately show thesis using i P [OF i(2)] Some assms True
      by (intro hit [of i]) (auto simp: bitmap_scan_eq)
  qed
qed

section \<open>The interface the allocators use\<close>

text \<open>
  A pool of numbered units, each free or taken.  \<open>alloc\<close> takes the first run of \<open>cnt\<close> free
  units and answers \<open>err\<close> when there is none; \<open>release\<close> frees a run.
\<close>

locale bit_pool =
  fixes invar :: "'p \<Rightarrow> bool"
    and view :: "'p \<Rightarrow> bool list"
    and alloc :: "'p \<Rightarrow> nat \<Rightarrow> (nat \<times> 'p) option"
    and release :: "'p \<Rightarrow> nat \<Rightarrow> nat \<Rightarrow> 'p option"
    and err :: nat
  assumes alloc_total: "invar p \<Longrightarrow> \<exists>i p'. alloc p cnt = Some (i, p')"
    and alloc_invar: "invar p \<Longrightarrow> alloc p cnt = Some (i, p') \<Longrightarrow> invar p'"
    and alloc_hit: "invar p \<Longrightarrow> alloc p cnt = Some (i, p') \<Longrightarrow> i \<noteq> err \<Longrightarrow>
      i + cnt \<le> length (view p) \<and> (\<forall>j<cnt. \<not> view p ! (i + j)) \<and>
      view p' = overwrite (view p) i (replicate cnt True)"
    and alloc_miss: "invar p \<Longrightarrow> alloc p cnt = Some (err, p') \<Longrightarrow>
      p' = p \<and> (\<forall>k. k + cnt \<le> length (view p) \<longrightarrow> (\<exists>j<cnt. view p ! (k + j)))"
    and release_ex: "invar p \<Longrightarrow> i + cnt \<le> length (view p) \<Longrightarrow>
      \<exists>p'. release p i cnt = Some p' \<and> invar p' \<and>
           view p' = overwrite (view p) i (replicate cnt False)"
begin

text \<open>Units handed out twice without a release in between never overlap.\<close>

lemma alloc_disjoint:
  assumes "invar p" and a1: "alloc p n = Some (i, q)" and "i \<noteq> err"
    and a2: "alloc q m = Some (j, r)" and "j \<noteq> err"
  shows "{i..<i + n} \<inter> {j..<j + m} = {}"
proof (rule ccontr)
  assume "{i..<i + n} \<inter> {j..<j + m} \<noteq> {}"
  then obtain k where "k \<in> {i..<i + n} \<inter> {j..<j + m}" by blast
  then have k: "i \<le> k" "k < i + n" "j \<le> k" "k < j + m" by simp_all
  have h1: "i + n \<le> length (view p)" "view q = overwrite (view p) i (replicate n True)"
    using alloc_hit [OF assms(1) a1 assms(3)] by auto
  with k have taken: "view q ! k" by (simp add: nth_overwrite)
  have "invar q" using alloc_invar [OF assms(1) a1] .
  then have "\<forall>l<m. \<not> view q ! (j + l)"
    using alloc_hit [OF _ a2 assms(5)] by blast
  moreover have "k - j < m" using k by arith
  ultimately have "\<not> view q ! (j + (k - j))" by blast
  with taken show False using k by simp
qed

text \<open>Releasing what was just allocated restores the pool's view.\<close>

lemma alloc_release:
  assumes "invar p" and "alloc p n = Some (i, q)" and "i \<noteq> err"
  obtains r where "release q i n = Some r" "invar r" "view r = view p"
proof -
  have h: "i + n \<le> length (view p)" "\<forall>j<n. \<not> view p ! (i + j)"
    "view q = overwrite (view p) i (replicate n True)"
    using alloc_hit [OF assms] by auto
  then have "length (view q) = length (view p)" by simp
  moreover have "invar q" using alloc_invar [OF assms(1,2)] .
  ultimately obtain r where r: "release q i n = Some r" "invar r"
    "view r = overwrite (view q) i (replicate n False)"
    using release_ex [of q i n] h(1) by auto
  have "view r = view p"
  proof (rule nth_equalityI)
    fix k assume "k < length (view r)"
    then have "k < length (view p)" using r(3) h by simp
    moreover have "\<not> view p ! k" if "i \<le> k" "k < i + n"
      using h(2) [THEN spec, of "k - i"] that by auto
    ultimately show "view r ! k = view p ! k"
      using r(3) h(1,3) by (auto simp: nth_overwrite)
  qed (use r(3) h in simp)
  with r that show thesis by blast
qed

text \<open>A failed allocation of one unit means that every unit is taken.\<close>

lemma alloc_one_fails_iff:
  assumes "invar p" and "alloc p 1 = Some (i, q)"
  shows "i = err \<Longrightarrow> (\<forall>k<length (view p). view p ! k)"
proof (intro allI impI)
  fix k assume "i = err" "k < length (view p)"
  with alloc_miss [of p 1 q] assms have "\<exists>j<1. view p ! (k + j)" by auto
  then show "view p ! k" by simp
qed

end

lemma bitmap_alloc_cases:
  assumes "bitmap_wf b" and "start \<le> bit_cnt b"
  obtains (miss) "bitmap_scan_and_flip b start cnt v = Some (BITMAP_ERROR, b)"
      "\<And>k. start \<le> k \<Longrightarrow> k + cnt \<le> bit_cnt b \<Longrightarrow> \<exists>j<cnt. bm_bits b ! (k + j) \<noteq> v"
    | (hit) i b' where "bitmap_scan_and_flip b start cnt v = Some (i, b')" "i \<noteq> BITMAP_ERROR"
      "start \<le> i" "i + cnt \<le> bit_cnt b" "\<And>j. j < cnt \<Longrightarrow> bm_bits b ! (i + j) = v"
      "\<And>k. start \<le> k \<Longrightarrow> k < i \<Longrightarrow> \<exists>j<cnt. bm_bits b ! (k + j) \<noteq> v"
      "bitmap_wf b'" "bit_cnt b' = bit_cnt b"
      "bm_bits b' = overwrite (bm_bits b) i (replicate cnt (\<not> v))"
proof (cases rule: bitmap_scan_cases [OF assms, where cnt = cnt and v = v])
  case 1
  then show thesis using miss by (simp add: bitmap_scan_and_flip_def)
next
  case (2 i)
  obtain b' where "bitmap_set_multiple b i cnt (\<not> v) = Some b'" "bitmap_wf b'"
    "bit_cnt b' = bit_cnt b" "bm_bits b' = overwrite (bm_bits b) i (replicate cnt (\<not> v))"
    using bitmap_set_multiple_ex [OF assms(1) 2(4)] by blast
  with 2 show thesis by (intro hit [of i b']) (auto simp: bitmap_scan_and_flip_def)
qed

definition bitmap_alloc :: "bitmap \<Rightarrow> nat \<Rightarrow> (nat \<times> bitmap) option" where
  "bitmap_alloc b cnt = bitmap_scan_and_flip b 0 cnt False"

definition bitmap_release :: "bitmap \<Rightarrow> nat \<Rightarrow> nat \<Rightarrow> bitmap option" where
  "bitmap_release b start cnt = bitmap_set_multiple b start cnt False"

interpretation bp: bit_pool bitmap_wf bm_bits bitmap_alloc bitmap_release BITMAP_ERROR
proof (unfold_locales, goal_cases)
  case (1 p cnt)
  then show ?case
    unfolding bitmap_alloc_def
    by - (rule bitmap_alloc_cases [of p 0 cnt False]; auto)
next
  case (2 p cnt i p')
  then show ?case
    unfolding bitmap_alloc_def
    by - (rule bitmap_alloc_cases [of p 0 cnt False]; auto)
next
  case (3 p cnt i p')
  then show ?case
    unfolding bitmap_alloc_def
    by - (rule bitmap_alloc_cases [of p 0 cnt False]; auto)
next
  case (4 p cnt p')
  then show ?case
    unfolding bitmap_alloc_def
    by - (rule bitmap_alloc_cases [of p 0 cnt False]; auto)
next
  case (5 p i cnt)
  then show ?case
    using bitmap_set_multiple_ex [of p i cnt False] by (auto simp: bitmap_release_def)
qed

section \<open>Properties\<close>

definition bm_example :: bitmap where
  "bm_example = \<lparr>bit_cnt = 40, bits = [0xFFFFFFFD, 0x0000000F]\<rparr>"

lemma bm_example_wf: "bitmap_wf bm_example"
  by (simp add: bitmap_wf_def bm_example_def bitmap_defs wrap32_def)

text \<open>C36. Setting a group of bits in range never panics; it keeps the representation
  well-formed, gives every bit of the group the value and leaves every other bit as it was.\<close>

theorem bitmap_set_multiple_correct:
  assumes "bitmap_wf b" and "start + cnt \<le> bit_cnt b"
  shows "\<exists>b'. bitmap_set_multiple b start cnt v = Some b' \<and> bitmap_wf b' \<and> bit_cnt b' = bit_cnt b \<and>
    (\<forall>i<bit_cnt b. bm_bits b' ! i = (if start \<le> i \<and> i < start + cnt then v else bm_bits b ! i))"
proof -
  obtain b' where "bitmap_set_multiple b start cnt v = Some b'" "bitmap_wf b'"
    "bit_cnt b' = bit_cnt b" "bm_bits b' = overwrite (bm_bits b) start (replicate cnt v)"
    using bitmap_set_multiple_ex [OF assms] by blast
  with assms(2) show ?thesis by (auto simp: nth_overwrite)
qed

theorem bitmap_set_multiple_correct_witness:
  "\<exists>b'. bitmap_set_multiple bm_example 30 6 False = Some b' \<and> bitmap_wf b' \<and> bit_cnt b' = 40 \<and>
    (\<forall>i<40. bm_bits b' ! i = (if 30 \<le> i \<and> i < 36 then False else bm_bits bm_example ! i))"
proof -
  have "30 + 6 \<le> bit_cnt bm_example" "bit_cnt bm_example = 40" by (simp_all add: bm_example_def)
  then show ?thesis using bitmap_set_multiple_correct [OF bm_example_wf, of 30 6 False] by simp
qed



text \<open>With a count of zero the scan answers its start index and changes nothing; the
  comment of \<^verbatim>\<open>bitmap_scan_and_flip\<close> promises 0 whatever the start.\<close>

theorem bitmap_scan_and_flip_zero:
  assumes "bitmap_wf b" and "start \<le> bit_cnt b"
  shows "bitmap_scan_and_flip b start 0 v = Some (start, b)"
proof -
  have "start \<noteq> BITMAP_ERROR" "start < 2 ^ 32"
    using assms by (auto simp: BITMAP_ERROR_def SIZE_MAX_def bitmap_wf_def)
  with assms show ?thesis
    by (simp add: bitmap_scan_and_flip_def bitmap_scan_eq find_from.simps bitmap_set_multiple_def)
qed

theorem bitmap_scan_and_flip_zero_witness:
  "bitmap_scan_and_flip bm_example 7 0 True = Some (7, bm_example)"
  by (rule bitmap_scan_and_flip_zero [OF bm_example_wf]) (simp add: bm_example_def)

end
