(* ===== verification/Kernel_List.thy ===== *)
theory Kernel_List
  imports Prelude
begin

text \<open>
  The intrusive doubly linked list of lib/kernel/list.c, on an explicit store.

  A list element is an address; the store maps the address of every live element to its
  \<^verbatim>\<open>prev\<close> and \<^verbatim>\<open>next\<close> pointers.  Address 0 is the null pointer, and going through a null or
  dangling pointer is undefined behaviour (\<^term>\<open>None\<close>).  A \<^verbatim>\<open>struct list\<close> is the pair of the
  addresses of its two header elements.  Loops follow pointers and are
  \<^theory_text>\<open>partial_function\<close>s: on a store that is not a list they may fail to return, which is
  \<^term>\<open>None\<close> again; on a list they are proved to return.

  \<open>klist s l xs\<close> says that in store \<open>s\<close> the list \<open>l\<close> holds exactly the elements \<open>xs\<close>, in that
  order.  Each operation is shown to act on \<open>xs\<close> as the operation of a functional list, and to
  leave the rest of the store alone.
\<close>

section \<open>Store\<close>

type_synonym ptr = nat

abbreviation NULL :: ptr where
  "NULL \<equiv> 0"

record list_elem =
  le_prev :: ptr
  le_next :: ptr

record klist_hdr =
  l_head :: ptr
  l_tail :: ptr

type_synonym store = "ptr \<Rightarrow> list_elem option"

definition ld :: "store \<Rightarrow> ptr \<Rightarrow> list_elem option" where
  "ld s p = (if p = NULL then None else s p)"

definition set_prev :: "store \<Rightarrow> ptr \<Rightarrow> ptr \<Rightarrow> store option" where
  "set_prev s p v = do { e \<leftarrow> ld s p; Some (s(p \<mapsto> e\<lparr>le_prev := v\<rparr>)) }"

definition set_next :: "store \<Rightarrow> ptr \<Rightarrow> ptr \<Rightarrow> store option" where
  "set_next s p v = do { e \<leftarrow> ld s p; Some (s(p \<mapsto> e\<lparr>le_next := v\<rparr>)) }"

definition get_prev :: "store \<Rightarrow> ptr \<Rightarrow> ptr option" where
  "get_prev s p = map_option le_prev (ld s p)"

definition get_next :: "store \<Rightarrow> ptr \<Rightarrow> ptr option" where
  "get_next s p = map_option le_next (ld s p)"

section \<open>Operations\<close>

definition is_head :: "store \<Rightarrow> ptr \<Rightarrow> bool option" where
  "is_head s elem =
     (if elem = NULL then Some False
      else do { p \<leftarrow> get_prev s elem; n \<leftarrow> get_next s elem; Some (p = NULL \<and> n \<noteq> NULL) })"

definition is_interior :: "store \<Rightarrow> ptr \<Rightarrow> bool option" where
  "is_interior s elem =
     (if elem = NULL then Some False
      else do { p \<leftarrow> get_prev s elem; n \<leftarrow> get_next s elem; Some (p \<noteq> NULL \<and> n \<noteq> NULL) })"

definition is_tail :: "store \<Rightarrow> ptr \<Rightarrow> bool option" where
  "is_tail s elem =
     (if elem = NULL then Some False
      else do { p \<leftarrow> get_prev s elem; n \<leftarrow> get_next s elem; Some (p \<noteq> NULL \<and> n = NULL) })"

definition list_init :: "store \<Rightarrow> klist_hdr \<Rightarrow> store option" where
  "list_init s l = do {
     s1 \<leftarrow> set_prev s (l_head l) NULL;
     s2 \<leftarrow> set_next s1 (l_head l) (l_tail l);
     s3 \<leftarrow> set_prev s2 (l_tail l) (l_head l);
     set_next s3 (l_tail l) NULL
   }"

definition list_begin :: "store \<Rightarrow> klist_hdr \<Rightarrow> ptr option" where
  "list_begin s l = get_next s (l_head l)"

definition list_next :: "store \<Rightarrow> ptr \<Rightarrow> ptr option" where
  "list_next s elem = do {
     h \<leftarrow> is_head s elem; i \<leftarrow> is_interior s elem;
     ASSERT (h \<or> i);
     get_next s elem
   }"

definition list_end :: "klist_hdr \<Rightarrow> ptr" where
  "list_end l = l_tail l"

definition list_rbegin :: "store \<Rightarrow> klist_hdr \<Rightarrow> ptr option" where
  "list_rbegin s l = get_prev s (l_tail l)"

definition list_prev :: "store \<Rightarrow> ptr \<Rightarrow> ptr option" where
  "list_prev s elem = do {
     i \<leftarrow> is_interior s elem; t \<leftarrow> is_tail s elem;
     ASSERT (i \<or> t);
     get_prev s elem
   }"

definition list_rend :: "klist_hdr \<Rightarrow> ptr" where
  "list_rend l = l_head l"

definition list_insert :: "store \<Rightarrow> ptr \<Rightarrow> ptr \<Rightarrow> store option" where
  "list_insert s before elem = do {
     i \<leftarrow> is_interior s before; t \<leftarrow> is_tail s before;
     ASSERT (i \<or> t);
     ASSERT (elem \<noteq> NULL);
     bp \<leftarrow> get_prev s before;
     s1 \<leftarrow> set_prev s elem bp;
     s2 \<leftarrow> set_next s1 elem before;
     bp2 \<leftarrow> get_prev s2 before;
     s3 \<leftarrow> set_next s2 bp2 elem;
     set_prev s3 before elem
   }"

definition list_splice :: "store \<Rightarrow> ptr \<Rightarrow> ptr \<Rightarrow> ptr \<Rightarrow> store option" where
  "list_splice s before first lst = do {
     i \<leftarrow> is_interior s before; t \<leftarrow> is_tail s before;
     ASSERT (i \<or> t);
     if first = lst then Some s
     else do {
       lst \<leftarrow> list_prev s lst;
       i1 \<leftarrow> is_interior s first; ASSERT i1;
       i2 \<leftarrow> is_interior s lst; ASSERT i2;
       fp \<leftarrow> get_prev s first;
       ln \<leftarrow> get_next s lst;
       s1 \<leftarrow> set_next s fp ln;
       ln \<leftarrow> get_next s1 lst;
       fp \<leftarrow> get_prev s1 first;
       s2 \<leftarrow> set_prev s1 ln fp;
       bp \<leftarrow> get_prev s2 before;
       s3 \<leftarrow> set_prev s2 first bp;
       s4 \<leftarrow> set_next s3 lst before;
       bp \<leftarrow> get_prev s4 before;
       s5 \<leftarrow> set_next s4 bp first;
       set_prev s5 before lst
     }
   }"

definition list_push_front :: "store \<Rightarrow> klist_hdr \<Rightarrow> ptr \<Rightarrow> store option" where
  "list_push_front s l elem = do { b \<leftarrow> list_begin s l; list_insert s b elem }"

definition list_push_back :: "store \<Rightarrow> klist_hdr \<Rightarrow> ptr \<Rightarrow> store option" where
  "list_push_back s l elem = list_insert s (list_end l) elem"

definition list_remove :: "store \<Rightarrow> ptr \<Rightarrow> (ptr \<times> store) option" where
  "list_remove s elem = do {
     i \<leftarrow> is_interior s elem;
     ASSERT i;
     p \<leftarrow> get_prev s elem; n \<leftarrow> get_next s elem;
     s1 \<leftarrow> set_next s p n;
     p \<leftarrow> get_prev s1 elem; n \<leftarrow> get_next s1 elem;
     s2 \<leftarrow> set_prev s1 n p;
     n \<leftarrow> get_next s2 elem;
     Some (n, s2)
   }"

definition list_empty :: "store \<Rightarrow> klist_hdr \<Rightarrow> bool option" where
  "list_empty s l = do { b \<leftarrow> list_begin s l; Some (b = list_end l) }"

definition list_front :: "store \<Rightarrow> klist_hdr \<Rightarrow> ptr option" where
  "list_front s l = do { e \<leftarrow> list_empty s l; ASSERT (\<not> e); get_next s (l_head l) }"

definition list_back :: "store \<Rightarrow> klist_hdr \<Rightarrow> ptr option" where
  "list_back s l = do { e \<leftarrow> list_empty s l; ASSERT (\<not> e); get_prev s (l_tail l) }"

definition list_pop_front :: "store \<Rightarrow> klist_hdr \<Rightarrow> (ptr \<times> store) option" where
  "list_pop_front s l = do {
     front \<leftarrow> list_front s l;
     (_, s1) \<leftarrow> list_remove s front;
     Some (front, s1)
   }"

definition list_pop_back :: "store \<Rightarrow> klist_hdr \<Rightarrow> (ptr \<times> store) option" where
  "list_pop_back s l = do {
     back \<leftarrow> list_back s l;
     (_, s1) \<leftarrow> list_remove s back;
     Some (back, s1)
   }"

partial_function (option) list_size_loop :: "store \<Rightarrow> ptr \<Rightarrow> ptr \<Rightarrow> nat \<Rightarrow> nat option" where
  "list_size_loop s e e_end cnt =
     (if e = e_end then Some cnt
      else do { e' \<leftarrow> list_next s e; list_size_loop s e' e_end (cnt + 1) })"

definition list_size :: "store \<Rightarrow> klist_hdr \<Rightarrow> nat option" where
  "list_size s l = do { b \<leftarrow> list_begin s l; list_size_loop s b (list_end l) 0 }"

text \<open>\<^verbatim>\<open>swap (&e->prev, &e->next)\<close>\<close>

definition swap_links :: "store \<Rightarrow> ptr \<Rightarrow> store option" where
  "swap_links s e = do {
     p \<leftarrow> get_prev s e; n \<leftarrow> get_next s e;
     s1 \<leftarrow> set_prev s e n;
     set_next s1 e p
   }"

partial_function (option) list_reverse_loop :: "store \<Rightarrow> ptr \<Rightarrow> ptr \<Rightarrow> store option" where
  "list_reverse_loop s e e_end =
     (if e = e_end then Some s
      else do { s1 \<leftarrow> swap_links s e; e' \<leftarrow> get_prev s1 e; list_reverse_loop s1 e' e_end })"

definition list_reverse :: "store \<Rightarrow> klist_hdr \<Rightarrow> store option" where
  "list_reverse s l = do {
     emp \<leftarrow> list_empty s l;
     if emp then Some s
     else do {
       b \<leftarrow> list_begin s l;
       s1 \<leftarrow> list_reverse_loop s b (list_end l);
       hn \<leftarrow> get_next s1 (l_head l); tp \<leftarrow> get_prev s1 (l_tail l);
       s2 \<leftarrow> set_next s1 (l_head l) tp;
       s3 \<leftarrow> set_prev s2 (l_tail l) hn;
       hn \<leftarrow> get_next s3 (l_head l); tp \<leftarrow> get_prev s3 (l_tail l);
       a \<leftarrow> get_prev s3 hn; b \<leftarrow> get_next s3 tp;
       s4 \<leftarrow> set_prev s3 hn b;
       set_next s4 tp a
     }
   }"

section \<open>Ordered lists\<close>

text \<open>\<open>lt a b\<close> stands for the caller's comparison of the structures around two elements.\<close>

type_synonym list_less_func = "ptr \<Rightarrow> ptr \<Rightarrow> bool"

partial_function (option) is_sorted_loop :: "store \<Rightarrow> ptr \<Rightarrow> ptr \<Rightarrow> list_less_func \<Rightarrow> bool option" where
  "is_sorted_loop s a b lt = do {
     a' \<leftarrow> list_next s a;
     if a' = b then Some True
     else do {
       p \<leftarrow> list_prev s a';
       if lt a' p then Some False else is_sorted_loop s a' b lt
     }
   }"

definition is_sorted :: "store \<Rightarrow> ptr \<Rightarrow> ptr \<Rightarrow> list_less_func \<Rightarrow> bool option" where
  "is_sorted s a b lt = (if a \<noteq> b then is_sorted_loop s a b lt else Some True)"

partial_function (option) find_end_loop :: "store \<Rightarrow> ptr \<Rightarrow> ptr \<Rightarrow> list_less_func \<Rightarrow> ptr option" where
  "find_end_loop s a b lt = do {
     a' \<leftarrow> list_next s a;
     if a' = b then Some a'
     else do {
       p \<leftarrow> list_prev s a';
       if lt a' p then Some a' else find_end_loop s a' b lt
     }
   }"

definition find_end_of_run :: "store \<Rightarrow> ptr \<Rightarrow> ptr \<Rightarrow> list_less_func \<Rightarrow> ptr option" where
  "find_end_of_run s a b lt = do {
     ASSERT (a \<noteq> NULL); ASSERT (b \<noteq> NULL);
     ASSERT (a \<noteq> b);
     find_end_loop s a b lt
   }"

partial_function (option) inplace_merge_loop ::
  "store \<Rightarrow> ptr \<Rightarrow> ptr \<Rightarrow> ptr \<Rightarrow> list_less_func \<Rightarrow> store option" where
  "inplace_merge_loop s a0 a1b0 b1 lt =
     (if a0 \<noteq> a1b0 \<and> a1b0 \<noteq> b1 then
        (if \<not> lt a1b0 a0 then do {
           a0' \<leftarrow> list_next s a0;
           inplace_merge_loop s a0' a1b0 b1 lt
         } else do {
           a1b0' \<leftarrow> list_next s a1b0;
           p \<leftarrow> list_prev s a1b0';
           s' \<leftarrow> list_splice s a0 p a1b0';
           inplace_merge_loop s' a0 a1b0' b1 lt
         })
      else Some s)"

definition inplace_merge ::
  "store \<Rightarrow> ptr \<Rightarrow> ptr \<Rightarrow> ptr \<Rightarrow> list_less_func \<Rightarrow> store option" where
  "inplace_merge s a0 a1b0 b1 lt = do {
     ASSERT (a0 \<noteq> NULL); ASSERT (a1b0 \<noteq> NULL); ASSERT (b1 \<noteq> NULL);
     s1 \<leftarrow> is_sorted s a0 a1b0 lt; ASSERT s1;
     s2 \<leftarrow> is_sorted s a1b0 b1 lt; ASSERT s2;
     inplace_merge_loop s a0 a1b0 b1 lt
   }"

text \<open>The \<^verbatim>\<open>for\<close> loop of one pass; the result is the store and the number of output runs.\<close>

partial_function (option) list_sort_pass ::
  "store \<Rightarrow> klist_hdr \<Rightarrow> ptr \<Rightarrow> nat \<Rightarrow> list_less_func \<Rightarrow> (store \<times> nat) option" where
  "list_sort_pass s l a0 output_run_cnt lt =
     (if a0 = list_end l then Some (s, output_run_cnt)
      else do {
        a1b0 \<leftarrow> find_end_of_run s a0 (list_end l) lt;
        if a1b0 = list_end l then Some (s, output_run_cnt + 1)
        else do {
          b1 \<leftarrow> find_end_of_run s a1b0 (list_end l) lt;
          s' \<leftarrow> inplace_merge s a0 a1b0 b1 lt;
          list_sort_pass s' l b1 (output_run_cnt + 1) lt
        }
      })"

partial_function (option) list_sort_loop ::
  "store \<Rightarrow> klist_hdr \<Rightarrow> list_less_func \<Rightarrow> store option" where
  "list_sort_loop s l lt = do {
     b \<leftarrow> list_begin s l;
     (s', output_run_cnt) \<leftarrow> list_sort_pass s l b 0 lt;
     if output_run_cnt > 1 then list_sort_loop s' l lt else Some s'
   }"

definition list_sort :: "store \<Rightarrow> klist_hdr \<Rightarrow> list_less_func \<Rightarrow> store option" where
  "list_sort s l lt = do {
     s' \<leftarrow> list_sort_loop s l lt;
     b \<leftarrow> list_begin s' l;
     ok \<leftarrow> is_sorted s' b (list_end l) lt;
     ASSERT ok;
     Some s'
   }"

partial_function (option) insert_pos_loop ::
  "store \<Rightarrow> ptr \<Rightarrow> ptr \<Rightarrow> ptr \<Rightarrow> list_less_func \<Rightarrow> ptr option" where
  "insert_pos_loop s e e_end elem lt =
     (if e = e_end then Some e
      else if lt elem e then Some e
      else do { e' \<leftarrow> list_next s e; insert_pos_loop s e' e_end elem lt })"

definition list_insert_ordered :: "store \<Rightarrow> klist_hdr \<Rightarrow> ptr \<Rightarrow> list_less_func \<Rightarrow> store option" where
  "list_insert_ordered s l elem lt = do {
     ASSERT (elem \<noteq> NULL);
     b \<leftarrow> list_begin s l;
     e \<leftarrow> insert_pos_loop s b (list_end l) elem lt;
     list_insert s e elem
   }"

partial_function (option) list_unique_loop ::
  "store \<Rightarrow> klist_hdr \<Rightarrow> klist_hdr option \<Rightarrow> ptr \<Rightarrow> list_less_func \<Rightarrow> store option" where
  "list_unique_loop s l duplicates elem lt = do {
     nx \<leftarrow> list_next s elem;
     if nx = list_end l then Some s
     else if \<not> lt elem nx \<and> \<not> lt nx elem then do {
       (_, s1) \<leftarrow> list_remove s nx;
       s2 \<leftarrow> (case duplicates of None \<Rightarrow> Some s1 | Some d \<Rightarrow> list_push_back s1 d nx);
       list_unique_loop s2 l duplicates elem lt
     } else list_unique_loop s l duplicates nx lt
   }"

definition list_unique ::
  "store \<Rightarrow> klist_hdr \<Rightarrow> klist_hdr option \<Rightarrow> list_less_func \<Rightarrow> store option" where
  "list_unique s l duplicates lt = do {
     emp \<leftarrow> list_empty s l;
     if emp then Some s
     else do { elem \<leftarrow> list_begin s l; list_unique_loop s l duplicates elem lt }
   }"

text \<open>The loops of \<^verbatim>\<open>list_max\<close> and \<^verbatim>\<open>list_min\<close>, with \<open>m\<close> the extremum so far.\<close>

partial_function (option) list_max_loop ::
  "store \<Rightarrow> ptr \<Rightarrow> ptr \<Rightarrow> ptr \<Rightarrow> list_less_func \<Rightarrow> ptr option" where
  "list_max_loop s m e e_end lt =
     (if e = e_end then Some m
      else do { e' \<leftarrow> list_next s e; list_max_loop s (if lt m e then e else m) e' e_end lt })"

definition list_max :: "store \<Rightarrow> klist_hdr \<Rightarrow> list_less_func \<Rightarrow> ptr option" where
  "list_max s l lt = do {
     m \<leftarrow> list_begin s l;
     if m \<noteq> list_end l then do { e \<leftarrow> list_next s m; list_max_loop s m e (list_end l) lt }
     else Some m
   }"

partial_function (option) list_min_loop ::
  "store \<Rightarrow> ptr \<Rightarrow> ptr \<Rightarrow> ptr \<Rightarrow> list_less_func \<Rightarrow> ptr option" where
  "list_min_loop s m e e_end lt =
     (if e = e_end then Some m
      else do { e' \<leftarrow> list_next s e; list_min_loop s (if lt e m then e else m) e' e_end lt })"

definition list_min :: "store \<Rightarrow> klist_hdr \<Rightarrow> list_less_func \<Rightarrow> ptr option" where
  "list_min s l lt = do {
     m \<leftarrow> list_begin s l;
     if m \<noteq> list_end l then do { e \<leftarrow> list_next s m; list_min_loop s m e (list_end l) lt }
     else Some m
   }"

section \<open>Reasoning about the store\<close>

definition ok :: "store \<Rightarrow> ptr \<Rightarrow> bool" where
  "ok s p \<longleftrightarrow> p \<noteq> NULL \<and> s p \<noteq> None"

definition upd_next :: "store \<Rightarrow> ptr \<Rightarrow> ptr \<Rightarrow> store" where
  "upd_next s p v = s(p \<mapsto> (the (s p))\<lparr>le_next := v\<rparr>)"

definition upd_prev :: "store \<Rightarrow> ptr \<Rightarrow> ptr \<Rightarrow> store" where
  "upd_prev s p v = s(p \<mapsto> (the (s p))\<lparr>le_prev := v\<rparr>)"

named_theorems store \<open>what reads see after writes to the store\<close>

lemma set_next_eq [store]: "set_next s p v = (if ok s p then Some (upd_next s p v) else None)"
  by (auto simp: set_next_def ld_def ok_def upd_next_def)

lemma set_prev_eq [store]: "set_prev s p v = (if ok s p then Some (upd_prev s p v) else None)"
  by (auto simp: set_prev_def ld_def ok_def upd_prev_def)

lemma get_upd [store]:
  "ok s p \<Longrightarrow> get_next (upd_next s p v) q = (if q = p then Some v else get_next s q)"
  "ok s p \<Longrightarrow> get_prev (upd_next s p v) q = get_prev s q"
  "ok s p \<Longrightarrow> get_prev (upd_prev s p v) q = (if q = p then Some v else get_prev s q)"
  "ok s p \<Longrightarrow> get_next (upd_prev s p v) q = get_next s q"
  by (auto simp: get_next_def get_prev_def upd_next_def upd_prev_def ld_def ok_def)

lemma ok_upd [store]:
  "ok s p \<Longrightarrow> ok (upd_next s p v) q = ok s q"
  "ok s p \<Longrightarrow> ok (upd_prev s p v) q = ok s q"
  by (auto simp: ok_def upd_next_def upd_prev_def)

lemma upd_other [store]:
  "q \<noteq> p \<Longrightarrow> upd_next s p v q = s q"
  "q \<noteq> p \<Longrightarrow> upd_prev s p v q = s q"
  by (simp_all add: upd_next_def upd_prev_def)

lemma get_ok: "get_next s p = Some x \<Longrightarrow> ok s p" "get_prev s p = Some x \<Longrightarrow> ok s p"
  by (auto simp: get_next_def get_prev_def ld_def ok_def split: if_splits)

lemma ok_get: "ok s p \<Longrightarrow> \<exists>x. get_next s p = Some x" "ok s p \<Longrightarrow> \<exists>x. get_prev s p = Some x"
  by (auto simp: get_next_def get_prev_def ld_def ok_def)

lemma not_ok_NULL [simp]: "\<not> ok s NULL"
  by (simp add: ok_def)

lemma is_head_eq [store]:
  "get_prev s p = Some a \<Longrightarrow> get_next s p = Some b \<Longrightarrow> is_head s p = Some (a = NULL \<and> b \<noteq> NULL)"
  using get_ok [of s p] by (auto simp: is_head_def)

lemma is_interior_eq [store]:
  "get_prev s p = Some a \<Longrightarrow> get_next s p = Some b \<Longrightarrow> is_interior s p = Some (a \<noteq> NULL \<and> b \<noteq> NULL)"
  using get_ok [of s p] by (auto simp: is_interior_def)

lemma is_tail_eq [store]:
  "get_prev s p = Some a \<Longrightarrow> get_next s p = Some b \<Longrightarrow> is_tail s p = Some (a \<noteq> NULL \<and> b = NULL)"
  using get_ok [of s p] by (auto simp: is_tail_def)

lemma list_next_eq:
  "get_prev s p = Some a \<Longrightarrow> get_next s p = Some b \<Longrightarrow> b \<noteq> NULL \<Longrightarrow> list_next s p = Some b"
  by (cases "a = NULL") (simp_all add: list_next_def store)

lemma list_prev_eq:
  "get_prev s p = Some a \<Longrightarrow> get_next s p = Some b \<Longrightarrow> a \<noteq> NULL \<Longrightarrow> list_prev s p = Some a"
  by (cases "b = NULL") (simp_all add: list_prev_def store)

text \<open>The part of the store an operation may change.\<close>

definition same_outside :: "ptr set \<Rightarrow> store \<Rightarrow> store \<Rightarrow> bool" where
  "same_outside A s s' \<longleftrightarrow> (\<forall>q. q \<notin> A \<longrightarrow> s' q = s q) \<and> (\<forall>q. ok s' q = ok s q)"

lemma same_outside_refl [simp]: "same_outside A s s"
  by (simp add: same_outside_def)

lemma same_outside_trans:
  "same_outside A s s' \<Longrightarrow> same_outside B s' s'' \<Longrightarrow> A \<union> B \<subseteq> C \<Longrightarrow> same_outside C s s''"
  unfolding same_outside_def by (metis Un_iff subsetD)

lemma same_outside_mono: "same_outside A s s' \<Longrightarrow> A \<subseteq> B \<Longrightarrow> same_outside B s s'"
  by (auto simp: same_outside_def subset_iff)

lemma same_outside_get:
  "same_outside A s s' \<Longrightarrow> q \<notin> A \<Longrightarrow> get_next s' q = get_next s q"
  "same_outside A s s' \<Longrightarrow> q \<notin> A \<Longrightarrow> get_prev s' q = get_prev s q"
  by (simp_all add: same_outside_def get_next_def get_prev_def ld_def)

lemma same_outside_upd:
  "same_outside A s0 s \<Longrightarrow> ok s p \<Longrightarrow> p \<in> A \<Longrightarrow> same_outside A s0 (upd_next s p v)"
  "same_outside A s0 s \<Longrightarrow> ok s p \<Longrightarrow> p \<in> A \<Longrightarrow> same_outside A s0 (upd_prev s p v)"
  by (auto simp: same_outside_def store upd_next_def upd_prev_def ok_def)

section \<open>Segments and lists\<close>

text \<open>\<open>dseg s p xs q\<close>: from \<open>p\<close>, the \<open>next\<close> pointers go through \<open>xs\<close> to \<open>q\<close>, and the
  \<open>prev\<close> pointers go back.\<close>

fun dseg :: "store \<Rightarrow> ptr \<Rightarrow> ptr list \<Rightarrow> ptr \<Rightarrow> bool" where
  "dseg s p [] q \<longleftrightarrow> get_next s p = Some q \<and> get_prev s q = Some p"
| "dseg s p (x # xs) q \<longleftrightarrow> get_next s p = Some x \<and> get_prev s x = Some p \<and> dseg s x xs q"

lemma dseg_append [simp]: "dseg s p (xs @ y # ys) q \<longleftrightarrow> dseg s p xs y \<and> dseg s y ys q"
  by (induction xs arbitrary: p) auto

lemma dseg_cong:
  "(\<And>a. a \<in> insert p (set xs) \<Longrightarrow> get_next s' a = get_next s a) \<Longrightarrow>
   (\<And>a. a \<in> insert q (set xs) \<Longrightarrow> get_prev s' a = get_prev s a) \<Longrightarrow>
   dseg s' p xs q = dseg s p xs q"
  by (induction xs arbitrary: p) auto

lemma dseg_next: "dseg s p xs q \<Longrightarrow> get_next s p = Some (hd (xs @ [q]))"
  by (cases xs) auto

lemma dseg_prev: "dseg s p xs q \<Longrightarrow> get_prev s q = Some (last (p # xs))"
  by (induction xs arbitrary: p) auto

lemma dseg_ok: "dseg s p xs q \<Longrightarrow> x \<in> set (p # xs @ [q]) \<Longrightarrow> ok s x"
  by (induction xs arbitrary: p) (auto dest: get_ok)

text \<open>Cutting a segment in front of any position.\<close>

lemma dseg_cut:
  "dseg s p (xs @ ys) q \<longleftrightarrow>
     dseg s p xs (hd (ys @ [q])) \<and> (ys \<noteq> [] \<longrightarrow> dseg s (hd ys) (tl ys) q)"
  by (cases ys) auto

definition klist :: "store \<Rightarrow> klist_hdr \<Rightarrow> ptr list \<Rightarrow> bool" where
  "klist s l xs \<longleftrightarrow> dseg s (l_head l) xs (l_tail l) \<and>
     get_prev s (l_head l) = Some NULL \<and> get_next s (l_tail l) = Some NULL \<and>
     distinct (l_head l # xs @ [l_tail l])"

definition cells :: "klist_hdr \<Rightarrow> ptr list \<Rightarrow> ptr set" where
  "cells l xs = set (l_head l # xs @ [l_tail l])"

lemma klist_ok: "klist s l xs \<Longrightarrow> p \<in> cells l xs \<Longrightarrow> ok s p"
  unfolding klist_def cells_def by (blast dest: dseg_ok)

lemma klist_not_NULL: "klist s l xs \<Longrightarrow> p \<in> cells l xs \<Longrightarrow> p \<noteq> NULL"
  using klist_ok not_ok_NULL by metis

text \<open>A list does not notice changes elsewhere.\<close>

lemma klist_same_outside:
  "klist s l xs \<Longrightarrow> same_outside A s s' \<Longrightarrow> A \<inter> cells l xs = {} \<Longrightarrow> klist s' l xs"
proof -
  assume k: "klist s l xs" and so: "same_outside A s s'" and dj: "A \<inter> cells l xs = {}"
  have same: "get_next s' q = get_next s q" "get_prev s' q = get_prev s q" if "q \<in> cells l xs" for q
    using same_outside_get [OF so] that dj by blast+
  have "dseg s' (l_head l) xs (l_tail l) = dseg s (l_head l) xs (l_tail l)"
    by (rule dseg_cong) (auto intro!: same simp: cells_def)
  with k same show ?thesis by (simp add: klist_def cells_def)
qed

section \<open>Initialisation, insertion, removal\<close>

lemma list_init_klist:
  assumes "ok s (l_head l)" and "ok s (l_tail l)" and "l_head l \<noteq> l_tail l"
  obtains s' where "list_init s l = Some s'" "klist s' l []"
    "same_outside {l_head l, l_tail l} s s'"
proof
  let ?s = "upd_next (upd_prev (upd_next (upd_prev s (l_head l) NULL) (l_head l) (l_tail l))
               (l_tail l) (l_head l)) (l_tail l) NULL"
  show "list_init s l = Some ?s" using assms by (simp add: list_init_def store)
  show "klist ?s l []" using assms by (simp add: klist_def store)
  show "same_outside {l_head l, l_tail l} s ?s"
    using assms by (simp add: same_outside_def store)
qed

lemma list_insert_eq:
  assumes "get_prev s b = Some pr" and "ok s pr" and "ok s e" and "e \<noteq> b"
  shows "list_insert s b e =
    Some (upd_prev (upd_next (upd_next (upd_prev s e pr) e b) pr e) b e)"
proof -
  obtain n where n: "get_next s b = Some n" using get_ok ok_get assms(1) by blast
  have "ok s b" "pr \<noteq> NULL" "e \<noteq> NULL" using assms get_ok by (auto simp: ok_def)
  with assms n show ?thesis by (cases "n = NULL") (simp_all add: list_insert_def store)
qed

lemma dseg_insert:
  assumes d: "dseg s h xs b" and dist: "distinct (h # xs)" "b \<notin> set xs" and "h \<noteq> b"
    and e: "ok s e" "e \<notin> set (h # xs @ [b])"
  shows "dseg (upd_prev (upd_next (upd_next (upd_prev s e (last (h # xs))) e b) (last (h # xs)) e) b e)
           h (xs @ [e]) b" (is "dseg ?s h _ b")
proof -
  let ?pr = "last (h # xs)"
  have oks: "ok s ?pr" "ok s b" using dseg_ok [OF d] last_in_set [of "h # xs"] by auto
  have nb: "?pr \<noteq> b" "?pr \<noteq> e" using dist e assms(4) last_in_set [of "h # xs"] by auto
  have link: "get_next ?s ?pr = Some e" "get_prev ?s e = Some ?pr" "get_next ?s e = Some b"
    "get_prev ?s b = Some e"
    using oks nb e by (auto simp: store)
  show ?thesis
  proof (cases xs rule: rev_cases)
    case Nil
    with link show ?thesis by simp
  next
    case (snoc ys y)
    then have "dseg s h ys y" using d by simp
    moreover have "dseg ?s h ys y = dseg s h ys y"
      using snoc dist e oks assms(4) by (intro dseg_cong) (auto simp: store)
    ultimately show ?thesis using snoc link by simp
  qed
qed

lemma list_insert_klist:
  assumes k: "klist s l (xs @ ys)" and e: "ok s e" "e \<notin> cells l (xs @ ys)"
  obtains s' where "list_insert s (hd (ys @ [l_tail l])) e = Some s'" "klist s' l (xs @ e # ys)"
    "same_outside (cells l (xs @ e # ys)) s s'"
proof -
  define b where "b = hd (ys @ [l_tail l])"
  define pr where "pr = last (l_head l # xs)"
  let ?s = "upd_prev (upd_next (upd_next (upd_prev s e pr) e b) pr e) b e"
  from k have d: "dseg s (l_head l) xs b" "ys \<noteq> [] \<Longrightarrow> dseg s (hd ys) (tl ys) (l_tail l)"
    and hd: "get_prev s (l_head l) = Some NULL" "get_next s (l_tail l) = Some NULL"
    and dist: "distinct (l_head l # xs @ ys @ [l_tail l])"
    unfolding klist_def dseg_cut b_def by auto
  have b: "b \<in> set (ys @ [l_tail l])" unfolding b_def by (rule hd_in_set) simp
  have pr: "pr \<in> set (l_head l # xs)" unfolding pr_def by (rule last_in_set) simp
  have ne: "pr \<noteq> b" "pr \<notin> set ys" "pr \<noteq> l_tail l" "b \<noteq> l_head l" "b \<notin> set (l_head l # xs)"
    using dist pr b by auto
  have oks: "ok s pr" "ok s b" using dseg_ok [OF d(1)] pr by auto
  have eb: "e \<noteq> b" "e \<notin> set (l_head l # xs @ ys @ [l_tail l])" using e b by (auto simp: cells_def)
  have ins: "list_insert s b e = Some ?s"
    using dseg_prev [OF d(1), folded pr_def] oks(1) e(1) eb(1) by (rule list_insert_eq)
  have d1: "dseg ?s (l_head l) (xs @ [e]) b" unfolding pr_def
    using d(1) dist eb e ne by (intro dseg_insert) auto
  have bhd: "ys \<noteq> [] \<Longrightarrow> b = hd ys \<and> b \<notin> set (tl ys) \<and> b \<noteq> l_tail l"
    using dist by (cases ys) (auto simp: b_def)
  have d2: "dseg ?s (hd ys) (tl ys) (l_tail l)" if "ys \<noteq> []"
  proof -
    have "e \<notin> set ys" "set (tl ys) \<subseteq> set ys" "hd ys \<in> set ys"
      using eb that by (auto dest: list.set_sel)
    then have "dseg ?s (hd ys) (tl ys) (l_tail l) = dseg s (hd ys) (tl ys) (l_tail l)"
      using bhd [OF that] ne eb e oks by (intro dseg_cong) (auto simp: store)
    with d(2) [OF that] show ?thesis by simp
  qed
  have "dseg ?s (l_head l) (xs @ e # ys) (l_tail l)"
    using d1 d2 bhd b_def by (cases ys) auto
  then have "klist ?s l (xs @ e # ys)"
    using hd e dist oks eb ne by (auto simp: klist_def store)
  moreover have "same_outside (cells l (xs @ e # ys)) s ?s"
    using e oks pr b by (intro same_outside_upd same_outside_refl) (auto simp: store cells_def)
  ultimately show ?thesis using that ins unfolding b_def by blast
qed

text \<open>The same chain seen as one list of addresses, headers included, which can be cut anywhere.\<close>

fun linked :: "store \<Rightarrow> ptr list \<Rightarrow> bool" where
  "linked s (a # b # xs) \<longleftrightarrow> get_next s a = Some b \<and> get_prev s b = Some a \<and> linked s (b # xs)"
| "linked s _ \<longleftrightarrow> True"

lemma dseg_linked: "dseg s p xs q \<longleftrightarrow> linked s (p # xs @ [q])"
  by (induction xs arbitrary: p) auto

lemma linked_append:
  "xs \<noteq> [] \<Longrightarrow> ys \<noteq> [] \<Longrightarrow> linked s (xs @ ys) \<longleftrightarrow>
     linked s xs \<and> linked s ys \<and> get_next s (last xs) = Some (hd ys) \<and> get_prev s (hd ys) = Some (last xs)"
  by (induction xs rule: induct_list012) (auto simp: neq_Nil_conv)

lemma linked_cong:
  "(\<And>a. a \<in> set (butlast xs) \<Longrightarrow> get_next s' a = get_next s a) \<Longrightarrow>
   (\<And>a. a \<in> set (tl xs) \<Longrightarrow> get_prev s' a = get_prev s a) \<Longrightarrow> linked s' xs = linked s xs"
  by (induction xs rule: induct_list012) auto

lemma distinct_not_last: "distinct xs \<Longrightarrow> a \<in> set (butlast xs) \<Longrightarrow> a \<in> set xs \<and> a \<noteq> last xs"
  by (cases xs rule: rev_cases) auto

lemma distinct_not_hd: "distinct xs \<Longrightarrow> a \<in> set (tl xs) \<Longrightarrow> a \<in> set xs \<and> a \<noteq> hd xs"
  by (cases xs) auto

lemma linked_keep:
  assumes "linked s xs" and "distinct xs"
    and "\<And>a. a \<in> set xs \<Longrightarrow> a \<noteq> last xs \<Longrightarrow> get_next s' a = get_next s a"
    and "\<And>a. a \<in> set xs \<Longrightarrow> a \<noteq> hd xs \<Longrightarrow> get_prev s' a = get_prev s a"
  shows "linked s' xs"
proof -
  have "linked s' xs = linked s xs"
    using assms(3,4) distinct_not_last [OF assms(2)] distinct_not_hd [OF assms(2)]
    by (intro linked_cong) auto
  with assms(1) show ?thesis by simp
qed

lemma klist_linked:
  "klist s l xs \<longleftrightarrow> linked s (l_head l # xs @ [l_tail l]) \<and>
     get_prev s (l_head l) = Some NULL \<and> get_next s (l_tail l) = Some NULL \<and>
     distinct (l_head l # xs @ [l_tail l])"
  by (simp add: klist_def dseg_linked)

lemma klist_link:
  assumes "klist s l (xs @ ys)"
  shows "get_next s (last (l_head l # xs)) = Some (hd (ys @ [l_tail l]))"
    and "get_prev s (hd (ys @ [l_tail l])) = Some (last (l_head l # xs))"
  using assms linked_append [of "l_head l # xs" "ys @ [l_tail l]" s] by (simp_all add: klist_linked)

lemma klist_begin: "klist s l xs \<Longrightarrow> list_begin s l = Some (hd (xs @ [l_tail l]))"
  using klist_link(1) [of s l "[]" xs] by (simp add: list_begin_def)

lemma cells_hd: "hd (ys @ [l_tail l]) \<in> cells l (xs @ ys)"
  by (cases ys) (auto simp: cells_def)

lemma cells_last: "last (l_head l # xs) \<in> cells l (xs @ ys)"
  using last_in_set [of "l_head l # xs"] by (auto simp: cells_def)

lemma klist_next:
  assumes "klist s l (xs @ e # ys)"
  shows "list_next s e = Some (hd (ys @ [l_tail l]))"
proof -
  have n: "get_next s e = Some (hd (ys @ [l_tail l]))"
    using klist_link(1) [of s l "xs @ [e]" ys] assms by simp
  have p: "get_prev s e = Some (last (l_head l # xs))"
    using klist_link(2) [of s l xs "e # ys"] assms by simp
  have "hd (ys @ [l_tail l]) \<noteq> NULL"
    using klist_not_NULL [OF assms] cells_hd [of ys l "xs @ [e]"] by simp
  then show ?thesis by (rule list_next_eq [OF p n])
qed

lemma klist_prev:
  assumes "klist s l (xs @ ys)"
  shows "list_prev s (hd (ys @ [l_tail l])) = Some (last (l_head l # xs))"
proof -
  have p: "get_prev s (hd (ys @ [l_tail l])) = Some (last (l_head l # xs))"
    using klist_link(2) [OF assms] .
  moreover obtain n where "get_next s (hd (ys @ [l_tail l])) = Some n"
    using ok_get [OF get_ok(2) [OF p]] by auto
  moreover have "last (l_head l # xs) \<noteq> NULL" using klist_not_NULL [OF assms] cells_last by simp
  ultimately show ?thesis by (rule list_prev_eq)
qed

lemma klist_interior:
  assumes "klist s l (xs @ e # ys)"
  shows "is_interior s e = Some True"
    and "get_prev s e = Some (last (l_head l # xs))"
    and "get_next s e = Some (hd (ys @ [l_tail l]))"
proof -
  show p: "get_prev s e = Some (last (l_head l # xs))"
    using klist_link(2) [of s l xs "e # ys"] assms by simp
  show n: "get_next s e = Some (hd (ys @ [l_tail l]))"
    using klist_link(1) [of s l "xs @ [e]" ys] assms by simp
  have "hd (ys @ [l_tail l]) \<noteq> NULL"
    using klist_not_NULL [OF assms] cells_hd [of ys l "xs @ [e]"] by simp
  moreover have "last (l_head l # xs) \<noteq> NULL"
    using klist_not_NULL [OF assms] cells_last by metis
  ultimately show "is_interior s e = Some True" using is_interior_eq [OF p n] by simp
qed

lemma klist_interior_mem: "klist s l xs \<Longrightarrow> e \<in> set xs \<Longrightarrow> is_interior s e = Some True"
  using klist_interior(1) split_list [of e xs] by metis

lemma list_remove_klist:
  assumes k: "klist s l (xs @ e # ys)"
  obtains s' where "list_remove s e = Some (hd (ys @ [l_tail l]), s')" "klist s' l (xs @ ys)"
    "same_outside (cells l (xs @ ys)) s s'" "s' e = s e"
proof -
  define A where "A = l_head l # xs"
  define B where "B = ys @ [l_tail l]"
  define p n where "p = last A" and "n = hd B"
  let ?s = "upd_prev (upd_next s p n) n p"
  have ne: "A \<noteq> []" "B \<noteq> []" by (simp_all add: A_def B_def)
  from k have lk: "linked s (A @ [e] @ B)" and dist: "distinct (A @ e # B)"
    and hd: "get_prev s (hd A) = Some NULL" "get_next s (last B) = Some NULL"
    by (simp_all add: klist_linked A_def B_def)
  have pn: "p \<in> set A" "n \<in> set B" using ne by (simp_all add: p_def n_def)
  have neq: "p \<noteq> n" "e \<noteq> p" "e \<noteq> n" "hd A \<noteq> n" "last B \<noteq> p" using dist pn ne
    by (auto dest: hd_in_set last_in_set)
  have oks: "ok s p" "ok s n"
    using klist_ok [OF k] pn by (auto simp: cells_def A_def B_def)
  have int: "is_interior s e = Some True" "get_prev s e = Some p" "get_next s e = Some n"
    using klist_interior [OF k] by (simp_all add: p_def n_def A_def B_def)
  have "linked s A" "linked s B"
    using lk ne linked_append [of "[e]" B s] by (simp_all add: linked_append)
  then have "linked ?s A" "linked ?s B"
    using dist oks pn neq by - (rule linked_keep; auto simp: store p_def [symmetric] n_def [symmetric])+
  then have "linked ?s (A @ B)"
    using ne oks neq by (simp add: linked_append store flip: p_def n_def)
  then have "klist ?s l (xs @ ys)"
    using hd dist oks neq by (simp add: klist_linked A_def B_def store)
  moreover have "list_remove s e = Some (n, ?s)"
    using int oks neq by (simp add: list_remove_def store)
  moreover have "same_outside (cells l (xs @ ys)) s ?s"
    using oks pn by (intro same_outside_upd same_outside_refl) (auto simp: store cells_def A_def B_def)
  moreover have "?s e = s e" using neq by (simp add: store)
  ultimately show ?thesis using that unfolding n_def B_def by blast
qed

lemma list_push_back_klist:
  assumes "klist s l xs" and "ok s e" "e \<notin> cells l xs"
  obtains s' where "list_push_back s l e = Some s'" "klist s' l (xs @ [e])"
    "same_outside (cells l (xs @ [e])) s s'"
  using list_insert_klist [of s l xs "[]" e] assms by (auto simp: list_push_back_def list_end_def)

lemma list_push_front_klist:
  assumes "klist s l xs" and "ok s e" "e \<notin> cells l xs"
  obtains s' where "list_push_front s l e = Some s'" "klist s' l (e # xs)"
    "same_outside (cells l (e # xs)) s s'"
  using list_insert_klist [of s l "[]" xs e] assms klist_begin [of s l xs]
  by (auto simp: list_push_front_def)

lemma list_empty_klist: "klist s l xs \<Longrightarrow> list_empty s l = Some (xs = [])"
  by (cases xs) (auto simp: list_empty_def list_begin_def list_end_def klist_def)

lemma list_front_klist: "klist s l (x # xs) \<Longrightarrow> list_front s l = Some x"
  using klist_begin [of s l "x # xs"] by (simp add: list_front_def list_empty_klist list_begin_def)

lemma list_back_klist: "klist s l (xs @ [x]) \<Longrightarrow> list_back s l = Some x"
  using klist_link(2) [of s l "xs @ [x]" "[]"] by (simp add: list_back_def list_empty_klist)

lemma list_pop_front_klist:
  assumes "klist s l (x # xs)"
  obtains s' where "list_pop_front s l = Some (x, s')" "klist s' l xs"
    "same_outside (cells l xs) s s'"
proof -
  obtain s' where "list_remove s x = Some (hd (xs @ [l_tail l]), s')" "klist s' l xs"
    "same_outside (cells l xs) s s'"
    using list_remove_klist [of s l "[]" x xs] assms by auto
  then show ?thesis using that [of s'] assms by (simp add: list_pop_front_def list_front_klist)
qed

lemma list_pop_back_klist:
  assumes "klist s l (xs @ [x])"
  obtains s' where "list_pop_back s l = Some (x, s')" "klist s' l xs"
    "same_outside (cells l xs) s s'"
proof -
  obtain s' where "list_remove s x = Some (l_tail l, s')" "klist s' l xs"
    "same_outside (cells l xs) s s'"
    using list_remove_klist [of s l xs x "[]"] assms by auto
  then show ?thesis using that [of s'] assms by (simp add: list_pop_back_def list_back_klist)
qed

lemma list_front_empty: "klist s l [] \<Longrightarrow> list_front s l = None \<and> list_back s l = None"
  by (simp add: list_front_def list_back_def list_empty_klist ASSERT_def)

section \<open>Traversals\<close>

text \<open>The address a traversal is at, when the elements \<open>ys\<close> are still ahead of it.\<close>

abbreviation at :: "klist_hdr \<Rightarrow> ptr list \<Rightarrow> ptr" where
  "at l ys \<equiv> hd (ys @ [l_tail l])"

lemma at_end_iff: "klist s l (xs @ ys) \<Longrightarrow> at l ys = l_tail l \<longleftrightarrow> ys = []"
  by (cases ys) (auto simp: klist_def)

lemma klist_tail_fresh: "klist s l (xs @ e # ys) \<Longrightarrow> e \<noteq> l_tail l"
  by (auto simp: klist_def)

lemma list_size_loop_klist:
  "klist s l (xs @ ys) \<Longrightarrow> list_size_loop s (at l ys) (l_tail l) n = Some (n + length ys)"
proof (induction ys arbitrary: xs n)
  case Nil
  show ?case by (simp add: list_size_loop.simps)
next
  case (Cons y ys)
  have "list_size_loop s (at l ys) (l_tail l) (n + 1) = Some (n + 1 + length ys)"
    using Cons.IH [of "xs @ [y]"] Cons.prems by simp
  then show ?case
    using klist_next [OF Cons.prems] klist_tail_fresh [OF Cons.prems]
    by (simp add: list_size_loop.simps)
qed

lemma list_size_klist: "klist s l xs \<Longrightarrow> list_size s l = Some (length xs)"
  using list_size_loop_klist [of s l "[]" xs 0] by (simp add: list_size_def klist_begin list_end_def)

section \<open>Reversal\<close>

lemma swap_links_eq:
  "get_prev s e = Some p \<Longrightarrow> get_next s e = Some n \<Longrightarrow>
   swap_links s e = Some (upd_next (upd_prev s e n) e p)"
  using get_ok(2) [of s e p] by (simp add: swap_links_def store)

lemma list_reverse_loop_linked:
  assumes "linked s (ys @ [t])" and "distinct (ys @ [t])" and "\<And>y. y \<in> set ys \<Longrightarrow> ok s y"
  shows "\<exists>s'. list_reverse_loop s (hd (ys @ [t])) t = Some s' \<and>
     (\<forall>q. get_next s' q = (if q \<in> set ys then get_prev s q else get_next s q)) \<and>
     (\<forall>q. get_prev s' q = (if q \<in> set ys then get_next s q else get_prev s q)) \<and>
     same_outside (set ys) s s'"
  using assms
proof (induction ys arbitrary: s)
  case Nil
  show ?case by (simp add: list_reverse_loop.simps)
next
  case (Cons y ys)
  have okay: "ok s y" using Cons.prems(3) by simp
  then obtain p where p: "get_prev s y = Some p" using ok_get(2) by blast
  have n: "get_next s y = Some (hd (ys @ [t]))" and lk: "linked s (ys @ [t])"
    using Cons.prems(1) linked_append [of "[y]" "ys @ [t]" s] by simp_all
  let ?s = "upd_next (upd_prev s y (hd (ys @ [t]))) y p"
  have sw: "swap_links s y = Some ?s" using p n by (rule swap_links_eq)
  have so: "same_outside {y} s ?s"
    using okay by (intro same_outside_upd same_outside_refl) (auto simp: store)
  have "linked ?s (ys @ [t])"
    using lk Cons.prems(2) okay by (rule_tac linked_keep) (auto simp: store)
  moreover have "\<And>q. q \<in> set ys \<Longrightarrow> ok ?s q" using Cons.prems(3) okay by (simp add: store)
  ultimately obtain s' where s': "list_reverse_loop ?s (hd (ys @ [t])) t = Some s'"
    "\<forall>q. get_next s' q = (if q \<in> set ys then get_prev ?s q else get_next ?s q)"
    "\<forall>q. get_prev s' q = (if q \<in> set ys then get_next ?s q else get_prev ?s q)"
    "same_outside (set ys) ?s s'"
    using Cons.IH [of ?s] Cons.prems(2) by auto
  have "list_reverse_loop s y t = Some s'"
    using sw s'(1) okay Cons.prems(2) by (subst list_reverse_loop.simps) (auto simp: store)
  moreover have "same_outside (set (y # ys)) s s'"
    using so s'(4) by (rule same_outside_trans) auto
  ultimately show ?case using s'(2,3) okay p n Cons.prems(2) by (auto simp: store)
qed

lemma linked_rev:
  "linked s xs \<Longrightarrow> (\<And>a. a \<in> set (tl xs) \<Longrightarrow> get_next s' a = get_prev s a) \<Longrightarrow>
   (\<And>a. a \<in> set (butlast xs) \<Longrightarrow> get_prev s' a = get_next s a) \<Longrightarrow> linked s' (rev xs)"
proof (induction xs rule: induct_list012)
  case (3 a b xs)
  have "linked s' (rev (b # xs))"
    using 3 by (intro "3.IH"(2)) auto
  then show ?case using "3.prems" linked_append [of "rev xs @ [b]" "[a]" s'] by simp
qed simp_all

lemma list_reverse_klist:
  assumes k: "klist s l xs"
  obtains s' where "list_reverse s l = Some s'" "klist s' l (rev xs)" "same_outside (cells l xs) s s'"
proof (cases "xs = []")
  case True
  then show ?thesis using that [of s] k by (simp add: list_reverse_def list_empty_klist)
next
  case False
  define h t x1 xn where "h = l_head l" and "t = l_tail l" and "x1 = hd xs" and "xn = last xs"
  have mem: "x1 \<in> set xs" "xn \<in> set xs" using False by (simp_all add: x1_def xn_def)
  from k have lk: "linked s (h # xs @ [t])" and dist: "distinct (h # xs @ [t])"
    and nul: "get_prev s h = Some NULL" "get_next s t = Some NULL"
    by (simp_all add: klist_linked h_def t_def)
  have cut: "linked s (xs @ [t])" "linked s xs" "get_next s h = Some x1" "get_prev s x1 = Some h"
    "get_prev s t = Some xn" "get_next s xn = Some t"
    using lk False linked_append [of "[h]" "xs @ [t]" s] linked_append [of xs "[t]" s]
    by (simp_all add: x1_def xn_def)
  have oks: "y \<in> set xs \<Longrightarrow> ok s y" "ok s h" "ok s t" for y
    using klist_ok [OF k] by (auto simp: cells_def h_def t_def)
  have neq: "h \<notin> set xs" "t \<notin> set xs" "h \<noteq> t" "h \<noteq> x1" "h \<noteq> xn" "t \<noteq> x1" "t \<noteq> xn"
    using dist mem by auto
  obtain s1 where s1: "list_reverse_loop s (at l xs) (l_tail l) = Some s1"
    "\<And>q. get_next s1 q = (if q \<in> set xs then get_prev s q else get_next s q)"
    "\<And>q. get_prev s1 q = (if q \<in> set xs then get_next s q else get_prev s q)"
    "same_outside (set xs) s s1"
    using list_reverse_loop_linked [OF cut(1)] dist oks(1) by (auto simp: t_def)
  have ok1: "ok s1 q = ok s q" for q using s1(4) by (simp add: same_outside_def)
  let ?s = "upd_next (upd_prev (upd_prev (upd_next s1 h xn) t x1) xn h) x1 t"
  have rev: "list_reverse s l = Some ?s"
    using False k s1(1) klist_begin [OF k] oks neq mem cut ok1
    by (simp add: list_reverse_def list_empty_klist list_end_def store s1(2,3) flip: h_def t_def)
  have "linked ?s (rev xs)"
    using cut(2) distinct_not_hd [of xs, folded x1_def] distinct_not_last [of xs, folded xn_def] dist
      neq oks mem ok1
    by (intro linked_rev [of s]) (auto simp: store s1(2,3))
  then have "linked ?s (h # rev xs @ [t])"
    using False neq oks mem ok1 linked_append [of "[h]" "rev xs @ [t]" ?s] linked_append [of "rev xs" "[t]" ?s]
    by (simp add: store hd_rev last_rev s1(2,3) flip: x1_def xn_def)
  then have "klist ?s l (rev xs)"
    using nul neq oks mem ok1 dist by (simp add: klist_linked store s1(2,3) flip: h_def t_def)
  moreover have "same_outside (cells l xs) s ?s"
    using oks mem ok1
    by (intro same_outside_upd same_outside_mono [OF s1(4)]) (auto simp: store cells_def h_def t_def)
  ultimately show ?thesis using that rev by blast
qed

section \<open>Moving a range\<close>

lemma list_splice_klist:
  assumes k: "klist s l (xs @ ys @ ms @ zs)" and ne: "ys \<noteq> []" "ms \<noteq> []"
  obtains s' where "list_splice s (hd ys) (hd ms) (at l zs) = Some s'" "klist s' l (xs @ ms @ ys @ zs)"
    "same_outside (cells l (xs @ ys @ ms @ zs)) s s'"
proof -
  define A C where "A = l_head l # xs" and "C = zs @ [l_tail l]"
  define a b m where "a = last A" and "b = last ys" and "m = last ms"
  define b' m' c' where "b' = hd ys" and "m' = hd ms" and "c' = hd C"
  note defs = a_def b_def m_def b'_def m'_def c'_def
  have ne': "A \<noteq> []" "C \<noteq> []" by (simp_all add: A_def C_def)
  from k have lk: "linked s (A @ ys @ ms @ C)" and dist: "distinct (A @ ys @ ms @ C)"
    and nul: "get_prev s (hd A) = Some NULL" "get_next s (last C) = Some NULL"
    by (simp_all add: klist_linked A_def C_def)
  have mem: "a \<in> set A" "b \<in> set ys" "m \<in> set ms" "b' \<in> set ys" "m' \<in> set ms" "c' \<in> set C"
      "hd A \<in> set A" "last C \<in> set C"
    using ne ne' by (simp_all add: defs)
  have oks: "ok s a" "ok s b" "ok s m" "ok s b'" "ok s m'" "ok s c'"
    using mem klist_ok [OF k] by (auto simp: cells_def A_def C_def)
  have neq: "a \<noteq> b" "a \<noteq> m" "b \<noteq> m" "b' \<noteq> m'" "b' \<noteq> c'" "m' \<noteq> c'"
    "hd A \<noteq> b'" "hd A \<noteq> m'" "hd A \<noteq> c'" "last C \<noteq> a" "last C \<noteq> b" "last C \<noteq> m"
    using dist mem by auto
  have parts: "linked s A" "linked s ys" "linked s ms" "linked s C"
    and joint: "get_prev s b' = Some a" "get_next s b = Some m'" "get_prev s m' = Some b"
      "get_next s m = Some c'" "get_prev s c' = Some m" "get_next s a = Some b'"
    using lk ne ne' by (auto simp: linked_append defs)
  have int: "is_interior s m' = Some True" "is_interior s m = Some True"
    using klist_interior_mem [OF k] mem by simp_all
  have bef: "is_interior s b' = Some True" using klist_interior_mem [OF k] mem by simp
  obtain tb where tb: "is_tail s b' = Some tb" using is_tail_eq [OF joint(1)] ok_get(1) oks(4) by blast
  have lst: "list_prev s c' = Some m"
    using klist_prev [of s l "xs @ ys @ ms" zs] k ne by (simp add: defs C_def)
  let ?s = "upd_prev (upd_next (upd_next (upd_prev (upd_prev (upd_next s b c') c' b) m' a) m b') a m') b' m"
  have sp: "list_splice s b' m' c' = Some ?s"
    using int bef tb lst joint oks neq by (simp add: list_splice_def store)
  have "linked ?s A" "linked ?s ys" "linked ?s ms" "linked ?s C"
    using parts dist oks mem neq
    by - (rule linked_keep; auto simp: store simp flip: defs)+
  then have "linked ?s (A @ ms @ ys @ C)"
    using ne ne' oks neq by (simp add: linked_append store flip: defs)
  then have "klist ?s l (xs @ ms @ ys @ zs)"
    using nul dist oks neq by (auto simp: klist_linked A_def C_def store)
  moreover have "same_outside (cells l (xs @ ys @ ms @ zs)) s ?s"
    using oks mem by (intro same_outside_upd same_outside_refl) (auto simp: store cells_def A_def C_def)
  ultimately show ?thesis using that sp unfolding b'_def m'_def c'_def C_def by blast
qed

section \<open>The queue interface\<close>

text \<open>Wait queues, the ready list and the lists of free blocks use a list through pushing at one
  end and popping at the other.  The interface says what such a client may rely on.\<close>

fun push_all :: "('s \<Rightarrow> 'q \<Rightarrow> 'a \<Rightarrow> 's option) \<Rightarrow> 's \<Rightarrow> 'q \<Rightarrow> 'a list \<Rightarrow> 's option" where
  "push_all push s q [] = Some s"
| "push_all push s q (x # xs) = do { s' \<leftarrow> push s q x; push_all push s' q xs }"

fun pop_n :: "('s \<Rightarrow> 'q \<Rightarrow> ('a \<times> 's) option) \<Rightarrow> nat \<Rightarrow> 's \<Rightarrow> 'q \<Rightarrow> ('a list \<times> 's) option" where
  "pop_n pop 0 s q = Some ([], s)"
| "pop_n pop (Suc n) s q = do { (x, s') \<leftarrow> pop s q; (xs, s'') \<leftarrow> pop_n pop n s' q; Some (x # xs, s'') }"

locale fifo =
  fixes repr :: "'s \<Rightarrow> 'q \<Rightarrow> 'a list \<Rightarrow> bool"
    and fresh :: "'s \<Rightarrow> 'q \<Rightarrow> 'a list \<Rightarrow> 'a \<Rightarrow> bool"
    and push :: "'s \<Rightarrow> 'q \<Rightarrow> 'a \<Rightarrow> 's option"
    and pop :: "'s \<Rightarrow> 'q \<Rightarrow> ('a \<times> 's) option"
    and emp :: "'s \<Rightarrow> 'q \<Rightarrow> bool option"
  assumes push_repr: "repr s q xs \<Longrightarrow> fresh s q xs x \<Longrightarrow> \<exists>s'. push s q x = Some s' \<and> repr s' q (xs @ [x])"
    and push_fresh: "repr s q xs \<Longrightarrow> fresh s q xs x \<Longrightarrow> push s q x = Some s' \<Longrightarrow>
      fresh s q xs y \<Longrightarrow> y \<noteq> x \<Longrightarrow> fresh s' q (xs @ [x]) y"
    and pop_repr: "repr s q (x # xs) \<Longrightarrow> \<exists>s'. pop s q = Some (x, s') \<and> repr s' q xs"
    and emp_repr: "repr s q xs \<Longrightarrow> emp s q = Some (xs = [])"
begin

lemma push_all_repr:
  "repr s q xs \<Longrightarrow> distinct ys \<Longrightarrow> (\<And>y. y \<in> set ys \<Longrightarrow> fresh s q xs y) \<Longrightarrow>
   \<exists>s'. push_all push s q ys = Some s' \<and> repr s' q (xs @ ys)"
proof (induction ys arbitrary: s xs)
  case (Cons y ys)
  obtain s1 where s1: "push s q y = Some s1" "repr s1 q (xs @ [y])"
    using push_repr Cons.prems(1,3) by fastforce
  have "\<exists>s'. push_all push s1 q ys = Some s' \<and> repr s' q ((xs @ [y]) @ ys)"
    using Cons.prems s1 by (intro Cons.IH) (auto intro: push_fresh)
  with s1 show ?case by auto
qed simp

lemma pop_n_repr:
  "repr s q (xs @ ys) \<Longrightarrow> \<exists>s'. pop_n pop (length xs) s q = Some (xs, s') \<and> repr s' q ys"
proof (induction xs arbitrary: s)
  case (Cons x xs)
  then obtain s1 where "pop s q = Some (x, s1)" "repr s1 q (xs @ ys)"
    using pop_repr [of s q x "xs @ ys"] by auto
  with Cons.IH [of s1] show ?case by auto
qed simp

lemma fifo_order:
  assumes "repr s q xs" and "distinct ys" and "\<And>y. y \<in> set ys \<Longrightarrow> fresh s q xs y"
  shows "\<exists>s1 s2. push_all push s q ys = Some s1 \<and>
    pop_n pop (length (xs @ ys)) s1 q = Some (xs @ ys, s2) \<and> emp s2 q = Some True"
proof -
  obtain s1 where "push_all push s q ys = Some s1" "repr s1 q ((xs @ ys) @ [])"
    using push_all_repr [OF assms] by auto
  with pop_n_repr [of s1 q "xs @ ys" "[]"] emp_repr [of _ q "[]"] show ?thesis by fastforce
qed

end

definition unlinked :: "store \<Rightarrow> klist_hdr \<Rightarrow> ptr list \<Rightarrow> ptr \<Rightarrow> bool" where
  "unlinked s l xs e \<longleftrightarrow> ok s e \<and> e \<notin> cells l xs"

interpretation kq: fifo klist unlinked list_push_back list_pop_front list_empty
proof
  fix s l xs x assume "klist s l xs" "unlinked s l xs x"
  then show "\<exists>s'. list_push_back s l x = Some s' \<and> klist s' l (xs @ [x])"
    using list_push_back_klist unfolding unlinked_def by metis
next
  fix s l xs x s' y
  assume "klist s l xs" "unlinked s l xs x" "list_push_back s l x = Some s'" "unlinked s l xs y" "y \<noteq> x"
  moreover obtain s'' where "list_push_back s l x = Some s''" "same_outside (cells l (xs @ [x])) s s''"
    using list_push_back_klist [of s l xs x] calculation unfolding unlinked_def by metis
  ultimately show "unlinked s' l (xs @ [x]) y" by (auto simp: unlinked_def same_outside_def cells_def)
next
  fix s l x xs assume "klist s l (x # xs)"
  then show "\<exists>s'. list_pop_front s l = Some (x, s') \<and> klist s' l xs"
    using list_pop_front_klist by metis
qed (rule list_empty_klist)

section \<open>Properties\<close>

text \<open>A list of the elements 11, 12, 13 with headers at 1 and 2, and a free element at 14.\<close>

definition ex_hdr :: klist_hdr where
  "ex_hdr = \<lparr>l_head = 1, l_tail = 2\<rparr>"

definition ex_store :: store where
  "ex_store = Map.empty(1 \<mapsto> \<lparr>le_prev = 0, le_next = 11\<rparr>, 11 \<mapsto> \<lparr>le_prev = 1, le_next = 12\<rparr>,
     12 \<mapsto> \<lparr>le_prev = 11, le_next = 13\<rparr>, 13 \<mapsto> \<lparr>le_prev = 12, le_next = 2\<rparr>,
     2 \<mapsto> \<lparr>le_prev = 13, le_next = 0\<rparr>, 14 \<mapsto> \<lparr>le_prev = 0, le_next = 0\<rparr>)"

lemma ex_klist: "klist ex_store ex_hdr [11, 12, 13]"
  by (simp add: klist_def ex_store_def ex_hdr_def get_next_def get_prev_def ld_def)

lemma ex_unlinked: "ok ex_store 14" "14 \<notin> cells ex_hdr [11, 12, 13]"
  by (simp_all add: ok_def ex_store_def ex_hdr_def cells_def)

text \<open>C39. \<^verbatim>\<open>list_insert\<close> and \<^verbatim>\<open>list_remove\<close> are inverse at every position: inserting a live element
  that is in no list in front of any position (the end included) makes it appear exactly there,
  changing only cells of the list, and removing it again gives the old list back and returns the
  element that followed it.\<close>

theorem list_insert_remove:
  assumes "klist s l (xs @ ys)" and "ok s e" and "e \<notin> cells l (xs @ ys)"
  shows "\<exists>s1 s2. list_insert s (at l ys) e = Some s1 \<and> klist s1 l (xs @ e # ys) \<and>
    list_remove s1 e = Some (at l ys, s2) \<and> klist s2 l (xs @ ys) \<and>
    same_outside (insert e (cells l (xs @ ys))) s s2"
proof -
  obtain s1 where s1: "list_insert s (at l ys) e = Some s1" "klist s1 l (xs @ e # ys)"
    "same_outside (cells l (xs @ e # ys)) s s1"
    using list_insert_klist [OF assms] .
  obtain s2 where s2: "list_remove s1 e = Some (at l ys, s2)" "klist s2 l (xs @ ys)"
    "same_outside (cells l (xs @ ys)) s1 s2"
    using list_remove_klist [OF s1(2)] by metis
  have "same_outside (insert e (cells l (xs @ ys))) s s2"
    using s1(3) s2(3) by (rule same_outside_trans) (auto simp: cells_def)
  with s1 s2 show ?thesis by blast
qed

theorem list_insert_remove_witness:
  "\<exists>s1 s2. list_insert ex_store 12 14 = Some s1 \<and> klist s1 ex_hdr [11, 14, 12, 13] \<and>
    list_remove s1 14 = Some (12, s2) \<and> klist s2 ex_hdr [11, 12, 13] \<and>
    same_outside (insert 14 (cells ex_hdr [11, 12, 13])) ex_store s2"
  using list_insert_remove [of ex_store ex_hdr "[11]" "[12, 13]" 14] ex_klist ex_unlinked by simp

text \<open>The list is a first-in first-out queue: elements pushed with \<^verbatim>\<open>list_push_back\<close> come out of
  \<^verbatim>\<open>list_pop_front\<close> in the order in which they went in, after the ones already there, and then
  \<^verbatim>\<open>list_empty\<close> holds.\<close>

theorem list_fifo:
  assumes "klist s l xs" and "distinct ys" and "\<And>y. y \<in> set ys \<Longrightarrow> unlinked s l xs y"
  shows "\<exists>s1 s2. push_all list_push_back s l ys = Some s1 \<and>
    pop_n list_pop_front (length (xs @ ys)) s1 l = Some (xs @ ys, s2) \<and> list_empty s2 l = Some True"
  using assms by (rule kq.fifo_order)

theorem list_fifo_witness:
  "\<exists>s1 s2. push_all list_push_back ex_store ex_hdr [14] = Some s1 \<and>
    pop_n list_pop_front (length ([11, 12, 13] @ [14 :: ptr])) s1 ex_hdr = Some ([11, 12, 13] @ [14], s2) \<and>
    list_empty s2 ex_hdr = Some True"
  by (rule list_fifo [OF ex_klist]) (simp_all add: unlinked_def ex_unlinked)

text \<open>C40. \<^verbatim>\<open>list_reverse\<close> reverses any list in place, whatever its length, and touches nothing else;
  doing it twice restores the order.\<close>

theorem list_reverse_correct:
  assumes "klist s l xs"
  shows "\<exists>s1 s2. list_reverse s l = Some s1 \<and> klist s1 l (rev xs) \<and> same_outside (cells l xs) s s1 \<and>
    list_reverse s1 l = Some s2 \<and> klist s2 l xs"
proof -
  obtain s1 where s1: "list_reverse s l = Some s1" "klist s1 l (rev xs)" "same_outside (cells l xs) s s1"
    using list_reverse_klist [OF assms] .
  obtain s2 where "list_reverse s1 l = Some s2" "klist s2 l (rev (rev xs))"
    using list_reverse_klist [OF s1(2)] by metis
  with s1 show ?thesis by auto
qed

theorem list_reverse_correct_witness:
  "\<exists>s1 s2. list_reverse ex_store ex_hdr = Some s1 \<and> klist s1 ex_hdr [13, 12, 11] \<and>
    same_outside (cells ex_hdr [11, 12, 13]) ex_store s1 \<and>
    list_reverse s1 ex_hdr = Some s2 \<and> klist s2 ex_hdr [11, 12, 13]"
  using list_reverse_correct [OF ex_klist] by simp

end
