(* ===== verification/Inode.thy ===== *)
theory Inode
  imports Buffer_Cache Bytes Bitmap Kernel_List
begin

text \<open>
  Inodes (filesys/inode.c) on the state of the file system.

  The state holds the device and cache, the free map, and a heap of the kernel structures the file
  system allocates: in-memory inodes, their disk images (a \<^verbatim>\<open>struct inode_disk\<close> is addressed by the
  inode that contains it, or by its own \<^verbatim>\<open>calloc\<close> block), open files and open directories.  Address 0
  is null.  \<open>mem_ok n\<close> says whether the \<open>n\<close>th allocation succeeds, and \<open>stack_junk\<close> is what an
  uninitialised local array of 128 sector numbers contains; both are arbitrary.

  Inode growth and the free map call each other: allocating a sector writes the free-map file, and
  writing a file may grow it.  The operations here take the allocation (\<open>al\<close>) and the release (\<open>rl\<close>)
  of sectors as an argument; the theory \<open>Free_Map\<close> ties the knot.
\<close>

section \<open>Data\<close>

definition DIRECT_BLOCKS :: int where
  "DIRECT_BLOCKS = 13"

definition NO_OF_BLOCKS :: int where
  "NO_OF_BLOCKS = 15"

definition INDIRECT_BLOCK_ENTRIES :: int where
  "INDIRECT_BLOCK_ENTRIES = 128"

definition DOUBLE_INDIRECT_BLOCK_ENTRIES :: int where
  "DOUBLE_INDIRECT_BLOCK_ENTRIES = 16384"

definition INODE_MAGIC :: u32 where
  "INODE_MAGIC = 0x494e4f44"

definition FREE_MAP_SECTOR :: block_sector_t where
  "FREE_MAP_SECTOR = 0"

definition ROOT_DIR_SECTOR :: block_sector_t where
  "ROOT_DIR_SECTOR = 1"

text \<open>\<open>id_pad\<close> are the three padding bytes after \<^verbatim>\<open>is_dir\<close>.\<close>

record inode_disk =
  blocks :: "block_sector_t list"
  dir_parent :: block_sector_t
  is_dir :: bool
  id_pad :: "u8 list"
  direct_count :: int
  indirect_count :: int
  double_indirect_count :: int
  start :: block_sector_t
  id_length :: int
  magic :: u32
  unused :: "u32 list"

record inode =
  in_sector :: block_sector_t
  in_open_cnt :: int
  removed :: bool
  deny_write_cnt :: int
  inode_lock :: bool

record open_file =
  f_inode :: ptr
  f_pos :: int
  deny_write :: bool

record dir =
  d_inode :: ptr
  d_pos :: int

record fs =
  cch :: cache
  free_map :: bitmap
  free_map_file :: ptr
  inodes :: "ptr \<Rightarrow> inode option"
  idata :: "ptr \<Rightarrow> inode_disk option"
  open_inodes :: "ptr list"
  files :: "ptr \<Rightarrow> open_file option"
  dirs :: "ptr \<Rightarrow> dir option"
  mem_ok :: "nat \<Rightarrow> bool"
  next_ptr :: ptr
  stack_junk :: "u32 list"
  current_dir :: ptr

text \<open>Allocation of \<open>n\<close> consecutive sectors (the new value of \<^verbatim>\<open>*sectorp\<close>, or nothing when none
  are free), and release.\<close>

type_synonym alloc_op = "nat \<Rightarrow> fs \<Rightarrow> (block_sector_t option \<times> fs) option"
type_synonym release_op = "block_sector_t \<Rightarrow> nat \<Rightarrow> fs \<Rightarrow> fs option"

text \<open>Byte image of a disk inode.\<close>

definition enc_inode :: "inode_disk \<Rightarrow> u8 list" where
  "enc_inode d = enc_words (blocks d) @ u32_bytes (dir_parent d) @ [bool_byte (is_dir d)] @ id_pad d @
     u32_bytes (int_u32 (direct_count d)) @ u32_bytes (int_u32 (indirect_count d)) @
     u32_bytes (int_u32 (double_indirect_count d)) @ u32_bytes (start d) @ u32_bytes (int_u32 (id_length d)) @
     u32_bytes (magic d) @ enc_words (unused d)"

definition dec_inode :: "u8 list \<Rightarrow> inode_disk" where
  "dec_inode bs = \<lparr>blocks = dec_words 15 bs, dir_parent = bytes_u32 (take 4 (drop 60 bs)),
     is_dir = byte_bool (bs ! 64), id_pad = take 3 (drop 65 bs),
     direct_count = u32_int (bytes_u32 (take 4 (drop 68 bs))),
     indirect_count = u32_int (bytes_u32 (take 4 (drop 72 bs))),
     double_indirect_count = u32_int (bytes_u32 (take 4 (drop 76 bs))),
     start = bytes_u32 (take 4 (drop 80 bs)), id_length = u32_int (bytes_u32 (take 4 (drop 84 bs))),
     magic = bytes_u32 (take 4 (drop 88 bs)), unused = dec_words 105 (drop 92 bs)\<rparr>"

section \<open>Access to the state\<close>

text \<open>Array access with a signed index.\<close>

definition iread :: "'a list \<Rightarrow> int \<Rightarrow> 'a option" where
  "iread xs i = (if i < 0 then None else aread xs (nat i))"

definition iwrite :: "'a list \<Rightarrow> int \<Rightarrow> 'a \<Rightarrow> 'a list option" where
  "iwrite xs i v = (if i < 0 then None else awrite xs (nat i) v)"

definition fs_block_read :: "fs \<Rightarrow> block_sector_t \<Rightarrow> (sector_data \<times> fs) option" where
  "fs_block_read fs s = do {
     (d, dev) \<leftarrow> block_read (fs_device (cch fs)) s;
     Some (d, fs\<lparr>cch := (cch fs)\<lparr>fs_device := dev\<rparr>\<rparr>)
   }"

definition fs_block_write :: "fs \<Rightarrow> block_sector_t \<Rightarrow> sector_data \<Rightarrow> fs option" where
  "fs_block_write fs s d = do {
     dev \<leftarrow> block_write (fs_device (cch fs)) s d;
     Some (fs\<lparr>cch := (cch fs)\<lparr>fs_device := dev\<rparr>\<rparr>)
   }"

definition fs_cache_read :: "fs \<Rightarrow> block_sector_t \<Rightarrow> nat \<Rightarrow> nat \<Rightarrow> (u8 list \<times> fs) option" where
  "fs_cache_read fs s ofs sz = do {
     (bs, c) \<leftarrow> cache_read (cch fs) s ofs sz;
     Some (bs, fs\<lparr>cch := c\<rparr>)
   }"

definition fs_cache_write :: "fs \<Rightarrow> block_sector_t \<Rightarrow> u8 list \<Rightarrow> nat \<Rightarrow> nat \<Rightarrow> fs option" where
  "fs_cache_write fs s src ofs sz = do {
     c \<leftarrow> cache_write (cch fs) s src ofs sz;
     Some (fs\<lparr>cch := c\<rparr>)
   }"

text \<open>A fresh address, or null when memory is exhausted.\<close>

definition malloc :: "fs \<Rightarrow> ptr \<times> fs" where
  "malloc fs = (if mem_ok fs (next_ptr fs) then next_ptr fs else NULL, fs\<lparr>next_ptr := next_ptr fs + 1\<rparr>)"

definition set_data :: "fs \<Rightarrow> ptr \<Rightarrow> inode_disk \<Rightarrow> fs" where
  "set_data fs p d = fs\<lparr>idata := (idata fs)(p \<mapsto> d)\<rparr>"

definition set_inode :: "fs \<Rightarrow> ptr \<Rightarrow> inode \<Rightarrow> fs" where
  "set_inode fs p i = fs\<lparr>inodes := (inodes fs)(p \<mapsto> i)\<rparr>"

definition read_words :: "fs \<Rightarrow> block_sector_t \<Rightarrow> (u32 list \<times> fs) option" where
  "read_words fs s = do { (d, fs) \<leftarrow> fs_block_read fs s; Some (dec_words 128 d, fs) }"

definition write_words :: "fs \<Rightarrow> block_sector_t \<Rightarrow> u32 list \<Rightarrow> fs option" where
  "write_words fs s ws = fs_block_write fs s (enc_words ws)"

definition zeros :: sector_data where
  "zeros = replicate BLOCK_SECTOR_SIZE 0"

section \<open>Block lookup\<close>

definition bytes_to_sectors :: "int \<Rightarrow> int" where
  "bytes_to_sectors sz = (sz + int BLOCK_SECTOR_SIZE - 1) div int BLOCK_SECTOR_SIZE"

text \<open>\<^verbatim>\<open>byte_to_sector\<close> for a non-negative position; -1 is \<^verbatim>\<open>0xffffffff\<close>.\<close>

definition byte_to_sector :: "fs \<Rightarrow> inode_disk \<Rightarrow> int \<Rightarrow> (block_sector_t \<times> fs) option" where
  "byte_to_sector fs d pos = (
     if pos < id_length d then
       if pos < DIRECT_BLOCKS * int BLOCK_SECTOR_SIZE then do {
         s \<leftarrow> iread (blocks d) (pos div int BLOCK_SECTOR_SIZE);
         Some (s, fs)
       }
       else if pos < (DIRECT_BLOCKS + 1 * INDIRECT_BLOCK_ENTRIES) * int BLOCK_SECTOR_SIZE then do {
         let pos = pos - DIRECT_BLOCKS * int BLOCK_SECTOR_SIZE;
         let idx = pos div (INDIRECT_BLOCK_ENTRIES * int BLOCK_SECTOR_SIZE) + DIRECT_BLOCKS;
         b \<leftarrow> iread (blocks d) idx;
         (bs, fs) \<leftarrow> read_words fs b;
         let pos = pos mod (INDIRECT_BLOCK_ENTRIES * int BLOCK_SECTOR_SIZE);
         s \<leftarrow> iread bs (pos div int BLOCK_SECTOR_SIZE);
         Some (s, fs)
       }
       else do {
         b \<leftarrow> iread (blocks d) (NO_OF_BLOCKS - 1);
         (bs, fs) \<leftarrow> read_words fs b;
         let pos = pos - (DIRECT_BLOCKS + 1 * INDIRECT_BLOCK_ENTRIES) * int BLOCK_SECTOR_SIZE;
         let idx = pos div (INDIRECT_BLOCK_ENTRIES * int BLOCK_SECTOR_SIZE);
         b \<leftarrow> iread bs idx;
         (bs, fs) \<leftarrow> read_words fs b;
         let pos = pos mod (INDIRECT_BLOCK_ENTRIES * int BLOCK_SECTOR_SIZE);
         s \<leftarrow> iread bs (pos div int BLOCK_SECTOR_SIZE);
         Some (s, fs)
       }
     else Some (0xffffffff, fs))"

section \<open>Growth\<close>

text \<open>\<^verbatim>\<open>free_map_allocate (1, &inode->blocks[i])\<close>: the pointer is taken before the call.\<close>

definition alloc_block :: "alloc_op \<Rightarrow> ptr \<Rightarrow> int \<Rightarrow> fs \<Rightarrow> fs option" where
  "alloc_block al p i fs = do {
     (sec, fs) \<leftarrow> al 1 fs;
     case sec of None \<Rightarrow> Some fs
     | Some s \<Rightarrow> do {
         d \<leftarrow> idata fs p;
         bl \<leftarrow> iwrite (blocks d) i s;
         Some (set_data fs p (d\<lparr>blocks := bl\<rparr>))
       }
   }"

text \<open>The same into a local array.\<close>

definition alloc_local :: "alloc_op \<Rightarrow> u32 list \<Rightarrow> int \<Rightarrow> fs \<Rightarrow> (u32 list \<times> fs) option" where
  "alloc_local al ws i fs = do {
     (sec, fs) \<leftarrow> al 1 fs;
     case sec of None \<Rightarrow> Some (ws, fs)
     | Some s \<Rightarrow> do { ws \<leftarrow> iwrite ws i s; Some (ws, fs) }
   }"

text \<open>The four loops; the first argument that changes is \<^verbatim>\<open>grow_sectors\<close>.\<close>

fun grow_direct :: "alloc_op \<Rightarrow> ptr \<Rightarrow> nat \<Rightarrow> fs \<Rightarrow> (nat \<times> fs) option" where
  "grow_direct al p 0 fs = Some (0, fs)"
| "grow_direct al p (Suc g) fs = do {
     d \<leftarrow> idata fs p;
     if direct_count d < DIRECT_BLOCKS then do {
       fs \<leftarrow> alloc_block al p (direct_count d) fs;
       d \<leftarrow> idata fs p;
       s \<leftarrow> iread (blocks d) (direct_count d);
       fs \<leftarrow> fs_block_write fs s zeros;
       grow_direct al p g (set_data fs p (d\<lparr>direct_count := direct_count d + 1\<rparr>))
     } else Some (Suc g, fs)
   }"

fun grow_indirect :: "alloc_op \<Rightarrow> ptr \<Rightarrow> nat \<Rightarrow> u32 list \<Rightarrow> fs \<Rightarrow> (nat \<times> u32 list \<times> fs) option" where
  "grow_indirect al p 0 bl fs = Some (0, bl, fs)"
| "grow_indirect al p (Suc g) bl fs = do {
     d \<leftarrow> idata fs p;
     if indirect_count d < INDIRECT_BLOCK_ENTRIES then do {
       (bl, fs) \<leftarrow> alloc_local al bl (indirect_count d) fs;
       d \<leftarrow> idata fs p;
       s \<leftarrow> iread bl (indirect_count d);
       fs \<leftarrow> fs_block_write fs s zeros;
       grow_indirect al p g bl (set_data fs p (d\<lparr>indirect_count := indirect_count d + 1\<rparr>))
     } else Some (Suc g, bl, fs)
   }"

fun grow_level_two :: "alloc_op \<Rightarrow> ptr \<Rightarrow> nat \<Rightarrow> int \<Rightarrow> u32 list \<Rightarrow> fs \<Rightarrow> (nat \<times> u32 list \<times> fs) option" where
  "grow_level_two al p 0 level_two_idx level_two fs = Some (0, level_two, fs)"
| "grow_level_two al p (Suc g) level_two_idx level_two fs = (
     if level_two_idx < 128 then do {
       (level_two, fs) \<leftarrow> alloc_local al level_two level_two_idx fs;
       s \<leftarrow> iread level_two level_two_idx;
       fs \<leftarrow> fs_block_write fs s zeros;
       d \<leftarrow> idata fs p;
       grow_level_two al p g (level_two_idx + 1) level_two
         (set_data fs p (d\<lparr>double_indirect_count := double_indirect_count d + 1\<rparr>))
     } else Some (Suc g, level_two, fs))"

lemma grow_level_two_le: "grow_level_two al p g i ws fs = Some (g', r) \<Longrightarrow> g' \<le> g"
proof (induction al p g i ws fs rule: grow_level_two.induct)
  case (2 al p g i ws fs)
  from "2.prems" show ?case
    by (auto simp: bind_eq_Some_conv split: if_splits dest!: "2.IH" [rotated -1])
qed auto

lemma grow_level_two_less: "grow_level_two al p (Suc g) 0 ws fs = Some (g', r) \<Longrightarrow> g' \<le> g"
  by (auto simp: bind_eq_Some_conv dest!: grow_level_two_le)

function grow_double :: "alloc_op \<Rightarrow> ptr \<Rightarrow> nat \<Rightarrow> u32 list \<Rightarrow> u32 list \<Rightarrow> fs \<Rightarrow> (u32 list \<times> fs) option" where
  "grow_double al p 0 level_one level_two fs = Some (level_one, fs)"
| "grow_double al p (Suc g) level_one level_two fs = do {
     d \<leftarrow> idata fs p;
     if double_indirect_count d < DOUBLE_INDIRECT_BLOCK_ENTRIES then do {
       let level_one_idx = double_indirect_count d div 128;
       (level_one, level_two, fs) \<leftarrow>
         (if double_indirect_count d mod 128 = 0 then do {
            (level_one, fs) \<leftarrow> alloc_local al level_one level_one_idx fs;
            Some (level_one, level_two, fs)
          } else do {
            b \<leftarrow> iread level_one level_one_idx;
            (level_two, fs) \<leftarrow> read_words fs b;
            Some (level_one, level_two, fs)
          });
       (g', level_two, fs) \<leftarrow> grow_level_two al p (Suc g) 0 level_two fs;
       b \<leftarrow> iread level_one level_one_idx;
       fs \<leftarrow> write_words fs b level_two;
       grow_double al p g' level_one level_two fs
     } else Some (level_one, fs)
   }"
  by pat_completeness auto
termination
  by (relation "measure (\<lambda>(_, _, g, _). g)") (auto simp del: grow_level_two.simps dest!: grow_level_two_less)

definition inode_grow :: "alloc_op \<Rightarrow> ptr \<Rightarrow> int \<Rightarrow> fs \<Rightarrow> (bool \<times> fs) option" where
  "inode_grow al p len fs = do {
     d \<leftarrow> idata fs p;
     let grow_sectors = nat ((bytes_to_sectors len - bytes_to_sectors (id_length d)) mod 2 ^ 32);
     let fs = set_data fs p (d\<lparr>id_length := len\<rparr>);
     if grow_sectors = 0 then Some (True, fs)
     else do {
       (g, fs) \<leftarrow> grow_direct al p grow_sectors fs;
       (g, fs) \<leftarrow>
         (if g \<noteq> 0 then do {
            d \<leftarrow> idata fs p;
            (bl, fs) \<leftarrow>
              (if indirect_count d = 0 then do {
                 fs \<leftarrow> alloc_block al p (NO_OF_BLOCKS - 2) fs;
                 Some (stack_junk fs, fs)
               } else do {
                 b \<leftarrow> iread (blocks d) (NO_OF_BLOCKS - 2);
                 read_words fs b
               });
            (g, bl, fs) \<leftarrow> grow_indirect al p g bl fs;
            d \<leftarrow> idata fs p;
            b \<leftarrow> iread (blocks d) (NO_OF_BLOCKS - 2);
            fs \<leftarrow> write_words fs b bl;
            Some (g, fs)
          } else Some (g, fs));
       fs \<leftarrow>
         (if g \<noteq> 0 then do {
            d \<leftarrow> idata fs p;
            (level_one, fs) \<leftarrow>
              (if double_indirect_count d = 0 then do {
                 fs \<leftarrow> alloc_block al p (NO_OF_BLOCKS - 1) fs;
                 Some (stack_junk fs, fs)
               } else do {
                 b \<leftarrow> iread (blocks d) (NO_OF_BLOCKS - 1);
                 read_words fs b
               });
            (level_one, fs) \<leftarrow> grow_double al p g level_one (stack_junk fs) fs;
            d \<leftarrow> idata fs p;
            b \<leftarrow> iread (blocks d) (NO_OF_BLOCKS - 1);
            write_words fs b level_one
          } else Some fs);
       Some (True, fs)
     }
   }"

section \<open>Creation, opening, closing\<close>

definition inode_init :: "fs \<Rightarrow> fs" where
  "inode_init fs = fs\<lparr>open_inodes := []\<rparr>"

definition calloc_inode_disk :: inode_disk where
  "calloc_inode_disk = \<lparr>blocks = replicate 15 0, dir_parent = 0, is_dir = False, id_pad = [0, 0, 0],
     direct_count = 0, indirect_count = 0, double_indirect_count = 0, start = 0, id_length = 0, magic = 0,
     unused = replicate 105 0\<rparr>"

definition inode_create :: "alloc_op \<Rightarrow> block_sector_t \<Rightarrow> int \<Rightarrow> bool \<Rightarrow> fs \<Rightarrow> (bool \<times> fs) option" where
  "inode_create al sector len dir fs = do {
     ASSERT (len \<ge> 0);
     let (p, fs) = malloc fs;
     if p = NULL then Some (False, fs)
     else do {
       let fs = set_data fs p (calloc_inode_disk\<lparr>id_length := 0, is_dir := dir, dir_parent := ROOT_DIR_SECTOR,
                  magic := INODE_MAGIC\<rparr>);
       (ok, fs) \<leftarrow> inode_grow al p len fs;
       (success, fs) \<leftarrow>
         (if ok then do {
            d \<leftarrow> idata fs p;
            fs \<leftarrow> fs_block_write fs sector (enc_inode d);
            Some (True, fs)
          } else Some (False, fs));
       Some (success, fs\<lparr>idata := (idata fs)(p := None)\<rparr>)
     }
   }"

definition inode_reopen :: "ptr \<Rightarrow> fs \<Rightarrow> (ptr \<times> fs) option" where
  "inode_reopen p fs =
     (if p = NULL then Some (p, fs)
      else do { i \<leftarrow> inodes fs p; Some (p, set_inode fs p (i\<lparr>in_open_cnt := in_open_cnt i + 1\<rparr>)) })"

text \<open>The search of \<^verbatim>\<open>open_inodes\<close>.\<close>

fun find_open :: "fs \<Rightarrow> block_sector_t \<Rightarrow> ptr list \<Rightarrow> ptr option option" where
  "find_open fs sector [] = Some None"
| "find_open fs sector (p # ps) = do {
     i \<leftarrow> inodes fs p;
     if in_sector i = sector then Some (Some p) else find_open fs sector ps
   }"

definition inode_open :: "block_sector_t \<Rightarrow> fs \<Rightarrow> (ptr \<times> fs) option" where
  "inode_open sector fs = do {
     found \<leftarrow> find_open fs sector (open_inodes fs);
     case found of
       Some p \<Rightarrow> inode_reopen p fs
     | None \<Rightarrow> do {
         let (p, fs) = malloc fs;
         if p = NULL then Some (NULL, fs)
         else do {
           let fs = fs\<lparr>open_inodes := p # open_inodes fs\<rparr>;
           let fs = set_inode fs p \<lparr>in_sector = sector, in_open_cnt = 1, removed = False, deny_write_cnt = 0,
                      inode_lock = False\<rparr>;
           (bs, fs) \<leftarrow> fs_block_read fs sector;
           Some (p, set_data fs p (dec_inode bs))
         }
       }
   }"

definition inode_get_inumber :: "fs \<Rightarrow> ptr \<Rightarrow> block_sector_t option" where
  "inode_get_inumber fs p = map_option in_sector (inodes fs p)"

text \<open>Releasing the sectors of a removed inode.  \<open>sc\<close> is \<^verbatim>\<open>sector_count\<close>, an unsigned counter.\<close>

fun free_direct :: "release_op \<Rightarrow> ptr \<Rightarrow> nat list \<Rightarrow> u32 \<Rightarrow> fs \<Rightarrow> (u32 \<times> fs) option" where
  "free_direct rl p [] sc fs = Some (sc, fs)"
| "free_direct rl p (i # is) sc fs =
     (if sc = 0 then Some (sc, fs)
      else do {
        d \<leftarrow> idata fs p;
        s \<leftarrow> aread (blocks d) i;
        fs \<leftarrow> rl s 1 fs;
        free_direct rl p is (sc - 1) fs
      })"

fun release_range :: "release_op \<Rightarrow> u32 list \<Rightarrow> nat list \<Rightarrow> u32 \<Rightarrow> fs \<Rightarrow> (u32 \<times> fs) option" where
  "release_range rl ws [] sc fs = Some (sc, fs)"
| "release_range rl ws (i # is) sc fs = do {
     s \<leftarrow> aread ws i;
     fs \<leftarrow> rl s 1 fs;
     release_range rl ws is (sc - 1) fs
   }"

fun free_full_blocks :: "release_op \<Rightarrow> u32 list \<Rightarrow> nat list \<Rightarrow> u32 \<Rightarrow> fs \<Rightarrow> (u32 \<times> fs) option" where
  "free_full_blocks rl level_one [] sc fs = Some (sc, fs)"
| "free_full_blocks rl level_one (i # is) sc fs = do {
     b \<leftarrow> aread level_one i;
     (level_two, fs) \<leftarrow> read_words fs b;
     (sc, fs) \<leftarrow> release_range rl level_two [0..<128] sc fs;
     fs \<leftarrow> rl b 1 fs;
     free_full_blocks rl level_one is sc fs
   }"

definition free_inode :: "release_op \<Rightarrow> ptr \<Rightarrow> fs \<Rightarrow> fs option" where
  "free_inode rl p fs = do {
     d \<leftarrow> idata fs p;
     let sc = (word_of_int (bytes_to_sectors (id_length d)) :: u32);
     if sc = 0 then Some fs
     else do {
       (sc, fs) \<leftarrow> free_direct rl p [0..<nat DIRECT_BLOCKS] sc fs;
       (sc, fs) \<leftarrow>
         (if sc > 0 then do {
            d \<leftarrow> idata fs p;
            let blocks_to_free = nat (indirect_count d mod 2 ^ 32);
            b \<leftarrow> iread (blocks d) (NO_OF_BLOCKS - 2);
            (block, fs) \<leftarrow> read_words fs b;
            (sc, fs) \<leftarrow> release_range rl block [0..<blocks_to_free] sc fs;
            fs \<leftarrow> rl b 1 fs;
            Some (sc, fs)
          } else Some (sc, fs));
       if sc > 0 then do {
         d \<leftarrow> idata fs p;
         let n = double_indirect_count d;
         b \<leftarrow> iread (blocks d) (NO_OF_BLOCKS - 1);
         (level_one, fs) \<leftarrow> read_words fs b;
         (sc, fs) \<leftarrow> free_full_blocks rl level_one [0..<nat (n div 128)] sc fs;
         fs \<leftarrow>
           (if sc > 0 then do {
              b2 \<leftarrow> iread level_one (n div 128);
              (level_two, fs) \<leftarrow> read_words fs b2;
              (sc, fs) \<leftarrow> release_range rl level_two [0..<nat (n mod 128)] sc fs;
              rl b2 1 fs
            } else Some fs);
         rl b 1 fs
       } else Some fs
     }
   }"

definition inode_close :: "release_op \<Rightarrow> ptr \<Rightarrow> fs \<Rightarrow> fs option" where
  "inode_close rl p fs = (
     if p = NULL then Some fs
     else do {
       i \<leftarrow> inodes fs p;
       let i = i\<lparr>in_open_cnt := in_open_cnt i - 1\<rparr>;
       let fs = set_inode fs p i;
       if in_open_cnt i = 0 then do {
         let fs = fs\<lparr>open_inodes := remove1 p (open_inodes fs)\<rparr>;
         fs \<leftarrow>
           (if removed i then do {
              fs \<leftarrow> rl (in_sector i) 1 fs;
              free_inode rl p fs
            } else do {
              d \<leftarrow> idata fs p;
              fs_block_write fs (in_sector i) (enc_inode d)
            });
         Some (fs\<lparr>inodes := (inodes fs)(p := None), idata := (idata fs)(p := None)\<rparr>)
       } else Some fs
     })"

definition inode_remove :: "ptr \<Rightarrow> fs \<Rightarrow> fs option" where
  "inode_remove p fs = do { i \<leftarrow> inodes fs p; Some (set_inode fs p (i\<lparr>removed := True\<rparr>)) }"

section \<open>Reading and writing\<close>

text \<open>The loop of \<^verbatim>\<open>inode_read_at\<close>, collecting the bytes read.  A negative offset would index the
  sector before its first byte.\<close>

function inode_read_loop :: "fs \<Rightarrow> ptr \<Rightarrow> int \<Rightarrow> int \<Rightarrow> u8 list \<Rightarrow> (u8 list \<times> fs) option" where
  "inode_read_loop fs p sz offset buffer = (
     if sz > 0 then do {
       ASSERT (offset \<ge> 0);
       d \<leftarrow> idata fs p;
       (sector_idx, fs) \<leftarrow> byte_to_sector fs d offset;
       let sector_ofs = offset mod int BLOCK_SECTOR_SIZE;
       let inode_left = id_length d - offset;
       let sector_left = int BLOCK_SECTOR_SIZE - sector_ofs;
       let min_left = (if inode_left < sector_left then inode_left else sector_left);
       let chunk_size = (if sz < min_left then sz else min_left);
       if chunk_size \<le> 0 then Some (buffer, fs)
       else do {
         (bs, fs) \<leftarrow> fs_cache_read fs sector_idx (nat sector_ofs) (nat chunk_size);
         inode_read_loop fs p (sz - chunk_size) (offset + chunk_size) (buffer @ bs)
       }
     } else Some (buffer, fs))"
  by pat_completeness auto
termination
  by (relation "measure (\<lambda>(_, _, sz, _, _). nat sz)") auto

definition inode_read_at :: "ptr \<Rightarrow> int \<Rightarrow> int \<Rightarrow> fs \<Rightarrow> (u8 list \<times> fs) option" where
  "inode_read_at p sz offset fs = inode_read_loop fs p sz offset []"

function inode_write_loop :: "fs \<Rightarrow> ptr \<Rightarrow> u8 list \<Rightarrow> int \<Rightarrow> int \<Rightarrow> int \<Rightarrow> (int \<times> fs) option" where
  "inode_write_loop fs p buffer sz offset bytes_written = (
     if sz > 0 then do {
       ASSERT (offset \<ge> 0);
       d \<leftarrow> idata fs p;
       (sector_idx, fs) \<leftarrow> byte_to_sector fs d offset;
       let sector_ofs = offset mod int BLOCK_SECTOR_SIZE;
       let inode_left = id_length d - offset;
       let sector_left = int BLOCK_SECTOR_SIZE - sector_ofs;
       let min_left = (if inode_left < sector_left then inode_left else sector_left);
       let chunk_size = (if sz < min_left then sz else min_left);
       if chunk_size \<le> 0 then Some (bytes_written, fs)
       else do {
         fs \<leftarrow> fs_cache_write fs sector_idx (drop (nat bytes_written) buffer) (nat sector_ofs) (nat chunk_size);
         inode_write_loop fs p buffer (sz - chunk_size) (offset + chunk_size) (bytes_written + chunk_size)
       }
     } else Some (bytes_written, fs))"
  by pat_completeness auto
termination
  by (relation "measure (\<lambda>(_, _, _, sz, _, _). nat sz)") auto

declare inode_read_loop.simps [simp del] inode_write_loop.simps [simp del]

definition inode_lock_acquire :: "ptr \<Rightarrow> fs \<Rightarrow> fs option" where
  "inode_lock_acquire p fs = do {
     i \<leftarrow> inodes fs p;
     ASSERT (\<not> inode_lock i);
     Some (set_inode fs p (i\<lparr>inode_lock := True\<rparr>))
   }"

definition inode_lock_release :: "ptr \<Rightarrow> fs \<Rightarrow> fs option" where
  "inode_lock_release p fs = do {
     i \<leftarrow> inodes fs p;
     ASSERT (inode_lock i);
     Some (set_inode fs p (i\<lparr>inode_lock := False\<rparr>))
   }"

definition inode_write_at :: "alloc_op \<Rightarrow> ptr \<Rightarrow> u8 list \<Rightarrow> int \<Rightarrow> int \<Rightarrow> fs \<Rightarrow> (int \<times> fs) option" where
  "inode_write_at al p buffer sz offset fs = do {
     i \<leftarrow> inodes fs p;
     if deny_write_cnt i \<noteq> 0 then Some (0, fs)
     else do {
       d \<leftarrow> idata fs p;
       ASSERT (in_int32 (offset + sz));
       fs \<leftarrow>
         (if offset + sz > id_length d then do {
            fs \<leftarrow> (if \<not> is_dir d then inode_lock_acquire p fs else Some fs);
            (_, fs) \<leftarrow> inode_grow al p (offset + sz) fs;
            d \<leftarrow> idata fs p;
            if \<not> is_dir d then inode_lock_release p fs else Some fs
          } else Some fs);
       inode_write_loop fs p buffer sz offset 0
     }
   }"

definition inode_deny_write :: "ptr \<Rightarrow> fs \<Rightarrow> fs option" where
  "inode_deny_write p fs = do {
     i \<leftarrow> inodes fs p;
     let i = i\<lparr>deny_write_cnt := deny_write_cnt i + 1\<rparr>;
     ASSERT (deny_write_cnt i \<le> in_open_cnt i);
     Some (set_inode fs p i)
   }"

definition inode_allow_write :: "ptr \<Rightarrow> fs \<Rightarrow> fs option" where
  "inode_allow_write p fs = do {
     i \<leftarrow> inodes fs p;
     ASSERT (deny_write_cnt i \<le> in_open_cnt i);
     Some (set_inode fs p (i\<lparr>deny_write_cnt := deny_write_cnt i - 1\<rparr>))
   }"

definition inode_length :: "fs \<Rightarrow> ptr \<Rightarrow> int option" where
  "inode_length fs p = map_option id_length (idata fs p)"

definition inode_is_dir :: "fs \<Rightarrow> ptr \<Rightarrow> bool option" where
  "inode_is_dir fs p = map_option is_dir (idata fs p)"

definition inode_get_open_cnt :: "fs \<Rightarrow> ptr \<Rightarrow> int option" where
  "inode_get_open_cnt fs p = map_option in_open_cnt (inodes fs p)"

definition inode_get_dir_parent :: "fs \<Rightarrow> ptr \<Rightarrow> block_sector_t option" where
  "inode_get_dir_parent fs p = map_option dir_parent (idata fs p)"

definition inode_set_dir_parent :: "release_op \<Rightarrow> block_sector_t \<Rightarrow> block_sector_t \<Rightarrow> fs \<Rightarrow> (bool \<times> fs) option" where
  "inode_set_dir_parent rl parent child fs = do {
     (p, fs) \<leftarrow> inode_open child fs;
     if p = NULL then Some (False, fs)
     else do {
       d \<leftarrow> idata fs p;
       fs \<leftarrow> inode_close rl p (set_data fs p (d\<lparr>dir_parent := parent\<rparr>));
       Some (True, fs)
     }
   }"

end
