(* ===== verification/Inode_Data.thy ===== *)
theory Inode_Data
  imports Free_Map
begin

text \<open>
  What inode data operations do to file contents.  A file's data sectors are a list \<open>secs\<close>
  (\<open>file_map\<close>), found through the direct, indirect and doubly indirect blocks; its contents are the
  bytes the buffer cache shows for them.  Reading returns a slice of the contents, writing within the
  length overwrites a slice, for files of any size the structure can address.
\<close>

section \<open>The byte image of an inode\<close>

definition inode_disk_wf :: "inode_disk \<Rightarrow> bool" where
  "inode_disk_wf d \<longleftrightarrow> length (blocks d) = 15 \<and> length (id_pad d) = 3 \<and> length (unused d) = 105 \<and>
     in_int32 (direct_count d) \<and> in_int32 (indirect_count d) \<and> in_int32 (double_indirect_count d) \<and>
     in_int32 (id_length d)"

lemma length_enc_inode: "inode_disk_wf d \<Longrightarrow> length (enc_inode d) = BLOCK_SECTOR_SIZE"
  by (simp add: enc_inode_def inode_disk_wf_def BLOCK_SECTOR_SIZE_def)

lemma dec_enc_inode:
  assumes "inode_disk_wf d"
  shows "dec_inode (enc_inode d) = d"
proof -
  have "dec_words 15 (enc_words (blocks d) @ xs) = blocks d" for xs
    using assms dec_enc_words [of "blocks d"] by (simp add: inode_disk_wf_def)
  moreover have "dec_words 105 (enc_words (unused d)) = unused d"
    using assms dec_enc_words' [of "unused d"] by (simp add: inode_disk_wf_def)
  ultimately show ?thesis
    using assms unfolding inode_disk_wf_def dec_inode_def enc_inode_def
    by (simp add: nth_append u32_int_u32)
qed

section \<open>Block lookup\<close>

text \<open>Sector reads only count.\<close>

definition ticks :: "nat \<Rightarrow> fs \<Rightarrow> fs" where
  "ticks n fs = fs\<lparr>cch := (cch fs)\<lparr>fs_device := (fs_device (cch fs))
     \<lparr>read_cnt := read_cnt (fs_device (cch fs)) + of_nat n\<rparr>\<rparr>\<rparr>"

lemma ticks_simps [simp]:
  "ticks 0 fs = fs" "ticks m (ticks n fs) = ticks (m + n) fs"
  "idata (ticks n fs) = idata fs" "inodes (ticks n fs) = inodes fs" "files (ticks n fs) = files fs"
  "free_map (ticks n fs) = free_map fs" "free_map_file (ticks n fs) = free_map_file fs"
  "blk_data (fs_device (cch (ticks n fs))) = blk_data (fs_device (cch fs))"
  "csize (cch (ticks n fs)) = csize (cch fs)"
  "round_robin_idx (cch (ticks n fs)) = round_robin_idx (cch fs)"
  by (simp_all add: ticks_def add.commute add.left_commute)

lemma cache_lookup_ticks [simp]: "cache_lookup (cch (ticks n fs)) s = cache_lookup (cch fs) s"
  by (simp add: cache_lookup_def ticks_def)

lemma cview_ticks [simp]: "cview (cch (ticks n fs)) s = cview (cch fs) s"
  by (simp add: cview_def) (simp add: ticks_def)

lemma cached_ticks [simp]: "cached (cch (ticks n fs)) s = cached (cch fs) s"
  by (simp add: cached_def ticks_def)

lemma cache_wf_ticks [simp]: "cache_wf (cch (ticks n fs)) = cache_wf (cch fs)"
  by (simp add: cache_wf_def ticks_def block_wf_def entry_ok_def)

lemma read_words_eq:
  "s < csize (cch fs) \<Longrightarrow> read_words fs s = Some (dec_words 128 (blk_data (fs_device (cch fs)) ! unat s), ticks 1 fs)"
  by (simp add: read_words_def fs_block_read_def block_read_eq ticks_def)

definition index_words :: "block \<Rightarrow> block_sector_t \<Rightarrow> u32 list" where
  "index_words dev s = dec_words 128 (blk_data dev ! unat s)"

text \<open>The sector of the \<open>i\<close>th block of a file, and the index sectors in front of the first \<open>n\<close> blocks.\<close>

definition sector_of :: "block \<Rightarrow> inode_disk \<Rightarrow> nat \<Rightarrow> block_sector_t" where
  "sector_of dev d i =
     (if i < 13 then blocks d ! i
      else if i < 141 then index_words dev (blocks d ! 13) ! (i - 13)
      else index_words dev (index_words dev (blocks d ! 14) ! ((i - 141) div 128)) ! ((i - 141) mod 128))"

definition index_sectors :: "block \<Rightarrow> inode_disk \<Rightarrow> nat \<Rightarrow> block_sector_t set" where
  "index_sectors dev d n =
     (if n > 13 then {blocks d ! 13} else {}) \<union>
     (if n > 141 then insert (blocks d ! 14)
        ((\<lambda>i. index_words dev (blocks d ! 14) ! ((i - 141) div 128)) ` {141..<n}) else {})"

lemma iread_int [simp]: "iread xs (int k) = aread xs k"
  by (simp add: iread_def)

lemma byte_to_sector_eq:
  assumes bl: "length (blocks d) = 15" and n: "int n < id_length d" and i: "i = n div 512" "i < 141 + 16384"
    and idx: "\<forall>s \<in> index_sectors (fs_device (cch fs)) d (Suc i). s < csize (cch fs)"
  shows "\<exists>k. byte_to_sector fs d (int n) = Some (sector_of (fs_device (cch fs)) d i, ticks k fs)"
proof -
  let ?dev = "fs_device (cch fs)"
  note szs = DIRECT_BLOCKS_def INDIRECT_BLOCK_ENTRIES_def NO_OF_BLOCKS_def BLOCK_SECTOR_SIZE_def
  consider (direct) "n < 6656" | (indirect) "6656 \<le> n" "n < 72192" | (double) "72192 \<le> n" by linarith
  then show ?thesis
  proof cases
    case direct
    have "int n div 512 = int i" by (simp add: i zdiv_int)
    moreover have "i < 13" using direct i by simp
    ultimately have "byte_to_sector fs d (int n) = Some (sector_of ?dev d i, ticks 0 fs)"
      using n direct bl by (simp add: byte_to_sector_def sector_of_def szs)
    then show ?thesis by blast
  next
    case indirect
    have i': "13 \<le> i" "i < 141" using indirect i by auto
    have pos: "int n - 6656 = int (n - 6656)" using indirect by simp
    define j where "j = i - 13"
    have b: "(int n - 6656) div 65536 + 13 = 13" "(int n - 6656) mod 65536 div 512 = int j" "j < 128"
      using indirect i' unfolding pos j_def i(1) by (simp_all add: zdiv_int [symmetric] zmod_int [symmetric])
    have "blocks d ! 13 < csize (cch fs)" using idx i' by (simp add: index_sectors_def)
    moreover have "iread (blocks d) 13 = Some (blocks d ! 13)" using bl by (simp add: iread_def)
    ultimately have "byte_to_sector fs d (int n) = Some (sector_of ?dev d i, ticks 1 fs)"
      using n indirect bl b i' unfolding byte_to_sector_def sector_of_def index_words_def j_def [symmetric]
      by (simp add: szs read_words_eq)
    then show ?thesis by blast
  next
    case double
    have i': "141 \<le> i" using double i by simp
    define q where "q = n - 72192"
    have pos: "int n - 72192 = int q" using double by (simp add: q_def)
    have qi: "q div 512 = i - 141" using double by (simp add: q_def i)
    have "q div 65536 = q div 512 div 128" by (simp flip: div_mult2_eq)
    define j1 j2 where "j1 = (i - 141) div 128" and "j2 = (i - 141) mod 128"
    have "int q div 65536 = int (q div 65536)" by (simp add: zdiv_int)
    with \<open>q div 65536 = q div 512 div 128\<close> have b1: "int q div 65536 = int j1" by (simp only: qi j1_def)
    have "q mod 65536 div 512 = q div 512 mod 128" using mod_mult2_eq [of q 512 128] by simp
    moreover have "int q mod 65536 div 512 = int (q mod 65536 div 512)" by (simp add: zdiv_int zmod_int)
    ultimately have b2: "int q mod 65536 div 512 = int j2" by (simp only: qi j2_def)
    have lt: "j1 < 128" "j2 < 128" using i(2) by (simp_all add: j1_def j2_def)
    have s: "blocks d ! 14 < csize (cch fs)"
      "index_words ?dev (blocks d ! 14) ! j1 < csize (cch fs)"
      using idx i' by (auto simp: index_sectors_def j1_def)
    moreover have "iread (blocks d) 14 = Some (blocks d ! 14)" using bl by (simp add: iread_def)
    ultimately have "byte_to_sector fs d (int n) = Some (sector_of ?dev d i, ticks 2 fs)"
      using n double bl i' lt b1 b2 pos unfolding byte_to_sector_def sector_of_def j1_def [symmetric] j2_def [symmetric]
      by (simp add: index_words_def szs read_words_eq numeral_2_eq_2)
    then show ?thesis by blast
  qed
qed

section \<open>Files\<close>

definition file_map :: "cache \<Rightarrow> inode_disk \<Rightarrow> block_sector_t list \<Rightarrow> bool" where
  "file_map c d secs \<longleftrightarrow> length (blocks d) = 15 \<and> 0 \<le> id_length d \<and>
     int (length secs) = bytes_to_sectors (id_length d) \<and> length secs \<le> 141 + 16384 \<and>
     (\<forall>i < length secs. sector_of (fs_device c) d i = secs ! i) \<and> distinct secs \<and> (\<forall>s \<in> set secs. s < csize c) \<and>
     (\<forall>s \<in> index_sectors (fs_device c) d (length secs). s < csize c \<and> \<not> cached c s \<and> s \<notin> set secs)"

definition contents :: "cache \<Rightarrow> inode_disk \<Rightarrow> block_sector_t list \<Rightarrow> u8 list" where
  "contents c d secs = take (nat (id_length d)) (concat (map (cview c) secs))"

lemma file_map_length: "file_map c d secs \<Longrightarrow> nat (id_length d) \<le> 512 * length secs"
  by (auto simp: file_map_def bytes_to_sectors_def BLOCK_SECTOR_SIZE_def)

lemma file_map_index:
  assumes "file_map c d secs" and "int n < id_length d"
  shows "n div 512 < length secs"
  using file_map_length [OF assms(1)] assms(2) by (simp add: div_less_iff_less_mult)

lemma sectors_512: "cache_wf c \<Longrightarrow> file_map c d secs \<Longrightarrow> \<forall>l \<in> set (map (cview c) secs). length l = 512"
  using cview_sector_ok by (auto simp: file_map_def sector_ok_def BLOCK_SECTOR_SIZE_def)

lemma length_contents: "cache_wf c \<Longrightarrow> file_map c d secs \<Longrightarrow> length (contents c d secs) = nat (id_length d)"
  using length_concat_const [OF sectors_512] file_map_length by (simp add: contents_def)

lemma index_sectors_mono: "m \<le> n \<Longrightarrow> index_sectors dev d m \<subseteq> index_sectors dev d n"
  by (auto simp: index_sectors_def)

text \<open>The block table survives what leaves the index sectors alone.\<close>

lemma sector_of_cong:
  assumes "\<And>s. s \<in> index_sectors dev d n \<Longrightarrow> blk_data dev' ! unat s = blk_data dev ! unat s"
  shows "index_sectors dev' d n = index_sectors dev d n" and "i < n \<Longrightarrow> sector_of dev' d i = sector_of dev d i"
proof -
  have w: "index_words dev' s = index_words dev s" if "s \<in> index_sectors dev d n" for s
    using assms that by (simp add: index_words_def)
  have w13: "n > 13 \<Longrightarrow> index_words dev' (blocks d ! 13) = index_words dev (blocks d ! 13)"
    and w14: "n > 141 \<Longrightarrow> index_words dev' (blocks d ! 14) = index_words dev (blocks d ! 14)"
    using w by (auto simp: index_sectors_def)
  show "index_sectors dev' d n = index_sectors dev d n" using w14 by (simp add: index_sectors_def)
  have "index_words dev' (index_words dev (blocks d ! 14) ! ((i - 141) div 128)) =
      index_words dev (index_words dev (blocks d ! 14) ! ((i - 141) div 128))" if "141 \<le> i" "i < n"
    using that by (intro w) (auto simp: index_sectors_def)
  then show "i < n \<Longrightarrow> sector_of dev' d i = sector_of dev d i"
    using w13 w14 by (auto simp: sector_of_def)
qed

lemma file_map_step:
  assumes m: "file_map c d secs" and sz: "csize c' = csize c"
    and unc: "\<And>t. t \<notin> set secs \<Longrightarrow> cached c' t \<Longrightarrow> cached c t"
    and v: "\<And>t. t < csize c \<Longrightarrow> t \<notin> set secs \<Longrightarrow> cview c' t = cview c t"
  shows "file_map c' d secs"
proof -
  have idx: "s < csize c" "\<not> cached c s" "s \<notin> set secs" if "s \<in> index_sectors (fs_device c) d (length secs)" for s
    using m that by (auto simp: file_map_def)
  have same: "blk_data (fs_device c') ! unat s = blk_data (fs_device c) ! unat s"
    if "s \<in> index_sectors (fs_device c) d (length secs)" for s
    using idx [OF that] unc v cview_uncached [of c s] cview_uncached [of c' s] by metis
  have "index_sectors (fs_device c') d (length secs) = index_sectors (fs_device c) d (length secs)"
    "i < length secs \<Longrightarrow> sector_of (fs_device c') d i = sector_of (fs_device c) d i" for i
    using sector_of_cong [of "fs_device c" d "length secs" "fs_device c'"] same by blast+
  moreover have "\<not> cached c' s" if "s \<in> index_sectors (fs_device c) d (length secs)" for s
    using idx [OF that] unc by blast
  ultimately show ?thesis using m sz by (auto simp: file_map_def)
qed

section \<open>The read loop\<close>

lemma cch_update_id [simp]: "fs\<lparr>cch := cch fs\<rparr> = (fs :: fs)"
  by simp

lemma ticks_cch: "\<exists>c. ticks k fs = fs\<lparr>cch := c\<rparr>"
  by (auto simp: ticks_def)

lemma contents_slice:
  assumes wf: "cache_wf c" and m: "file_map c d secs" and n: "int n < id_length d"
    and k: "n mod 512 + k \<le> 512" "int (n + k) \<le> id_length d"
  shows "take k (drop n (contents c d secs)) = take k (drop (n mod 512) (cview c (secs ! (n div 512))))"
proof -
  have i: "n div 512 < length secs" using file_map_index [OF m n] .
  have "take k (drop n (contents c d secs)) = take k (drop n (concat (map (cview c) secs)))"
    using k(2) by (simp add: contents_def drop_take min_def)
  also have "\<dots> = take k (drop (n mod 512) (map (cview c) secs ! (n div 512)))"
    using concat_slice [OF sectors_512 [OF wf m], of "n div 512" "n mod 512" k] i k(1) by simp
  finally show ?thesis using i by simp
qed

lemma byte_to_sector_file:
  assumes m: "file_map (cch fs) d secs" and n: "int n < id_length d"
  obtains k where "byte_to_sector fs d (int n) = Some (secs ! (n div 512), ticks k fs)"
proof -
  have i: "n div 512 < length secs" using file_map_index [OF m n] .
  have "\<forall>s \<in> index_sectors (fs_device (cch fs)) d (Suc (n div 512)). s < csize (cch fs)"
    using m index_sectors_mono [of "Suc (n div 512)" "length secs"] i by (fastforce simp: file_map_def)
  then have "\<exists>k. byte_to_sector fs d (int n) = Some (sector_of (fs_device (cch fs)) d (n div 512), ticks k fs)"
    using m n i by (intro byte_to_sector_eq) (auto simp: file_map_def)
  then show ?thesis using that m i by (auto simp: file_map_def)
qed

definition chunk :: "inode_disk \<Rightarrow> int \<Rightarrow> nat \<Rightarrow> int" where
  "chunk d sz n = (let inode_left = id_length d - int n; sector_left = 512 - int (n mod 512);
     min_left = (if inode_left < sector_left then inode_left else sector_left) in
     if sz < min_left then sz else min_left)"

lemma chunk_le_0: "chunk d sz n \<le> 0 \<longleftrightarrow> sz \<le> 0 \<or> id_length d \<le> int n"
proof -
  have "int (n mod 512) < 512" by simp
  then show ?thesis unfolding chunk_def Let_def by (auto split: if_splits)
qed

lemma chunk_bounds:
  assumes "sz > 0" and "int n < id_length d"
  obtains k where "chunk d sz n = int k" "0 < k" "int k \<le> sz" "n mod 512 + k \<le> 512" "int (n + k) \<le> id_length d"
proof (rule that [of "nat (chunk d sz n)"])
  have pos: "chunk d sz n > 0" using assms chunk_le_0 [of d sz n] by simp
  have "chunk d sz n \<le> sz" "chunk d sz n \<le> id_length d - int n" "chunk d sz n \<le> 512 - int (n mod 512)"
    unfolding chunk_def Let_def by (simp_all split: if_splits)
  with pos show "chunk d sz n = int (nat (chunk d sz n))" "0 < nat (chunk d sz n)" "int (nat (chunk d sz n)) \<le> sz"
    "n mod 512 + nat (chunk d sz n) \<le> 512" "int (n + nat (chunk d sz n)) \<le> id_length d"
    by linarith+
qed

lemma inode_read_loop_unfold:
  assumes "sz > 0" and "idata fs p = Some d" and "byte_to_sector fs d (int n) = Some (s, fs1)"
  shows "inode_read_loop fs p sz (int n) buf =
    (if chunk d sz n \<le> 0 then Some (buf, fs1)
     else do { (bs, fs2) \<leftarrow> fs_cache_read fs1 s (n mod 512) (nat (chunk d sz n));
               inode_read_loop fs2 p (sz - chunk d sz n) (int n + chunk d sz n) (buf @ bs) })"
proof -
  have m: "int BLOCK_SECTOR_SIZE = 512" "int n mod 512 = int (n mod 512)"
    by (simp_all add: zmod_int BLOCK_SECTOR_SIZE_def)
  show ?thesis
    using assms unfolding inode_read_loop.simps [of fs p sz] m chunk_def Let_def
    by (simp only: if_True ASSERT_def of_nat_0_le_iff Option.bind.simps prod.case nat_int)
qed
lemma inode_read_loop_ok:
  assumes "cache_wf (cch fs)" and "file_map (cch fs) d secs" and "idata fs p = Some d"
    and "round_robin_idx (cch fs) + max 0 sz \<le> INT_MAX"
  shows "\<exists>c'. inode_read_loop fs p sz (int n) buf =
      Some (buf @ take (nat sz) (drop n (contents (cch fs) d secs)), fs\<lparr>cch := c'\<rparr>) \<and>
    cache_wf c' \<and> csize c' = csize (cch fs) \<and> round_robin_idx c' \<le> round_robin_idx (cch fs) + max 0 sz \<and>
    round_robin_idx (cch fs) \<le> round_robin_idx c' \<and>
    (\<forall>t < csize (cch fs). cview c' t = cview (cch fs) t) \<and> (\<forall>t. t \<notin> set secs \<longrightarrow> cached c' t \<longrightarrow> cached (cch fs) t)"
  using assms
proof (induction "nat sz" arbitrary: fs sz n buf rule: less_induct)
  case less
  note wf = less.prems(1) and m = less.prems(2) and dp = less.prems(3) and rr = less.prems(4)
  show ?case
  proof (cases "sz \<le> 0 \<or> id_length d \<le> int n")
    case True
    then have e: "take (nat sz) (drop n (contents (cch fs) d secs)) = []"
      using length_contents [OF wf m] by auto
    have "inode_read_loop fs p sz (int n) buf = Some (buf, fs\<lparr>cch := cch fs\<rparr>)"
    proof (cases "sz \<le> 0")
      case False
      then have b: "byte_to_sector fs d (int n) = Some (0xffffffff, fs)" using True by (simp add: byte_to_sector_def)
      show ?thesis using inode_read_loop_unfold [OF _ dp b] False True chunk_le_0 [of d sz n] by simp
    qed (simp add: inode_read_loop.simps)
    then show ?thesis using e wf by (rule_tac exI [of _ "cch fs"]) simp
  next
    case False
    then have n: "int n < id_length d" and sz: "sz > 0" by auto
    obtain k where k: "chunk d sz n = int k" "0 < k" "int k \<le> sz" "n mod 512 + k \<le> 512" "int (n + k) \<le> id_length d"
      using chunk_bounds [OF sz n] .
    define s where "s = secs ! (n div 512)"
    have sin: "s \<in> set secs" "s < csize (cch fs)"
      using file_map_index [OF m n] m by (auto simp: s_def file_map_def)
    obtain t where b: "byte_to_sector fs d (int n) = Some (s, ticks t fs)"
      using byte_to_sector_file [OF m n] unfolding s_def by blast
    obtain c1 where c1: "cache_read (cch (ticks t fs)) s (n mod 512) k =
        Some (take k (drop (n mod 512) (cview (cch (ticks t fs)) s)), c1)" "cache_wf c1"
      "csize c1 = csize (cch (ticks t fs))" "round_robin_idx (cch (ticks t fs)) \<le> round_robin_idx c1"
      "round_robin_idx c1 \<le> round_robin_idx (cch (ticks t fs)) + 1"
      "\<forall>u < csize (cch (ticks t fs)). cview c1 u = cview (cch (ticks t fs)) u"
      "\<forall>u. u \<noteq> s \<longrightarrow> cached c1 u \<longrightarrow> cached (cch (ticks t fs)) u"
      using cache_read_ok [of "cch (ticks t fs)" s "n mod 512" k] wf sin(2) rr sz k(4)
      by (auto simp: BLOCK_SECTOR_SIZE_def)
    define fs1 where "fs1 = fs\<lparr>cch := c1\<rparr>"
    have fs1: "cch fs1 = c1" "(ticks t fs)\<lparr>cch := c1\<rparr> = fs1" "idata fs1 p = Some d" "fs1\<lparr>cch := x\<rparr> = fs\<lparr>cch := x\<rparr>" for x
      using dp by (simp_all add: fs1_def ticks_def)
    have m1: "file_map c1 d secs"
      using c1 sin(1) by (intro file_map_step [OF m]) auto
    have cont: "contents c1 d secs = contents (cch fs) d secs"
      using c1(6) m by (auto simp: contents_def file_map_def intro!: arg_cong [where f = "\<lambda>x. take _ (concat x)"])
    have h: "nat (sz - int k) < nat sz" "cache_wf (cch fs1)" "file_map (cch fs1) d secs"
      "round_robin_idx (cch fs1) + max 0 (sz - int k) \<le> INT_MAX"
      using k(2,3) c1(2,5) m1 fs1(1) rr by simp_all
    obtain c' where r: "inode_read_loop fs1 p (sz - int k) (int (n + k)) (buf @ take k (drop (n mod 512) (cview (cch fs) s))) =
        Some ((buf @ take k (drop (n mod 512) (cview (cch fs) s))) @
          take (nat (sz - int k)) (drop (n + k) (contents c1 d secs)), fs1\<lparr>cch := c'\<rparr>)"
      "cache_wf c'" "csize c' = csize c1" "round_robin_idx c' \<le> round_robin_idx c1 + max 0 (sz - int k)"
      "round_robin_idx c1 \<le> round_robin_idx c'"
      "\<forall>t < csize c1. cview c' t = cview c1 t" "\<forall>t. t \<notin> set secs \<longrightarrow> cached c' t \<longrightarrow> cached c1 t"
      using less.hyps [OF h(1-3) fs1(3) h(4)] unfolding fs1(1) by blast
    have "inode_read_loop fs p sz (int n) buf =
        inode_read_loop fs1 p (sz - int k) (int (n + k)) (buf @ take k (drop (n mod 512) (cview (cch fs) s)))"
      using inode_read_loop_unfold [OF sz dp b] k(1,2) c1(1) fs1(2) by (simp add: fs_cache_read_def)
    moreover have "take k (drop (n mod 512) (cview (cch fs) s)) @ take (nat (sz - int k)) (drop (n + k) (contents (cch fs) d secs)) =
        take (nat sz) (drop n (contents (cch fs) d secs))"
      using contents_slice [OF wf m n k(4,5), folded s_def] k(3) take_add [of k "nat (sz - int k)" "drop n (contents (cch fs) d secs)"]
      by (simp add: nat_diff_distrib add.commute)
    ultimately have "inode_read_loop fs p sz (int n) buf =
        Some (buf @ take (nat sz) (drop n (contents (cch fs) d secs)), fs\<lparr>cch := c'\<rparr>)"
      using r(1) fs1(4) cont by simp
    moreover have "csize c' = csize (cch fs)" "\<forall>t < csize (cch fs). cview c' t = cview (cch fs) t"
      using r(3,6) c1(3,6) by simp_all
    moreover have "round_robin_idx c' \<le> round_robin_idx (cch fs) + max 0 sz" "round_robin_idx (cch fs) \<le> round_robin_idx c'"
      using r(4,5) c1(4,5) k(2,3) by simp_all
    moreover have "\<forall>t. t \<notin> set secs \<longrightarrow> cached c' t \<longrightarrow> cached (cch fs) t" using r(7) c1(7) sin(1) by auto
    ultimately show ?thesis using r(2) by blast
  qed
qed

section \<open>The write loop\<close>

lemma overwrite_adjacent:
  "n + length xs + length ys \<le> length buf \<Longrightarrow> overwrite (overwrite buf n xs) (n + length xs) ys = overwrite buf n (xs @ ys)"
  by (simp add: overwrite_def add_ac)

lemma contents_overwrite:
  assumes wf: "cache_wf c" and m: "file_map c d secs" and n: "int n < id_length d"
    and k: "n mod 512 + length src \<le> 512" "int (n + length src) \<le> id_length d"
    and c1: "\<forall>t < csize c. cview c1 t =
      (if t = secs ! (n div 512) then overwrite (cview c (secs ! (n div 512))) (n mod 512) src else cview c t)"
  shows "contents c1 d secs = overwrite (contents c d secs) n src"
proof -
  have i: "n div 512 < length secs" using file_map_index [OF m n] .
  have dist: "distinct secs" and lt: "\<forall>s \<in> set secs. s < csize c" using m by (auto simp: file_map_def)
  let ?v = "overwrite (cview c (secs ! (n div 512))) (n mod 512) src"
  have "map (cview c1) secs = (map (cview c) secs)[n div 512 := ?v]"
    using c1 lt dist i by (intro nth_equalityI) (auto simp: nth_list_update nth_eq_iff_index_eq)
  also have "concat \<dots> = overwrite (concat (map (cview c) secs)) n src"
    using concat_overwrite [OF sectors_512 [OF wf m], of "n div 512" "n mod 512" src] i k(1) by simp
  finally show ?thesis
    using k(2) take_overwrite [of n src "nat (id_length d)" "concat (map (cview c) secs)"]
      length_concat_const [OF sectors_512 [OF wf m]] file_map_length [OF m]
    by (simp add: contents_def)
qed

lemma inode_write_loop_unfold:
  assumes "sz > 0" and "idata fs p = Some d" and "byte_to_sector fs d (int n) = Some (s, fs1)"
  shows "inode_write_loop fs p buf sz (int n) (int w) =
    (if chunk d sz n \<le> 0 then Some (int w, fs1)
     else do { fs2 \<leftarrow> fs_cache_write fs1 s (drop w buf) (n mod 512) (nat (chunk d sz n));
               inode_write_loop fs2 p buf (sz - chunk d sz n) (int n + chunk d sz n) (int w + chunk d sz n) })"
proof -
  have m: "int BLOCK_SECTOR_SIZE = 512" "int n mod 512 = int (n mod 512)"
    by (simp_all add: zmod_int BLOCK_SECTOR_SIZE_def)
  show ?thesis
    using assms unfolding inode_write_loop.simps [of fs p buf sz] m chunk_def Let_def
    by (simp only: if_True ASSERT_def of_nat_0_le_iff Option.bind.simps prod.case nat_int)
qed

lemma inode_write_loop_ok:
  assumes "cache_wf (cch fs)" and "file_map (cch fs) d secs" and "idata fs p = Some d"
    and "round_robin_idx (cch fs) + sz \<le> INT_MAX" and "0 \<le> sz" and "int n + sz \<le> id_length d"
    and "w + nat sz \<le> length buf"
  shows "\<exists>c'. inode_write_loop fs p buf sz (int n) (int w) = Some (int w + sz, fs\<lparr>cch := c'\<rparr>) \<and>
    cache_wf c' \<and> csize c' = csize (cch fs) \<and> round_robin_idx c' \<le> round_robin_idx (cch fs) + sz \<and>
    round_robin_idx (cch fs) \<le> round_robin_idx c' \<and>
    contents c' d secs = overwrite (contents (cch fs) d secs) n (take (nat sz) (drop w buf)) \<and> file_map c' d secs \<and>
    (\<forall>t < csize (cch fs). t \<notin> set secs \<longrightarrow> cview c' t = cview (cch fs) t) \<and>
    (\<forall>t. t \<notin> set secs \<longrightarrow> cached c' t \<longrightarrow> cached (cch fs) t)"
  using assms
proof (induction "nat sz" arbitrary: fs sz n w rule: less_induct)
  case less
  note wf = less.prems(1) and m = less.prems(2) and dp = less.prems(3) and rr = less.prems(4) and len = less.prems(6)
  show ?case
  proof (cases "sz \<le> 0")
    case True
    then show ?thesis using wf m less.prems(5)
      by (rule_tac exI [of _ "cch fs"]) (simp add: inode_write_loop.simps overwrite_def)
  next
    case False
    then have n: "int n < id_length d" and sz: "sz > 0" using len by auto
    obtain k where k: "chunk d sz n = int k" "0 < k" "int k \<le> sz" "n mod 512 + k \<le> 512" "int (n + k) \<le> id_length d"
      using chunk_bounds [OF sz n] .
    define s src where "s = secs ! (n div 512)" and "src = take k (drop w buf)"
    have sl: "length src = k" "k \<le> length (drop w buf)" using k(3) less.prems(7) by (auto simp: src_def)
    have sin: "s \<in> set secs" "s < csize (cch fs)"
      using file_map_index [OF m n] m by (auto simp: s_def file_map_def)
    obtain t where b: "byte_to_sector fs d (int n) = Some (s, ticks t fs)"
      using byte_to_sector_file [OF m n] unfolding s_def by blast
    obtain c1 where c1: "cache_write (cch (ticks t fs)) s (drop w buf) (n mod 512) k = Some c1" "cache_wf c1"
      "csize c1 = csize (cch (ticks t fs))" "round_robin_idx (cch (ticks t fs)) \<le> round_robin_idx c1"
      "round_robin_idx c1 \<le> round_robin_idx (cch (ticks t fs)) + 1"
      "\<forall>u < csize (cch (ticks t fs)). cview c1 u =
         (if u = s then overwrite (cview (cch (ticks t fs)) s) (n mod 512) src else cview (cch (ticks t fs)) u)"
      "\<forall>u. u \<noteq> s \<longrightarrow> cached c1 u \<longrightarrow> cached (cch (ticks t fs)) u"
      using cache_write_ok [of "cch (ticks t fs)" s "n mod 512" k "drop w buf"] wf sin(2) rr sz k(4) sl(2)
      unfolding src_def by (auto simp: BLOCK_SECTOR_SIZE_def)
    define fs1 where "fs1 = fs\<lparr>cch := c1\<rparr>"
    have fs1: "cch fs1 = c1" "(ticks t fs)\<lparr>cch := c1\<rparr> = fs1" "idata fs1 p = Some d" "fs1\<lparr>cch := x\<rparr> = fs\<lparr>cch := x\<rparr>" for x
      using dp by (simp_all add: fs1_def ticks_def)
    have m1: "file_map c1 d secs" using c1 sin(1) by (intro file_map_step [OF m]) auto
    have cont: "contents c1 d secs = overwrite (contents (cch fs) d secs) n src"
      using contents_overwrite [OF wf m n, of src c1] k(4,5) sl(1) c1(6) by (simp add: s_def)
    have h: "nat (sz - int k) < nat sz" "cache_wf (cch fs1)" "file_map (cch fs1) d secs"
      "round_robin_idx (cch fs1) + (sz - int k) \<le> INT_MAX" "0 \<le> sz - int k" "int (n + k) + (sz - int k) \<le> id_length d"
      "w + k + nat (sz - int k) \<le> length buf"
      using k(2,3) c1(2,5) m1 fs1(1) rr len less.prems(7) by simp_all
    obtain c' where r: "inode_write_loop fs1 p buf (sz - int k) (int (n + k)) (int (w + k)) =
        Some (int (w + k) + (sz - int k), fs1\<lparr>cch := c'\<rparr>)" "cache_wf c'" "csize c' = csize c1"
      "round_robin_idx c' \<le> round_robin_idx c1 + (sz - int k)" "round_robin_idx c1 \<le> round_robin_idx c'"
      "contents c' d secs = overwrite (contents c1 d secs) (n + k) (take (nat (sz - int k)) (drop (w + k) buf))"
      "file_map c' d secs" "\<forall>t < csize c1. t \<notin> set secs \<longrightarrow> cview c' t = cview c1 t"
      "\<forall>t. t \<notin> set secs \<longrightarrow> cached c' t \<longrightarrow> cached c1 t"
      using less.hyps [OF h(1-3) fs1(3) h(4-7)] unfolding fs1(1) by blast
    have run: "inode_write_loop fs p buf sz (int n) (int w) = Some (int w + sz, fs\<lparr>cch := c'\<rparr>)"
      using inode_write_loop_unfold [OF sz dp b, of buf w] k(1,2) c1(1) fs1(2,4) r(1) by (simp add: fs_cache_write_def)
    have "take (nat sz) (drop w buf) = src @ take (nat (sz - int k)) (drop (w + k) buf)"
      using take_add [of k "nat (sz - int k)" "drop w buf"] k(3) by (simp add: src_def nat_diff_distrib add.commute)
    moreover have "length (take (nat (sz - int k)) (drop (w + k) buf)) = nat (sz - int k)"
      using k(3) less.prems(7) by simp
    moreover have "n + k + nat (sz - int k) \<le> nat (id_length d)" using len k(3) by linarith
    ultimately have "contents c' d secs = overwrite (contents (cch fs) d secs) n (take (nat sz) (drop w buf))"
      using r(6) cont overwrite_adjacent [of n src "take (nat (sz - int k)) (drop (w + k) buf)" "contents (cch fs) d secs"]
        length_contents [OF wf m] sl(1) by simp
    moreover have "\<forall>t < csize (cch fs). t \<notin> set secs \<longrightarrow> cview c' t = cview (cch fs) t"
      using r(8) c1(3,6) sin(1) by auto
    moreover have "\<forall>t. t \<notin> set secs \<longrightarrow> cached c' t \<longrightarrow> cached (cch fs) t" using r(9) c1(7) sin(1) by auto
    ultimately show ?thesis using run r(2-5,7) c1(3-5) k(2,3) by (rule_tac exI [of _ c']) simp
  qed
qed

section \<open>Reading, writing, reopening\<close>

lemma inode_read_at_ok:
  assumes "cache_wf (cch fs)" and "file_map (cch fs) d secs" and "idata fs p = Some d"
    and "round_robin_idx (cch fs) + max 0 sz \<le> INT_MAX"
  obtains c' where "inode_read_at p sz (int n) fs = Some (take (nat sz) (drop n (contents (cch fs) d secs)), fs\<lparr>cch := c'\<rparr>)"
    "cache_wf c'" "csize c' = csize (cch fs)" "round_robin_idx c' \<le> round_robin_idx (cch fs) + max 0 sz"
    "\<forall>t < csize (cch fs). cview c' t = cview (cch fs) t" "file_map c' d secs"
    "contents c' d secs = contents (cch fs) d secs" "\<forall>t. t \<notin> set secs \<longrightarrow> cached c' t \<longrightarrow> cached (cch fs) t"
proof -
  obtain c' where c': "inode_read_loop fs p sz (int n) [] = Some ([] @ take (nat sz) (drop n (contents (cch fs) d secs)), fs\<lparr>cch := c'\<rparr>)"
    "cache_wf c'" "csize c' = csize (cch fs)" "round_robin_idx c' \<le> round_robin_idx (cch fs) + max 0 sz"
    "\<forall>t < csize (cch fs). cview c' t = cview (cch fs) t" "\<forall>t. t \<notin> set secs \<longrightarrow> cached c' t \<longrightarrow> cached (cch fs) t"
    using inode_read_loop_ok [OF assms, of n "[]"] by blast
  have "file_map c' d secs" using c' by (intro file_map_step [OF assms(2)]) auto
  moreover have "contents c' d secs = contents (cch fs) d secs"
    using c'(5) assms(2) by (auto simp: contents_def file_map_def intro!: arg_cong [where f = "\<lambda>x. take _ (concat x)"])
  ultimately show ?thesis using that [of c'] c' by (simp add: inode_read_at_def)
qed

lemma inode_write_at_ok:
  assumes "cache_wf (cch fs)" and "file_map (cch fs) d secs" and "idata fs p = Some d"
    and "inodes fs p = Some i" "deny_write_cnt i = 0"
    and "round_robin_idx (cch fs) + sz \<le> INT_MAX" and "0 \<le> sz" and "int n + sz \<le> id_length d"
    and "nat sz \<le> length buf" and "in_int32 (id_length d)"
  obtains c' where "inode_write_at al p buf sz (int n) fs = Some (sz, fs\<lparr>cch := c'\<rparr>)"
    "cache_wf c'" "csize c' = csize (cch fs)" "round_robin_idx c' \<le> round_robin_idx (cch fs) + sz"
    "contents c' d secs = overwrite (contents (cch fs) d secs) n (take (nat sz) buf)" "file_map c' d secs"
    "\<forall>t < csize (cch fs). t \<notin> set secs \<longrightarrow> cview c' t = cview (cch fs) t"
    "\<forall>t. t \<notin> set secs \<longrightarrow> cached c' t \<longrightarrow> cached (cch fs) t"
proof -
  obtain c' where c': "inode_write_loop fs p buf sz (int n) (int 0) = Some (int 0 + sz, fs\<lparr>cch := c'\<rparr>)"
    "cache_wf c'" "csize c' = csize (cch fs)" "round_robin_idx c' \<le> round_robin_idx (cch fs) + sz"
    "contents c' d secs = overwrite (contents (cch fs) d secs) n (take (nat sz) (drop 0 buf))" "file_map c' d secs"
    "\<forall>t < csize (cch fs). t \<notin> set secs \<longrightarrow> cview c' t = cview (cch fs) t"
    "\<forall>t. t \<notin> set secs \<longrightarrow> cached c' t \<longrightarrow> cached (cch fs) t"
    using inode_write_loop_ok [OF assms(1-3,6-8), of 0 buf] assms(9) by auto
  have "in_int32 (int n + sz)" using assms(7,8,10) by (simp add: in_int32_def)
  then have "inode_write_at al p buf sz (int n) fs = Some (sz, fs\<lparr>cch := c'\<rparr>)"
    using c'(1) assms(3-5,8) by (simp add: inode_write_at_def)
  then show ?thesis using that c' by simp
qed

section \<open>A small file system\<close>

definition ex_data :: "block_sector_t \<Rightarrow> int \<Rightarrow> inode_disk" where
  "ex_data s len = calloc_inode_disk\<lparr>blocks := s # replicate 14 0, direct_count := 1, id_length := len, magic := INODE_MAGIC\<rparr>"

text \<open>Eight sectors, the first five in use; inode 5 is a file of ten bytes in sector 3, inode 8 the
  free-map file in sector 4, open as file 7.\<close>

definition ex_fs :: fs where
  "ex_fs = \<lparr>cch = ex_cache\<lparr>fs_device := (fs_device ex_cache)\<lparr>blk_size := 8, blk_data := replicate 8 zeros\<rparr>\<rparr>,
     free_map = \<lparr>bit_cnt = 8, bits = [31]\<rparr>, free_map_file = 7,
     inodes = Map.empty(5 \<mapsto> \<lparr>in_sector = 2, in_open_cnt = 1, removed = False, deny_write_cnt = 0, inode_lock = False\<rparr>,
       8 \<mapsto> \<lparr>in_sector = 0, in_open_cnt = 1, removed = False, deny_write_cnt = 0, inode_lock = False\<rparr>),
     idata = Map.empty(5 \<mapsto> ex_data 3 10, 8 \<mapsto> ex_data 4 4), open_inodes = [5, 8],
     files = Map.empty(7 \<mapsto> \<lparr>f_inode = 8, f_pos = 0, deny_write = False\<rparr>), dirs = Map.empty,
     mem_ok = (\<lambda>n. True), next_ptr = 10, stack_junk = replicate 128 0, current_dir = 0\<rparr>"

lemma ex_uncached: "\<not> cached (cch ex_fs) s"
  by (auto simp: cached_def ex_fs_def ex_cache_def)

lemma ex_cch_wf: "cache_wf (cch ex_fs)"
  using ex_cache_wf
  by (simp add: cache_wf_def ex_fs_def entry_ok_def block_wf_def sector_ok_def zeros_def ex_cache_def)

lemma ex_file_map:
  assumes "s < 8" and "0 < len" and "len \<le> 512"
  shows "file_map (cch ex_fs) (ex_data s len) [s]"
proof -
  have "(len + 511) div 512 = 1" by (rule int_div_pos_eq [of _ _ _ "len - 1"]) (use assms in auto)
  then show ?thesis using assms
    by (simp add: file_map_def ex_fs_def ex_cache_def ex_data_def calloc_inode_disk_def bytes_to_sectors_def
      BLOCK_SECTOR_SIZE_def sector_of_def index_sectors_def)
qed

lemma ex_fs_simps:
  "idata ex_fs 5 = Some (ex_data 3 10)" "idata ex_fs 8 = Some (ex_data 4 4)" "round_robin_idx (cch ex_fs) = 0"
  "csize (cch ex_fs) = 8" "id_length (ex_data s len) = len"
  "inodes ex_fs 5 = Some \<lparr>in_sector = 2, in_open_cnt = 1, removed = False, deny_write_cnt = 0, inode_lock = False\<rparr>"
  "inodes ex_fs 8 = Some \<lparr>in_sector = 0, in_open_cnt = 1, removed = False, deny_write_cnt = 0, inode_lock = False\<rparr>"
  "files ex_fs 7 = Some \<lparr>f_inode = 8, f_pos = 0, deny_write = False\<rparr>" "free_map_file ex_fs = 7"
  by (simp_all add: ex_fs_def ex_cache_def ex_data_def)

section \<open>Properties\<close>

text \<open>C3. Writing and reading a file within its length, at any offset and size and through direct,
  indirect and doubly indirect blocks: the write stores all its bytes and changes exactly that slice
  of the contents, a later read of any range returns the new contents clipped at the end of the file,
  and no sector outside the file changes.\<close>

theorem inode_write_read:
  assumes "cache_wf (cch fs)" and "file_map (cch fs) d secs" and "idata fs p = Some d" and "in_int32 (id_length d)"
    and "inodes fs p = Some i" and "deny_write_cnt i = 0" and "0 \<le> sz" and "int n + sz \<le> id_length d"
    and "nat sz \<le> length buf" and "round_robin_idx (cch fs) + sz + max 0 rsz \<le> INT_MAX"
  shows "\<exists>fs1 fs2. inode_write_at al p buf sz (int n) fs = Some (sz, fs1) \<and>
    contents (cch fs1) d secs = overwrite (contents (cch fs) d secs) n (take (nat sz) buf) \<and>
    inode_read_at p rsz (int m) fs1 = Some (take (nat rsz) (drop m (contents (cch fs1) d secs)), fs2) \<and>
    contents (cch fs2) d secs = contents (cch fs1) d secs \<and> idata fs2 = idata fs \<and>
    (\<forall>t < csize (cch fs). t \<notin> set secs \<longrightarrow> cview (cch fs2) t = cview (cch fs) t)"
proof -
  have rr: "round_robin_idx (cch fs) + sz \<le> INT_MAX" using assms(10) by simp
  obtain c1 where c1: "inode_write_at al p buf sz (int n) fs = Some (sz, fs\<lparr>cch := c1\<rparr>)"
    "cache_wf c1" "csize c1 = csize (cch fs)" "round_robin_idx c1 \<le> round_robin_idx (cch fs) + sz"
    "contents c1 d secs = overwrite (contents (cch fs) d secs) n (take (nat sz) buf)" "file_map c1 d secs"
    "\<forall>t < csize (cch fs). t \<notin> set secs \<longrightarrow> cview c1 t = cview (cch fs) t"
    "\<forall>t. t \<notin> set secs \<longrightarrow> cached c1 t \<longrightarrow> cached (cch fs) t"
    using inode_write_at_ok [OF assms(1-3,5,6) rr assms(7-9,4), of al] .
  obtain c2 where c2: "inode_read_at p rsz (int m) (fs\<lparr>cch := c1\<rparr>) = Some (take (nat rsz) (drop m (contents c1 d secs)), fs\<lparr>cch := c2\<rparr>)"
    "\<forall>t < csize c1. cview c2 t = cview c1 t" "contents c2 d secs = contents c1 d secs"
  proof -
    let ?fs = "fs\<lparr>cch := c1\<rparr>"
    have h: "cache_wf (cch ?fs)" "file_map (cch ?fs) d secs" "idata ?fs p = Some d"
      "round_robin_idx (cch ?fs) + max 0 rsz \<le> INT_MAX"
      using c1(2,4,6) assms(3,10) by simp_all
    show ?thesis by (rule inode_read_at_ok [OF h, of m]) (use that in simp)
  qed
  with c1 show ?thesis by (rule_tac exI [of _ "fs\<lparr>cch := c1\<rparr>"], rule_tac exI [of _ "fs\<lparr>cch := c2\<rparr>"]) simp
qed

theorem inode_write_read_witness:
  "\<exists>fs1 fs2. inode_write_at (\<lambda>n fs. None) 5 [7, 8] 2 (int 4) ex_fs = Some (2, fs1) \<and>
    contents (cch fs1) (ex_data 3 10) [3] = overwrite (contents (cch ex_fs) (ex_data 3 10) [3]) 4 (take (nat 2) [7, 8]) \<and>
    inode_read_at 5 4 (int 3) fs1 = Some (take (nat 4) (drop 3 (contents (cch fs1) (ex_data 3 10) [3])), fs2) \<and>
    contents (cch fs2) (ex_data 3 10) [3] = contents (cch fs1) (ex_data 3 10) [3] \<and> idata fs2 = idata ex_fs \<and>
    (\<forall>t < csize (cch ex_fs). t \<notin> set [3] \<longrightarrow> cview (cch fs2) t = cview (cch ex_fs) t)"
  by (rule inode_write_read [OF ex_cch_wf ex_file_map, where i = "the (inodes ex_fs 5)"])
     (simp_all add: ex_fs_simps in_int32_def INT_MAX_def)

text \<open>C18. Denying writes: after \<^verbatim>\<open>file_deny_write\<close> on a file that has not denied them yet, with fewer
  denials than openers, every write to the inode, through whichever open file, stores nothing, returns
  0 and leaves the state as it was; \<^verbatim>\<open>file_allow_write\<close> then takes exactly this denial back.\<close>

theorem file_deny_allow:
  assumes "files fs f = Some fl" and "\<not> deny_write fl" and "inodes fs (f_inode fl) = Some i"
    and "0 \<le> deny_write_cnt i" and "deny_write_cnt i < in_open_cnt i"
  shows "\<exists>fs1 fs2. file_deny_write f fs = Some fs1 \<and>
    (\<forall>g gl al buf sz ofs. files fs1 g = Some gl \<and> f_inode gl = f_inode fl \<longrightarrow> file_write_at al g buf sz ofs fs1 = Some (0, fs1)) \<and>
    file_allow_write f fs1 = Some fs2 \<and> fs2 = fs"
proof -
  let ?i = "i\<lparr>deny_write_cnt := deny_write_cnt i + 1\<rparr>"
  let ?fs1 = "set_inode (fs\<lparr>files := (files fs)(f \<mapsto> fl\<lparr>deny_write := True\<rparr>)\<rparr>) (f_inode fl) ?i"
  have d: "file_deny_write f fs = Some ?fs1"
    using assms by (simp add: file_deny_write_def inode_deny_write_def)
  have w: "file_write_at al g buf sz ofs ?fs1 = Some (0, ?fs1)"
    if "files ?fs1 g = Some gl" "f_inode gl = f_inode fl" for g gl al buf sz ofs
    using that assms(4) by (simp add: file_write_at_def inode_write_at_def set_inode_def)
  have same: "fl\<lparr>deny_write := False\<rparr> = fl" "i\<lparr>deny_write_cnt := deny_write_cnt i\<rparr> = i" using assms(2) by simp_all
  have "(files fs)(f \<mapsto> fl) = files fs" "(inodes fs)(f_inode fl \<mapsto> i) = inodes fs" using assms(1,3) by auto
  then have a: "file_allow_write f ?fs1 = Some fs"
    using assms(5) same by (simp add: file_allow_write_def inode_allow_write_def set_inode_def)
  show ?thesis using d w a by blast
qed

theorem file_deny_allow_witness:
  "\<exists>fs1 fs2. file_deny_write 7 ex_fs = Some fs1 \<and>
    (\<forall>g gl al buf sz ofs. files fs1 g = Some gl \<and> f_inode gl = 8 \<longrightarrow> file_write_at al g buf sz ofs fs1 = Some (0, fs1)) \<and>
    file_allow_write 7 fs1 = Some fs2 \<and> fs2 = ex_fs"
  using file_deny_allow [of ex_fs 7 "\<lparr>f_inode = 8, f_pos = 0, deny_write = False\<rparr>"] by (simp add: ex_fs_simps)

end
