(* ===== verification/Kstring.thy ===== *)
theory Kstring
  imports Prelude
begin

text \<open>
  The string functions of lib/string.c, on a memory of bytes.  An address is an index; address 0 is
  the null pointer, and an access outside the memory is undefined (\<^term>\<open>None\<close>).  Loops that run to a
  terminator end because they leave the memory otherwise.

  \<open>cstr m p s\<close> says that the bytes at \<open>p\<close> are the string \<open>s\<close> followed by its terminator.
\<close>

type_synonym memory = "u8 list"
type_synonym addr = nat

section \<open>Blocks\<close>

fun copy_up :: "memory \<Rightarrow> addr \<Rightarrow> addr \<Rightarrow> nat \<Rightarrow> memory option" where
  "copy_up m dst src 0 = Some m"
| "copy_up m dst src (Suc n) = do {
     v \<leftarrow> aread m src;
     m \<leftarrow> awrite m dst v;
     copy_up m (dst + 1) (src + 1) n
   }"

fun copy_down :: "memory \<Rightarrow> addr \<Rightarrow> addr \<Rightarrow> nat \<Rightarrow> memory option" where
  "copy_down m dst src 0 = Some m"
| "copy_down m dst src (Suc n) = do {
     v \<leftarrow> aread m (src + n);
     m \<leftarrow> awrite m (dst + n) v;
     copy_down m dst src n
   }"

text \<open>The results are the returned pointer and the memory.\<close>

definition memcpy :: "memory \<Rightarrow> addr \<Rightarrow> addr \<Rightarrow> nat \<Rightarrow> (addr \<times> memory) option" where
  "memcpy m dst src sz = do {
     ASSERT (dst \<noteq> 0 \<or> sz = 0);
     ASSERT (src \<noteq> 0 \<or> sz = 0);
     m \<leftarrow> copy_up m dst src sz;
     Some (dst, m)
   }"

definition memmove :: "memory \<Rightarrow> addr \<Rightarrow> addr \<Rightarrow> nat \<Rightarrow> (addr \<times> memory) option" where
  "memmove m dst src sz = do {
     ASSERT (dst \<noteq> 0 \<or> sz = 0);
     ASSERT (src \<noteq> 0 \<or> sz = 0);
     if dst < src then do { m \<leftarrow> copy_up m dst src sz; Some (dst + sz, m) }
     else do { m \<leftarrow> copy_down m dst src sz; Some (dst, m) }
   }"

fun memcmp_loop :: "memory \<Rightarrow> addr \<Rightarrow> memory \<Rightarrow> addr \<Rightarrow> nat \<Rightarrow> int option" where
  "memcmp_loop ma a mb b 0 = Some 0"
| "memcmp_loop ma a mb b (Suc n) = do {
     x \<leftarrow> aread ma a;
     y \<leftarrow> aread mb b;
     if x \<noteq> y then Some (if x > y then 1 else -1) else memcmp_loop ma (a + 1) mb (b + 1) n
   }"

definition memcmp :: "memory \<Rightarrow> addr \<Rightarrow> memory \<Rightarrow> addr \<Rightarrow> nat \<Rightarrow> int option" where
  "memcmp ma a mb b sz = do {
     ASSERT (a \<noteq> 0 \<or> sz = 0);
     ASSERT (b \<noteq> 0 \<or> sz = 0);
     memcmp_loop ma a mb b sz
   }"

fun memchr_loop :: "memory \<Rightarrow> addr \<Rightarrow> u8 \<Rightarrow> nat \<Rightarrow> addr option" where
  "memchr_loop m p ch 0 = Some 0"
| "memchr_loop m p ch (Suc n) = do { c \<leftarrow> aread m p; if c = ch then Some p else memchr_loop m (p + 1) ch n }"

definition memchr :: "memory \<Rightarrow> addr \<Rightarrow> u8 \<Rightarrow> nat \<Rightarrow> addr option" where
  "memchr m p ch sz = do { ASSERT (p \<noteq> 0 \<or> sz = 0); memchr_loop m p ch sz }"

fun memset_loop :: "memory \<Rightarrow> addr \<Rightarrow> u8 \<Rightarrow> nat \<Rightarrow> memory option" where
  "memset_loop m p v 0 = Some m"
| "memset_loop m p v (Suc n) = do { m \<leftarrow> awrite m p v; memset_loop m (p + 1) v n }"

definition memset :: "memory \<Rightarrow> addr \<Rightarrow> u8 \<Rightarrow> nat \<Rightarrow> (addr \<times> memory) option" where
  "memset m dst v sz = do {
     ASSERT (dst \<noteq> 0 \<or> sz = 0);
     m \<leftarrow> memset_loop m dst v sz;
     Some (dst, m)
   }"

section \<open>Strings\<close>

lemma aread_lt: "aread xs i = Some v \<Longrightarrow> i < length xs"
  by (simp add: aread_def split: if_splits)

function strcmp_loop :: "memory \<Rightarrow> addr \<Rightarrow> memory \<Rightarrow> addr \<Rightarrow> int option" where
  "strcmp_loop ma a mb b = do {
     x \<leftarrow> aread ma a;
     y \<leftarrow> aread mb b;
     if x \<noteq> 0 \<and> x = y then strcmp_loop ma (a + 1) mb (b + 1)
     else Some (if x < y then -1 else if x > y then 1 else 0)
   }"
  by pat_completeness auto
termination
  by (relation "measure (\<lambda>(ma, a, _, _). length ma - a)") (auto dest: aread_lt)

definition strcmp :: "memory \<Rightarrow> addr \<Rightarrow> memory \<Rightarrow> addr \<Rightarrow> int option" where
  "strcmp ma a mb b = do { ASSERT (a \<noteq> 0); ASSERT (b \<noteq> 0); strcmp_loop ma a mb b }"

function strchr_loop :: "memory \<Rightarrow> addr \<Rightarrow> u8 \<Rightarrow> addr option" where
  "strchr_loop m p c = do {
     x \<leftarrow> aread m p;
     if x = c then Some p else if x = 0 then Some 0 else strchr_loop m (p + 1) c
   }"
  by pat_completeness auto
termination
  by (relation "measure (\<lambda>(m, p, _). length m - p)") (auto dest: aread_lt)

text \<open>The result is an address, or 0.\<close>

definition strchr :: "memory \<Rightarrow> addr \<Rightarrow> u8 \<Rightarrow> addr option" where
  "strchr m p c = do { ASSERT (p \<noteq> 0); strchr_loop m p c }"

function strlen_loop :: "memory \<Rightarrow> addr \<Rightarrow> addr option" where
  "strlen_loop m p = do { x \<leftarrow> aread m p; if x = 0 then Some p else strlen_loop m (p + 1) }"
  by pat_completeness auto
termination
  by (relation "measure (\<lambda>(m, p). length m - p)") (auto dest: aread_lt)

definition strlen :: "memory \<Rightarrow> addr \<Rightarrow> nat option" where
  "strlen m p = do { ASSERT (p \<noteq> 0); q \<leftarrow> strlen_loop m p; Some (q - p) }"

function strnlen_loop :: "memory \<Rightarrow> addr \<Rightarrow> nat \<Rightarrow> nat \<Rightarrow> nat option" where
  "strnlen_loop m p maxlen len = do {
     x \<leftarrow> aread m (p + len);
     if x \<noteq> 0 \<and> len < maxlen then strnlen_loop m p maxlen (len + 1) else Some len
   }"
  by pat_completeness auto
termination
  by (relation "measure (\<lambda>(m, p, maxlen, len). maxlen - len)") auto

definition strnlen :: "memory \<Rightarrow> addr \<Rightarrow> nat \<Rightarrow> nat option" where
  "strnlen m p maxlen = strnlen_loop m p maxlen 0"

text \<open>The scans take the set as a string in a memory of its own.\<close>

function strcspn_loop :: "memory \<Rightarrow> addr \<Rightarrow> memory \<Rightarrow> addr \<Rightarrow> nat \<Rightarrow> nat option" where
  "strcspn_loop m p ms stop len = do {
     x \<leftarrow> aread m (p + len);
     if x = 0 then Some len
     else do { r \<leftarrow> strchr ms stop x; if r \<noteq> 0 then Some len else strcspn_loop m p ms stop (len + 1) }
   }"
  by pat_completeness auto
termination
  by (relation "measure (\<lambda>(m, p, _, _, len). length m - (p + len))") (auto dest: aread_lt)

definition strcspn :: "memory \<Rightarrow> addr \<Rightarrow> memory \<Rightarrow> addr \<Rightarrow> nat option" where
  "strcspn m p ms stop = strcspn_loop m p ms stop 0"

function strspn_loop :: "memory \<Rightarrow> addr \<Rightarrow> memory \<Rightarrow> addr \<Rightarrow> nat \<Rightarrow> nat option" where
  "strspn_loop m p ms skip len = do {
     x \<leftarrow> aread m (p + len);
     if x = 0 then Some len
     else do { r \<leftarrow> strchr ms skip x; if r = 0 then Some len else strspn_loop m p ms skip (len + 1) }
   }"
  by pat_completeness auto
termination
  by (relation "measure (\<lambda>(m, p, _, _, len). length m - (p + len))") (auto dest: aread_lt)

definition strspn :: "memory \<Rightarrow> addr \<Rightarrow> memory \<Rightarrow> addr \<Rightarrow> nat option" where
  "strspn m p ms skip = strspn_loop m p ms skip 0"

function strpbrk :: "memory \<Rightarrow> addr \<Rightarrow> memory \<Rightarrow> addr \<Rightarrow> addr option" where
  "strpbrk m p ms stop = do {
     x \<leftarrow> aread m p;
     if x = 0 then Some 0
     else do { r \<leftarrow> strchr ms stop x; if r \<noteq> 0 then Some p else strpbrk m (p + 1) ms stop }
   }"
  by pat_completeness auto
termination
  by (relation "measure (\<lambda>(m, p, _, _). length m - p)") (auto dest: aread_lt)

function strrchr_loop :: "memory \<Rightarrow> addr \<Rightarrow> u8 \<Rightarrow> addr \<Rightarrow> addr option" where
  "strrchr_loop m s c p = do {
     x \<leftarrow> aread m s;
     if x = 0 then Some p else strrchr_loop m (s + 1) c (if x = c then s else p)
   }"
  by pat_completeness auto
termination
  by (relation "measure (\<lambda>(m, s, _, _). length m - s)") (auto dest: aread_lt)

definition strrchr :: "memory \<Rightarrow> addr \<Rightarrow> u8 \<Rightarrow> addr option" where
  "strrchr m s c = strrchr_loop m s c 0"

fun strstr_loop :: "memory \<Rightarrow> addr \<Rightarrow> memory \<Rightarrow> addr \<Rightarrow> nat \<Rightarrow> nat list \<Rightarrow> addr option" where
  "strstr_loop m haystack mn needle needle_len [] = Some 0"
| "strstr_loop m haystack mn needle needle_len (i # is) = do {
     r \<leftarrow> memcmp m (haystack + i) mn needle needle_len;
     if r = 0 then Some (haystack + i) else strstr_loop m haystack mn needle needle_len is
   }"

definition strstr :: "memory \<Rightarrow> addr \<Rightarrow> memory \<Rightarrow> addr \<Rightarrow> addr option" where
  "strstr m haystack mn needle = do {
     haystack_len \<leftarrow> strlen m haystack;
     needle_len \<leftarrow> strlen mn needle;
     if haystack_len \<ge> needle_len
     then strstr_loop m haystack mn needle needle_len [0..<haystack_len - needle_len + 1]
     else Some 0
   }"

text \<open>The two loops of \<^verbatim>\<open>strtok_r\<close>; the delimiters are a string of their own.\<close>

function skip_delims :: "memory \<Rightarrow> addr \<Rightarrow> memory \<Rightarrow> addr \<Rightarrow> (bool \<times> addr) option" where
  "skip_delims m s md delims = do {
     c \<leftarrow> aread m s;
     r \<leftarrow> strchr md delims c;
     if r \<noteq> 0 then (if c = 0 then Some (False, s) else skip_delims m (s + 1) md delims)
     else Some (True, s)
   }"
  by pat_completeness auto
termination
  by (relation "measure (\<lambda>(m, s, _, _). length m - s)") (auto dest: aread_lt)

function skip_token :: "memory \<Rightarrow> addr \<Rightarrow> memory \<Rightarrow> addr \<Rightarrow> addr option" where
  "skip_token m s md delims = do {
     c \<leftarrow> aread m s;
     r \<leftarrow> strchr md delims c;
     if r = 0 then skip_token m (s + 1) md delims else Some s
   }"
  by pat_completeness auto
termination
  by (relation "measure (\<lambda>(m, s, _, _). length m - s)") (auto dest: aread_lt)

text \<open>Returns the token (0 for none), \<^verbatim>\<open>*save_ptr\<close> and the memory; \<open>s = 0\<close> continues at \<open>save_ptr\<close>.\<close>

definition strtok_r :: "memory \<Rightarrow> addr \<Rightarrow> memory \<Rightarrow> addr \<Rightarrow> addr \<Rightarrow> (addr \<times> addr \<times> memory) option" where
  "strtok_r m s md delims save_ptr = do {
     ASSERT (delims \<noteq> 0);
     let s = (if s = 0 then save_ptr else s);
     ASSERT (s \<noteq> 0);
     (found, s) \<leftarrow> skip_delims m s md delims;
     if \<not> found then Some (0, s, m)
     else do {
       let token = s;
       s \<leftarrow> skip_token m s md delims;
       c \<leftarrow> aread m s;
       if c \<noteq> 0 then do { m \<leftarrow> awrite m s 0; Some (token, s + 1, m) }
       else Some (token, s, m)
     }
   }"

definition strlcpy :: "memory \<Rightarrow> addr \<Rightarrow> addr \<Rightarrow> nat \<Rightarrow> (nat \<times> memory) option" where
  "strlcpy m dst src sz = do {
     ASSERT (dst \<noteq> 0);
     ASSERT (src \<noteq> 0);
     src_len \<leftarrow> strlen m src;
     if sz > 0 then do {
       let dst_len = (if src_len < sz - 1 then src_len else sz - 1);
       (_, m) \<leftarrow> memcpy m dst src dst_len;
       m \<leftarrow> awrite m (dst + dst_len) 0;
       Some (src_len, m)
     } else Some (src_len, m)
   }"

definition strlcat :: "memory \<Rightarrow> addr \<Rightarrow> addr \<Rightarrow> nat \<Rightarrow> (nat \<times> memory) option" where
  "strlcat m dst src sz = do {
     ASSERT (dst \<noteq> 0);
     ASSERT (src \<noteq> 0);
     src_len \<leftarrow> strlen m src;
     dst_len \<leftarrow> strlen m dst;
     if sz > 0 \<and> dst_len < sz then do {
       let copy_cnt = (if src_len < sz - dst_len - 1 then src_len else sz - dst_len - 1);
       (_, m) \<leftarrow> memcpy m (dst + dst_len) src copy_cnt;
       m \<leftarrow> awrite m (dst + dst_len + copy_cnt) 0;
       Some (src_len + dst_len, m)
     } else Some (src_len + dst_len, m)
   }"

declare strcmp_loop.simps [simp del] strchr_loop.simps [simp del] strlen_loop.simps [simp del]
  strnlen_loop.simps [simp del] strcspn_loop.simps [simp del] strspn_loop.simps [simp del]
  strpbrk.simps [simp del] strrchr_loop.simps [simp del] skip_delims.simps [simp del] skip_token.simps [simp del]

section \<open>Copying\<close>

lemma copy_up_eq:
  "src + n \<le> length m \<Longrightarrow> dst + n \<le> length m \<Longrightarrow> dst \<le> src \<or> src + n \<le> dst \<Longrightarrow>
   copy_up m dst src n = Some (overwrite m dst (take n (drop src m)))"
proof (induction n arbitrary: m dst src)
  case 0
  then show ?case by (simp add: overwrite_def)
next
  case (Suc n)
  let ?m = "m[dst := m ! src]"
  have "copy_up ?m (dst + 1) (src + 1) n = Some (overwrite ?m (dst + 1) (take n (drop (src + 1) ?m)))"
    using Suc.prems by (intro Suc.IH) auto
  moreover have "overwrite ?m (dst + 1) (take n (drop (src + 1) ?m)) = overwrite m dst (take (Suc n) (drop src m))"
    using Suc.prems by (intro nth_equalityI) (auto simp: nth_overwrite nth_list_update Suc_diff_Suc)
  ultimately show ?case using Suc.prems by simp
qed

lemma copy_down_eq:
  "src + n \<le> length m \<Longrightarrow> dst + n \<le> length m \<Longrightarrow> src \<le> dst \<or> dst + n \<le> src \<Longrightarrow>
   copy_down m dst src n = Some (overwrite m dst (take n (drop src m)))"
proof (induction n arbitrary: m)
  case 0
  then show ?case by (simp add: overwrite_def)
next
  case (Suc n)
  let ?m = "m[dst + n := m ! (src + n)]"
  have "copy_down ?m dst src n = Some (overwrite ?m dst (take n (drop src ?m)))"
    using Suc.prems by (intro Suc.IH) auto
  moreover have "overwrite ?m dst (take n (drop src ?m)) = overwrite m dst (take (Suc n) (drop src m))"
    using Suc.prems by (intro nth_equalityI) (auto simp: nth_overwrite nth_list_update)
  ultimately show ?case using Suc.prems by simp
qed

lemma memset_loop_eq:
  "p + n \<le> length m \<Longrightarrow> memset_loop m p v n = Some (overwrite m p (replicate n v))"
proof (induction n arbitrary: m p)
  case 0
  then show ?case by (simp add: overwrite_def)
next
  case (Suc n)
  then have "memset_loop (m[p := v]) (p + 1) v n = Some (overwrite (m[p := v]) (p + 1) (replicate n v))" by simp
  moreover have "overwrite (m[p := v]) (p + 1) (replicate n v) = overwrite m p (replicate (Suc n) v)"
    using Suc.prems by (intro nth_equalityI) (auto simp: nth_overwrite nth_list_update nth_Cons')
  ultimately show ?case using Suc.prems by simp
qed

section \<open>Terminated strings\<close>

fun cstr :: "memory \<Rightarrow> addr \<Rightarrow> u8 list \<Rightarrow> bool" where
  "cstr m p [] \<longleftrightarrow> aread m p = Some 0"
| "cstr m p (c # s) \<longleftrightarrow> c \<noteq> 0 \<and> aread m p = Some c \<and> cstr m (p + 1) s"

lemma cstr_append: "cstr m p (s @ t) \<longleftrightarrow> (0 \<notin> set s \<and> (\<forall>i < length s. aread m (p + i) = Some (s ! i)) \<and> cstr m (p + length s) t)"
proof (induction s arbitrary: p)
  case (Cons c s)
  have "(\<forall>i < length (c # s). aread m (p + i) = Some ((c # s) ! i)) \<longleftrightarrow>
      aread m p = Some c \<and> (\<forall>i < length s. aread m (p + 1 + i) = Some (s ! i))"
    by (auto simp: less_Suc_eq_0_disj)
  with Cons.IH [of "p + 1"] show ?case by auto
qed simp

lemma cstr_iff:
  "cstr m p s \<longleftrightarrow> 0 \<notin> set s \<and> p + length s < length m \<and> take (length s) (drop p m) = s \<and> m ! (p + length s) = 0"
proof -
  have "cstr m p (s @ []) \<longleftrightarrow> 0 \<notin> set s \<and> (\<forall>i < length s. aread m (p + i) = Some (s ! i)) \<and> aread m (p + length s) = Some 0"
    using cstr_append [of m p s "[]"] by simp
  also have "\<dots> \<longleftrightarrow> 0 \<notin> set s \<and> p + length s < length m \<and> take (length s) (drop p m) = s \<and> m ! (p + length s) = 0"
    by (auto simp: aread_def list_eq_iff_nth_eq split: if_splits)
  finally show ?thesis by simp
qed

lemma cstr_nonzero: "cstr m p s \<Longrightarrow> 0 \<notin> set s"
  by (simp add: cstr_iff)

lemma cstr_cong: "(\<And>i. p \<le> i \<Longrightarrow> i \<le> p + length s \<Longrightarrow> aread m' i = aread m i) \<Longrightarrow> cstr m' p s = cstr m p s"
  by (induction s arbitrary: p) auto

lemma strlen_loop_cstr: "cstr m p s \<Longrightarrow> strlen_loop m p = Some (p + length s)"
  by (induction s arbitrary: p) (auto simp: strlen_loop.simps)

lemma strlen_cstr: "cstr m p s \<Longrightarrow> p \<noteq> 0 \<Longrightarrow> strlen m p = Some (length s)"
  by (simp add: strlen_def strlen_loop_cstr)

lemma strchr_loop_cstr:
  "cstr m p s \<Longrightarrow> strchr_loop m p c =
     Some (if c = 0 then p + length s else if c \<in> set s then p + length (takeWhile (\<lambda>x. x \<noteq> c) s) else 0)"
  by (induction s arbitrary: p) (auto simp: strchr_loop.simps)

lemma strchr_cstr:
  assumes "cstr m p s" and "p \<noteq> 0"
  obtains r where "strchr m p c = Some r" "r \<noteq> 0 \<longleftrightarrow> c = 0 \<or> c \<in> set s"
  using assms strchr_loop_cstr [OF assms(1), of c] that by (auto simp: strchr_def)

fun str_order :: "u8 list \<Rightarrow> u8 list \<Rightarrow> int" where
  "str_order [] [] = 0"
| "str_order [] (y # t) = -1"
| "str_order (x # s) [] = 1"
| "str_order (x # s) (y # t) = (if x < y then -1 else if y < x then 1 else str_order s t)"

lemma strcmp_loop_cstr:
  "cstr ma a s \<Longrightarrow> cstr mb b t \<Longrightarrow> strcmp_loop ma a mb b = Some (str_order s t)"
proof (induction s t arbitrary: a b rule: str_order.induct)
  case (2 y t)
  then have "y > 0" by (auto simp: word_neq_0_conv)
  with 2 show ?case by (simp add: strcmp_loop.simps)
next
  case (3 x s)
  then have "x > 0" by (auto simp: word_neq_0_conv)
  with 3 show ?case by (simp add: strcmp_loop.simps not_less)
next
  case (4 x s y t)
  then show ?case by (subst strcmp_loop.simps) auto
qed (simp add: strcmp_loop.simps)

lemma strcmp_cstr:
  "cstr ma a s \<Longrightarrow> cstr mb b t \<Longrightarrow> a \<noteq> 0 \<Longrightarrow> b \<noteq> 0 \<Longrightarrow> strcmp ma a mb b = Some (str_order s t)"
  by (simp add: strcmp_def strcmp_loop_cstr)

lemma str_order_eq_0: "str_order s t = 0 \<longleftrightarrow> s = t"
  by (induction s t rule: str_order.induct) auto

lemma str_order_lexord: "str_order s t < 0 \<longleftrightarrow> (s, t) \<in> lexord {(x, y). x < y}"
  by (induction s t rule: str_order.induct) auto

lemma str_order_sym: "str_order t s = - str_order s t"
  by (induction s t rule: str_order.induct) auto

section \<open>Tokens\<close>

function tokens :: "u8 set \<Rightarrow> u8 list \<Rightarrow> u8 list list" where
  "tokens D s = (let t = dropWhile (\<lambda>c. c \<in> D) s in
     if t = [] then [] else takeWhile (\<lambda>c. c \<notin> D) t # tokens D (dropWhile (\<lambda>c. c \<notin> D) t))"
  by pat_completeness auto
termination
proof (relation "measure (\<lambda>(D, s). length s)")
  fix D :: "u8 set" and s t
  assume t: "t = dropWhile (\<lambda>c. c \<in> D) s" "t \<noteq> []"
  have "hd t \<notin> D" using hd_dropWhile [of "\<lambda>c. c \<in> D" s] t by simp
  then have "length (dropWhile (\<lambda>c. c \<notin> D) t) < length t"
    using t(2) length_dropWhile_le [of "\<lambda>c. c \<notin> D" "tl t"] by (cases t) auto
  also have "length t \<le> length s" using t(1) length_dropWhile_le by metis
  finally show "((D, dropWhile (\<lambda>c. c \<notin> D) t), (D, s)) \<in> measure (\<lambda>(D, s). length s)" by simp
qed simp

declare tokens.simps [simp del]

lemma skip_delims_cstr:
  assumes "cstr md d ds" and "d \<noteq> 0"
  shows "cstr m p s \<Longrightarrow> skip_delims m p md d =
    Some (dropWhile (\<lambda>c. c \<in> set ds) s \<noteq> [], p + length (takeWhile (\<lambda>c. c \<in> set ds) s))"
proof (induction s arbitrary: p)
  case Nil
  obtain r where "strchr md d 0 = Some r" "r \<noteq> 0" using strchr_cstr [OF assms, of 0] by auto
  with Nil show ?case by (simp add: skip_delims.simps)
next
  case (Cons c s)
  obtain r where r: "strchr md d c = Some r" "r \<noteq> 0 \<longleftrightarrow> c \<in> set ds"
    using strchr_cstr [OF assms, of c] Cons.prems by auto
  with Cons show ?case by (subst skip_delims.simps) auto
qed

lemma skip_token_cstr:
  assumes "cstr md d ds" and "d \<noteq> 0"
  shows "cstr m p s \<Longrightarrow> skip_token m p md d = Some (p + length (takeWhile (\<lambda>c. c \<notin> set ds) s))"
proof (induction s arbitrary: p)
  case Nil
  obtain r where "strchr md d 0 = Some r" "r \<noteq> 0" using strchr_cstr [OF assms, of 0] by auto
  with Nil show ?case by (simp add: skip_token.simps)
next
  case (Cons c s)
  obtain r where r: "strchr md d c = Some r" "r \<noteq> 0 \<longleftrightarrow> c \<in> set ds"
    using strchr_cstr [OF assms, of c] Cons.prems by auto
  with Cons show ?case by (subst skip_token.simps) auto
qed

lemma cstr_take_zero:
  assumes "cstr m p (s @ c # t)"
  shows "cstr (m[p + length s := 0]) p s" and "cstr (m[p + length s := 0]) (p + length s + 1) t"
    and "p + length s < length m"
proof -
  from assms have s: "0 \<notin> set s" "\<forall>i < length s. aread m (p + i) = Some (s ! i)"
    and c: "aread m (p + length s) = Some c" and t: "cstr m (p + length s + 1) t"
    by (auto simp: cstr_append)
  show lt: "p + length s < length m" using aread_lt [OF c] .
  have "\<forall>i < length s. aread (m[p + length s := 0]) (p + i) = Some (s ! i)"
    using s(2) by (auto simp: aread_def)
  then show "cstr (m[p + length s := 0]) p s"
    using s(1) lt cstr_append [of "m[p + length s := 0]" p s "[]"] by simp
  show "cstr (m[p + length s := 0]) (p + length s + 1) t"
    using t by (subst cstr_cong) (auto simp: aread_def)
qed

text \<open>One call: the token found, where the next call continues, and the byte overwritten.\<close>

lemma strtok_r_cstr:
  assumes m: "cstr m p s" "p \<noteq> 0" and d: "cstr md d ds" "d \<noteq> 0"
  defines "t \<equiv> dropWhile (\<lambda>c. c \<in> set ds) s"
  shows "t = [] \<Longrightarrow> strtok_r m p md d q = Some (0, p + length s, m)"
    and "t \<noteq> [] \<Longrightarrow> \<exists>tok save m' rest. strtok_r m p md d q = Some (tok, save, m') \<and> p \<le> tok \<and>
      cstr m' tok (takeWhile (\<lambda>c. c \<notin> set ds) t) \<and> tok + length (takeWhile (\<lambda>c. c \<notin> set ds) t) \<le> save \<and>
      cstr m' save rest \<and> length rest < length s \<and>
      tokens (set ds) rest = tokens (set ds) (dropWhile (\<lambda>c. c \<notin> set ds) t) \<and>
      (\<forall>i < tok. aread m' i = aread m i) \<and> (tok + length (takeWhile (\<lambda>c. c \<notin> set ds) t) = save \<longrightarrow> rest = [])"
proof -
  let ?pre = "takeWhile (\<lambda>c. c \<in> set ds) s"
  have sk: "skip_delims m p md d = Some (t \<noteq> [], p + length ?pre)"
    unfolding t_def using skip_delims_cstr [OF d m(1)] .
  have st: "s = ?pre @ t" by (simp add: t_def)
  show "t = [] \<Longrightarrow> strtok_r m p md d q = Some (0, p + length s, m)"
    using sk st m(2) d(2) by (auto simp: strtok_r_def)
  assume ne: "t \<noteq> []"
  define w r where "w = takeWhile (\<lambda>c. c \<notin> set ds) t" and "r = dropWhile (\<lambda>c. c \<notin> set ds) t"
  define p' where "p' = p + length ?pre"
  have ct: "cstr m p' t" using m(1) st cstr_append [of m p ?pre t] by (simp add: p'_def)
  have tt: "t = w @ r" by (simp add: w_def r_def)
  have "hd t \<notin> set ds" using hd_dropWhile [of "\<lambda>c. c \<in> set ds" s] ne by (simp add: t_def)
  then have tl: "length w > 0" using ne by (cases t) (auto simp: w_def)
  have lens: "length w + length r \<le> length s" using arg_cong [OF st, of length] tt by simp
  have tk: "skip_token m p' md d = Some (p' + length w)" using skip_token_cstr [OF d ct] by (simp add: w_def)
  have "\<exists>tok save m' rest. strtok_r m p md d q = Some (tok, save, m') \<and> p \<le> tok \<and>
      cstr m' tok w \<and> tok + length w \<le> save \<and> cstr m' save rest \<and> length rest < length s \<and>
      tokens (set ds) rest = tokens (set ds) r \<and> (\<forall>i < tok. aread m' i = aread m i) \<and>
      (tok + length w = save \<longrightarrow> rest = [])"
  proof (cases r)
    case Nil
    then have ctok: "cstr m p' w" using ct tt by simp
    have z: "cstr m (p' + length w) []" using ctok cstr_append [of m p' w "[]"] by simp
    have "strtok_r m p md d q = Some (p', p' + length w, m)"
      using sk ne tk m(2) d(2) z by (simp add: strtok_r_def p'_def)
    then show ?thesis using ctok z tl lens Nil
      by (rule_tac exI [of _ p'], rule_tac exI [of _ "p' + length w"], rule_tac exI [of _ m], rule_tac exI [of _ "[]"])
         (auto simp: p'_def)
  next
    case (Cons c r')
    let ?m = "m[p' + length w := 0]"
    have ct': "cstr m p' (w @ c # r')" using ct tt Cons by simp
    note z = cstr_take_zero [OF ct']
    have c: "c \<noteq> 0" "aread m (p' + length w) = Some c" using ct' by (auto simp: cstr_append)
    have "c \<in> set ds" using Cons hd_dropWhile [of "\<lambda>c. c \<notin> set ds" t] by (auto simp: r_def)
    then have "tokens (set ds) r' = tokens (set ds) r"
      unfolding Cons by (simp add: tokens.simps [of _ "c # r'"] tokens.simps [of _ r'])
    moreover have "strtok_r m p md d q = Some (p', p' + length w + 1, ?m)"
      using sk ne tk m(2) d(2) c z(3) by (simp add: strtok_r_def p'_def)
    ultimately show ?thesis using z lens Cons
      by (rule_tac exI [of _ p'], rule_tac exI [of _ "p' + length w + 1"], rule_tac exI [of _ ?m], rule_tac exI [of _ r'])
         (auto simp: aread_def p'_def)
  qed
  then show "\<exists>tok save m' rest. strtok_r m p md d q = Some (tok, save, m') \<and> p \<le> tok \<and>
      cstr m' tok (takeWhile (\<lambda>c. c \<notin> set ds) t) \<and> tok + length (takeWhile (\<lambda>c. c \<notin> set ds) t) \<le> save \<and>
      cstr m' save rest \<and> length rest < length s \<and>
      tokens (set ds) rest = tokens (set ds) (dropWhile (\<lambda>c. c \<notin> set ds) t) \<and>
      (\<forall>i < tok. aread m' i = aread m i) \<and> (tok + length (takeWhile (\<lambda>c. c \<notin> set ds) t) = save \<longrightarrow> rest = [])"
    unfolding w_def r_def .
qed

text \<open>The loop over all tokens of a string, as in the example of the comment.\<close>

fun strtok_all :: "nat \<Rightarrow> memory \<Rightarrow> addr \<Rightarrow> memory \<Rightarrow> addr \<Rightarrow> addr \<Rightarrow> (addr list \<times> memory) option" where
  "strtok_all 0 m s md delims save_ptr = None"
| "strtok_all (Suc n) m s md delims save_ptr = do {
     (token, save_ptr, m) \<leftarrow> strtok_r m s md delims save_ptr;
     if token = 0 then Some ([], m)
     else do { (ts, m) \<leftarrow> strtok_all n m 0 md delims save_ptr; Some (token # ts, m) }
   }"

lemma strtok_r_continue: "p \<noteq> 0 \<Longrightarrow> strtok_r m 0 md d p = strtok_r m p md d q"
  by (simp add: strtok_r_def)

lemma strtok_all_cstr:
  assumes d: "cstr md d ds" "d \<noteq> 0"
  shows "cstr m p s \<Longrightarrow> p \<noteq> 0 \<Longrightarrow> length s < n \<Longrightarrow>
    \<exists>ts m'. strtok_all n m p md d q = Some (ts, m') \<and> list_all2 (cstr m') ts (tokens (set ds) s) \<and>
      (\<forall>i < p. aread m' i = aread m i) \<and> (s = [] \<longrightarrow> m' = m)"
proof (induction n arbitrary: m p s q)
  case (Suc n)
  let ?t = "dropWhile (\<lambda>c. c \<in> set ds) s"
  note step = strtok_r_cstr [OF Suc.prems(1,2) d, of q]
  show ?case
  proof (cases "?t = []")
    case True
    then show ?thesis using step(1) by (simp add: tokens.simps [of _ s])
  next
    case False
    let ?w = "takeWhile (\<lambda>c. c \<notin> set ds) ?t"
    obtain tok save m1 rest where st: "strtok_r m p md d q = Some (tok, save, m1)" "p \<le> tok"
      "cstr m1 tok ?w" "tok + length ?w \<le> save" "cstr m1 save rest" "length rest < length s"
      "tokens (set ds) rest = tokens (set ds) (dropWhile (\<lambda>c. c \<notin> set ds) ?t)"
      "\<forall>i < tok. aread m1 i = aread m i" "tok + length ?w = save \<longrightarrow> rest = []"
      using step(2) [OF False] by blast
    have nz: "tok \<noteq> 0" "save \<noteq> 0" using st(2,4) Suc.prems(2) by auto
    obtain ts m' where r: "strtok_all n m1 save md d q = Some (ts, m')"
      "list_all2 (cstr m') ts (tokens (set ds) rest)" "\<forall>i < save. aread m' i = aread m1 i" "rest = [] \<longrightarrow> m' = m1"
      using Suc.IH [OF st(5) nz(2), of q] st(6) Suc.prems(3) by auto
    have "strtok_all n m1 0 md d save = strtok_all n m1 save md d q"
      using strtok_r_continue [OF nz(2), of m1 md d q] by (cases n) simp_all
    then have run: "strtok_all (Suc n) m p md d q = Some (tok # ts, m')" using st(1) nz(1) r(1) by simp
    have "cstr m' tok ?w"
      using st(3,4,9) r(3,4) by (cases "tok + length ?w = save") (auto intro: cstr_cong [THEN iffD2])
    moreover have "tokens (set ds) s = ?w # tokens (set ds) rest"
      using False st(7) by (simp add: tokens.simps [of _ s] Let_def)
    moreover have "s \<noteq> []" using False by auto
    ultimately show ?thesis using run r(2,3) st(2,4,8) by auto
  qed
qed simp

lemma tokens_no_delims:
  "w \<in> set (tokens D s) \<Longrightarrow> w \<noteq> [] \<and> set w \<inter> D = {}"
proof (induction D s rule: tokens.induct)
  case (1 D s)
  let ?t = "dropWhile (\<lambda>c. c \<in> D) s"
  have "w = takeWhile (\<lambda>c. c \<notin> D) ?t \<or> w \<in> set (tokens D (dropWhile (\<lambda>c. c \<notin> D) ?t))" and ne: "?t \<noteq> []"
    using "1.prems" by (auto simp: tokens.simps [of D s] Let_def split: if_splits)
  moreover have "takeWhile (\<lambda>c. c \<notin> D) ?t \<noteq> []"
    using ne hd_dropWhile [of "\<lambda>c. c \<in> D" s] by (cases ?t) auto
  ultimately show ?case using "1.IH" [OF refl ne] by (auto dest: set_takeWhileD)
qed

lemma tokens_concat: "concat (tokens D s) = filter (\<lambda>c. c \<notin> D) s"
proof (induction D s rule: tokens.induct)
  case (1 D s)
  let ?t = "dropWhile (\<lambda>c. c \<in> D) s"
  have "filter (\<lambda>c. c \<notin> D) s = filter (\<lambda>c. c \<notin> D) (takeWhile (\<lambda>c. c \<in> D) s @ ?t)" by simp
  also have "\<dots> = filter (\<lambda>c. c \<notin> D) ?t"
    unfolding filter_append by (simp add: filter_empty_conv) (meson set_takeWhileD)
  also have "\<dots> = filter (\<lambda>c. c \<notin> D) (takeWhile (\<lambda>c. c \<notin> D) ?t @ dropWhile (\<lambda>c. c \<notin> D) ?t)" by simp
  also have "\<dots> = takeWhile (\<lambda>c. c \<notin> D) ?t @ filter (\<lambda>c. c \<notin> D) (dropWhile (\<lambda>c. c \<notin> D) ?t)"
    unfolding filter_append by (metis (mono_tags, lifting) filter_True set_takeWhileD)
  finally show ?case using "1.IH" [OF refl]
    by (cases "?t = []") (auto simp: tokens.simps [of D s] Let_def)
qed

section \<open>Properties\<close>

text \<open>C34. \<^verbatim>\<open>memmove\<close> copies correctly however the two blocks overlap: the destination ends up with the
  bytes the source had before, and nothing else changes.  The pointer it returns is the end of the
  destination when the copy goes upwards, although its comment promises the beginning.\<close>

theorem memmove_correct:
  assumes "dst \<noteq> 0" and "src \<noteq> 0" and "dst + sz \<le> length m" and "src + sz \<le> length m"
  shows "memmove m dst src sz =
    Some (if dst < src then dst + sz else dst, overwrite m dst (take sz (drop src m)))"
  using assms copy_up_eq [of src sz m dst] copy_down_eq [of src sz m dst] by (simp add: memmove_def)

theorem memmove_correct_witness:
  "memmove [0, 1, 2, 3, 4, 5] 2 1 3 = Some (2, [0, 1, 1, 2, 3, 5]) \<and>
   memmove [0, 1, 2, 3, 4, 5] 1 2 3 = Some (4, [0, 2, 3, 4, 4, 5])"
  using memmove_correct [of 2 1 3 "[0, 1, 2, 3, 4, 5]"] memmove_correct [of 1 2 3 "[0, 1, 2, 3, 4, 5]"]
  by (simp add: overwrite_def numeral_eq_Suc)

text \<open>C33. Calling \<^verbatim>\<open>strtok_r\<close> until it returns null yields exactly the tokens of the string: as many calls
  as there are tokens and one more, each token a string left intact in the final memory, none of them
  empty or containing a delimiter, and together the characters of the string that are not delimiters.\<close>

theorem strtok_r_tokens:
  assumes "cstr m p s" and "p \<noteq> 0" and "cstr md d ds" and "d \<noteq> 0" and "length s < n"
  shows "\<exists>ts m' ws. strtok_all n m p md d q = Some (ts, m') \<and> list_all2 (cstr m') ts ws \<and>
    (\<forall>w \<in> set ws. w \<noteq> [] \<and> set w \<inter> set ds = {}) \<and> concat ws = filter (\<lambda>c. c \<notin> set ds) s \<and> ws = tokens (set ds) s"
  using strtok_all_cstr [OF assms(3,4,1,2,5), of q] tokens_no_delims [of _ "set ds" s] tokens_concat [of "set ds" s]
  by blast

theorem strtok_r_tokens_witness:
  "\<exists>ts m' ws. strtok_all 6 [0, 47, 97, 47, 98, 99, 0] 1 [0, 47, 0] 1 0 = Some (ts, m') \<and> list_all2 (cstr m') ts ws \<and>
    (\<forall>w \<in> set ws. w \<noteq> [] \<and> set w \<inter> set [47] = {}) \<and>
    concat ws = filter (\<lambda>c. c \<notin> set [47]) [47, 97, 47, 98, 99] \<and> ws = tokens (set [47]) [47, 97, 47, 98, 99]"
  by (rule strtok_r_tokens) (simp_all add: aread_def)

text \<open>\<^verbatim>\<open>strcmp\<close> orders strings lexicographically by unsigned character, is zero exactly on equal
  strings, and changes sign when its arguments are exchanged.\<close>

theorem strcmp_correct:
  assumes "cstr ma a s" and "cstr mb b t" and "a \<noteq> 0" and "b \<noteq> 0"
  shows "\<exists>r. strcmp ma a mb b = Some r \<and> (r = 0 \<longleftrightarrow> s = t) \<and>
    (r < 0 \<longleftrightarrow> (s, t) \<in> lexord {(x, y). x < y}) \<and> strcmp mb b ma a = Some (- r)"
  using strcmp_cstr [OF assms] strcmp_cstr [OF assms(2,1,4,3)] str_order_eq_0 [of s t] str_order_lexord [of s t]
    str_order_sym [of t s]
  by auto

theorem strcmp_correct_witness:
  "\<exists>r. strcmp [0, 97, 98, 0] 1 [0, 97, 0] 1 = Some r \<and> (r = 0 \<longleftrightarrow> [97, 98] = [97 :: u8]) \<and>
    (r < 0 \<longleftrightarrow> ([97, 98], [97]) \<in> lexord {(x, y :: u8). x < y}) \<and> strcmp [0, 97, 0] 1 [0, 97, 98, 0] 1 = Some (- r)"
  by (rule strcmp_correct) (simp_all add: aread_def)

end
