(* ===== verification/Directory.thy ===== *)
theory Directory
  imports Free_Map Kstring
begin

text \<open>
  Directories (filesys/directory.c) and the file system's top level (filesys/filesys.c).  File names
  and paths are byte strings without their terminator.  The argument \<open>depth\<close> is the one of
  \<open>free_map_allocate\<close>.
\<close>

section \<open>Directory entries\<close>

definition NAME_MAX :: nat where
  "NAME_MAX = 14"

record dir_entry =
  inode_sector :: block_sector_t
  de_name :: "u8 list"
  in_use :: bool

definition DIR_ENTRY_SIZE :: nat where
  "DIR_ENTRY_SIZE = 20"

definition enc_entry :: "dir_entry \<Rightarrow> u8 list" where
  "enc_entry e = u32_bytes (inode_sector e) @ de_name e @ [bool_byte (in_use e)]"

definition dec_entry :: "u8 list \<Rightarrow> dir_entry" where
  "dec_entry bs = \<lparr>inode_sector = bytes_u32 (take 4 bs), de_name = take 15 (drop 4 bs), in_use = byte_bool (bs ! 19)\<rparr>"

text \<open>A local \<^verbatim>\<open>struct dir_entry\<close> before it is read into.\<close>

definition entry_junk :: "fs \<Rightarrow> u8 list" where
  "entry_junk fs = take DIR_ENTRY_SIZE (enc_words (stack_junk fs))"

text \<open>\<^verbatim>\<open>inode_read_at (inode, &e, sizeof e, ofs) == sizeof e\<close>: whether the entry was read, and \<open>e\<close>.\<close>

definition read_entry :: "ptr \<Rightarrow> int \<Rightarrow> u8 list \<Rightarrow> fs \<Rightarrow> (bool \<times> u8 list \<times> fs) option" where
  "read_entry p ofs e fs = do {
     (bs, fs) \<leftarrow> inode_read_at p (int DIR_ENTRY_SIZE) ofs fs;
     Some (length bs = DIR_ENTRY_SIZE, overwrite e 0 bs, fs)
   }"

text \<open>\<^verbatim>\<open>strcmp (name, e.name)\<close>, with \<^verbatim>\<open>in_use\<close> behind the name.\<close>

definition entry_strcmp :: "u8 list \<Rightarrow> dir_entry \<Rightarrow> int option" where
  "entry_strcmp name e = strcmp (0 # name @ [0]) 1 (0 # de_name e @ [bool_byte (in_use e)]) 1"

partial_function (option) lookup_loop ::
  "ptr \<Rightarrow> u8 list \<Rightarrow> int \<Rightarrow> u8 list \<Rightarrow> fs \<Rightarrow> ((dir_entry \<times> int) option \<times> fs) option" where
  "lookup_loop p name ofs e fs = do {
     (full, e, fs) \<leftarrow> read_entry p ofs e fs;
     if full then do {
       let de = dec_entry e;
       r \<leftarrow> (if in_use de then entry_strcmp name de else Some 1);
       if in_use de \<and> r = 0 then Some (Some (de, ofs), fs)
       else lookup_loop p name (ofs + int DIR_ENTRY_SIZE) e fs
     } else Some (None, fs)
   }"

definition lookup :: "ptr \<Rightarrow> u8 list \<Rightarrow> fs \<Rightarrow> ((dir_entry \<times> int) option \<times> fs) option" where
  "lookup d name fs = do {
     dr \<leftarrow> dirs fs d;
     lookup_loop (d_inode dr) name 0 (entry_junk fs) fs
   }"

section \<open>Directory operations\<close>

definition dir_create :: "nat \<Rightarrow> block_sector_t \<Rightarrow> nat \<Rightarrow> fs \<Rightarrow> (bool \<times> fs) option" where
  "dir_create depth sector entry_cnt fs =
     inode_create (free_map_allocate depth) sector (int (entry_cnt * DIR_ENTRY_SIZE)) True fs"

definition dir_open :: "nat \<Rightarrow> ptr \<Rightarrow> fs \<Rightarrow> (ptr \<times> fs) option" where
  "dir_open depth inode fs = (
     let (p, fs) = malloc fs in
     if inode \<noteq> NULL \<and> p \<noteq> NULL
     then Some (p, fs\<lparr>dirs := (dirs fs)(p \<mapsto> \<lparr>d_inode = inode, d_pos = 0\<rparr>)\<rparr>)
     else do { fs \<leftarrow> inode_close (free_map_release depth) inode fs; Some (NULL, fs) })"

definition dir_open_root :: "nat \<Rightarrow> fs \<Rightarrow> (ptr \<times> fs) option" where
  "dir_open_root depth fs = do {
     (i, fs) \<leftarrow> inode_open ROOT_DIR_SECTOR fs;
     dir_open depth i fs
   }"

definition dir_reopen :: "nat \<Rightarrow> ptr \<Rightarrow> fs \<Rightarrow> (ptr \<times> fs) option" where
  "dir_reopen depth d fs = do {
     dr \<leftarrow> dirs fs d;
     (i, fs) \<leftarrow> inode_reopen (d_inode dr) fs;
     dir_open depth i fs
   }"

definition dir_close :: "nat \<Rightarrow> ptr \<Rightarrow> fs \<Rightarrow> fs option" where
  "dir_close depth d fs = (
     if d = NULL then Some fs
     else do {
       dr \<leftarrow> dirs fs d;
       fs \<leftarrow> inode_close (free_map_release depth) (d_inode dr) fs;
       Some (fs\<lparr>dirs := (dirs fs)(d := None)\<rparr>)
     })"

definition dir_get_inode :: "fs \<Rightarrow> ptr \<Rightarrow> ptr option" where
  "dir_get_inode fs d = map_option d_inode (dirs fs d)"

text \<open>The inode found, or null.\<close>

definition dir_lookup :: "ptr \<Rightarrow> u8 list \<Rightarrow> fs \<Rightarrow> (ptr \<times> fs) option" where
  "dir_lookup d name fs = do {
     ASSERT (d \<noteq> NULL);
     i \<leftarrow> dir_get_inode fs d;
     fs \<leftarrow> inode_lock_acquire i fs;
     (r, fs) \<leftarrow> lookup d name fs;
     (p, fs) \<leftarrow> (case r of Some (e, _) \<Rightarrow> inode_open (inode_sector e) fs | None \<Rightarrow> Some (NULL, fs));
     fs \<leftarrow> inode_lock_release i fs;
     Some (p, fs)
   }"

text \<open>The first free slot, or the end of the file; also what is left in \<^verbatim>\<open>e\<close>.\<close>

partial_function (option) free_slot_loop :: "ptr \<Rightarrow> int \<Rightarrow> u8 list \<Rightarrow> fs \<Rightarrow> (int \<times> u8 list \<times> fs) option" where
  "free_slot_loop p ofs e fs = do {
     (full, e, fs) \<leftarrow> read_entry p ofs e fs;
     if full \<and> in_use (dec_entry e) then free_slot_loop p (ofs + int DIR_ENTRY_SIZE) e fs
     else Some (ofs, e, fs)
   }"

text \<open>\<^verbatim>\<open>strlcpy (e.name, name, sizeof e.name)\<close> leaves the bytes behind the terminator alone.\<close>

definition copy_name :: "u8 list \<Rightarrow> u8 list \<Rightarrow> u8 list" where
  "copy_name old name = overwrite old 0 (take NAME_MAX name @ [0])"

definition dir_add :: "nat \<Rightarrow> ptr \<Rightarrow> u8 list \<Rightarrow> block_sector_t \<Rightarrow> fs \<Rightarrow> (bool \<times> fs) option" where
  "dir_add depth d name sector fs = do {
     ASSERT (d \<noteq> NULL);
     i \<leftarrow> dir_get_inode fs d;
     fs \<leftarrow> inode_lock_acquire i fs;
     if name = [] \<or> length name > NAME_MAX then do {
       fs \<leftarrow> inode_lock_release i fs;
       Some (False, fs)
     } else do {
       (r, fs) \<leftarrow> lookup d name fs;
       if r \<noteq> None then do {
         fs \<leftarrow> inode_lock_release i fs;
         Some (False, fs)
       } else do {
         inum \<leftarrow> inode_get_inumber fs i;
         (ok, fs) \<leftarrow> inode_set_dir_parent (free_map_release depth) inum sector fs;
         if \<not> ok then do {
           fs \<leftarrow> inode_lock_release i fs;
           Some (False, fs)
         } else do {
           (ofs, e, fs) \<leftarrow> free_slot_loop i 0 (entry_junk fs) fs;
           let e = (dec_entry e)\<lparr>in_use := True, de_name := copy_name (de_name (dec_entry e)) name, inode_sector := sector\<rparr>;
           (n, fs) \<leftarrow> inode_write_at (free_map_allocate depth) i (enc_entry e) (int DIR_ENTRY_SIZE) ofs fs;
           fs \<leftarrow> inode_lock_release i fs;
           Some (n = int DIR_ENTRY_SIZE, fs)
         }
       }
     }
   }"

partial_function (option) dir_empty_loop :: "ptr \<Rightarrow> int \<Rightarrow> u8 list \<Rightarrow> fs \<Rightarrow> (bool \<times> fs) option" where
  "dir_empty_loop p ofs e fs = do {
     (full, e, fs) \<leftarrow> read_entry p ofs e fs;
     if full then (if in_use (dec_entry e) then Some (False, fs) else dir_empty_loop p (ofs + int DIR_ENTRY_SIZE) e fs)
     else Some (True, fs)
   }"

definition dir_is_empty :: "ptr \<Rightarrow> fs \<Rightarrow> (bool \<times> fs) option" where
  "dir_is_empty p fs = dir_empty_loop p 0 (entry_junk fs) fs"

text \<open>The body of \<^verbatim>\<open>dir_remove\<close> between the lookup and the label \<^verbatim>\<open>done\<close>.\<close>

definition dir_remove_entry :: "nat \<Rightarrow> ptr \<Rightarrow> ptr \<Rightarrow> dir_entry \<Rightarrow> int \<Rightarrow> fs \<Rightarrow> (bool \<times> fs) option" where
  "dir_remove_entry depth i inode e ofs fs = do {
     isd \<leftarrow> inode_is_dir fs inode;
     cnt \<leftarrow> inode_get_open_cnt fs inode;
     if isd \<and> cnt > 1 then Some (False, fs)
     else do {
       (empty, fs) \<leftarrow> (if isd then dir_is_empty inode fs else Some (True, fs));
       if isd \<and> \<not> empty then Some (False, fs)
       else do {
         (n, fs) \<leftarrow> inode_write_at (free_map_allocate depth) i (enc_entry (e\<lparr>in_use := False\<rparr>)) (int DIR_ENTRY_SIZE) ofs fs;
         if n \<noteq> int DIR_ENTRY_SIZE then Some (False, fs)
         else do { fs \<leftarrow> inode_remove inode fs; Some (True, fs) }
       }
     }
   }"

definition dir_remove :: "nat \<Rightarrow> ptr \<Rightarrow> u8 list \<Rightarrow> fs \<Rightarrow> (bool \<times> fs) option" where
  "dir_remove depth d name fs = do {
     ASSERT (d \<noteq> NULL);
     i \<leftarrow> dir_get_inode fs d;
     fs \<leftarrow> inode_lock_acquire i fs;
     (r, fs) \<leftarrow> lookup d name fs;
     (inode, success, fs) \<leftarrow> (case r of
         None \<Rightarrow> Some (NULL, False, fs)
       | Some (e, ofs) \<Rightarrow> do {
           (inode, fs) \<leftarrow> inode_open (inode_sector e) fs;
           if inode = NULL then Some (NULL, False, fs)
           else do { (ok, fs) \<leftarrow> dir_remove_entry depth i inode e ofs fs; Some (inode, ok, fs) }
         });
     fs \<leftarrow> inode_close (free_map_release depth) inode fs;
     fs \<leftarrow> inode_lock_release i fs;
     Some (success, fs)
   }"

text \<open>The loop of \<^verbatim>\<open>dir_readdir\<close>; the result is the name found.\<close>

partial_function (option) readdir_loop :: "ptr \<Rightarrow> u8 list \<Rightarrow> fs \<Rightarrow> (u8 list option \<times> fs) option" where
  "readdir_loop d e fs = do {
     dr \<leftarrow> dirs fs d;
     (full, e, fs) \<leftarrow> read_entry (d_inode dr) (d_pos dr) e fs;
     if full then do {
       let fs = fs\<lparr>dirs := (dirs fs)(d \<mapsto> dr\<lparr>d_pos := d_pos dr + int DIR_ENTRY_SIZE\<rparr>)\<rparr>;
       if in_use (dec_entry e) then Some (Some (takeWhile (\<lambda>c. c \<noteq> 0) (de_name (dec_entry e))), fs)
       else readdir_loop d e fs
     } else Some (None, fs)
   }"

definition dir_readdir :: "ptr \<Rightarrow> fs \<Rightarrow> (u8 list option \<times> fs) option" where
  "dir_readdir d fs = do {
     i \<leftarrow> dir_get_inode fs d;
     fs \<leftarrow> inode_lock_acquire i fs;
     (r, fs) \<leftarrow> readdir_loop d (entry_junk fs) fs;
     fs \<leftarrow> inode_lock_release i fs;
     Some (r, fs)
   }"

definition dir_is_root :: "fs \<Rightarrow> ptr \<Rightarrow> bool option" where
  "dir_is_root fs d =
     (if d = NULL then Some False
      else do { i \<leftarrow> dir_get_inode fs d; s \<leftarrow> inode_get_inumber fs i; Some (s = ROOT_DIR_SECTOR) })"

definition get_dir_parent_inode :: "ptr \<Rightarrow> fs \<Rightarrow> (ptr \<times> fs) option" where
  "get_dir_parent_inode d fs =
     (if d = NULL then Some (NULL, fs)
      else do { i \<leftarrow> dir_get_inode fs d; s \<leftarrow> inode_get_dir_parent fs i; inode_open s fs })"

end
