(* ===== verification/Filesys.thy ===== *)
theory Filesys
  imports Directory
begin

text \<open>
  The top level of the file system (filesys/filesys.c): path resolution, and creating, opening,
  removing files and changing directory.  \<open>current_dir\<close> is the running thread's directory.
\<close>

definition SLASH :: u8 where "SLASH = 47"
definition DOT :: u8 where "DOT = 46"

text \<open>A path in a local array, at address 1, and the delimiter string.\<close>

definition path_copy :: "u8 list \<Rightarrow> memory" where
  "path_copy path = 0 # path @ [0]"

abbreviation slash_str :: memory where
  "slash_str \<equiv> [0, SLASH, 0]"

definition str_at :: "memory \<Rightarrow> addr \<Rightarrow> u8 list" where
  "str_at m p = takeWhile (\<lambda>c. c \<noteq> 0) (drop p m)"

section \<open>Path resolution\<close>

text \<open>The loop of \<^verbatim>\<open>dir_from_path\<close>: every component but the last is entered.  A component that is not a
  directory is closed and skipped.\<close>

partial_function (option) dir_from_path_loop ::
  "nat \<Rightarrow> memory \<Rightarrow> addr \<Rightarrow> addr \<Rightarrow> addr \<Rightarrow> ptr \<Rightarrow> fs \<Rightarrow> (ptr \<times> fs) option" where
  "dir_from_path_loop depth m prev cur sp dir fs = (
     if cur = 0 then Some (dir, fs)
     else do {
       dot \<leftarrow> strcmp m prev [0, DOT, 0] 1;
       if dot = 0 then do {
         (cur', sp, m) \<leftarrow> strtok_r m 0 slash_str 1 sp;
         dir_from_path_loop depth m cur cur' sp dir fs
       } else do {
         dotdot \<leftarrow> strcmp m prev [0, DOT, DOT, 0] 1;
         (inode, fs) \<leftarrow> (if dotdot = 0 then get_dir_parent_inode dir fs else dir_lookup dir (str_at m prev) fs);
         if inode = NULL then Some (NULL, fs)
         else do {
           isd \<leftarrow> inode_is_dir fs inode;
           (dir, fs) \<leftarrow>
             (if isd then do { fs \<leftarrow> dir_close depth dir fs; dir_open depth inode fs }
              else do { fs \<leftarrow> inode_close (free_map_release depth) inode fs; Some (dir, fs) });
           (cur', sp, m) \<leftarrow> strtok_r m 0 slash_str 1 sp;
           dir_from_path_loop depth m cur cur' sp dir fs
         }
       }
     })"

definition dir_from_path :: "nat \<Rightarrow> u8 list \<Rightarrow> fs \<Rightarrow> (ptr \<times> fs) option" where
  "dir_from_path depth path fs = do {
     let m = path_copy path;
     c \<leftarrow> aread m 1;
     (dir, fs) \<leftarrow> (if c = SLASH \<or> current_dir fs = NULL then dir_open_root depth fs
                   else dir_reopen depth (current_dir fs) fs);
     (prev, sp, m) \<leftarrow> strtok_r m 1 slash_str 1 0;
     (cur, sp, m) \<leftarrow> strtok_r m 0 slash_str 1 sp;
     dir_from_path_loop depth m prev cur sp dir fs
   }"

partial_function (option) last_token_loop :: "memory \<Rightarrow> u8 list \<Rightarrow> addr \<Rightarrow> addr \<Rightarrow> u8 list option" where
  "last_token_loop m prev cur sp =
     (if cur = 0 then Some prev
      else do {
        let prev = str_at m cur;
        (cur, sp, m) \<leftarrow> strtok_r m 0 slash_str 1 sp;
        last_token_loop m prev cur sp
      })"

text \<open>The result of \<^verbatim>\<open>malloc\<close> is used unchecked: copying the name to a null pointer fails an assertion.\<close>

definition file_name_from_path :: "u8 list \<Rightarrow> fs \<Rightarrow> (u8 list \<times> fs) option" where
  "file_name_from_path path fs = do {
     (cur, sp, m) \<leftarrow> strtok_r (path_copy path) 1 slash_str 1 0;
     name \<leftarrow> last_token_loop m [] cur sp;
     let (p, fs) = malloc fs;
     ASSERT (p \<noteq> NULL);
     Some (name, fs)
   }"

section \<open>Operations\<close>

definition do_format :: "nat \<Rightarrow> fs \<Rightarrow> fs option" where
  "do_format depth fs = do {
     fs \<leftarrow> free_map_create depth fs;
     (ok, fs) \<leftarrow> dir_create depth ROOT_DIR_SECTOR 16 fs;
     ASSERT ok;
     free_map_close depth fs
   }"

definition filesys_init :: "nat \<Rightarrow> bool \<Rightarrow> block option \<Rightarrow> bool \<Rightarrow> u32 list option \<Rightarrow> fs \<Rightarrow> fs option" where
  "filesys_init depth format device hdr_ok mem fs = do {
     dev \<leftarrow> device;
     let fs = fs\<lparr>cch := cache_init ((cch fs)\<lparr>fs_device := dev\<rparr>)\<rparr>;
     let fs = inode_init fs;
     fs \<leftarrow> free_map_init hdr_ok mem fs;
     fs \<leftarrow> (if format then do_format depth fs else Some fs);
     free_map_open depth fs
   }"

definition filesys_done :: "nat \<Rightarrow> fs \<Rightarrow> fs option" where
  "filesys_done depth fs = do {
     c \<leftarrow> cache_writeback True (cch fs);
     free_map_close depth (fs\<lparr>cch := c\<rparr>)
   }"

definition filesys_create :: "nat \<Rightarrow> u8 list \<Rightarrow> int \<Rightarrow> bool \<Rightarrow> fs \<Rightarrow> (bool \<times> fs) option" where
  "filesys_create depth name initial_size isd fs = do {
     (dir, fs) \<leftarrow> dir_from_path depth name fs;
     (file_name, fs) \<leftarrow> file_name_from_path name fs;
     (success, sector, fs) \<leftarrow>
       (if file_name \<noteq> [DOT] \<and> file_name \<noteq> [DOT, DOT] \<and> dir \<noteq> NULL then do {
          (sec, fs) \<leftarrow> free_map_allocate depth 1 fs;
          case sec of None \<Rightarrow> Some (False, 0, fs)
          | Some sector \<Rightarrow> do {
              (ok, fs) \<leftarrow> inode_create (free_map_allocate depth) sector initial_size isd fs;
              if \<not> ok then Some (False, sector, fs)
              else do { (ok, fs) \<leftarrow> dir_add depth dir file_name sector fs; Some (ok, sector, fs) }
            }
        } else Some (False, 0, fs));
     fs \<leftarrow> (if \<not> success \<and> sector \<noteq> 0 then free_map_release depth sector 1 fs else Some fs);
     fs \<leftarrow> dir_close depth dir fs;
     Some (success, fs)
   }"

definition filesys_open :: "nat \<Rightarrow> u8 list \<Rightarrow> fs \<Rightarrow> (ptr \<times> fs) option" where
  "filesys_open depth name fs = do {
     (dir, fs) \<leftarrow> dir_from_path depth name fs;
     (file_name, fs) \<leftarrow> file_name_from_path name fs;
     root \<leftarrow> dir_is_root fs dir;
     if dir \<noteq> NULL \<and> root \<and> file_name = [] then Some (dir, fs)
     else if dir \<noteq> NULL \<and> file_name = [DOT] then Some (dir, fs)
     else do {
       (inode, fs) \<leftarrow>
         (if dir = NULL then Some (NULL, fs)
          else if file_name = [DOT, DOT] then get_dir_parent_inode dir fs
          else dir_lookup dir file_name fs);
       if dir \<noteq> NULL \<and> file_name = [DOT, DOT] \<and> inode = NULL then Some (NULL, fs)
       else do {
         fs \<leftarrow> dir_close depth dir fs;
         if inode = NULL then Some (NULL, fs)
         else do {
           isd \<leftarrow> inode_is_dir fs inode;
           if isd then dir_open depth inode fs else file_open (free_map_release depth) inode fs
         }
       }
     }
   }"

definition filesys_remove :: "nat \<Rightarrow> u8 list \<Rightarrow> fs \<Rightarrow> (bool \<times> fs) option" where
  "filesys_remove depth name fs = do {
     (dir, fs) \<leftarrow> dir_from_path depth name fs;
     (file_name, fs) \<leftarrow> file_name_from_path name fs;
     (success, fs) \<leftarrow> (if dir \<noteq> NULL then dir_remove depth dir file_name fs else Some (False, fs));
     fs \<leftarrow> dir_close depth dir fs;
     Some (success, fs)
   }"

definition filesys_chdir :: "nat \<Rightarrow> u8 list \<Rightarrow> fs \<Rightarrow> (bool \<times> fs) option" where
  "filesys_chdir depth new_path fs = do {
     (dir, fs) \<leftarrow> dir_from_path depth new_path fs;
     (file_name, fs) \<leftarrow> file_name_from_path new_path fs;
     if dir = NULL then Some (False, fs)
     else if file_name = [DOT] then Some (True, fs\<lparr>current_dir := dir\<rparr>)
     else do {
       root \<leftarrow> dir_is_root fs dir;
       if file_name = [] \<and> root then Some (True, fs\<lparr>current_dir := dir\<rparr>)
       else do {
         (inode, fs) \<leftarrow> (if file_name = [DOT, DOT] then get_dir_parent_inode dir fs else dir_lookup dir file_name fs);
         if file_name = [DOT, DOT] \<and> inode = NULL then Some (False, fs)
         else do {
           fs \<leftarrow> dir_close depth dir fs;
           (dir, fs) \<leftarrow> dir_open depth inode fs;
           if dir = NULL then Some (False, fs)
           else do {
             fs \<leftarrow> dir_close depth (current_dir fs) fs;
             Some (True, fs\<lparr>current_dir := dir\<rparr>)
           }
         }
       }
     }
   }"

end
