(* ===== verification/Fs_Laws.thy ===== *)
theory Fs_Laws
  imports Inode_Data Filesys
begin

text \<open>
  Laws of the free map, of inode growth and of opening and closing inodes, on the whole file-system
  state.  The free map's file never has to grow while it is written (\<open>fmap_ok\<close>), so allocation and
  release return at nesting depth one.
\<close>

section \<open>The free map and its file\<close>

definition fmap_ok :: "fs \<Rightarrow> inode_disk \<Rightarrow> block_sector_t list \<Rightarrow> bool" where
  "fmap_ok fs d secs \<longleftrightarrow> cache_wf (cch fs) \<and> bitmap_wf (free_map fs) \<and> bit_cnt (free_map fs) = unat (csize (cch fs)) \<and>
     (\<exists>fl i. free_map_file fs \<noteq> NULL \<and> files fs (free_map_file fs) = Some fl \<and> inodes fs (f_inode fl) = Some i \<and>
        deny_write_cnt i = 0 \<and> idata fs (f_inode fl) = Some d) \<and>
     file_map (cch fs) d secs \<and> id_length d = int (bitmap_file_size (free_map fs)) \<and> in_int32 (id_length d)"

lemma bitmap_file_size_eq: "bitmap_wf b \<Longrightarrow> bitmap_file_size b = length (enc_words (bits b))"
  by (simp add: bitmap_file_size_def byte_cnt_def bitmap_wf_def)

lemma fmap_ok_map:
  "fmap_ok fs d secs \<Longrightarrow> bitmap_wf b \<Longrightarrow> bit_cnt b = bit_cnt (free_map fs) \<Longrightarrow> fmap_ok (fs\<lparr>free_map := b\<rparr>) d secs"
  unfolding fmap_ok_def bitmap_file_size_def by simp metis

lemma bitmap_write_ok:
  assumes ok: "fmap_ok fs d secs" and r: "round_robin_idx (cch fs) + id_length d \<le> INT_MAX"
  obtains c' where "bitmap_write al (free_map fs) (free_map_file fs) fs = Some (True, fs\<lparr>cch := c'\<rparr>)"
    "fmap_ok (fs\<lparr>cch := c'\<rparr>) d secs" "contents c' d secs = enc_words (bits (free_map fs))"
    "csize c' = csize (cch fs)" "round_robin_idx c' \<le> round_robin_idx (cch fs) + id_length d"
    "\<forall>t < csize (cch fs). t \<notin> set secs \<longrightarrow> cview c' t = cview (cch fs) t"
    "\<forall>t. t \<notin> set secs \<longrightarrow> cached c' t \<longrightarrow> cached (cch fs) t"
proof -
  let ?b = "free_map fs" and ?n = "id_length d"
  obtain fl i where f: "free_map_file fs \<noteq> NULL" "files fs (free_map_file fs) = Some fl" "inodes fs (f_inode fl) = Some i"
    "deny_write_cnt i = 0" "idata fs (f_inode fl) = Some d"
    using ok unfolding fmap_ok_def by blast
  have w: "cache_wf (cch fs)" "file_map (cch fs) d secs" "in_int32 ?n" and bw: "bitmap_wf ?b"
    and len: "?n = int (bitmap_file_size ?b)" "bitmap_file_size ?b = length (enc_words (bits ?b))"
    using ok bitmap_file_size_eq [of ?b] unfolding fmap_ok_def by blast+
  have z: "0 \<le> ?n" "int 0 + ?n \<le> ?n" "nat ?n \<le> length (enc_words (bits ?b))" using len by simp_all
  obtain c' where c': "inode_write_at al (f_inode fl) (enc_words (bits ?b)) ?n (int 0) fs = Some (?n, fs\<lparr>cch := c'\<rparr>)"
    "cache_wf c'" "csize c' = csize (cch fs)" "round_robin_idx c' \<le> round_robin_idx (cch fs) + ?n"
    "contents c' d secs = overwrite (contents (cch fs) d secs) 0 (take (nat ?n) (enc_words (bits ?b)))" "file_map c' d secs"
    "\<forall>t < csize (cch fs). t \<notin> set secs \<longrightarrow> cview c' t = cview (cch fs) t"
    "\<forall>t. t \<notin> set secs \<longrightarrow> cached c' t \<longrightarrow> cached (cch fs) t"
    using inode_write_at_ok [OF w(1,2) f(5,3,4) r z w(3)] .
  have "contents c' d secs = enc_words (bits ?b)"
    using c'(5) length_contents [OF w(1,2)] len by simp
  moreover have "bitmap_write al ?b (free_map_file fs) fs = Some (True, fs\<lparr>cch := c'\<rparr>)"
    using c'(1) f(2) len(1) by (simp add: bitmap_write_def file_write_at_def bitmap_file_size_def)
  moreover have "fmap_ok (fs\<lparr>cch := c'\<rparr>) d secs"
    using ok c'(2,3,6) unfolding fmap_ok_def by simp metis
  ultimately show ?thesis using that c'(3,4,7,8) by blast
qed

lemma free_map_allocate_cases:
  assumes ok: "fmap_ok fs d secs" and r: "round_robin_idx (cch fs) + id_length d \<le> INT_MAX"
  obtains (full) "free_map_allocate (Suc n) cnt fs = Some (None, fs)"
      "\<And>k. k + cnt \<le> bit_cnt (free_map fs) \<Longrightarrow> \<exists>j < cnt. bm_bits (free_map fs) ! (k + j)"
    | (found) s b c' where "free_map_allocate (Suc n) cnt fs = Some (Some (of_nat s), fs\<lparr>free_map := b, cch := c'\<rparr>)"
      "s + cnt \<le> bit_cnt (free_map fs)" "\<And>j. j < cnt \<Longrightarrow> \<not> bm_bits (free_map fs) ! (s + j)"
      "\<And>k. k < s \<Longrightarrow> \<exists>j < cnt. bm_bits (free_map fs) ! (k + j)"
      "bm_bits b = overwrite (bm_bits (free_map fs)) s (replicate cnt True)"
      "fmap_ok (fs\<lparr>free_map := b, cch := c'\<rparr>) d secs" "contents c' d secs = enc_words (bits b)"
      "csize c' = csize (cch fs)" "round_robin_idx c' \<le> round_robin_idx (cch fs) + id_length d"
      "\<forall>t < csize (cch fs). t \<notin> set secs \<longrightarrow> cview c' t = cview (cch fs) t"
      "\<forall>t. t \<notin> set secs \<longrightarrow> cached c' t \<longrightarrow> cached (cch fs) t"
proof -
  have bw: "bitmap_wf (free_map fs)" and nz: "free_map_file fs \<noteq> NULL" using ok unfolding fmap_ok_def by blast+
  show ?thesis
  proof (cases rule: bitmap_alloc_cases [OF bw le0, where cnt = cnt and v = False])
    case 1
    then show ?thesis using full by simp
  next
    case (2 s b)
    have ok1: "fmap_ok (fs\<lparr>free_map := b\<rparr>) d secs" using fmap_ok_map [OF ok 2(7,8)] .
    obtain c' where c': "bitmap_write (free_map_allocate n) b (free_map_file fs) (fs\<lparr>free_map := b\<rparr>) = Some (True, fs\<lparr>free_map := b, cch := c'\<rparr>)"
      "fmap_ok (fs\<lparr>free_map := b, cch := c'\<rparr>) d secs" "contents c' d secs = enc_words (bits b)"
      "csize c' = csize (cch fs)" "round_robin_idx c' \<le> round_robin_idx (cch fs) + id_length d"
      "\<forall>t < csize (cch fs). t \<notin> set secs \<longrightarrow> cview c' t = cview (cch fs) t"
      "\<forall>t. t \<notin> set secs \<longrightarrow> cached c' t \<longrightarrow> cached (cch fs) t"
      using bitmap_write_ok [OF ok1, of "free_map_allocate n"] r by auto
    have "free_map_allocate (Suc n) cnt fs = Some (Some (of_nat s), fs\<lparr>free_map := b, cch := c'\<rparr>)"
      using 2(1,2) nz c'(1) by (simp add: Let_def)
    then show ?thesis using found [of s c' b] 2 c' by simp
  qed
qed

section \<open>Writing past the cache\<close>

lemma cached_lookup: "cached c s \<longleftrightarrow> cache_lookup c s \<noteq> -1"
  by (rule cache_lookup_cases [of c s]) (auto simp: cached_def)

lemma fs_block_write_ok:
  assumes wf: "cache_wf (cch fs)" and s: "s < csize (cch fs)" and b: "sector_ok buf"
  obtains c' where "fs_block_write fs s buf = Some (fs\<lparr>cch := c'\<rparr>)" "csize c' = csize (cch fs)"
    "round_robin_idx c' = round_robin_idx (cch fs)" "\<forall>t. cached c' t = cached (cch fs) t"
    "\<forall>t. cview c' t = (if t = s \<and> \<not> cached (cch fs) s then buf else cview (cch fs) t)"
    "\<forall>t. blk_data (fs_device c') ! unat t = (if t = s then buf else blk_data (fs_device (cch fs)) ! unat t)"
    "\<not> cached (cch fs) s \<longrightarrow> cache_wf c'"
proof -
  let ?c = "cch fs"
  let ?dev = "(fs_device ?c)\<lparr>blk_data := (blk_data (fs_device ?c))[unat s := buf], write_cnt := write_cnt (fs_device ?c) + 1\<rparr>"
  let ?c' = "?c\<lparr>fs_device := ?dev\<rparr>"
  have d: "block_wf (fs_device ?c)" "blk_type (fs_device ?c) \<noteq> BLOCK_FOREIGN" using wf by (simp_all add: cache_wf_def)
  have lt: "unat s < length (blk_data (fs_device ?c))" using d(1) s by (simp add: block_wf_def word_less_nat_alt)
  have run: "fs_block_write fs s buf = Some (fs\<lparr>cch := ?c'\<rparr>)"
    using s d(2) by (simp add: fs_block_write_def block_write_eq)
  have lk: "cache_lookup ?c' t = cache_lookup ?c t" for t by (simp add: cache_lookup_def)
  have dat: "blk_data ?dev ! unat t = (if t = s then buf else blk_data (fs_device ?c) ! unat t)" for t
    using lt by (auto simp: nth_list_update word_unat_eq_iff)
  have cv: "cview ?c' t = (if t = s \<and> \<not> cached ?c s then buf else cview ?c t)" for t
    using dat lk by (simp add: cview_def cached_lookup)
  have "entry_ok ?dev (cache_table ?c ! i)" if "\<not> cached ?c s" "i < CACHE_SIZE" for i
    using wf that dat by (auto simp: cache_wf_def entry_ok_def cached_def)
  then have "\<not> cached ?c s \<longrightarrow> cache_wf ?c'"
    using wf block_wf_write [OF d(1) b, where s = s] by (simp add: cache_wf_def)
  then show ?thesis using that [OF run] cv dat lk by (simp add: cached_lookup)
qed

text \<open>A new sector that the cache still holds from an earlier use keeps showing the old bytes.\<close>

lemma fs_block_write_stale:
  "fs_block_write fs s buf = Some fs' \<Longrightarrow> cached (cch fs) s \<Longrightarrow> cview (cch fs') s = cview (cch fs) s"
  by (auto simp: fs_block_write_def bind_eq_Some_conv block_write_eq cview_def cached_lookup cache_lookup_def split: if_splits)

section \<open>Growth of small files\<close>

text \<open>\<open>fresh_ok fs fd fsecs\<close>: the free map is in order with file \<open>fd\<close> in \<open>fsecs\<close>, whose sectors are marked
  as used, and no free sector is cached.\<close>

definition used :: "fs \<Rightarrow> block_sector_t \<Rightarrow> bool" where
  "used fs s \<longleftrightarrow> bm_bits (free_map fs) ! unat s"

definition free_cnt :: "fs \<Rightarrow> nat" where
  "free_cnt fs = length (filter Not (bm_bits (free_map fs)))"

definition fresh_ok :: "fs \<Rightarrow> inode_disk \<Rightarrow> block_sector_t list \<Rightarrow> bool" where
  "fresh_ok fs fd fsecs \<longleftrightarrow> fmap_ok fs fd fsecs \<and>
     (\<forall>s \<in> set fsecs \<union> index_sectors (fs_device (cch fs)) fd (length fsecs). used fs s) \<and>
     (\<forall>s < csize (cch fs). \<not> used fs s \<longrightarrow> \<not> cached (cch fs) s)"

lemma file_map_keep:
  assumes m: "file_map c d secs" and sz: "csize c' = csize c"
    and keep: "\<And>t. t \<in> index_sectors (fs_device c) d (length secs) \<Longrightarrow> \<not> cached c' t \<and> cview c' t = cview c t"
  shows "file_map c' d secs" and "index_sectors (fs_device c') d (length secs) = index_sectors (fs_device c) d (length secs)"
proof -
  have "blk_data (fs_device c') ! unat s = blk_data (fs_device c) ! unat s"
    if "s \<in> index_sectors (fs_device c) d (length secs)" for s
    using keep [OF that] m that cview_uncached [of c s] cview_uncached [of c' s] unfolding file_map_def by metis
  then show e: "index_sectors (fs_device c') d (length secs) = index_sectors (fs_device c) d (length secs)"
    and "file_map c' d secs"
    using sector_of_cong [of "fs_device c" d "length secs" "fs_device c'"] m sz keep by (auto simp: file_map_def)
qed

lemma sector_ok_zeros [simp]: "sector_ok zeros"
  by (simp add: sector_ok_def zeros_def)

lemma filter_Not_update:
  "i < length xs \<Longrightarrow> \<not> xs ! i \<Longrightarrow> Suc (length (filter Not (xs[i := True]))) = length (filter Not xs)"
  by (induction xs arbitrary: i) (auto split: nat.splits)

lemma alloc_zeroed:
  assumes ok: "fresh_ok fs fd fsecs" and r: "round_robin_idx (cch fs) + id_length fd \<le> INT_MAX" and free: "free_cnt fs > 0"
  obtains s fs1 fs2 where "free_map_allocate (Suc n) 1 fs = Some (Some s, fs1)" "fs_block_write fs1 s zeros = Some fs2"
    "fresh_ok fs2 fd fsecs" "s < csize (cch fs)" "\<not> used fs s" "\<forall>t. used fs2 t \<longleftrightarrow> t = s \<or> used fs t"
    "free_cnt fs2 = free_cnt fs - 1" "csize (cch fs2) = csize (cch fs)" "cview (cch fs2) s = zeros"
    "\<forall>t < csize (cch fs). t \<notin> set fsecs \<and> t \<noteq> s \<longrightarrow> cview (cch fs2) t = cview (cch fs) t"
    "round_robin_idx (cch fs2) \<le> round_robin_idx (cch fs) + id_length fd"
    "\<exists>b c1 c2. fs1 = fs\<lparr>free_map := b, cch := c1\<rparr> \<and> fs2 = fs\<lparr>free_map := b, cch := c2\<rparr>"
proof -
  have m: "fmap_ok fs fd fsecs" "cache_wf (cch fs)" "file_map (cch fs) fd fsecs"
    and bc: "bit_cnt (free_map fs) = unat (csize (cch fs))"
    using ok by (auto simp: fresh_ok_def fmap_ok_def)
  show ?thesis
  proof (cases rule: free_map_allocate_cases [OF m(1) r, where cnt = 1 and n = n])
    case 1
    then have "filter Not (bm_bits (free_map fs)) = []"
      by (auto simp: filter_empty_conv in_set_conv_nth length_bm_bits)
    then show ?thesis using free by (simp add: free_cnt_def)
  next
    case (2 k b c1)
    define s :: block_sector_t where "s = of_nat k"
    have k: "k < bit_cnt (free_map fs)" using 2(2) by simp
    have us: "unat s = k" and s: "s < csize (cch fs)"
      using k unsigned_less [of "csize (cch fs)", where ?'a = nat] by (auto simp: s_def bc unat_of_nat take_bit_nat_eq_self word_less_nat_alt)
    have ns: "\<not> used fs s" using 2(3) [of 0] by (simp add: used_def us)
    then have sf: "s \<notin> set fsecs" "s \<notin> index_sectors (fs_device (cch fs)) fd (length fsecs)" "\<not> cached (cch fs) s"
      using ok s by (auto simp: fresh_ok_def)
    have b: "bm_bits b = (bm_bits (free_map fs))[k := True]"
      using 2(5) k by (intro nth_equalityI) (auto simp: nth_overwrite nth_list_update length_bm_bits)
    define fs1 where "fs1 = fs\<lparr>free_map := b, cch := c1\<rparr>"
    have c1: "cache_wf (cch fs1)" "csize (cch fs1) = csize (cch fs)" "\<not> cached (cch fs1) s" "s < csize (cch fs1)"
      using 2(6,8,11) sf s by (auto simp: fmap_ok_def fs1_def)
    obtain c2 where c2: "fs_block_write fs1 s zeros = Some (fs1\<lparr>cch := c2\<rparr>)" "csize c2 = csize (cch fs1)"
      "round_robin_idx c2 = round_robin_idx (cch fs1)" "\<forall>t. cached c2 t = cached (cch fs1) t"
      "\<forall>t. cview c2 t = (if t = s then zeros else cview (cch fs1) t)" "cache_wf c2"
      using c1(3) by (rule_tac fs_block_write_ok [OF c1(1,4) sector_ok_zeros]) simp
    define fs2 where "fs2 = fs1\<lparr>cch := c2\<rparr>"
    let ?I = "index_sectors (fs_device (cch fs)) fd (length fsecs)"
    have I1: "t < csize (cch fs)" "t \<notin> set fsecs" "\<not> cached (cch fs) t" if "t \<in> ?I" for t
      using m(3) that by (auto simp: file_map_def)
    have m1: "file_map c1 fd fsecs" "index_sectors (fs_device c1) fd (length fsecs) = ?I"
      by (rule file_map_keep [OF m(3) 2(8)]; use I1 2(10,11) in blast)+
    have "csize c2 = csize c1" using c2(2) by (simp add: fs1_def)
    moreover have "\<not> cached c2 t \<and> cview c2 t = cview c1 t" if "t \<in> index_sectors (fs_device c1) fd (length fsecs)" for t
      using that I1 [of t] sf(2) c2(4,5) 2(11) unfolding m1(2) by (auto simp: fs1_def)
    ultimately have m2: "file_map c2 fd fsecs" "index_sectors (fs_device c2) fd (length fsecs) = ?I"
      using file_map_keep [OF m1(1)] m1(2) by simp_all
    have u: "used fs2 t \<longleftrightarrow> t = s \<or> used fs t" for t
      using k by (auto simp: used_def fs2_def fs1_def b nth_list_update us [symmetric] word_unat_eq_iff)
    have fm2: "fmap_ok fs2 fd fsecs"
      using 2(6) m2(1) c2(2,6) unfolding fmap_ok_def fs2_def fs1_def by simp metis
    have unc: "\<not> cached c2 t" if "t < csize (cch fs)" "\<not> used fs2 t" for t
      using that u ok 2(11) c2(4) by (auto simp: fs1_def fresh_ok_def)
    have fr: "fresh_ok fs2 fd fsecs"
      using ok fm2 m2(2) unc u c2(2) 2(8) unfolding fresh_ok_def by (simp add: fs2_def fs1_def)
    have cnt: "free_cnt fs2 = free_cnt fs - 1"
      using filter_Not_update [of k "bm_bits (free_map fs)"] k ns
      by (simp add: free_cnt_def fs2_def fs1_def b used_def us)
    have shape: "\<exists>b c1 c2. fs1 = fs\<lparr>free_map := b, cch := c1\<rparr> \<and> fs2 = fs\<lparr>free_map := b, cch := c2\<rparr>"
      by (rule_tac exI [of _ b], rule_tac exI [of _ c1], rule_tac exI [of _ c2]) (simp add: fs1_def fs2_def)
    have rest: "csize (cch fs2) = csize (cch fs)" "cview (cch fs2) s = zeros"
      "\<forall>t < csize (cch fs). t \<notin> set fsecs \<and> t \<noteq> s \<longrightarrow> cview (cch fs2) t = cview (cch fs) t"
      "round_robin_idx (cch fs2) \<le> round_robin_idx (cch fs) + id_length fd"
      using c2(2,3,5) 2(8,9,10) by (simp_all add: fs2_def fs1_def)
    show ?thesis
      using that [OF 2(1) [folded s_def fs1_def] c2(1) [folded fs2_def] fr s ns _ cnt rest shape] u by blast
  qed
qed

lemma fresh_ok_set_data:
  assumes "fresh_ok fs fd fsecs" and "\<forall>fl. files fs (free_map_file fs) = Some fl \<longrightarrow> f_inode fl \<noteq> p"
  shows "fresh_ok (set_data fs p d) fd fsecs"
  using assms unfolding fresh_ok_def fmap_ok_def set_data_def used_def by simp metis

lemma used_set_data [simp]: "used (set_data fs p d) t = used fs t" "free_cnt (set_data fs p d) = free_cnt fs"
  "cch (set_data fs p d) = cch fs" "files (set_data fs p d) = files fs" "free_map_file (set_data fs p d) = free_map_file fs"
  "idata (set_data fs p d) q = (if q = p then Some d else idata fs q)" "inodes (set_data fs p d) = inodes fs"
  by (simp_all add: used_def free_cnt_def set_data_def)

lemma fs_block_write_set_data:
  "fs_block_write (set_data fs p d) s b = map_option (\<lambda>f. set_data f p d) (fs_block_write fs s b)"
  by (cases "block_write (fs_device (cch fs)) s b") (simp_all add: fs_block_write_def set_data_def)

lemma grow_direct_step:
  assumes al: "free_map_allocate (Suc n) 1 fs = Some (Some s, fs1)" and bw: "fs_block_write fs1 s zeros = Some fs2"
    and sh: "\<exists>b c1 c2. fs1 = fs\<lparr>free_map := b, cch := c1\<rparr> \<and> fs2 = fs\<lparr>free_map := b, cch := c2\<rparr>"
    and d: "idata fs p = Some d" "length (blocks d) = 15" "direct_count d = int k" "k < 13"
  shows "grow_direct (free_map_allocate (Suc n)) p (Suc g) fs =
    grow_direct (free_map_allocate (Suc n)) p g (set_data fs2 p (d\<lparr>blocks := (blocks d)[k := s], direct_count := int (Suc k)\<rparr>))"
proof -
  obtain b c1 c2 where sh: "fs1 = fs\<lparr>free_map := b, cch := c1\<rparr>" "fs2 = fs\<lparr>free_map := b, cch := c2\<rparr>" using sh by blast
  let ?d1 = "d\<lparr>blocks := (blocks d)[k := s]\<rparr>"
  have "alloc_block (free_map_allocate (Suc n)) p (int k) fs = Some (set_data fs1 p ?d1)"
    using al d sh(1) unfolding alloc_block_def by (simp add: iwrite_def awrite_def del: free_map_allocate.simps)
  moreover have "fs_block_write (set_data fs1 p ?d1) s zeros = Some (set_data fs2 p ?d1)"
    using bw by (simp add: fs_block_write_set_data)
  ultimately show ?thesis
    using d by (simp add: DIRECT_BLOCKS_def aread_def del: free_map_allocate.simps) (simp add: set_data_def add.commute)
qed

lemma grow_direct_ok:
  assumes "fresh_ok fs fd fsecs" and "idata fs p = Some d"
    and "\<forall>fl. files fs (free_map_file fs) = Some fl \<longrightarrow> f_inode fl \<noteq> p"
    and "length (blocks d) = 15" and "direct_count d = int k" and "k + g \<le> 13" and "g \<le> free_cnt fs"
    and "round_robin_idx (cch fs) + int g * id_length fd \<le> INT_MAX" and "0 \<le> id_length fd"
  shows "\<exists>new fs'. grow_direct (free_map_allocate (Suc n)) p g fs = Some (0, fs') \<and> fresh_ok fs' fd fsecs \<and>
    idata fs' p = Some (d\<lparr>blocks := take k (blocks d) @ new @ drop (k + g) (blocks d), direct_count := int (k + g)\<rparr>) \<and>
    length new = g \<and> distinct new \<and> csize (cch fs') = csize (cch fs) \<and>
    (\<forall>s \<in> set new. s < csize (cch fs) \<and> \<not> used fs s \<and> cview (cch fs') s = zeros) \<and>
    (\<forall>t. used fs' t \<longleftrightarrow> t \<in> set new \<or> used fs t) \<and>
    (\<forall>t < csize (cch fs). t \<notin> set fsecs \<and> t \<notin> set new \<longrightarrow> cview (cch fs') t = cview (cch fs) t)"
  using assms
proof (induction g arbitrary: fs d k)
  case 0
  then show ?case by (rule_tac exI [of _ "[]"], rule_tac exI [of _ fs]) simp
next
  case (Suc g)
  have r: "round_robin_idx (cch fs) + id_length fd \<le> INT_MAX" and f: "free_cnt fs > 0"
    using Suc.prems(7,8) mult_nonneg_nonneg [OF of_nat_0_le_iff Suc.prems(9), of g] by (auto simp: algebra_simps)
  obtain s fs1 fs2 where s: "free_map_allocate (Suc n) 1 fs = Some (Some s, fs1)" "fs_block_write fs1 s zeros = Some fs2"
    "fresh_ok fs2 fd fsecs" "s < csize (cch fs)" "\<not> used fs s" "\<forall>t. used fs2 t \<longleftrightarrow> t = s \<or> used fs t"
    "free_cnt fs2 = free_cnt fs - 1" "csize (cch fs2) = csize (cch fs)" "cview (cch fs2) s = zeros"
    "\<forall>t < csize (cch fs). t \<notin> set fsecs \<and> t \<noteq> s \<longrightarrow> cview (cch fs2) t = cview (cch fs) t"
    "round_robin_idx (cch fs2) \<le> round_robin_idx (cch fs) + id_length fd"
    "\<exists>b c1 c2. fs1 = fs\<lparr>free_map := b, cch := c1\<rparr> \<and> fs2 = fs\<lparr>free_map := b, cch := c2\<rparr>"
    using alloc_zeroed [OF Suc.prems(1) r f] .
  define d2 where "d2 = d\<lparr>blocks := (blocks d)[k := s], direct_count := int (Suc k)\<rparr>"
  define fs3 where "fs3 = set_data fs2 p d2"
  have run: "grow_direct (free_map_allocate (Suc n)) p (Suc g) fs = grow_direct (free_map_allocate (Suc n)) p g fs3"
    using grow_direct_step [OF s(1,2,12) Suc.prems(2,4,5)] Suc.prems(6) by (simp add: fs3_def d2_def)
  have np: "\<forall>fl. files fs2 (free_map_file fs2) = Some fl \<longrightarrow> f_inode fl \<noteq> p" using Suc.prems(3) s(12) by auto
  have h: "fresh_ok fs3 fd fsecs" "idata fs3 p = Some d2" "\<forall>fl. files fs3 (free_map_file fs3) = Some fl \<longrightarrow> f_inode fl \<noteq> p"
    "length (blocks d2) = 15" "direct_count d2 = int (Suc k)" "Suc k + g \<le> 13" "g \<le> free_cnt fs3"
    "round_robin_idx (cch fs3) + int g * id_length fd \<le> INT_MAX"
    using fresh_ok_set_data [OF s(3) np] np Suc.prems s(7,11) by (auto simp: fs3_def d2_def algebra_simps)
  obtain new fs' where n: "grow_direct (free_map_allocate (Suc n)) p g fs3 = Some (0, fs')" "fresh_ok fs' fd fsecs"
    "idata fs' p = Some (d2\<lparr>blocks := take (Suc k) (blocks d2) @ new @ drop (Suc k + g) (blocks d2), direct_count := int (Suc k + g)\<rparr>)"
    "length new = g" "distinct new" "csize (cch fs') = csize (cch fs3)"
    "\<forall>s \<in> set new. s < csize (cch fs3) \<and> \<not> used fs3 s \<and> cview (cch fs') s = zeros"
    "\<forall>t. used fs' t \<longleftrightarrow> t \<in> set new \<or> used fs3 t"
    "\<forall>t < csize (cch fs3). t \<notin> set fsecs \<and> t \<notin> set new \<longrightarrow> cview (cch fs') t = cview (cch fs3) t"
    using Suc.IH [OF h Suc.prems(9)] by blast
  have u3: "used fs3 t \<longleftrightarrow> t = s \<or> used fs t" "cch fs3 = cch fs2" for t using s(6) by (simp_all add: fs3_def)
  have sn: "s \<notin> set new" "s \<notin> set fsecs" using n(7) u3 s(5) Suc.prems(1) by (auto simp: fresh_ok_def)
  have bl: "take (Suc k) (blocks d2) @ new @ drop (Suc k + g) (blocks d2) = take k (blocks d) @ (s # new) @ drop (k + Suc g) (blocks d)"
    using Suc.prems(4,6) by (simp add: d2_def take_Suc_conv_app_nth)
  show ?case
    by (rule_tac exI [of _ "s # new"], rule_tac exI [of _ fs'])
      (use n run bl sn u3 s in \<open>auto simp: d2_def simp del: grow_direct.simps free_map_allocate.simps\<close>)
qed

lemma concat_zeros: "concat (replicate g zeros) = replicate (512 * g) 0"
  by (induction g) (simp_all add: zeros_def BLOCK_SECTOR_SIZE_def replicate_add [symmetric])

lemma map_zeros: "\<forall>s \<in> set new. f s = zeros \<Longrightarrow> map f new = replicate (length new) zeros"
  by (induction new) auto

lemma sector_of_direct: "i < 13 \<Longrightarrow> sector_of dev d i = blocks d ! i" "n \<le> 13 \<Longrightarrow> index_sectors dev d n = {}"
  by (simp_all add: sector_of_def index_sectors_def)

text \<open>C17. Growing a small file: when a file of direct blocks grows to at most thirteen sectors and the
  free map has enough free sectors, none of them cached, \<^verbatim>\<open>inode_grow\<close> returns true; the inode then maps
  the old sectors followed by new ones, which were free, are pairwise distinct and are now marked as used;
  the bytes of the file are the old sectors followed by zeros, cut at the new length; no other sector
  outside the free map's own file changes.\<close>

theorem inode_grow_direct:
  assumes ok: "fresh_ok fs fd fsecs" and np: "\<forall>fl. files fs (free_map_file fs) = Some fl \<longrightarrow> f_inode fl \<noteq> p"
    and d: "idata fs p = Some d" "file_map (cch fs) d secs" "direct_count d = int (length secs)"
    and sep: "set secs \<inter> set fsecs = {}" "\<forall>s \<in> set secs. used fs s"
    and len: "id_length d \<le> len" "bytes_to_sectors len \<le> 13" "bytes_to_sectors len - int (length secs) \<le> int (free_cnt fs)"
    and r: "round_robin_idx (cch fs) + 13 * id_length fd \<le> INT_MAX"
  shows "\<exists>new fs' d'. inode_grow (free_map_allocate (Suc n)) p len fs = Some (True, fs') \<and>
    fresh_ok fs' fd fsecs \<and> idata fs' p = Some d' \<and> id_length d' = len \<and>
    direct_count d' = int (length (secs @ new)) \<and> file_map (cch fs') d' (secs @ new) \<and>
    (\<forall>s \<in> set new. \<not> used fs s) \<and> (\<forall>t. used fs' t \<longleftrightarrow> t \<in> set new \<or> used fs t) \<and>
    contents (cch fs') d' (secs @ new) = take (nat len) (concat (map (cview (cch fs)) secs) @ replicate (512 * length new) 0) \<and>
    (\<forall>t < csize (cch fs). t \<notin> set fsecs \<and> t \<notin> set new \<longrightarrow> cview (cch fs') t = cview (cch fs) t)"
proof -
  define g where "g = nat (bytes_to_sectors len) - length secs"
  have fm: "length (blocks d) = 15" "int (length secs) = bytes_to_sectors (id_length d)" "distinct secs"
    "\<forall>s \<in> set secs. s < csize (cch fs)" "0 \<le> id_length d"
    and fl: "0 \<le> id_length fd" using d(2) ok by (auto simp: file_map_def fresh_ok_def fmap_ok_def)
  have mono: "int (length secs) \<le> bytes_to_sectors len"
    using fm(2) len(1) zdiv_mono1 by (simp add: bytes_to_sectors_def BLOCK_SECTOR_SIZE_def)
  then have g: "bytes_to_sectors len - bytes_to_sectors (id_length d) = int g" "int (length secs + g) = bytes_to_sectors len"
    "length secs + g \<le> 13" "g \<le> free_cnt fs" using len fm(2) by (auto simp: g_def)
  have secs: "take (length secs) (blocks d) = secs"
    using d(2) g(3) fm(1) by (intro nth_equalityI) (auto simp: file_map_def sector_of_direct)
  define d0 fs0 where "d0 = d\<lparr>id_length := len\<rparr>" and "fs0 = set_data fs p d0"
  have "int g * id_length fd \<le> 13 * id_length fd" using g(3) fl by (intro mult_right_mono) auto
  then have h: "fresh_ok fs0 fd fsecs" "idata fs0 p = Some d0" "\<forall>fl. files fs0 (free_map_file fs0) = Some fl \<longrightarrow> f_inode fl \<noteq> p"
    "length (blocks d0) = 15" "direct_count d0 = int (length secs)" "length secs + g \<le> 13" "g \<le> free_cnt fs0"
    "round_robin_idx (cch fs0) + int g * id_length fd \<le> INT_MAX"
    using fresh_ok_set_data [OF ok np] np fm(1) g r d(3) by (simp_all add: fs0_def d0_def)
  obtain new fs' where n: "grow_direct (free_map_allocate (Suc n)) p g fs0 = Some (0, fs')" "fresh_ok fs' fd fsecs"
    "idata fs' p = Some (d0\<lparr>blocks := take (length secs) (blocks d0) @ new @ drop (length secs + g) (blocks d0),
       direct_count := int (length secs + g)\<rparr>)"
    "length new = g" "distinct new" "csize (cch fs') = csize (cch fs0)"
    "\<forall>s \<in> set new. s < csize (cch fs0) \<and> \<not> used fs0 s \<and> cview (cch fs') s = zeros"
    "\<forall>t. used fs' t \<longleftrightarrow> t \<in> set new \<or> used fs0 t"
    "\<forall>t < csize (cch fs0). t \<notin> set fsecs \<and> t \<notin> set new \<longrightarrow> cview (cch fs') t = cview (cch fs0) t"
    using grow_direct_ok [OF h fl] by blast
  define d' where "d' = d0\<lparr>blocks := secs @ new @ drop (length secs + g) (blocks d), direct_count := int (length secs + g)\<rparr>"
  have n0: "\<forall>s \<in> set new. s < csize (cch fs) \<and> \<not> used fs s \<and> cview (cch fs') s = zeros"
    "\<forall>t < csize (cch fs). t \<notin> set fsecs \<and> t \<notin> set new \<longrightarrow> cview (cch fs') t = cview (cch fs) t"
    using n(7,9) by (simp_all add: fs0_def)
  have id': "idata fs' p = Some d'" using n(3) secs by (simp add: d'_def d0_def)
  have run: "inode_grow (free_map_allocate (Suc n)) p len fs = Some (True, fs')"
    using n(1) g(1,3) d(1) by (cases "g = 0") (simp_all add: inode_grow_def Let_def fs0_def d0_def del: free_map_allocate.simps)
  have fm': "file_map (cch fs') d' (secs @ new)"
    using g(2,3) n(4,5,6) n0(1) fm sep(2) len(1)
    by (auto simp: file_map_def sector_of_direct d'_def d0_def fs0_def nth_append)
  have "cview (cch fs') t = cview (cch fs) t" if "t \<in> set secs" for t
    using that n0 sep fm(4) by (metis disjoint_iff)
  then have old: "map (cview (cch fs')) secs = map (cview (cch fs)) secs" by simp
  have zs: "map (cview (cch fs')) new = replicate (length new) zeros" by (rule map_zeros) (use n0(1) in simp)
  have "contents (cch fs') d' (secs @ new) = take (nat len) (concat (map (cview (cch fs)) secs) @ replicate (512 * length new) 0)"
    unfolding contents_def map_append concat_append old zs concat_zeros by (simp add: d'_def d0_def)
  then show ?thesis
    by (rule_tac exI [of _ new], rule_tac exI [of _ fs'], rule_tac exI [of _ d'])
      (use run n(2,4,8) id' fm' n0 in \<open>simp add: d'_def d0_def fs0_def\<close>)
qed

lemma ex_fresh: "fresh_ok ex_fs (ex_data 4 4) [4]"
proof -
  have bs: "bm_bits (free_map ex_fs) = [True, True, True, True, True, False, False, False]"
    by (simp add: ex_fs_def bm_bits_def) code_simp
  have "fmap_ok ex_fs (ex_data 4 4) [4]"
    using ex_cch_wf ex_file_map [of 4 4]
    by (simp add: fmap_ok_def ex_fs_simps) (simp add: ex_fs_def bitmap_wf_def bitmap_file_size_def byte_cnt_def elem_cnt_def in_int32_def ELEM_BITS_def wrap32_def)
  then show ?thesis by (simp add: fresh_ok_def ex_uncached sector_of_direct used_def bs)
qed

lemma ex_free: "used ex_fs 3" "free_cnt ex_fs = 3"
  by (simp_all add: used_def free_cnt_def ex_fs_def bm_bits_def) code_simp+

theorem inode_grow_direct_witness:
  "\<exists>new fs' d'. inode_grow (free_map_allocate (Suc 0)) 5 600 ex_fs = Some (True, fs') \<and>
    fresh_ok fs' (ex_data 4 4) [4] \<and> idata fs' 5 = Some d' \<and> id_length d' = 600 \<and>
    direct_count d' = int (length ([3] @ new)) \<and> file_map (cch fs') d' ([3] @ new) \<and>
    (\<forall>s \<in> set new. \<not> used ex_fs s) \<and> (\<forall>t. used fs' t \<longleftrightarrow> t \<in> set new \<or> used ex_fs t) \<and>
    contents (cch fs') d' ([3] @ new) = take (nat 600) (concat (map (cview (cch ex_fs)) [3]) @ replicate (512 * length new) 0) \<and>
    (\<forall>t < csize (cch ex_fs). t \<notin> set [4] \<and> t \<notin> set new \<longrightarrow> cview (cch fs') t = cview (cch ex_fs) t)"
  by (rule inode_grow_direct [OF ex_fresh _ ex_fs_simps(1) ex_file_map])
     (simp_all add: ex_fs_simps ex_free INT_MAX_def bytes_to_sectors_def BLOCK_SECTOR_SIZE_def, simp add: ex_data_def)

text \<open>C19. Allocation of \<open>cnt\<close> consecutive sectors: \<^verbatim>\<open>free_map_allocate\<close> returns; it fails, changing
  nothing, only when no run of \<open>cnt\<close> free sectors exists; otherwise it returns the start of the first such run,
  marks exactly these sectors, and the free-map file holds the new map while every sector outside it is unchanged.\<close>

theorem free_map_allocate_first_fit:
  assumes "fmap_ok fs d secs" and "round_robin_idx (cch fs) + id_length d \<le> INT_MAX"
  shows "(free_map_allocate (Suc n) cnt fs = Some (None, fs) \<and>
      (\<forall>k. k + cnt \<le> bit_cnt (free_map fs) \<longrightarrow> (\<exists>j < cnt. bm_bits (free_map fs) ! (k + j)))) \<or>
    (\<exists>s fs'. free_map_allocate (Suc n) cnt fs = Some (Some (of_nat s), fs') \<and>
      s + cnt \<le> unat (csize (cch fs)) \<and> (\<forall>j < cnt. \<not> bm_bits (free_map fs) ! (s + j)) \<and>
      (\<forall>k < s. \<exists>j < cnt. bm_bits (free_map fs) ! (k + j)) \<and>
      bm_bits (free_map fs') = overwrite (bm_bits (free_map fs)) s (replicate cnt True) \<and>
      fmap_ok fs' d secs \<and> contents (cch fs') d secs = enc_words (bits (free_map fs')) \<and>
      (\<forall>t < csize (cch fs). t \<notin> set secs \<longrightarrow> cview (cch fs') t = cview (cch fs) t))"
proof (cases rule: free_map_allocate_cases [OF assms, where n = n and cnt = cnt])
  case (2 s b c')
  have "bit_cnt (free_map fs) = unat (csize (cch fs))" using assms(1) by (simp add: fmap_ok_def)
  then show ?thesis
    by (intro disjI2, rule_tac exI [of _ s], rule_tac exI [of _ "fs\<lparr>free_map := b, cch := c'\<rparr>"])
      (use 2 in \<open>simp del: free_map_allocate.simps\<close>)
qed simp

theorem free_map_allocate_first_fit_witness:
  "(free_map_allocate (Suc 0) 2 ex_fs = Some (None, ex_fs) \<and>
      (\<forall>k. k + 2 \<le> bit_cnt (free_map ex_fs) \<longrightarrow> (\<exists>j < 2. bm_bits (free_map ex_fs) ! (k + j)))) \<or>
    (\<exists>s fs'. free_map_allocate (Suc 0) 2 ex_fs = Some (Some (of_nat s), fs') \<and>
      s + 2 \<le> unat (csize (cch ex_fs)) \<and> (\<forall>j < 2. \<not> bm_bits (free_map ex_fs) ! (s + j)) \<and>
      (\<forall>k < s. \<exists>j < 2. bm_bits (free_map ex_fs) ! (k + j)) \<and>
      bm_bits (free_map fs') = overwrite (bm_bits (free_map ex_fs)) s (replicate 2 True) \<and>
      fmap_ok fs' (ex_data 4 4) [4] \<and> contents (cch fs') (ex_data 4 4) [4] = enc_words (bits (free_map fs')) \<and>
      (\<forall>t < csize (cch ex_fs). t \<notin> set [4] \<longrightarrow> cview (cch fs') t = cview (cch ex_fs) t))"
  by (rule free_map_allocate_first_fit) (use ex_fresh in \<open>simp_all add: fresh_ok_def ex_fs_simps INT_MAX_def\<close>)

text \<open>C20. A full disk: when every sector is in use, growing a file by one sector still returns true.
  The entry for the new block keeps its old value, zero for a block never allocated, so \<^verbatim>\<open>inode_grow\<close>
  writes zeros over sector 0, which holds the inode of the free map.\<close>

theorem inode_grow_full_disk:
  assumes ok: "fmap_ok fs fd fsecs" "round_robin_idx (cch fs) + id_length fd \<le> INT_MAX" and full: "free_cnt fs = 0"
    and d: "idata fs p = Some d" "length (blocks d) = 15" "direct_count d = int k" "k < 13" "blocks d ! k = 0"
    and len: "bytes_to_sectors len = bytes_to_sectors (id_length d) + 1" and c: "0 < csize (cch fs)"
  shows "\<exists>fs'. inode_grow (free_map_allocate (Suc n)) p len fs = Some (True, fs') \<and>
    idata fs' p = Some (d\<lparr>id_length := len, direct_count := int k + 1\<rparr>) \<and>
    blk_data (fs_device (cch fs')) ! unat FREE_MAP_SECTOR = zeros"
proof -
  let ?d0 = "d\<lparr>id_length := len\<rparr>"
  define fs0 where "fs0 = set_data fs p ?d0"
  have bw: "bitmap_wf (free_map fs)" using ok(1) by (simp add: fmap_ok_def)
  have al: "free_map_allocate (Suc n) 1 fs0 = Some (None, fs0)"
  proof (cases rule: bitmap_alloc_cases [OF bw le0, where cnt = 1 and v = False])
    case (2 s b)
    then have "s < length (bm_bits (free_map fs))" "\<not> bm_bits (free_map fs) ! (s + 0)" by simp_all
    then show ?thesis using full nth_mem [of s "bm_bits (free_map fs)"] by (auto simp: free_cnt_def filter_empty_conv)
  qed (simp add: fs0_def set_data_def)
  have wf: "cache_wf (cch fs0)" and z: "0 < csize (cch fs0)" using ok(1) c by (simp_all add: fs0_def fmap_ok_def)
  obtain c' where c': "fs_block_write fs0 0 zeros = Some (fs0\<lparr>cch := c'\<rparr>)"
    "\<forall>t :: block_sector_t. blk_data (fs_device c') ! unat t = (if t = 0 then zeros else blk_data (fs_device (cch fs0)) ! unat t)"
    by (rule fs_block_write_ok [OF wf z sector_ok_zeros]) (rule that; assumption)
  have "alloc_block (free_map_allocate (Suc n)) p (int k) fs0 = Some fs0"
    using al by (simp add: alloc_block_def del: free_map_allocate.simps)
  then have "grow_direct (free_map_allocate (Suc n)) p (Suc 0) fs0 =
      Some (0, set_data (fs0\<lparr>cch := c'\<rparr>) p (?d0\<lparr>direct_count := int k + 1\<rparr>))"
    using d c'(1) by (simp add: fs0_def DIRECT_BLOCKS_def aread_def del: free_map_allocate.simps)
  then have "inode_grow (free_map_allocate (Suc n)) p len fs =
      Some (True, set_data (fs0\<lparr>cch := c'\<rparr>) p (?d0\<lparr>direct_count := int k + 1\<rparr>))"
    using d(1) len by (simp add: inode_grow_def fs0_def del: free_map_allocate.simps grow_direct.simps)
  then show ?thesis using c'(2) [rule_format, of 0] by (simp add: FREE_MAP_SECTOR_def)
qed

text \<open>The example with its whole disk in use.\<close>

definition ex_full :: fs where
  "ex_full = ex_fs\<lparr>free_map := \<lparr>bit_cnt = 8, bits = [255]\<rparr>\<rparr>"

theorem inode_grow_full_disk_witness:
  "\<exists>fs'. inode_grow (free_map_allocate (Suc 0)) 5 600 ex_full = Some (True, fs') \<and>
    idata fs' 5 = Some ((ex_data 3 10)\<lparr>id_length := 600, direct_count := int 1 + 1\<rparr>) \<and>
    blk_data (fs_device (cch fs')) ! unat FREE_MAP_SECTOR = zeros"
proof (rule inode_grow_full_disk)
  show "fmap_ok ex_full (ex_data 4 4) [4]"
    using ex_fresh fmap_ok_map [of ex_fs "ex_data 4 4" "[4]" "\<lparr>bit_cnt = 8, bits = [255]\<rparr>"]
    by (simp add: ex_full_def fresh_ok_def bitmap_wf_def elem_cnt_def ELEM_BITS_def wrap32_def ex_fs_def)
  show "free_cnt ex_full = 0" by (simp add: free_cnt_def ex_full_def bm_bits_def) code_simp
qed (simp_all add: ex_full_def ex_fs_simps INT_MAX_def ex_data_def calloc_inode_disk_def bytes_to_sectors_def BLOCK_SECTOR_SIZE_def)

end
