(* ===== verification/List_Ordered.thy ===== *)
theory List_Ordered
  imports Kernel_List
begin

text \<open>
  Correctness of the ordered-list operations of lib/kernel/list.c: the natural merge sort
  \<^verbatim>\<open>list_sort\<close>, \<^verbatim>\<open>list_insert_ordered\<close>, \<^verbatim>\<open>list_unique\<close>, \<^verbatim>\<open>list_max\<close> and \<^verbatim>\<open>list_min\<close>.

  The sort is first a function on the list of elements (\<open>split_run\<close>, \<open>merge\<close>, \<open>sort_pass\<close>), whose
  measure is the number of descents; the pointer loops of \<open>Kernel_List\<close> are then shown to compute
  that function, and so to return.
\<close>

section \<open>The natural merge sort on lists\<close>

abbreviation ascending :: "list_less_func \<Rightarrow> ptr list \<Rightarrow> bool" where
  "ascending lt \<equiv> successively (\<lambda>x y. \<not> lt y x)"

fun split_run :: "list_less_func \<Rightarrow> ptr \<Rightarrow> ptr list \<Rightarrow> ptr list \<times> ptr list" where
  "split_run lt a [] = ([], [])"
| "split_run lt a (y # ys) =
     (if lt y a then ([], y # ys) else let (r, rest) = split_run lt y ys in (y # r, rest))"

fun merge :: "list_less_func \<Rightarrow> ptr list \<Rightarrow> ptr list \<Rightarrow> ptr list" where
  "merge lt (a # as) (b # bs) =
     (if \<not> lt b a then a # merge lt as (b # bs) else b # merge lt (a # as) bs)"
| "merge lt [] bs = bs"
| "merge lt as [] = as"

lemma split_run_append: "split_run lt a ys = (r, rest) \<Longrightarrow> ys = r @ rest"
  by (induction ys arbitrary: a r) (auto split: if_splits prod.splits)

lemma split_run_length: "split_run lt a ys = (r, rest) \<Longrightarrow> length rest \<le> length ys"
  by (drule split_run_append) simp

lemma split_run_ascending: "split_run lt a ys = (r, rest) \<Longrightarrow> ascending lt (a # r)"
  by (induction ys arbitrary: a r) (auto split: if_splits prod.splits)

lemma split_run_break:
  "split_run lt a ys = (r, rest) \<Longrightarrow> rest \<noteq> [] \<Longrightarrow> lt (hd rest) (last (a # r))"
  by (induction ys arbitrary: a r) (auto split: if_splits prod.splits)

function sort_pass :: "list_less_func \<Rightarrow> ptr list \<Rightarrow> ptr list \<times> nat" where
  "sort_pass lt [] = ([], 0)"
| "sort_pass lt (a # ys) =
     (case split_run lt a ys of
        (r1, []) \<Rightarrow> (a # r1, 1)
      | (r1, b # zs) \<Rightarrow> (case split_run lt b zs of
          (r2, rest) \<Rightarrow> (case sort_pass lt rest of
             (out, n) \<Rightarrow> (merge lt (a # r1) (b # r2) @ out, n + 1))))"
  by pat_completeness auto
termination
  by (relation "measure (\<lambda>(_, xs). length xs)")
     (auto dest!: split_run_length [OF sym] simp del: split_run.simps)

fun descents :: "list_less_func \<Rightarrow> ptr list \<Rightarrow> nat" where
  "descents lt (a # b # xs) = (if lt b a then 1 else 0) + descents lt (b # xs)"
| "descents lt _ = 0"

lemma descents_append:
  "xs \<noteq> [] \<Longrightarrow> ys \<noteq> [] \<Longrightarrow> descents lt (xs @ ys) =
     descents lt xs + (if lt (hd ys) (last xs) then 1 else 0) + descents lt ys"
  by (induction xs rule: induct_list012) (auto simp: neq_Nil_conv)

lemma ascending_iff: "ascending lt xs \<longleftrightarrow> descents lt xs = 0"
  by (induction xs rule: induct_list012) auto

lemma merge_Nil2 [simp]: "merge lt as [] = as"
  by (cases as) simp_all

lemma mset_merge [simp]: "mset (merge lt as bs) = mset as + mset bs"
  by (induction lt as bs rule: merge.induct) auto

lemma merge_eq_Nil [simp]: "merge lt as bs = [] \<longleftrightarrow> as = [] \<and> bs = []"
  by (induction lt as bs rule: merge.induct) auto

lemma hd_merge: "as \<noteq> [] \<Longrightarrow> bs \<noteq> [] \<Longrightarrow> hd (merge lt as bs) = (if lt (hd bs) (hd as) then hd bs else hd as)"
  by (cases as; cases bs) auto

definition asymmetric :: "list_less_func \<Rightarrow> bool" where
  "asymmetric lt \<longleftrightarrow> (\<forall>x y. lt x y \<longrightarrow> \<not> lt y x)"

lemma merge_ascending:
  "asymmetric lt \<Longrightarrow> ascending lt as \<Longrightarrow> ascending lt bs \<Longrightarrow> ascending lt (merge lt as bs)"
proof (induction lt as bs rule: merge.induct)
  case (1 lt a as b bs)
  show ?case
  proof (cases "lt b a")
    case True
    then have "ascending lt (merge lt (a # as) bs)"
      using 1 by (cases "bs = []") (auto simp: successively_Cons)
    then show ?thesis using True 1 hd_merge [of "a # as" bs lt]
      by (cases "bs = []") (auto simp: successively_Cons asymmetric_def)
  next
    case False
    then have "ascending lt (merge lt as (b # bs))"
      using 1 by (cases "as = []") (auto simp: successively_Cons)
    then show ?thesis using False 1 hd_merge [of as "b # bs" lt]
      by (cases "as = []") (auto simp: successively_Cons)
  qed
qed simp_all

lemma sort_pass_cases [case_names Nil single more]:
  obtains "ys = []" "sort_pass lt ys = ([], 0)"
  | "ys \<noteq> []" "ascending lt ys" "sort_pass lt ys = (ys, 1)"
  | a r1 b r2 rest out n where "ys = (a # r1) @ (b # r2) @ rest"
      "split_run lt a (r1 @ b # r2 @ rest) = (r1, b # r2 @ rest)" "split_run lt b (r2 @ rest) = (r2, rest)"
      "sort_pass lt rest = (out, n)" "length rest < length ys"
      "sort_pass lt ys = (merge lt (a # r1) (b # r2) @ out, n + 1)"
proof (cases ys)
  case Nil
  then show ?thesis using that(1) by simp
next
  case (Cons a ys')
  obtain r1 rest1 where r1: "split_run lt a ys' = (r1, rest1)" by fastforce
  note e1 = split_run_append [OF r1]
  show ?thesis
  proof (cases rest1)
    case Nil
    then show ?thesis using that(2) Cons r1 e1 split_run_ascending [OF r1] by simp
  next
    case (Cons b zs)
    obtain r2 rest where r2: "split_run lt b zs = (r2, rest)" by fastforce
    note e2 = split_run_append [OF r2]
    obtain out n where "sort_pass lt rest = (out, n)" by fastforce
    then show ?thesis using that(3) [of a r1 b r2 rest out n] \<open>ys = a # ys'\<close> Cons r1 r2 e1 e2 by simp
  qed
qed

lemma sort_pass_mset: "mset (fst (sort_pass lt ys)) = mset ys"
proof (induction "length ys" arbitrary: ys rule: less_induct)
  case less
  show ?case
  proof (cases rule: sort_pass_cases [where ys = ys and lt = lt])
    case (more a r1 b r2 rest out n)
    with less [of rest] show ?thesis by simp
  qed simp_all
qed

text \<open>A pass halves the number of runs.\<close>

lemma sort_pass_count:
  "ys \<noteq> [] \<Longrightarrow> snd (sort_pass lt ys) = (descents lt ys + 2) div 2"
proof (induction "length ys" arbitrary: ys rule: less_induct)
  case less
  show ?case
  proof (cases rule: sort_pass_cases [where ys = ys and lt = lt])
    case single
    then show ?thesis by (simp add: ascending_iff)
  next
    case (more a r1 b r2 rest out n)
    have "descents lt (a # r1) = 0" "descents lt (b # r2) = 0"
      using split_run_ascending [OF more(2)] split_run_ascending [OF more(3)] by (simp_all add: ascending_iff)
    moreover have "lt b (last (a # r1))" "rest \<noteq> [] \<Longrightarrow> lt (hd rest) (last (b # r2))"
      using split_run_break [OF more(2)] split_run_break [OF more(3)] by simp_all
    ultimately have "descents lt ys = (if rest = [] then 1 else descents lt rest + 2)"
      using more(1) descents_append [of "a # r1" "b # r2 @ rest" lt] descents_append [of "b # r2" rest lt]
      by auto
    with less.hyps [OF more(5)] more show ?thesis by (cases "rest = []") auto
  qed (use less.prems in simp)
qed

lemma sort_pass_descents:
  assumes "asymmetric lt" and "ys \<noteq> []"
  shows "descents lt (fst (sort_pass lt ys)) < snd (sort_pass lt ys)"
  using assms(2)
proof (induction "length ys" arbitrary: ys rule: less_induct)
  case less
  show ?case
  proof (cases rule: sort_pass_cases [where ys = ys and lt = lt])
    case single
    then show ?thesis by (simp add: ascending_iff)
  next
    case (more a r1 b r2 rest out n)
    have asc: "descents lt (merge lt (a # r1) (b # r2)) = 0"
      using merge_ascending [OF assms(1)] split_run_ascending [OF more(2)] split_run_ascending [OF more(3)]
      by (metis ascending_iff)
    show ?thesis
    proof (cases "rest = []")
      case True
      then show ?thesis using asc more by simp
    next
      case False
      then have "out \<noteq> []" using sort_pass_mset [of lt rest] more(4) by auto
      then show ?thesis
        using less.hyps [OF more(5)] False asc more(4,6)
          descents_append [of "merge lt (a # r1) (b # r2)" out lt]
        by (simp del: merge.simps)
    qed
  qed (use less.prems in simp)
qed

section \<open>Stability\<close>

definition strict_weak_order :: "list_less_func \<Rightarrow> bool" where
  "strict_weak_order lt \<longleftrightarrow> asymmetric lt \<and> (\<forall>x y z. lt x z \<longrightarrow> lt x y \<or> lt y z)"

definition equivalent :: "list_less_func \<Rightarrow> ptr \<Rightarrow> ptr \<Rightarrow> bool" where
  "equivalent lt x y \<longleftrightarrow> \<not> lt x y \<and> \<not> lt y x"

definition stable_perm :: "list_less_func \<Rightarrow> ptr list \<Rightarrow> ptr list \<Rightarrow> bool" where
  "stable_perm lt xs ys \<longleftrightarrow> mset ys = mset xs \<and>
     (\<forall>x. filter (equivalent lt x) ys = filter (equivalent lt x) xs)"

lemma stable_perm_refl [simp]: "stable_perm lt xs xs"
  by (simp add: stable_perm_def)

lemma stable_perm_trans: "stable_perm lt xs ys \<Longrightarrow> stable_perm lt ys zs \<Longrightarrow> stable_perm lt xs zs"
  by (simp add: stable_perm_def)

lemma stable_perm_append:
  "stable_perm lt xs xs' \<Longrightarrow> stable_perm lt ys ys' \<Longrightarrow> stable_perm lt (xs @ ys) (xs' @ ys')"
  by (simp add: stable_perm_def)

lemma swo_asym: "strict_weak_order lt \<Longrightarrow> asymmetric lt"
  by (simp add: strict_weak_order_def)

lemma ascending_sorted:
  assumes "strict_weak_order lt"
  shows "ascending lt xs \<longleftrightarrow> sorted_wrt (\<lambda>x y. \<not> lt y x) xs"
proof (rule successively_conv_sorted_wrt)
  show "transp (\<lambda>x y. \<not> lt y x)"
    using assms unfolding strict_weak_order_def by (intro transpI) blast
qed

lemma merge_filter:
  assumes "strict_weak_order lt" and "ascending lt as" and "ascending lt bs"
  shows "filter (equivalent lt x) (merge lt as bs) = filter (equivalent lt x) (as @ bs)"
  using assms
proof (induction lt as bs rule: merge.induct)
  case (1 lt a as b bs)
  have asc: "ascending lt as" "ascending lt bs"
    using "1.prems"(2,3) by (auto simp: successively_Cons)
  show ?case
  proof (cases "lt b a")
    case True
    have less_all: "lt b c" if "c \<in> set (a # as)" for c
    proof -
      have "\<not> lt c a"
        using that "1.prems"(1,2) by (auto simp: ascending_sorted strict_weak_order_def asymmetric_def)
      with True show ?thesis using "1.prems"(1) unfolding strict_weak_order_def by blast
    qed
    have "filter (equivalent lt x) (a # as) = []" if "equivalent lt x b"
      using less_all that "1.prems"(1) unfolding filter_empty_conv equivalent_def strict_weak_order_def
      by blast
    then show ?thesis using 1 True asc by (auto split: if_splits)
  next
    case False
    then show ?thesis using 1 asc by simp
  qed
qed simp_all

lemma merge_stable:
  "strict_weak_order lt \<Longrightarrow> ascending lt as \<Longrightarrow> ascending lt bs \<Longrightarrow> stable_perm lt (as @ bs) (merge lt as bs)"
  by (simp add: stable_perm_def merge_filter)

lemma sort_pass_stable:
  assumes "strict_weak_order lt"
  shows "stable_perm lt ys (fst (sort_pass lt ys))"
proof (induction "length ys" arbitrary: ys rule: less_induct)
  case less
  show ?case
  proof (cases rule: sort_pass_cases [where ys = ys and lt = lt])
    case (more a r1 b r2 rest out n)
    have "stable_perm lt ((a # r1) @ (b # r2)) (merge lt (a # r1) (b # r2))"
      by (intro merge_stable assms split_run_ascending [OF more(2)] split_run_ascending [OF more(3)])
    from stable_perm_append [OF this less [OF more(5)]] more show ?thesis by simp
  qed simp_all
qed

section \<open>The pointer loops compute it\<close>

lemma at_neq: "klist s l (xs @ y # ys @ zs) \<Longrightarrow> y \<noteq> at l zs"
  by (cases zs) (auto simp: klist_def)

lemma find_end_loop_klist:
  "klist s l (xs @ a # ys) \<Longrightarrow> split_run lt a ys = (r, rest) \<Longrightarrow>
   find_end_loop s a (l_tail l) lt = Some (at l rest)"
proof (induction ys arbitrary: xs a r)
  case Nil
  then show ?case using klist_next [OF Nil(1)] by (simp add: find_end_loop.simps)
next
  case (Cons y ys)
  have nx: "list_next s a = Some y" using klist_next [OF Cons.prems(1)] by simp
  have pv: "list_prev s y = Some a" and k: "klist s l ((xs @ [a]) @ y # ys)"
    using klist_prev [of s l "xs @ [a]" "y # ys"] Cons.prems(1) by simp_all
  show ?case
  proof (cases "lt y a")
    case True
    then show ?thesis using nx pv Cons.prems(2) klist_tail_fresh [OF k]
      by (auto simp: find_end_loop.simps)
  next
    case False
    then obtain r' where "split_run lt y ys = (r', rest)" using Cons.prems(2) by (auto split: prod.splits)
    then show ?thesis using nx pv False klist_tail_fresh [OF k] Cons.IH [OF k]
      by (simp add: find_end_loop.simps [of s a])
  qed
qed

lemma find_end_of_run_klist:
  assumes k: "klist s l (xs @ a # ys)" and "split_run lt a ys = (r, rest)"
  shows "find_end_of_run s a (l_tail l) lt = Some (at l rest)"
proof -
  have "a \<noteq> NULL" "l_tail l \<noteq> NULL" using klist_not_NULL [OF k] by (simp_all add: cells_def)
  then show ?thesis
    using find_end_loop_klist [OF assms] klist_tail_fresh [OF k] by (simp add: find_end_of_run_def)
qed

lemma is_sorted_loop_klist:
  "klist s l (xs @ a # ys @ zs) \<Longrightarrow> is_sorted_loop s a (at l zs) lt = Some (ascending lt (a # ys))"
proof (induction ys arbitrary: xs a)
  case Nil
  then show ?case using klist_next [of s l xs a zs] by (simp add: is_sorted_loop.simps)
next
  case (Cons y ys)
  have nx: "list_next s a = Some y" using klist_next [of s l xs a "y # ys @ zs"] Cons.prems by simp
  have pv: "list_prev s y = Some a" and k: "klist s l ((xs @ [a]) @ y # ys @ zs)"
    using klist_prev [of s l "xs @ [a]" "y # ys @ zs"] Cons.prems by simp_all
  show ?case using nx pv at_neq [OF k] Cons.IH [OF k] by (simp add: is_sorted_loop.simps [of s a])
qed

lemma is_sorted_klist:
  assumes "klist s l (xs @ ys @ zs)"
  shows "is_sorted s (at l (ys @ zs)) (at l zs) lt = Some (ascending lt ys)"
proof (cases ys)
  case (Cons y ys')
  then show ?thesis using assms is_sorted_loop_klist [of s l xs y ys' zs] at_neq [of s l xs y ys' zs]
    by (simp add: is_sorted_def)
qed (simp add: is_sorted_def)

lemma inplace_merge_loop_klist:
  "klist s l (pre @ as @ bs @ cs) \<Longrightarrow>
   \<exists>s'. inplace_merge_loop s (at l (as @ bs @ cs)) (at l (bs @ cs)) (at l cs) lt = Some s' \<and>
     klist s' l (pre @ merge lt as bs @ cs) \<and> same_outside (cells l (pre @ as @ bs @ cs)) s s'"
proof (induction lt as bs arbitrary: s pre rule: merge.induct)
  case (1 lt a as b bs)
  have neq: "a \<noteq> b" "b \<noteq> at l cs"
    using at_neq [of s l "pre @ a # as" b bs cs] "1.prems" by (auto simp: klist_def)
  show ?case
  proof (cases "lt b a")
    case False
    have "list_next s a = Some (at l (as @ b # bs @ cs))"
      using klist_next [of s l pre a "as @ b # bs @ cs"] "1.prems" by simp
    then show ?thesis using "1.IH"(1) [of s "pre @ [a]"] "1.prems" False neq
      by (simp add: inplace_merge_loop.simps [of s a])
  next
    case True
    have nx: "list_next s b = Some (at l (bs @ cs))"
      using klist_next [of s l "pre @ a # as" b "bs @ cs"] "1.prems" by simp
    have pv: "list_prev s (at l (bs @ cs)) = Some b"
      using klist_prev [of s l "pre @ (a # as) @ [b]" "bs @ cs"] "1.prems" by simp
    obtain s1 where s1: "list_splice s a b (at l (bs @ cs)) = Some s1"
      "klist s1 l ((pre @ [b]) @ (a # as) @ bs @ cs)"
      "same_outside (cells l (pre @ (a # as) @ (b # bs) @ cs)) s s1"
      using list_splice_klist [of s l pre "a # as" "[b]" "bs @ cs"] "1.prems" by auto
    obtain s' where s': "inplace_merge_loop s1 a (at l (bs @ cs)) (at l cs) lt = Some s'"
      "klist s' l (pre @ merge lt (a # as) (b # bs) @ cs)"
      "same_outside (cells l ((pre @ [b]) @ (a # as) @ bs @ cs)) s1 s'"
      using "1.IH"(2) [OF _ s1(2)] True by auto
    have "same_outside (cells l (pre @ (a # as) @ (b # bs) @ cs)) s s'"
      using s1(3) s'(3) by (rule same_outside_trans) (auto simp: cells_def)
    then show ?thesis using s' s1(1) nx pv True neq by (simp add: inplace_merge_loop.simps [of s a])
  qed
qed (simp_all add: inplace_merge_loop.simps)

lemma inplace_merge_klist:
  assumes k: "klist s l (pre @ as @ bs @ cs)" and asc: "ascending lt as" "ascending lt bs"
  obtains s' where "inplace_merge s (at l (as @ bs @ cs)) (at l (bs @ cs)) (at l cs) lt = Some s'"
    "klist s' l (pre @ merge lt as bs @ cs)" "same_outside (cells l (pre @ as @ bs @ cs)) s s'"
proof -
  have nn: "at l (as @ bs @ cs) \<noteq> NULL" "at l (bs @ cs) \<noteq> NULL" "at l cs \<noteq> NULL"
    using klist_not_NULL [OF k] cells_hd [of "as @ bs @ cs" l pre] cells_hd [of "bs @ cs" l "pre @ as"]
      cells_hd [of cs l "pre @ as @ bs"] by simp_all
  have so: "is_sorted s (at l (as @ bs @ cs)) (at l (bs @ cs)) lt = Some True"
    "is_sorted s (at l (bs @ cs)) (at l cs) lt = Some True"
    using is_sorted_klist [of s l pre as "bs @ cs" lt] is_sorted_klist [of s l "pre @ as" bs cs lt] k asc
    by simp_all
  show ?thesis using inplace_merge_loop_klist [OF k, of lt] nn so that
    by (auto simp: inplace_merge_def)
qed

lemma list_sort_pass_klist:
  "klist s l (pre @ ys) \<Longrightarrow>
   \<exists>s'. list_sort_pass s l (at l ys) n lt = Some (s', n + snd (sort_pass lt ys)) \<and>
     klist s' l (pre @ fst (sort_pass lt ys)) \<and> same_outside (cells l (pre @ ys)) s s'"
proof (induction "length ys" arbitrary: s pre ys n rule: less_induct)
  case less
  note k = less.prems
  show ?case
  proof (cases rule: sort_pass_cases [where ys = ys and lt = lt])
    case Nil
    then show ?thesis using k by (auto simp: list_sort_pass.simps list_end_def)
  next
    case single
    then obtain a r where ys: "ys = a # r" by (cases ys) auto
    have "split_run lt a r = (r, [])" using single(2) unfolding ys
      by (induction r arbitrary: a) (auto split: prod.splits)
    then have "find_end_of_run s a (l_tail l) lt = Some (l_tail l)"
      using find_end_of_run_klist [of s l pre a r lt r "[]"] k ys by simp
    then show ?thesis using k ys single klist_tail_fresh [of s l pre a r]
      by (auto simp: list_sort_pass.simps list_end_def)
  next
    case (more a r1 b r2 rest out m)
    have e1: "find_end_of_run s a (l_tail l) lt = Some b"
      using find_end_of_run_klist [OF _ more(2), of s l pre] k more(1) by simp
    have e2: "find_end_of_run s b (l_tail l) lt = Some (at l rest)"
      using find_end_of_run_klist [OF _ more(3), of s l "pre @ a # r1"] k more(1) by simp
    have neq: "a \<noteq> l_tail l" "b \<noteq> l_tail l" using k more(1) by (auto simp: klist_def)
    obtain s1 where s1: "inplace_merge s a b (at l rest) lt = Some s1"
      "klist s1 l ((pre @ merge lt (a # r1) (b # r2)) @ rest)" "same_outside (cells l (pre @ ys)) s s1"
      using inplace_merge_klist [of s l pre "a # r1" "b # r2" rest lt] k more(1)
        split_run_ascending [OF more(2)] split_run_ascending [OF more(3)] by auto
    obtain s' where s': "list_sort_pass s1 l (at l rest) (n + 1) lt = Some (s', n + 1 + m)"
      "klist s' l ((pre @ merge lt (a # r1) (b # r2)) @ out)"
      "same_outside (cells l ((pre @ merge lt (a # r1) (b # r2)) @ rest)) s1 s'"
      using less.hyps [OF more(5) s1(2), of "n + 1"] more(4) by auto
    have "set (merge lt (a # r1) (b # r2)) = set (a # r1) \<union> set (b # r2)"
      using mset_merge by (metis set_mset_mset set_mset_union)
    then have "same_outside (cells l (pre @ ys)) s s'"
      using s1(3) s'(3) more(1) by (intro same_outside_trans [OF s1(3) s'(3)]) (auto simp: cells_def)
    then show ?thesis using s' e1 e2 s1(1) neq more(1,6)
      by (simp add: list_sort_pass.simps [of s l a] list_end_def del: merge.simps sort_pass.simps)
  qed
qed

lemma cells_mset: "mset ys = mset xs \<Longrightarrow> cells l ys = cells l xs"
  by (metis (no_types) cells_def list.simps(15) set_append set_mset_mset)

lemma list_sort_loop_klist:
  assumes "strict_weak_order lt" and "klist s l xs"
  shows "\<exists>s' ys. list_sort_loop s l lt = Some s' \<and> klist s' l ys \<and> stable_perm lt xs ys \<and>
     ascending lt ys \<and> same_outside (cells l xs) s s'"
  using assms(2)
proof (induction "descents lt xs" arbitrary: s xs rule: less_induct)
  case less
  define ys n where "ys = fst (sort_pass lt xs)" and "n = snd (sort_pass lt xs)"
  obtain s1 where s1: "list_sort_pass s l (at l xs) 0 lt = Some (s1, n)" "klist s1 l ys"
    "same_outside (cells l xs) s s1"
    using list_sort_pass_klist [of s l "[]" xs 0 lt] less.prems by (auto simp: ys_def n_def)
  have st: "stable_perm lt xs ys" unfolding ys_def using assms(1) by (rule sort_pass_stable)
  have cs: "cells l ys = cells l xs" using st by (intro cells_mset) (simp add: stable_perm_def)
  have d: "descents lt ys < n \<and> n = (descents lt xs + 2) div 2" if "xs \<noteq> []"
    using sort_pass_descents [OF swo_asym [OF assms(1)] that] sort_pass_count [OF that, of lt]
    by (simp add: ys_def n_def)
  show ?case
  proof (cases "n > 1")
    case True
    then have "xs \<noteq> []" by (auto simp: n_def)
    then have "descents lt ys < descents lt xs" using d True by auto
    from less.hyps [OF this s1(2)] obtain s' zs where s': "list_sort_loop s1 l lt = Some s'"
      "klist s' l zs" "stable_perm lt ys zs" "ascending lt zs" "same_outside (cells l ys) s1 s'" by blast
    have "same_outside (cells l xs) s s'" using s1(3) s'(5) cs by (auto intro: same_outside_trans)
    then show ?thesis using s' s1(1) True stable_perm_trans [OF st] less.prems
      by (auto simp: list_sort_loop.simps [of s] klist_begin)
  next
    case False
    then have "ascending lt ys" using d by (cases "xs = []") (auto simp: ascending_iff ys_def)
    then show ?thesis using s1 st False less.prems
      by (auto simp: list_sort_loop.simps [of s] klist_begin)
  qed
qed

lemma list_sort_klist:
  assumes "strict_weak_order lt" and "klist s l xs"
  obtains s' ys where "list_sort s l lt = Some s'" "klist s' l ys" "stable_perm lt xs ys"
    "ascending lt ys" "same_outside (cells l xs) s s'"
proof -
  obtain s' ys where s': "list_sort_loop s l lt = Some s'" "klist s' l ys" "stable_perm lt xs ys"
    "ascending lt ys" "same_outside (cells l xs) s s'"
    using list_sort_loop_klist [OF assms] by blast
  moreover have "list_sort s l lt = Some s'"
    using s' is_sorted_klist [of s' l "[]" ys "[]" lt] klist_begin [OF s'(2)]
    by (simp add: list_sort_def list_end_def)
  ultimately show ?thesis using that by blast
qed

section \<open>Ordered insertion\<close>

fun insert_after_equals :: "list_less_func \<Rightarrow> ptr \<Rightarrow> ptr list \<Rightarrow> ptr list" where
  "insert_after_equals lt e [] = [e]"
| "insert_after_equals lt e (y # ys) = (if lt e y then e # y # ys else y # insert_after_equals lt e ys)"

lemma insert_pos_loop_klist:
  "klist s l (xs @ ys) \<Longrightarrow> \<exists>us vs. ys = us @ vs \<and> insert_after_equals lt e ys = us @ e # vs \<and>
     insert_pos_loop s (at l ys) (l_tail l) e lt = Some (at l vs)"
proof (induction ys arbitrary: xs)
  case Nil
  show ?case by (simp add: insert_pos_loop.simps)
next
  case (Cons y ys)
  have tl: "y \<noteq> l_tail l" and nx: "list_next s y = Some (at l ys)"
    using klist_tail_fresh [OF Cons.prems] klist_next [OF Cons.prems] by simp_all
  show ?case
  proof (cases "lt e y")
    case True
    then have "insert_pos_loop s y (l_tail l) e lt = Some y" using tl by (simp add: insert_pos_loop.simps)
    with True have "y # ys = [] @ y # ys \<and> insert_after_equals lt e (y # ys) = [] @ e # y # ys \<and>
      insert_pos_loop s (at l (y # ys)) (l_tail l) e lt = Some (at l (y # ys))" by simp
    then show ?thesis by blast
  next
    case False
    obtain us vs where uv: "ys = us @ vs" "insert_after_equals lt e ys = us @ e # vs"
      "insert_pos_loop s (at l ys) (l_tail l) e lt = Some (at l vs)"
      using Cons.IH [of "xs @ [y]"] Cons.prems by auto
    have "insert_pos_loop s y (l_tail l) e lt = Some (at l vs)"
      using uv(3) False tl nx by (subst insert_pos_loop.simps) simp
    then have "y # ys = (y # us) @ vs \<and> insert_after_equals lt e (y # ys) = (y # us) @ e # vs \<and>
      insert_pos_loop s (at l (y # ys)) (l_tail l) e lt = Some (at l vs)" using uv False by simp
    then show ?thesis by blast
  qed
qed

lemma list_insert_ordered_klist:
  assumes k: "klist s l xs" and e: "ok s e" "e \<notin> cells l xs"
  obtains s' where "list_insert_ordered s l e lt = Some s'" "klist s' l (insert_after_equals lt e xs)"
    "same_outside (insert e (cells l xs)) s s'"
proof -
  obtain us vs where uv: "xs = us @ vs" "insert_after_equals lt e xs = us @ e # vs"
    "insert_pos_loop s (at l xs) (l_tail l) e lt = Some (at l vs)"
    using insert_pos_loop_klist [of s l "[]" xs lt e] k by auto
  obtain s' where s': "list_insert s (at l vs) e = Some s'" "klist s' l (us @ e # vs)"
    "same_outside (cells l (us @ e # vs)) s s'"
    using list_insert_klist [of s l us vs e] k e uv(1) by auto
  have "cells l (us @ e # vs) = insert e (cells l xs)" using uv(1) by (auto simp: cells_def)
  moreover have "e \<noteq> NULL" using e(1) by (simp add: ok_def)
  ultimately show ?thesis
    using that [of s'] s' uv klist_begin [OF k] by (simp add: list_insert_ordered_def list_end_def)
qed

lemma mset_insert_after_equals: "mset (insert_after_equals lt e xs) = add_mset e (mset xs)"
  by (induction xs) auto

lemma insert_after_equals_ascending:
  "asymmetric lt \<Longrightarrow> ascending lt xs \<Longrightarrow> ascending lt (insert_after_equals lt e xs)"
proof (induction xs rule: induct_list012)
  case (3 x y zs)
  then show ?case by (auto simp: asymmetric_def)
qed (auto simp: asymmetric_def)

lemma insert_after_equals_split:
  "\<exists>us vs. xs = us @ vs \<and> insert_after_equals lt e xs = us @ e # vs \<and> (\<forall>u \<in> set us. \<not> lt e u) \<and>
     (vs \<noteq> [] \<longrightarrow> lt e (hd vs))"
proof (induction xs)
  case (Cons x xs)
  then obtain us vs where uv: "xs = us @ vs" "insert_after_equals lt e xs = us @ e # vs"
    "\<forall>u \<in> set us. \<not> lt e u" "vs \<noteq> [] \<longrightarrow> lt e (hd vs)" by blast
  show ?case
  proof (cases "lt e x")
    case True
    then show ?thesis by (rule_tac exI [of _ "[]"]) auto
  next
    case False
    then show ?thesis using uv by (rule_tac exI [of _ "x # us"]) auto
  qed
qed simp

section \<open>Removing duplicates, extrema\<close>

fun unique_scan :: "list_less_func \<Rightarrow> ptr \<Rightarrow> ptr list \<Rightarrow> ptr list \<times> ptr list" where
  "unique_scan lt e [] = ([], [])"
| "unique_scan lt e (y # ys) =
     (if equivalent lt e y then let (kept, dups) = unique_scan lt e ys in (kept, y # dups)
      else let (kept, dups) = unique_scan lt y ys in (y # kept, dups))"

lemma unique_scan_mset: "unique_scan lt e ys = (k, d) \<Longrightarrow> mset k + mset d = mset ys"
  by (induction ys arbitrary: e k d) (auto split: if_splits prod.splits)

lemma unique_scan_adjacent:
  "unique_scan lt e ys = (k, d) \<Longrightarrow> successively (\<lambda>x y. \<not> equivalent lt x y) (e # k)"
  by (induction ys arbitrary: e k d) (auto split: if_splits prod.splits)

lemma list_unique_loop_klist:
  assumes "klist s l (xs @ e # ys)" and "klist s d ds" and "cells l (xs @ e # ys) \<inter> cells d ds = {}"
    and "unique_scan lt e ys = (kept, dups)"
  shows "\<exists>s'. list_unique_loop s l (Some d) e lt = Some s' \<and> klist s' l (xs @ e # kept) \<and>
     klist s' d (ds @ dups) \<and> same_outside (cells l (xs @ e # ys) \<union> cells d ds) s s'"
  using assms
proof (induction ys arbitrary: s xs e ds kept dups)
  case Nil
  then show ?case using klist_next [OF Nil(1)] by (simp add: list_unique_loop.simps list_end_def)
next
  case (Cons y ys)
  have nx: "list_next s e = Some y" and k: "klist s l ((xs @ [e]) @ y # ys)"
    using klist_next [OF Cons.prems(1)] Cons.prems(1) by simp_all
  note ty = klist_tail_fresh [OF k]
  show ?case
  proof (cases "equivalent lt e y")
    case False
    then obtain k' where k': "unique_scan lt y ys = (k', dups)" "kept = y # k'"
      using Cons.prems(4) by (auto split: prod.splits)
    show ?thesis using Cons.IH [OF k Cons.prems(2) _ k'(1)] Cons.prems(3) k'(2) nx ty False
      by (auto simp: list_unique_loop.simps [of s] list_end_def equivalent_def)
  next
    case True
    then obtain d' where d': "unique_scan lt e ys = (kept, d')" "dups = y # d'"
      using Cons.prems(4) by (auto split: prod.splits)
    obtain s1 where s1: "list_remove s y = Some (at l ys, s1)" "klist s1 l (xs @ e # ys)"
      "same_outside (cells l (xs @ e # ys)) s s1"
      using list_remove_klist [OF k] by auto
    have dj: "cells l (xs @ e # ys) \<inter> cells d ds = {}" "y \<notin> cells d ds" "y \<notin> cells l (xs @ e # ys)"
      using Cons.prems(1,3) by (auto simp: cells_def klist_def)
    have k1: "klist s1 d ds" using klist_same_outside [OF Cons.prems(2) s1(3)] dj by blast
    have "ok s1 y" using s1(3) klist_ok [OF k, of y] by (simp add: same_outside_def cells_def)
    then obtain s2 where s2: "list_push_back s1 d y = Some s2" "klist s2 d (ds @ [y])"
      "same_outside (cells d (ds @ [y])) s1 s2"
      using list_push_back_klist [OF k1 _ dj(2)] by blast
    have cd: "cells d (ds @ [y]) = insert y (cells d ds)" by (auto simp: cells_def)
    have dj2: "cells d (ds @ [y]) \<inter> cells l (xs @ e # ys) = {}" using dj cd by auto
    note k2 = klist_same_outside [OF s1(2) s2(3) dj2]
    obtain s' where s': "list_unique_loop s2 l (Some d) e lt = Some s'" "klist s' l (xs @ e # kept)"
      "klist s' d ((ds @ [y]) @ d')" "same_outside (cells l (xs @ e # ys) \<union> cells d (ds @ [y])) s2 s'"
      using Cons.IH [OF k2 s2(2) _ d'(1)] dj2 by (auto simp: Int_commute)
    have "same_outside (cells l (xs @ e # y # ys) \<union> cells d ds) s s'"
      using same_outside_trans [OF s1(3) s2(3) order_refl] s'(4)
      by (rule same_outside_trans) (auto simp: cells_def)
    then show ?thesis using s' s1(1) s2(1) nx ty True d'(2)
      by (auto simp: list_unique_loop.simps [of s] list_end_def equivalent_def)
  qed
qed

text \<open>The extremum the loops keep: the first of the equally large (small) elements.\<close>

lemma list_max_loop_klist:
  "klist s l (xs @ ys) \<Longrightarrow>
   list_max_loop s m (at l ys) (l_tail l) lt = Some (foldl (\<lambda>m e. if lt m e then e else m) m ys)"
proof (induction ys arbitrary: xs m)
  case (Cons y ys)
  have "list_max_loop s m y (l_tail l) lt = list_max_loop s (if lt m y then y else m) (at l ys) (l_tail l) lt"
    using klist_tail_fresh [OF Cons.prems] klist_next [OF Cons.prems] by (simp add: list_max_loop.simps [of s m y])
  then show ?case using Cons.IH [of "xs @ [y]"] Cons.prems by simp
qed (simp add: list_max_loop.simps)

lemma list_min_loop_klist:
  "klist s l (xs @ ys) \<Longrightarrow>
   list_min_loop s m (at l ys) (l_tail l) lt = Some (foldl (\<lambda>m e. if lt e m then e else m) m ys)"
proof (induction ys arbitrary: xs m)
  case (Cons y ys)
  have "list_min_loop s m y (l_tail l) lt = list_min_loop s (if lt y m then y else m) (at l ys) (l_tail l) lt"
    using klist_tail_fresh [OF Cons.prems] klist_next [OF Cons.prems] by (simp add: list_min_loop.simps [of s m y])
  then show ?case using Cons.IH [of "xs @ [y]"] Cons.prems by simp
qed (simp add: list_min_loop.simps)

lemma list_max_klist:
  assumes "klist s l (x # xs)"
  shows "list_max s l lt = Some (foldl (\<lambda>m e. if lt m e then e else m) x xs)"
  using assms klist_next [of s l "[]" x xs] klist_tail_fresh [of s l "[]" x xs] klist_begin [OF assms]
    list_max_loop_klist [of s l "[x]" xs x lt]
  by (simp add: list_max_def list_end_def)

lemma list_min_klist:
  assumes "klist s l (x # xs)"
  shows "list_min s l lt = Some (foldl (\<lambda>m e. if lt e m then e else m) x xs)"
  using assms klist_next [of s l "[]" x xs] klist_tail_fresh [of s l "[]" x xs] klist_begin [OF assms]
    list_min_loop_klist [of s l "[x]" xs x lt]
  by (simp add: list_min_def list_end_def)

lemma foldl_extremum:
  assumes swo: "strict_weak_order lt"
  shows "foldl (\<lambda>m e. if lt m e then e else m) x xs \<in> set (x # xs) \<and>
    (\<forall>y \<in> set (x # xs). \<not> lt (foldl (\<lambda>m e. if lt m e then e else m) x xs) y)"
proof (induction xs rule: rev_induct)
  case Nil
  then show ?case using swo by (auto simp: strict_weak_order_def asymmetric_def)
next
  case (snoc z xs)
  define m where "m = foldl (\<lambda>m e. if lt m e then e else m) x xs"
  have IH: "m \<in> set (x # xs)" "\<And>y. y \<in> set (x # xs) \<Longrightarrow> \<not> lt m y" using snoc by (auto simp: m_def)
  have "\<not> lt z y" if "lt m z" "\<not> lt m y" for y
    using swo that unfolding strict_weak_order_def asymmetric_def by blast
  moreover have "\<not> lt z z" using swo unfolding strict_weak_order_def asymmetric_def by blast
  ultimately show ?case using IH by (auto simp flip: m_def)
qed

lemma swo_converse: "strict_weak_order lt \<Longrightarrow> strict_weak_order (\<lambda>x y. lt y x)"
  unfolding strict_weak_order_def asymmetric_def by blast

section \<open>Properties\<close>

lemma ex_swo: "strict_weak_order (\<lambda>x y. y < x)"
  by (auto simp: strict_weak_order_def asymmetric_def)

text \<open>C11. \<^verbatim>\<open>list_sort\<close> returns, on every list and every strict weak order, with the list sorted: the
  same elements, each not less than any before it, elements that compare equal in their old
  order, and no other cell of the store changed.  In particular its own assertions hold.\<close>

theorem list_sort_correct:
  assumes "strict_weak_order lt" and "klist s l xs"
  shows "\<exists>s' ys. list_sort s l lt = Some s' \<and> klist s' l ys \<and> mset ys = mset xs \<and>
    sorted_wrt (\<lambda>x y. \<not> lt y x) ys \<and>
    (\<forall>x. filter (equivalent lt x) ys = filter (equivalent lt x) xs) \<and>
    same_outside (cells l xs) s s'"
proof -
  obtain s' ys where "list_sort s l lt = Some s'" "klist s' l ys" "stable_perm lt xs ys"
    "ascending lt ys" "same_outside (cells l xs) s s'"
    using list_sort_klist [OF assms] .
  then show ?thesis using ascending_sorted [OF assms(1)] by (auto simp: stable_perm_def)
qed

theorem list_sort_correct_witness:
  "\<exists>s' ys. list_sort ex_store ex_hdr (\<lambda>x y. y < x) = Some s' \<and> klist s' ex_hdr ys \<and>
    mset ys = mset [11, 12, 13] \<and> sorted_wrt (\<lambda>x y. \<not> x < y) ys \<and>
    (\<forall>x. filter (equivalent (\<lambda>x y. y < x) x) ys = filter (equivalent (\<lambda>x y. y < x) x) [11, 12, 13]) \<and>
    same_outside (cells ex_hdr [11, 12, 13]) ex_store s'"
  using list_sort_correct [OF ex_swo ex_klist] by simp

text \<open>C38. \<^verbatim>\<open>list_insert_ordered\<close> puts a new element into a sorted list so that it stays sorted, behind
  the elements it does not come before.\<close>

theorem list_insert_ordered_correct:
  assumes "strict_weak_order lt" and "klist s l xs" and "ok s e" and "e \<notin> cells l xs"
    and "sorted_wrt (\<lambda>x y. \<not> lt y x) xs"
  shows "\<exists>s' us vs. list_insert_ordered s l e lt = Some s' \<and> xs = us @ vs \<and> klist s' l (us @ e # vs) \<and>
    sorted_wrt (\<lambda>x y. \<not> lt y x) (us @ e # vs) \<and> (\<forall>u \<in> set us. \<not> lt e u) \<and> (\<forall>v \<in> set vs. lt e v) \<and>
    same_outside (insert e (cells l xs)) s s'"
proof -
  obtain s' where s': "list_insert_ordered s l e lt = Some s'" "klist s' l (insert_after_equals lt e xs)"
    "same_outside (insert e (cells l xs)) s s'"
    using list_insert_ordered_klist [OF assms(2-4)] .
  obtain us vs where uv: "xs = us @ vs" "insert_after_equals lt e xs = us @ e # vs" "\<forall>u \<in> set us. \<not> lt e u"
      "vs \<noteq> [] \<longrightarrow> lt e (hd vs)"
    using insert_after_equals_split by blast
  have "lt e v" if "v \<in> set vs" for v
  proof -
    have "\<not> lt v (hd vs)" using that assms(1,5) uv(1)
      by (cases vs) (auto simp: sorted_wrt_append strict_weak_order_def asymmetric_def)
    moreover have "lt e (hd vs)" using uv(4) that by auto
    ultimately show ?thesis using assms(1) unfolding strict_weak_order_def by blast
  qed
  moreover have "sorted_wrt (\<lambda>x y. \<not> lt y x) (us @ e # vs)"
    using insert_after_equals_ascending [OF swo_asym [OF assms(1)], of xs e] assms(5) uv(2)
      ascending_sorted [OF assms(1)] by simp
  ultimately show ?thesis using s' uv by auto
qed

theorem list_insert_ordered_correct_witness:
  "\<exists>s' us vs. list_insert_ordered ex_store ex_hdr 14 (\<lambda>x y. x < y) = Some s' \<and> [11, 12, 13] = us @ vs \<and>
    klist s' ex_hdr (us @ 14 # vs) \<and> sorted_wrt (\<lambda>x y. \<not> y < x) (us @ 14 # vs) \<and>
    (\<forall>u \<in> set us. \<not> 14 < u) \<and> (\<forall>v \<in> set vs. 14 < v) \<and>
    same_outside (insert 14 (cells ex_hdr [11, 12, 13])) ex_store s'"
  using list_insert_ordered_correct [OF swo_converse [OF ex_swo] ex_klist ex_unlinked] by simp

text \<open>\<^verbatim>\<open>list_max\<close> and \<^verbatim>\<open>list_min\<close> return an element of a nonempty list that no element of the
  list exceeds, or undercuts.\<close>

theorem list_max_min_correct:
  assumes "strict_weak_order lt" and "klist s l xs" and "xs \<noteq> []"
  shows "\<exists>m n. list_max s l lt = Some m \<and> m \<in> set xs \<and> (\<forall>y \<in> set xs. \<not> lt m y) \<and>
    list_min s l lt = Some n \<and> n \<in> set xs \<and> (\<forall>y \<in> set xs. \<not> lt y n)"
proof -
  obtain x ys where xs: "xs = x # ys" using assms(3) by (cases xs) auto
  show ?thesis
    using list_max_klist [of s l x ys lt] list_min_klist [of s l x ys lt] assms(2) xs
      foldl_extremum [OF assms(1), of x ys] foldl_extremum [OF swo_converse [OF assms(1)], of x ys]
    by blast
qed

theorem list_max_min_correct_witness:
  "\<exists>m n. list_max ex_store ex_hdr (\<lambda>x y. y < x) = Some m \<and> m \<in> set [11, 12, 13] \<and>
    (\<forall>y \<in> set [11, 12, 13]. \<not> y < m) \<and> list_min ex_store ex_hdr (\<lambda>x y. y < x) = Some n \<and>
    n \<in> set [11, 12, 13] \<and> (\<forall>y \<in> set [11, 12, 13]. \<not> n < y)"
  using list_max_min_correct [OF ex_swo ex_klist] by blast

end
