(* ===== verification/Arith64.thy ===== *)
theory Arith64
  imports Prelude "HOL-Library.Signed_Division"
begin

unbundle bit_operations_syntax

text \<open>
  64-bit division on a 32-bit processor (lib/arithmetic.c).  The divide error of the \<^verbatim>\<open>divl\<close>
  instruction, by zero or for a quotient that does not fit, is \<^term>\<open>None\<close>.
\<close>

section \<open>The routines\<close>

definition divl :: "u64 \<Rightarrow> u32 \<Rightarrow> u32 option" where
  "divl n d = (if d = 0 \<or> unat n div unat d \<ge> 2 ^ 32 then None else Some (of_nat (unat n div unat d)))"

definition nlz_step :: "u32 \<Rightarrow> nat \<Rightarrow> nat \<times> u32 \<Rightarrow> nat \<times> u32" where
  "nlz_step lim k nx = (if snd nx \<le> lim then (fst nx + k, push_bit k (snd nx)) else nx)"

definition nlz :: "u32 \<Rightarrow> nat" where
  "nlz x = (
     let nx = nlz_step 0x0000FFFF 16 (0, x);
         nx = nlz_step 0x00FFFFFF 8 nx;
         nx = nlz_step 0x0FFFFFFF 4 nx;
         nx = nlz_step 0x3FFFFFFF 2 nx
     in if snd nx \<le> 0x7FFFFFFF then fst nx + 1 else fst nx)"

definition udiv64 :: "u64 \<Rightarrow> u64 \<Rightarrow> u64 option" where
  "udiv64 n d = (
     if drop_bit 32 d = 0 then do {
       let b = (push_bit 32 1 :: u64);
       let n1 = (ucast (drop_bit 32 n) :: u32);
       let n0 = (ucast n :: u32);
       let d0 = (ucast d :: u32);
       ASSERT (d0 \<noteq> 0);
       q \<leftarrow> divl (b * ucast (n1 mod d0) + ucast n0) d0;
       Some (ucast q + b * ucast (n1 div d0))
     }
     else if n < d then Some 0
     else do {
       let d1 = (ucast (drop_bit 32 d) :: u32);
       let s = nlz d1;
       q \<leftarrow> divl (drop_bit 1 n) (ucast (drop_bit 32 (push_bit s d)));
       let q = (ucast (drop_bit (31 - s) q) :: u64);
       Some (if n - (q - 1) * d < d then q - 1 else q)
     })"

definition umod64 :: "u64 \<Rightarrow> u64 \<Rightarrow> u32 option" where
  "umod64 n d = do { q \<leftarrow> udiv64 n d; Some (ucast (n - d * q)) }"

text \<open>Signed values are 64-bit words read by \<^const>\<open>sint\<close>; negation wraps.\<close>

definition sdiv64 :: "u64 \<Rightarrow> u64 \<Rightarrow> u64 option" where
  "sdiv64 n d = do {
     let n_abs = (if sint n \<ge> 0 then n else - n);
     let d_abs = (if sint d \<ge> 0 then d else - d);
     q_abs \<leftarrow> udiv64 n_abs d_abs;
     Some (if (sint n < 0) = (sint d < 0) then q_abs else - q_abs)
   }"

definition smod64 :: "u64 \<Rightarrow> u64 \<Rightarrow> u32 option" where
  "smod64 n d = do { q \<leftarrow> sdiv64 n d; Some (ucast (n - d * q)) }"

definition divdi3 :: "u64 \<Rightarrow> u64 \<Rightarrow> u64 option" where
  "divdi3 n d = sdiv64 n d"

definition moddi3 :: "u64 \<Rightarrow> u64 \<Rightarrow> u64 option" where
  "moddi3 n d = map_option scast (smod64 n d)"

definition udivdi3 :: "u64 \<Rightarrow> u64 \<Rightarrow> u64 option" where
  "udivdi3 n d = udiv64 n d"

definition umoddi3 :: "u64 \<Rightarrow> u64 \<Rightarrow> u64 option" where
  "umoddi3 n d = map_option ucast (umod64 n d)"

section \<open>Counting leading zeros\<close>

lemma unat_push_bit:
  fixes x :: "'a::len word"
  assumes "unat x * 2 ^ k < 2 ^ LENGTH('a)"
  shows "unat (push_bit k x) = unat x * 2 ^ k"
  using assms by (simp only: unsigned_push_bit_eq) (simp add: push_bit_eq_mult take_bit_nat_eq_self)

lemma unat_drop_bit: "unat (drop_bit k x) = unat x div 2 ^ k"
  for x :: "'a::len word"
proof -
  have "unat x div 2 ^ k < 2 ^ LENGTH('a)"
    using unsigned_less [of x, where ?'a = nat] div_le_dividend [of "unat x" "2 ^ k"] by (rule le_less_trans [rotated])
  then show ?thesis by (simp only: unsigned_drop_bit_eq) (simp add: drop_bit_eq_div take_bit_nat_eq_self)
qed

lemma unat_ucast_less: "unat x < 2 ^ LENGTH('b) \<Longrightarrow> unat (ucast x :: 'b::len word) = unat x"
  for x :: "'a::len word"
  by (simp add: unsigned_ucast_eq take_bit_nat_eq_self)

lemma nlz_step_inv:
  assumes "unat (snd nx) = x * 2 ^ fst nx" and "2 ^ (32 - 2 * k) \<le> unat (snd nx)" and "k \<le> 16"
    and lim: "unat lim = 2 ^ (32 - k) - 1"
  shows "unat (snd (nlz_step lim k nx)) = x * 2 ^ fst (nlz_step lim k nx) \<and> 2 ^ (32 - k) \<le> unat (snd (nlz_step lim k nx))"
proof (cases "snd nx \<le> lim")
  case True
  have p: "(2::nat) ^ (32 - k) * 2 ^ k = 2 ^ 32" "(2::nat) ^ (32 - 2 * k) * 2 ^ k = 2 ^ (32 - k)"
    using assms(3) by (simp_all flip: power_add)
  have "unat (snd nx) < 2 ^ (32 - k)" using True lim by (simp add: word_le_nat_alt le_diff_conv2 Suc_le_eq)
  then have "unat (snd nx) * 2 ^ k < 2 ^ 32" using p(1) mult_less_mono1 [of _ _ "2 ^ k"] by (metis zero_less_numeral zero_less_power)
  then have u: "unat (push_bit k (snd nx)) = unat (snd nx) * 2 ^ k" by (simp add: unat_push_bit)
  then show ?thesis
    using True assms(1,2) p(2) mult_le_mono1 [OF assms(2), of "2 ^ k"] by (simp add: nlz_step_def power_add)
next
  case False
  then show ?thesis using assms(1) lim by (simp add: nlz_step_def word_le_nat_alt)
qed

lemma nlz_bounds:
  assumes "x \<noteq> 0"
  shows "nlz x \<le> 31" and "2 ^ 31 \<le> unat x * 2 ^ nlz x" and "unat x * 2 ^ nlz x < 2 ^ 32"
proof -
  define a where "a = nlz_step 0x0000FFFF 16 (0, x)"
  define b where "b = nlz_step 0x00FFFFFF 8 a"
  define c where "c = nlz_step 0x0FFFFFFF 4 b"
  define e where "e = nlz_step 0x3FFFFFFF 2 c"
  have "1 \<le> unat x" using assms by (simp add: unat_gt_0 Suc_le_eq)
  then have a: "unat (snd a) = unat x * 2 ^ fst a \<and> 2 ^ (32 - 16) \<le> unat (snd a)"
    unfolding a_def by (intro nlz_step_inv) simp_all
  then have b: "unat (snd b) = unat x * 2 ^ fst b \<and> 2 ^ (32 - 8) \<le> unat (snd b)"
    unfolding b_def by (intro nlz_step_inv) simp_all
  then have c: "unat (snd c) = unat x * 2 ^ fst c \<and> 2 ^ (32 - 4) \<le> unat (snd c)"
    unfolding c_def by (intro nlz_step_inv) simp_all
  then have e: "unat (snd e) = unat x * 2 ^ fst e \<and> 2 ^ (32 - 2) \<le> unat (snd e)"
    unfolding e_def by (intro nlz_step_inv) simp_all
  have n: "nlz x = (if snd e \<le> 0x7FFFFFFF then fst e + 1 else fst e)"
    by (simp add: nlz_def a_def b_def c_def e_def Let_def)
  have lt: "unat (snd e) < 2 ^ 32" using unsigned_less [of "snd e", where ?'a = nat] by simp
  show lo: "2 ^ 31 \<le> unat x * 2 ^ nlz x" and hi: "unat x * 2 ^ nlz x < 2 ^ 32"
    using e lt n by (auto simp: word_le_nat_alt)
  have "2 ^ nlz x \<le> unat x * 2 ^ nlz x" using \<open>1 \<le> unat x\<close> by simp
  then have "(2::nat) ^ nlz x < 2 ^ 32" using hi by linarith
  then show "nlz x \<le> 31" using power_less_imp_less_exp [of "2::nat" "nlz x" 32] by simp
qed

section \<open>Unsigned division\<close>

lemma divl_Some: "unat d \<noteq> 0 \<Longrightarrow> unat n < 2 ^ 32 * unat d \<Longrightarrow> divl n d = Some (of_nat (unat n div unat d))"
  by (simp add: divl_def div_less_iff_less_mult not_le unat_eq_0)

text \<open>The estimate of the quotient from the leading 32 bits of the divisor is exact or one too large.\<close>

lemma quotient_estimate:
  fixes n d v K :: nat
  assumes d: "v * K \<le> d" "d < v * K + K" and v: "2 ^ 31 \<le> v" and K: "K = 2 ^ k" "1 \<le> k" "k \<le> 32" and n: "n < 2 ^ 64"
  shows "n div d \<le> n div (v * K)" and "n div (v * K) \<le> n div d + 1"
proof -
  have K2: "2 \<le> K" using K power_increasing [of 1 k "2::nat"] by simp
  have pos: "0 < v * K" using v K2 by simp
  then show "n div d \<le> n div (v * K)" using d(1) by (simp add: div_le_mono2)
  define q r where "q = n div d" and "r = d - v * K"
  have vK: "2 ^ 31 * K \<le> v * K" using v by simp
  have qd: "q * d \<le> n" by (simp add: q_def)
  have "2 ^ 31 * K \<le> d" using vK d(1) by linarith
  then have "2 ^ 31 * (q * K) \<le> q * d" using mult_le_mono2 [of "2 ^ 31 * K" d q] by (simp only: ac_simps)
  then have "2 ^ 31 * (q * K) < 2 ^ 64" using qd n by (meson le_less_trans order_trans)
  then have qK: "q * K < 2 ^ 33" by (simp add: mult.commute)
  have r: "d = v * K + r" "r < K" using d by (simp_all add: r_def)
  have "(q + 2) * r \<le> d"
  proof (cases "r = 0")
    case False
    have "k = 1 \<or> k = 2 \<or> 8 \<le> K" using K power_increasing [of 3 k "2::nat"] by (cases "3 \<le> k") auto
    then consider "K = 2" | "K = 4" | "8 \<le> K" using K(1) by auto
    then show ?thesis
    proof cases
      case 1
      moreover have "r = 1" using 1 r(2) False by simp
      ultimately show ?thesis using r(1) qK vK by simp
    next
      case 2
      then have "(q + 2) * r \<le> (q + 2) * 3" using r(2) by (intro mult_le_mono2) simp
      then show ?thesis using 2 qK vK r(1) by simp
    next
      case 3
      have "(q + 2) * r \<le> (q + 2) * K" using r(2) by (intro mult_le_mono2) simp
      also have "\<dots> = q * K + 2 * K" by (simp add: algebra_simps)
      finally have "(q + 2) * r \<le> q * K + 2 * K" .
      moreover have "q * K < 8589934592" "2147483648 * K \<le> v * K" using qK vK by simp_all
      ultimately show ?thesis using r(1) 3 by linarith
    qed
  qed simp
  moreover have "n < (q + 1) * d" using dividend_less_times_div [of d n] pos d(1) by (simp add: q_def algebra_simps)
  ultimately have "n < (q + 2) * (v * K)" unfolding r(1) by (simp add: algebra_simps)
  then have "n div (v * K) < q + 2" using pos by (simp add: div_less_iff_less_mult)
  then show "n div (v * K) \<le> n div d + 1" by (simp add: q_def)
qed

lemma udiv64_small:
  assumes "unat d < 2 ^ 32" and "d \<noteq> 0"
  shows "udiv64 n d = Some (n div d)"
proof -
  define n1 n0 d0 where "n1 = (ucast (drop_bit 32 n) :: u32)" and "n0 = (ucast n :: u32)" and "d0 = (ucast d :: u32)"
  have d0: "unat d0 = unat d" using assms(1) by (simp add: d0_def unat_ucast_less)
  have n1: "unat n1 = unat n div 2 ^ 32"
    using unsigned_less [of n, where ?'a = nat]
    by (simp add: n1_def unat_ucast_less unat_drop_bit div_less_iff_less_mult)
  have n0: "unat n0 = unat n mod 2 ^ 32" by (simp add: n0_def unsigned_ucast_eq take_bit_eq_mod)
  define N where "N = 2 ^ 32 * (unat n1 mod unat d) + unat n0"
  have pos: "0 < unat d" using assms(2) by (simp add: unat_gt_0)
  have m: "unat n1 mod unat d < unat d" using pos by simp
  have N: "N < 2 ^ 32 * unat d"
  proof -
    have "unat n0 < 2 ^ 32" by (simp add: n0)
    then have "N < 2 ^ 32 * Suc (unat n1 mod unat d)" by (simp add: N_def)
    also have "\<dots> \<le> 2 ^ 32 * unat d" using m by (intro mult_le_mono2) simp
    finally show ?thesis .
  qed
  have nN: "unat n = 2 ^ 32 * unat n1 + unat n0" using mult_div_mod_eq [of "2 ^ 32" "unat n"] by (simp only: n1 n0)
  have "2 ^ 32 * (unat d * i + j) = unat d * (2 ^ 32 * i) + 2 ^ 32 * j" for i j by (simp only: distrib_left mult.left_commute)
  from this [of "unat n1 div unat d" "unat n1 mod unat d"]
  have "2 ^ 32 * unat n1 = unat d * (2 ^ 32 * (unat n1 div unat d)) + 2 ^ 32 * (unat n1 mod unat d)"
    by (simp only: mult_div_mod_eq)
  then have "unat n = N + unat d * (2 ^ 32 * (unat n1 div unat d))" using nN N_def by linarith
  then have quot: "unat n div unat d = N div unat d + 2 ^ 32 * (unat n1 div unat d)" using pos by simp
  let ?b = "push_bit 32 1 :: u64"
  have b: "?b = of_nat (2 ^ 32)" by (simp add: push_bit_eq_mult)
  have "N < 2 ^ 64" using N assms(1) by simp
  moreover have wN: "?b * ucast (n1 mod d0) + ucast n0 = of_nat N"
    unfolding N_def d0 [symmetric] unat_mod [symmetric] of_nat_add of_nat_mult b [symmetric] by simp
  ultimately have uN: "unat (?b * ucast (n1 mod d0) + ucast n0) = N" by (simp add: unat_of_nat)
  then have q: "divl (?b * ucast (n1 mod d0) + ucast n0) d0 = Some (of_nat (N div unat d))"
    using divl_Some [of d0] N pos d0 by simp
  have "N div unat d < 2 ^ 32" using N by (rule less_mult_imp_div_less)
  then have uq: "(ucast (of_nat (N div unat d) :: u32) :: u64) = of_nat (N div unat d)"
    by (simp add: word_unat_eq_iff unat_ucast_less unat_of_nat)
  have n1d: "(ucast (n1 div d0) :: u64) = of_nat (unat n1 div unat d)"
    unfolding d0 [symmetric] unat_div [symmetric] by simp
  have "ucast (of_nat (N div unat d) :: u32) + ?b * ucast (n1 div d0) = of_nat (unat n div unat d)"
    unfolding uq n1d b quot of_nat_add of_nat_mult by simp
  also have "\<dots> = n div d" by (rule word_arith_nat_div [symmetric])
  finally have "ucast (of_nat (N div unat d) :: u32) + ?b * ucast (n1 div d0) = n div d" .
  moreover have "drop_bit 32 d = 0" "d0 \<noteq> 0"
    using assms(1) d0 pos by (auto simp: word_unat_eq_iff unat_drop_bit)
  ultimately show ?thesis
    using q unfolding udiv64_def Let_def n1_def [symmetric] n0_def [symmetric] d0_def [symmetric] by simp
qed

lemma quotient_correction:
  fixes n d :: u64
  assumes "1 \<le> unat n div unat d" and "0 < unat d" and "q0 = unat n div unat d \<or> q0 = unat n div unat d + 1"
  shows "(if n - (of_nat q0 - 1) * d < d then of_nat q0 - 1 else of_nat q0) = n div d"
proof -
  define Q where "Q = unat n div unat d"
  have low: "unat (n - of_nat k * d) = unat n - k * unat d" if "k \<le> Q" for k
  proof -
    have "k * unat d \<le> Q * unat d" using that by simp
    also have "\<dots> \<le> unat n" by (simp add: Q_def)
    finally have le: "k * unat d \<le> unat n" .
    then have "k * unat d < 2 ^ 64" using unsigned_less [of n, where ?'a = nat] by simp
    then have "unat (of_nat (k * unat d) :: u64) = k * unat d" by (simp only: unat_of_nat) simp
    then have "unat (of_nat k * d) = k * unat d" by simp
    then show ?thesis using le by (simp add: unat_sub_if')
  qed
  have div: "of_nat Q = n div d" by (simp add: Q_def word_arith_nat_div)
  have le: "Q * unat d \<le> unat n" "unat n < Q * unat d + unat d"
    using dividend_less_div_times [OF assms(2), of "unat n"] by (simp_all add: Q_def add.commute)
  consider "q0 = Q" "1 \<le> Q" | "q0 = Q + 1" using assms(1,3) by (auto simp: Q_def)
  then show ?thesis
  proof cases
    case 1
    then have e: "(of_nat q0 - 1 :: u64) = of_nat (Q - 1)" by (simp add: of_nat_diff)
    have "unat d \<le> unat (n - of_nat (Q - 1) * d)" using 1 low [of "Q - 1"] le(1) by (simp add: diff_mult_distrib)
    then show ?thesis using 1 div unfolding e by (simp add: word_less_nat_alt)
  next
    case 2
    then have e: "(of_nat q0 - 1 :: u64) = of_nat Q" by simp
    have "unat (n - of_nat Q * d) < unat d" using low [of Q] le by simp
    then show ?thesis using div unfolding e by (simp add: word_less_nat_alt)
  qed
qed

lemma udiv64_large:
  assumes d: "2 ^ 32 \<le> unat d" and nd: "unat d \<le> unat n"
  shows "udiv64 n d = Some (n div d)"
proof -
  define d1 s where "d1 = (ucast (drop_bit 32 d) :: u32)" and "s = nlz d1"
  have lt: "unat d < 2 ^ 64" "unat n < 2 ^ 64" using unsigned_less [of d, where ?'a = nat] unsigned_less [of n, where ?'a = nat] by simp_all
  have ud1: "unat d1 = unat d div 2 ^ 32" using lt
    by (simp add: d1_def unat_ucast_less unat_drop_bit div_less_iff_less_mult)
  have "0 < unat d div 2 ^ 32" using d by (simp add: div_greater_zero_iff)
  then have "d1 \<noteq> 0" using ud1 by (auto simp: word_unat_eq_iff)
  note nb = nlz_bounds [OF this, folded s_def]
  define K where "K = (2::nat) ^ (32 - s)"
  have sK: "2 ^ s * K = 2 ^ 32" using nb(1) by (simp add: K_def flip: power_add)
  have p: "0 < (2::nat) ^ s" by simp
  have "unat d1 * 2 ^ s < K * 2 ^ s" using nb(3) sK by (simp add: mult.commute)
  then have "unat d1 < K" by simp
  then have "unat d < K * 2 ^ 32" using ud1 by (simp add: div_less_iff_less_mult)
  then have "unat d * 2 ^ s < K * 2 ^ 32 * 2 ^ s" by simp
  also have "\<dots> = 2 ^ 64" using sK by (metis mult.commute mult.left_commute power_add numeral_Bit0)
  finally have ush: "unat (push_bit s d) = unat d * 2 ^ s" by (simp add: unat_push_bit)
  define V where "V = unat d div K"
  define v :: u32 where "v = ucast (drop_bit 32 (push_bit s d))"
  have dV: "unat d * 2 ^ s div 2 ^ 32 = V" unfolding V_def sK [symmetric] using p by (simp add: mult.commute)
  have "V < 2 ^ 32" using \<open>unat d < K * 2 ^ 32\<close> by (simp add: V_def less_mult_imp_div_less mult.commute)
  then have uv: "unat v = V" using dV by (simp add: v_def unat_ucast_less unat_drop_bit ush)
  have "2 ^ 31 * 2 ^ 32 \<le> unat d1 * 2 ^ s * 2 ^ 32" using nb(2) by simp
  also have "\<dots> \<le> unat d * 2 ^ s" using ud1 div_times_less_eq_dividend [of "unat d" "2 ^ 32"] by simp
  finally have V31: "2 ^ 31 \<le> V" unfolding dV [symmetric] by (simp add: less_eq_div_iff_mult_less_eq)
  have half: "unat (drop_bit 1 n) = unat n div 2" by (simp add: unat_drop_bit)
  have "unat n div 2 < 2 ^ 32 * V" using lt(2) V31 by simp
  then have q1: "divl (drop_bit 1 n) v = Some (of_nat (unat n div 2 div V))"
    using divl_Some [of v "drop_bit 1 n"] V31 uv half by simp
  have "unat n div 2 div V < 2 ^ 32" using \<open>unat n div 2 < 2 ^ 32 * V\<close> by (rule less_mult_imp_div_less)
  then have uq1: "unat (of_nat (unat n div 2 div V) :: u32) = unat n div 2 div V" by (simp add: unat_of_nat)
  have "K = 2 * 2 ^ (31 - s)" using nb(1) by (simp add: K_def Suc_diff_le flip: power_Suc)
  then have q0: "unat n div 2 div V div 2 ^ (31 - s) = unat n div (V * K)"
    by (simp add: div_mult2_eq [symmetric] ac_simps)
  have "(ucast (drop_bit (31 - s) (of_nat (unat n div 2 div V) :: u32)) :: u64) =
      of_nat (unat (drop_bit (31 - s) (of_nat (unat n div 2 div V) :: u32)))" by simp
  also have "\<dots> = of_nat (unat n div (V * K))" by (simp only: unat_drop_bit uq1 q0)
  finally have q: "(ucast (drop_bit (31 - s) (of_nat (unat n div 2 div V) :: u32)) :: u64) = of_nat (unat n div (V * K))" .
  have "V * K \<le> unat d" "unat d < V * K + K"
    using dividend_less_div_times [of K "unat d"] by (simp_all add: V_def K_def add.commute)
  note est = quotient_estimate [OF this V31 K_def _ _ lt(2)]
  have "1 \<le> unat n div unat d" "0 < unat d" using nd d by (simp_all add: less_eq_div_iff_mult_less_eq)
  moreover have "unat n div (V * K) = unat n div unat d \<or> unat n div (V * K) = unat n div unat d + 1"
    using est nb(1) by linarith
  ultimately have "(if n - (of_nat (unat n div (V * K)) - 1) * d < d then of_nat (unat n div (V * K)) - 1
      else of_nat (unat n div (V * K))) = n div d" by (rule quotient_correction)
  moreover have "drop_bit 32 d \<noteq> 0" "\<not> n < d"
    using \<open>0 < unat d div 2 ^ 32\<close> nd by (auto simp: word_unat_eq_iff unat_drop_bit word_less_nat_alt)
  ultimately show ?thesis
    using q1 unfolding udiv64_def Let_def d1_def [symmetric] s_def [symmetric] v_def [symmetric] by (simp add: q split: if_splits)
qed

lemma udiv64_eq: "d \<noteq> 0 \<Longrightarrow> udiv64 n d = Some (n div d)"
proof (cases "unat d < 2 ^ 32")
  case False
  then have "drop_bit 32 d \<noteq> 0" by (auto simp: word_unat_eq_iff unat_drop_bit div_eq_0_iff)
  then show ?thesis
    using False udiv64_large [of d n]
    by (cases "n < d") (simp_all add: udiv64_def word_less_nat_alt word_unat_eq_iff [of 0] unat_div)
qed (rule udiv64_small)

lemma udiv64_0: "udiv64 n 0 = None"
  by (simp add: udiv64_def)

section \<open>Properties\<close>

text \<open>C29. Unsigned 64-bit division: \<^verbatim>\<open>__udivdi3\<close> traps exactly for a zero divisor and otherwise
  returns the quotient, for every dividend and divisor; the inner \<^verbatim>\<open>divl\<close> never traps.\<close>

theorem udivdi3_correct: "udivdi3 n d = (if d = 0 then None else Some (n div d))"
  by (simp add: udivdi3_def udiv64_eq udiv64_0)

lemma sdiv64_eq:
  assumes "d \<noteq> 0"
  shows "sdiv64 n d = Some (word_of_int (sint n sdiv sint d))"
proof -
  define a :: "u64 \<Rightarrow> u64" where "a x = (if sint x \<ge> 0 then x else - x)" for x
  have a: "uint (a x) = \<bar>sint x\<bar>" for x
  proof -
    have "a x = word_of_int \<bar>sint x\<bar>" by (simp add: a_def)
    moreover have "\<bar>sint x\<bar> < 2 ^ 64" using sint_ge [of x] sint_lt [of x] by auto
    ultimately show ?thesis by (simp add: uint_word_of_int)
  qed
  have "a d \<noteq> 0" using assms by (simp add: a_def)
  then have "sdiv64 n d = Some (if (sint n < 0) = (sint d < 0) then a n div a d else - (a n div a d))"
    by (simp add: sdiv64_def udiv64_eq flip: a_def)
  moreover have "a n div a d = word_of_int (\<bar>sint n\<bar> div \<bar>sint d\<bar>)" by (simp add: word_div_def a)
  ultimately show ?thesis by (auto simp: signed_divide_int_def sgn_if)
qed

text \<open>C30. The other three entry points, for a non-zero divisor: signed division rounds towards zero
  (wrapping only for the smallest number divided by -1); the remainders are cut to 32 bits, because
  \<^verbatim>\<open>umod64\<close> and \<^verbatim>\<open>smod64\<close> return 32-bit integers, so a remainder that does not fit is wrong.\<close>

theorem signed_div_and_remainders:
  assumes "d \<noteq> 0"
  shows "divdi3 n d = Some (word_of_int (sint n sdiv sint d)) \<and>
    umoddi3 n d = Some (of_nat (unat n mod unat d mod 2 ^ 32)) \<and>
    moddi3 n d = Some (scast (word_of_int (sint n smod sint d) :: u32)) \<and>
    (umoddi3 n d = Some (n mod d) \<longleftrightarrow> unat n mod unat d < 2 ^ 32)"
proof (intro conjI)
  show "divdi3 n d = Some (word_of_int (sint n sdiv sint d))" by (simp add: divdi3_def sdiv64_eq assms)
  have u: "umod64 n d = Some (ucast (n mod d))"
    using assms by (simp add: umod64_def udiv64_eq minus_mult_div_eq_mod)
  have um: "(ucast (ucast (n mod d) :: u32) :: u64) = of_nat (unat n mod unat d mod 2 ^ 32)"
    by (simp add: word_unat_eq_iff unat_mod unsigned_ucast_eq take_bit_eq_mod unat_of_nat)
  then show m: "umoddi3 n d = Some (of_nat (unat n mod unat d mod 2 ^ 32))" by (simp add: umoddi3_def u)
  show "umoddi3 n d = Some (n mod d) \<longleftrightarrow> unat n mod unat d < 2 ^ 32"
    unfolding m by (auto simp: word_unat_eq_iff unat_mod unat_of_nat mod_eq_self_iff_div_eq_0 div_eq_0_iff)
  have "n - d * word_of_int (sint n sdiv sint d) = word_of_int (sint n - sint d * (sint n sdiv sint d))" by simp
  moreover have "ucast (word_of_int k :: u64) = (word_of_int k :: u32)" for k
    by (rule bit_word_eqI) (simp add: bit_simps)
  ultimately have "(ucast (n - d * word_of_int (sint n sdiv sint d)) :: u32) = word_of_int (sint n smod sint d)"
    by (simp add: minus_mult_sdiv_eq_smod)
  then show "moddi3 n d = Some (scast (word_of_int (sint n smod sint d) :: u32))"
    by (simp add: moddi3_def smod64_def sdiv64_eq assms)
qed

theorem signed_div_and_remainders_witness:
  "divdi3 (- 7) 2 = Some (word_of_int (sint (- 7 :: u64) sdiv sint (2 :: u64))) \<and>
   umoddi3 7 2 = Some (of_nat (unat (7 :: u64) mod unat (2 :: u64) mod 2 ^ 32)) \<and>
   moddi3 (- 7) 2 = Some (scast (word_of_int (sint (- 7 :: u64) smod sint (2 :: u64)) :: u32)) \<and>
   (umoddi3 7 2 = Some (7 mod 2) \<longleftrightarrow> unat (7 :: u64) mod unat (2 :: u64) < 2 ^ 32)"
  using signed_div_and_remainders [of 2 "- 7"] signed_div_and_remainders [of 2 7] by simp

end
