(* ===== verification/Stdlib.thy ===== *)
theory Stdlib
  imports Kstring
begin

text \<open>
  lib/stdlib.c and the part of lib/ctype.h it uses: number parsing, heap sort and binary search.  The
  array of \<^verbatim>\<open>sort\<close> is a list of bytes and an element a slice of it; \<open>cmp\<close> is the caller's comparison with
  its auxiliary data.  Indices are \<^verbatim>\<open>size_t\<close> and wrap.
\<close>

section \<open>Numbers\<close>

definition isdigit :: "int \<Rightarrow> bool" where
  "isdigit c \<longleftrightarrow> c \<ge> 48 \<and> c \<le> 57"

definition isspace :: "int \<Rightarrow> bool" where
  "isspace c \<longleftrightarrow> c = 32 \<or> c = 12 \<or> c = 10 \<or> c = 13 \<or> c = 9 \<or> c = 11"

definition islower :: "int \<Rightarrow> bool" where
  "islower c \<longleftrightarrow> c \<ge> 97 \<and> c \<le> 122"

definition isupper :: "int \<Rightarrow> bool" where
  "isupper c \<longleftrightarrow> c \<ge> 65 \<and> c \<le> 90"

definition isprint :: "int \<Rightarrow> bool" where
  "isprint c \<longleftrightarrow> c \<ge> 32 \<and> c < 127"

definition tolower :: "int \<Rightarrow> int" where
  "tolower c = (if isupper c then c - 65 + 97 else c)"

definition toupper :: "int \<Rightarrow> int" where
  "toupper c = (if islower c then c - 97 + 65 else c)"

function skip_space :: "memory \<Rightarrow> addr \<Rightarrow> addr option" where
  "skip_space m s = do { x \<leftarrow> aread m s; if isspace (uint x) then skip_space m (s + 1) else Some s }"
  by pat_completeness auto
termination
  by (relation "measure (\<lambda>(m, p). length m - p)") (auto simp: panic_iff)

text \<open>The digits, with the value kept negative; leaving the range of \<^verbatim>\<open>int\<close> is undefined.\<close>

function atoi_digits :: "memory \<Rightarrow> addr \<Rightarrow> int \<Rightarrow> int option" where
  "atoi_digits m s value = do {
     x \<leftarrow> aread m s;
     if isdigit (sint x) then do {
       let v10 = value * 10;
       ASSERT (- (2 ^ 31) \<le> v10);
       let v = v10 - (sint x - 48);
       ASSERT (- (2 ^ 31) \<le> v);
       atoi_digits m (s + 1) v
     } else Some value
   }"
  by pat_completeness auto
termination
  by (relation "measure (\<lambda>(m, p, v). length m - p)") (auto simp: panic_iff)

definition atoi :: "memory \<Rightarrow> addr \<Rightarrow> int option" where
  "atoi m s = do {
     ASSERT (s \<noteq> 0);
     s \<leftarrow> skip_space m s;
     x \<leftarrow> aread m s;
     let negative = (x = 45);
     let s = (if x = 43 \<or> x = 45 then s + 1 else s);
     value \<leftarrow> atoi_digits m s 0;
     if negative then Some value
     else do { ASSERT (- value < 2 ^ 31); Some (- value) }
   }"

section \<open>Heap sort\<close>

type_synonym compare_func = "u8 list \<Rightarrow> u8 list \<Rightarrow> int"

definition elem_at :: "u8 list \<Rightarrow> nat \<Rightarrow> nat \<Rightarrow> u8 list option" where
  "elem_at arr ofs sz = (if ofs + sz \<le> length arr then Some (take sz (drop ofs arr)) else None)"

text \<open>The first \<open>n\<close> iterations of the loop.\<close>

primrec do_swap_loop :: "u8 list \<Rightarrow> nat \<Rightarrow> nat \<Rightarrow> nat \<Rightarrow> u8 list option" where
  "do_swap_loop arr a b 0 = Some arr"
| "do_swap_loop arr a b (Suc i) = do {
     arr \<leftarrow> do_swap_loop arr a b i;
     t \<leftarrow> aread arr (a + i);
     u \<leftarrow> aread arr (b + i);
     arr \<leftarrow> awrite arr (a + i) u;
     awrite arr (b + i) t
   }"

definition do_swap :: "u8 list \<Rightarrow> nat \<Rightarrow> nat \<Rightarrow> nat \<Rightarrow> u8 list option" where
  "do_swap arr a_idx b_idx sz = do_swap_loop arr ((a_idx - 1) * sz) ((b_idx - 1) * sz) sz"

definition do_compare :: "compare_func \<Rightarrow> u8 list \<Rightarrow> nat \<Rightarrow> nat \<Rightarrow> nat \<Rightarrow> int option" where
  "do_compare cmp arr a_idx b_idx sz = do {
     x \<leftarrow> elem_at arr ((a_idx - 1) * sz) sz;
     y \<leftarrow> elem_at arr ((b_idx - 1) * sz) sz;
     Some (cmp x y)
   }"

text \<open>The larger of element \<open>m\<close> and its candidate \<open>c\<close>, when there is one.\<close>

definition larger :: "compare_func \<Rightarrow> u8 list \<Rightarrow> nat \<Rightarrow> nat \<Rightarrow> nat \<Rightarrow> nat \<Rightarrow> nat option" where
  "larger cmp arr cnt sz c m =
     (if c \<le> cnt then do { r \<leftarrow> do_compare cmp arr c m sz; Some (if r > 0 then c else m) } else Some m)"

partial_function (option) heapify :: "compare_func \<Rightarrow> u8 list \<Rightarrow> nat \<Rightarrow> nat \<Rightarrow> nat \<Rightarrow> u8 list option" where
  "heapify cmp arr i cnt sz = do {
     let left = wrap32 (2 * i);
     let right = wrap32 (2 * i + 1);
     m \<leftarrow> larger cmp arr cnt sz left i;
     m \<leftarrow> larger cmp arr cnt sz right m;
     if m = i then Some arr
     else do {
       arr \<leftarrow> do_swap arr i m sz;
       heapify cmp arr m cnt sz
     }
   }"

primrec build_heap :: "compare_func \<Rightarrow> u8 list \<Rightarrow> nat \<Rightarrow> nat \<Rightarrow> nat \<Rightarrow> u8 list option" where
  "build_heap cmp arr 0 cnt sz = Some arr"
| "build_heap cmp arr (Suc i) cnt sz = do {
     arr \<leftarrow> heapify cmp arr (Suc i) cnt sz;
     build_heap cmp arr i cnt sz
   }"

primrec sort_heap :: "compare_func \<Rightarrow> u8 list \<Rightarrow> nat \<Rightarrow> nat \<Rightarrow> u8 list option" where
  "sort_heap cmp arr 0 sz = Some arr"
| "sort_heap cmp arr (Suc i) sz =
     (if Suc i > 1 then do {
        arr \<leftarrow> do_swap arr 1 (Suc i) sz;
        arr \<leftarrow> heapify cmp arr 1 i sz;
        sort_heap cmp arr i sz
      } else Some arr)"

definition heap_sort :: "compare_func \<Rightarrow> u8 list \<Rightarrow> nat \<Rightarrow> nat \<Rightarrow> u8 list option" where
  "heap_sort cmp arr cnt sz = do {
     ASSERT (sz > 0);
     arr \<leftarrow> build_heap cmp arr (cnt div 2) cnt sz;
     sort_heap cmp arr cnt sz
   }"

definition qsort :: "compare_func \<Rightarrow> u8 list \<Rightarrow> nat \<Rightarrow> nat \<Rightarrow> u8 list option" where
  "qsort cmp arr cnt sz = heap_sort cmp arr cnt sz"

section \<open>Binary search\<close>

text \<open>Pointers are offsets into the array; the result is the offset of a match.\<close>

function binary_search_loop :: "compare_func \<Rightarrow> u8 list \<Rightarrow> u8 list \<Rightarrow> nat \<Rightarrow> nat \<Rightarrow> nat \<Rightarrow> nat option option" where
  "binary_search_loop cmp key arr sz first lst =
     (if first < lst then do {
        ASSERT (sz > 0);
        let range = (lst - first) div sz;
        let middle = first + range div 2 * sz;
        e \<leftarrow> elem_at arr middle sz;
        let c = cmp key e;
        if c < 0 then binary_search_loop cmp key arr sz first middle
        else if c > 0 then binary_search_loop cmp key arr sz (middle + sz) lst
        else Some (Some middle)
      } else Some None)"
  by pat_completeness auto
termination
proof (relation "measure (\<lambda>(cmp, key, arr, sz, first, lst). lst - first)", goal_cases)
  case (2 cmp key arr sz first lst u range middle e c)
  have "range div 2 * sz < lst - first"
  proof (cases "range = 0")
    case False
    then have "range div 2 * sz < range * sz" using 2 by (simp add: panic_iff)
    also have "\<dots> \<le> lst - first" using 2 by simp
    finally show ?thesis .
  qed (use 2 in simp)
  then show ?case using 2 by simp
next
  case (3 cmp key arr sz first lst u range middle e c)
  then show ?case by (simp add: panic_iff)
qed simp

definition binary_search :: "compare_func \<Rightarrow> u8 list \<Rightarrow> u8 list \<Rightarrow> nat \<Rightarrow> nat \<Rightarrow> nat option option" where
  "binary_search cmp key arr cnt sz = binary_search_loop cmp key arr sz 0 (sz * cnt)"

definition bsearch :: "compare_func \<Rightarrow> u8 list \<Rightarrow> u8 list \<Rightarrow> nat \<Rightarrow> nat \<Rightarrow> nat option option" where
  "bsearch cmp key arr cnt sz = binary_search cmp key arr cnt sz"

declare skip_space.simps [simp del] atoi_digits.simps [simp del] binary_search_loop.simps [simp del]

section \<open>Elements of an array\<close>

lemma do_swap_loop_eq:
  assumes "a + n \<le> length arr" and "b + n \<le> length arr" and "a + n \<le> b \<or> b + n \<le> a"
  shows "do_swap_loop arr a b n = Some (overwrite (overwrite arr a (take n (drop b arr))) b (take n (drop a arr)))"
  using assms
proof (induction n)
  case 0
  then show ?case by (simp add: overwrite_def)
next
  case (Suc n)
  let ?w = "\<lambda>n. overwrite (overwrite arr a (take n (drop b arr))) b (take n (drop a arr))"
  have IH: "do_swap_loop arr a b n = Some (?w n)" and len: "length (?w n) = length arr" "length (?w (Suc n)) = length arr"
    using Suc by auto
  have "?w n ! (a + n) = arr ! (a + n)" "?w n ! (b + n) = arr ! (b + n)" using Suc.prems by (simp_all add: nth_overwrite) auto
  moreover have "(?w n)[a + n := arr ! (b + n), b + n := arr ! (a + n)] = ?w (Suc n)"
  proof (rule nth_equalityI)
    fix p assume "p < length ((?w n)[a + n := arr ! (b + n), b + n := arr ! (a + n)])"
    then have "p < length arr" using len by simp
    then show "(?w n)[a + n := arr ! (b + n), b + n := arr ! (a + n)] ! p = ?w (Suc n) ! p"
      using Suc.prems len(1) by (auto simp: nth_overwrite nth_list_update)
  qed (simp add: len)
  ultimately show ?case using IH len(1) Suc.prems by simp
qed

definition blocks_of :: "nat \<Rightarrow> u8 list list \<Rightarrow> bool" where
  "blocks_of sz es \<longleftrightarrow> (\<forall>l \<in> set es. length l = sz)"

text \<open>Elements with the index of the code, from 1.\<close>

abbreviation at1 :: "u8 list list \<Rightarrow> nat \<Rightarrow> u8 list" where
  "at1 es i \<equiv> es ! (i - 1)"

abbreviation swap1 :: "u8 list list \<Rightarrow> nat \<Rightarrow> nat \<Rightarrow> u8 list list" where
  "swap1 es a b \<equiv> es[a - 1 := at1 es b, b - 1 := at1 es a]"

lemma elem_at_block:
  "blocks_of sz es \<Longrightarrow> i < length es \<Longrightarrow> elem_at (concat es) (i * sz) sz = Some (es ! i)"
  using concat_slice [of es sz i 0 sz] length_concat_const [of es sz] mult_le_mono1 [of "Suc i" "length es" sz]
  by (simp add: elem_at_def blocks_of_def mult.commute)

lemma do_compare_block:
  "blocks_of sz es \<Longrightarrow> 1 \<le> a \<Longrightarrow> a \<le> length es \<Longrightarrow> 1 \<le> b \<Longrightarrow> b \<le> length es \<Longrightarrow>
   do_compare cmp (concat es) a b sz = Some (cmp (at1 es a) (at1 es b))"
  by (simp add: do_compare_def elem_at_block)

lemma blocks_of_swap: "blocks_of sz es \<Longrightarrow> a < length es \<Longrightarrow> b < length es \<Longrightarrow> blocks_of sz (es[a := es ! b, b := es ! a])"
  by (auto simp: blocks_of_def in_set_conv_nth nth_list_update split: if_splits)

lemma do_swap_block:
  assumes bl: "blocks_of sz es" and i: "1 \<le> a" "a \<le> length es" "1 \<le> b" "b \<le> length es" "a \<noteq> b"
  shows "do_swap (concat es) a b sz = Some (concat (swap1 es a b))"
proof -
  define i j where "i = a - 1" and "j = b - 1"
  have ij: "i < length es" "j < length es" "i \<noteq> j" using i by (auto simp: i_def j_def)
  have len: "length (concat es) = sz * length es" "length (es ! i) = sz" "length (es ! j) = sz"
    using bl ij length_concat_const [of es sz] by (auto simp: blocks_of_def)
  have bd: "sz * k + sz \<le> sz * length es" if "k < length es" for k
    using mult_le_mono2 [of "Suc k" "length es" sz] that by simp
  have sep: "sz * i + sz \<le> sz * j \<or> sz * j + sz \<le> sz * i"
    using ij(3) mult_le_mono2 [of "Suc i" j sz] mult_le_mono2 [of "Suc j" i sz]
    by (cases "i < j") (simp_all add: Suc_le_eq add.commute)
  have el: "take sz (drop (sz * k) (concat es)) = es ! k" if "k < length es" for k
    using concat_slice [of es sz k 0 sz] bl that by (simp add: blocks_of_def)
  have "overwrite (concat es) (sz * i + 0) (es ! j) = concat (es[i := overwrite (es ! i) 0 (es ! j)])"
    using bl ij len by (intro concat_overwrite) (auto simp: blocks_of_def)
  then have "overwrite (concat es) (sz * i) (es ! j) = concat (es[i := es ! j])" using len by simp
  moreover have "blocks_of sz (es[i := es ! j])" using bl ij by (auto simp: blocks_of_def in_set_conv_nth nth_list_update split: if_splits)
  then have "overwrite (concat (es[i := es ! j])) (sz * j + 0) (es ! i) = concat (es[i := es ! j, j := overwrite (es[i := es ! j] ! j) 0 (es ! i)])"
    using ij len by (intro concat_overwrite) (auto simp: blocks_of_def)
  then have "overwrite (concat (es[i := es ! j])) (sz * j) (es ! i) = concat (es[i := es ! j, j := es ! i])" using len ij by simp
  ultimately have "do_swap_loop (concat es) (i * sz) (j * sz) sz = Some (concat (es[i := es ! j, j := es ! i]))"
    using do_swap_loop_eq [of "sz * i" sz "concat es" "sz * j"] bd ij len sep el by (simp add: mult.commute)
  then show ?thesis unfolding do_swap_def i_def j_def .
qed

section \<open>The heap\<close>

text \<open>What the code asks of a comparison: a \<^verbatim>\<open>strcmp\<close>-type result.\<close>

definition strcmp_like :: "compare_func \<Rightarrow> bool" where
  "strcmp_like cmp \<longleftrightarrow> (\<forall>x y. cmp x y > 0 \<longleftrightarrow> cmp y x < 0) \<and>
     (\<forall>x y z. cmp x y \<le> 0 \<and> cmp y z \<le> 0 \<longrightarrow> cmp x z \<le> 0)"

text \<open>The children of every node from \<open>lo\<close> on, other than \<open>i\<close>, are not larger.\<close>

definition heap_but :: "compare_func \<Rightarrow> u8 list list \<Rightarrow> nat \<Rightarrow> nat \<Rightarrow> nat \<Rightarrow> bool" where
  "heap_but cmp es lo cnt i \<longleftrightarrow>
     (\<forall>j c. lo \<le> j \<and> j \<noteq> i \<and> c div 2 = j \<and> c \<le> cnt \<longrightarrow> cmp (at1 es c) (at1 es j) \<le> 0)"

text \<open>The children of \<open>i\<close> are not larger than its parent.\<close>

definition below_parent :: "compare_func \<Rightarrow> u8 list list \<Rightarrow> nat \<Rightarrow> nat \<Rightarrow> nat \<Rightarrow> bool" where
  "below_parent cmp es lo cnt i \<longleftrightarrow> (lo \<le> i div 2 \<longrightarrow> (\<forall>c. c div 2 = i \<and> c \<le> cnt \<longrightarrow> cmp (at1 es c) (at1 es (i div 2)) \<le> 0))"

lemma strcmp_like_flip: "strcmp_like cmp \<Longrightarrow> cmp x y > 0 \<Longrightarrow> cmp y x \<le> 0"
  unfolding strcmp_like_def by (metis less_imp_le)

lemma strcmp_like_refl: "strcmp_like cmp \<Longrightarrow> cmp x x \<le> 0"
  unfolding strcmp_like_def by (metis linorder_not_le order_less_asym)

lemma strcmp_like_trans: "strcmp_like cmp \<Longrightarrow> cmp x y \<le> 0 \<Longrightarrow> cmp y z \<le> 0 \<Longrightarrow> cmp x z \<le> 0"
  unfolding strcmp_like_def by blast

lemma larger_block:
  assumes "strcmp_like cmp" and "blocks_of sz es" and "1 \<le> m" "m \<le> cnt" "1 \<le> c" "cnt \<le> length es"
  obtains m' where "larger cmp (concat es) cnt sz c m = Some m'" "m' = m \<or> m' = c" "m' \<le> cnt"
    "cmp (at1 es m) (at1 es m') \<le> 0" "c \<le> cnt \<longrightarrow> cmp (at1 es c) (at1 es m') \<le> 0"
  using that [of m] that [of c] assms strcmp_like_flip [OF assms(1)] strcmp_like_refl [OF assms(1)]
    do_compare_block [OF assms(2), of c m cmp]
  by (cases "c \<le> cnt"; cases "cmp (at1 es c) (at1 es m) > 0") (simp_all add: larger_def)

text \<open>The index that \<^verbatim>\<open>heapify\<close> picks.\<close>

lemma pick_max:
  assumes "strcmp_like cmp" and "blocks_of sz es" and "1 \<le> i" "i \<le> cnt" "cnt \<le> length es" "cnt < 2 ^ 31"
  obtains m where "(larger cmp (concat es) cnt sz (wrap32 (2 * i)) i \<bind> larger cmp (concat es) cnt sz (wrap32 (2 * i + 1))) = Some m"
    "m = i \<or> m div 2 = i" "m \<le> cnt" "cmp (at1 es i) (at1 es m) \<le> 0"
    "\<And>c. c div 2 = i \<Longrightarrow> c \<le> cnt \<Longrightarrow> cmp (at1 es c) (at1 es m) \<le> 0"
proof -
  have w: "wrap32 (2 * i) = 2 * i" "wrap32 (2 * i + 1) = 2 * i + 1" using assms(4,6) by simp_all
  have l: "1 \<le> 2 * i" "1 \<le> 2 * i + 1" using assms(3) by simp_all
  obtain m1 where m1: "larger cmp (concat es) cnt sz (2 * i) i = Some m1" "m1 = i \<or> m1 = 2 * i" "m1 \<le> cnt"
    "cmp (at1 es i) (at1 es m1) \<le> 0" "2 * i \<le> cnt \<longrightarrow> cmp (at1 es (2 * i)) (at1 es m1) \<le> 0"
    using larger_block [OF assms(1-4) l(1) assms(5)] .
  then have "1 \<le> m1" using assms(3) by auto
  then obtain m where m: "larger cmp (concat es) cnt sz (2 * i + 1) m1 = Some m" "m = m1 \<or> m = 2 * i + 1" "m \<le> cnt"
    "cmp (at1 es m1) (at1 es m) \<le> 0" "2 * i + 1 \<le> cnt \<longrightarrow> cmp (at1 es (2 * i + 1)) (at1 es m) \<le> 0"
    using larger_block [OF assms(1,2) _ m1(3) l(2) assms(5)] by blast
  have "cmp (at1 es c) (at1 es m) \<le> 0" if "c div 2 = i" "c \<le> cnt" for c
  proof -
    have "c = 2 * i \<or> c = 2 * i + 1" using that(1) by linarith
    then show ?thesis using m1(5) m(4,5) that(2) strcmp_like_trans [OF assms(1)] by blast
  qed
  moreover have "m = i \<or> m div 2 = i" using m(2) m1(2) by auto
  ultimately show ?thesis
    using that [of m] m m1 w strcmp_like_trans [OF assms(1) m1(4) m(4)] by simp
qed

lemma at1_swap:
  assumes "1 \<le> a" "a \<le> length es" "1 \<le> b" "b \<le> length es" "1 \<le> k" "k \<le> length es"
  shows "at1 (swap1 es a b) k = (if k = b then at1 es a else if k = a then at1 es b else at1 es k)"
  using assms by (auto simp: nth_list_update)

lemma heap_swap:
  assumes cmp: "strcmp_like cmp" and i: "1 \<le> lo" "lo \<le> i" "m div 2 = i" "m \<le> cnt" "cnt \<le> length es"
    and h: "heap_but cmp es lo cnt i" "below_parent cmp es lo cnt i"
    and m: "cmp (at1 es i) (at1 es m) \<le> 0" "\<And>c. c div 2 = i \<Longrightarrow> c \<le> cnt \<Longrightarrow> cmp (at1 es c) (at1 es m) \<le> 0"
  shows "heap_but cmp (swap1 es i m) lo cnt m" and "below_parent cmp (swap1 es i m) lo cnt m"
proof -
  have im: "1 \<le> i" "i < m" "i \<le> length es" "m \<le> length es" "1 \<le> m" using i by auto
  note sw = at1_swap [of i es m, OF im(1,3,5,4)]
  show "heap_but cmp (swap1 es i m) lo cnt m"
    unfolding heap_but_def
  proof (intro allI impI, elim conjE)
    fix j c assume j: "lo \<le> j" "j \<noteq> m" "c div 2 = j" "c \<le> cnt"
    have jc: "1 \<le> j" "j \<le> length es" "1 \<le> c" "c \<le> length es" "j < c" using i j by auto
    consider "j = i" | "j \<noteq> i" "c = i" | "j \<noteq> i" "c \<noteq> i" by blast
    then show "cmp (at1 (swap1 es i m) c) (at1 (swap1 es i m) j) \<le> 0"
    proof cases
      case 1
      then have "cmp (at1 es c) (at1 es m) \<le> 0" using m(2) j(3,4) by blast
      then show ?thesis using 1 j(2) sw [OF jc(1,2)] sw [OF jc(3,4)] m(1) jc(5) by simp
    next
      case 2
      then have "cmp (at1 es m) (at1 es j) \<le> 0" using h(2) i j unfolding below_parent_def by blast
      then show ?thesis using 2 j(2) sw [OF jc(1,2)] sw [OF jc(3,4)] im by simp
    next
      case 3
      then have "c \<noteq> m" using i(3) j(3) by auto
      moreover have "cmp (at1 es c) (at1 es j) \<le> 0" using h(1) 3 j unfolding heap_but_def by blast
      ultimately show ?thesis using 3 j(2) sw [OF jc(1,2)] sw [OF jc(3,4)] by simp
    qed
  qed
  show "below_parent cmp (swap1 es i m) lo cnt m"
    unfolding below_parent_def
  proof (intro impI allI, elim conjE)
    fix c assume c: "c div 2 = m" "c \<le> cnt"
    then have mc: "m < c" "1 \<le> c" "c \<le> length es" using im i by auto
    moreover have "lo \<le> m" "m \<noteq> i" using im i by simp_all
    then have "cmp (at1 es c) (at1 es m) \<le> 0" using h(1) c unfolding heap_but_def by blast
    ultimately show "cmp (at1 (swap1 es i m) c) (at1 (swap1 es i m) (m div 2)) \<le> 0"
      using sw [OF mc(2,3)] sw [OF im(1,3)] im i(3) by simp
  qed
qed

lemma heapify_ok:
  assumes cmp: "strcmp_like cmp" and cnt: "cnt < 2 ^ 31" and lo: "1 \<le> lo"
    and "blocks_of sz es" "lo \<le> i" "i \<le> cnt" "cnt \<le> length es" "heap_but cmp es lo cnt i" "below_parent cmp es lo cnt i"
  shows "\<exists>es'. heapify cmp (concat es) i cnt sz = Some (concat es') \<and> mset es' = mset es \<and> blocks_of sz es' \<and>
    drop cnt es' = drop cnt es \<and> heap_but cmp es' lo cnt 0"
  using assms(4-)
proof (induction "cnt - i" arbitrary: es i rule: less_induct)
  case less
  have i: "1 \<le> i" using lo less.prems(2) by simp
  obtain m where m: "(larger cmp (concat es) cnt sz (wrap32 (2 * i)) i \<bind> larger cmp (concat es) cnt sz (wrap32 (2 * i + 1))) = Some m"
    "m = i \<or> m div 2 = i" "m \<le> cnt" "cmp (at1 es i) (at1 es m) \<le> 0"
    "\<And>c. c div 2 = i \<Longrightarrow> c \<le> cnt \<Longrightarrow> cmp (at1 es c) (at1 es m) \<le> 0"
    using pick_max [OF cmp less.prems(1) i less.prems(3,4) cnt] by blast
  have run: "heapify cmp (concat es) i cnt sz =
      (if m = i then Some (concat es) else do_swap (concat es) i m sz \<bind> (\<lambda>arr. heapify cmp arr m cnt sz))"
    using m(1) by (subst heapify.simps) (simp add: Let_def bind_assoc [symmetric] del: bind_assoc)
  show ?case
  proof (cases "m = i")
    case True
    then have "heap_but cmp es lo cnt 0" using less.prems(5) m(5) by (auto simp: heap_but_def)
    then show ?thesis using run True less.prems(1) by auto
  next
    case False
    then have mi: "m div 2 = i" using m(2) by simp
    have im: "i < m" "1 \<le> m" "i \<le> length es" "m \<le> length es" using mi i m(3) less.prems(4) by auto
    let ?es = "swap1 es i m"
    have b: "blocks_of sz ?es" using blocks_of_swap [OF less.prems(1)] i im by simp
    have h: "cnt - m < cnt - i" "lo \<le> m" "cnt \<le> length ?es" using im m(3) less.prems(2,4) by simp_all
    obtain es' where es': "heapify cmp (concat ?es) m cnt sz = Some (concat es')" "mset es' = mset ?es" "blocks_of sz es'"
      "drop cnt es' = drop cnt ?es" "heap_but cmp es' lo cnt 0"
      using less.hyps [OF h(1) b h(2) m(3) h(3) heap_swap [OF cmp lo less.prems(2) mi m(3) less.prems(4-6) m(4,5)]] by blast
    have "do_swap (concat es) i m sz = Some (concat ?es)"
      using do_swap_block [OF less.prems(1) i im(3,2,4)] im(1) by simp
    moreover have "mset ?es = mset es" using i im by (intro mset_swap) simp_all
    moreover have "drop cnt ?es = drop cnt es" using i im m(3) by (simp add: drop_update_cancel)
    ultimately show ?thesis using run False es' by auto
  qed
qed

section \<open>Sorting\<close>

lemma build_heap_ok:
  assumes "strcmp_like cmp" and "cnt < 2 ^ 31" and "blocks_of sz es" and "k \<le> cnt div 2" and "length es = cnt"
    and "heap_but cmp es (Suc k) cnt 0"
  shows "\<exists>es'. build_heap cmp (concat es) k cnt sz = Some (concat es') \<and> mset es' = mset es \<and> blocks_of sz es' \<and>
    heap_but cmp es' 1 cnt 0"
  using assms(3-)
proof (induction k arbitrary: es)
  case 0
  then show ?case by auto
next
  case (Suc k)
  have h: "heap_but cmp es (Suc k) cnt (Suc k)" "below_parent cmp es (Suc k) cnt (Suc k)"
    using Suc.prems(4) by (auto simp: heap_but_def below_parent_def)
  have k: "1 \<le> Suc k" "Suc k \<le> cnt" "cnt \<le> length es" using Suc.prems(2,3) by auto
  obtain es1 where es1: "heapify cmp (concat es) (Suc k) cnt sz = Some (concat es1)" "mset es1 = mset es" "blocks_of sz es1"
    "heap_but cmp es1 (Suc k) cnt 0"
    using heapify_ok [OF assms(1,2) k(1) Suc.prems(1) order_refl k(2,3) h] by blast
  moreover have "k \<le> cnt div 2" "length es1 = cnt" using Suc.prems(2,3) mset_eq_length [OF es1(2)] by simp_all
  ultimately obtain es' where "build_heap cmp (concat es1) k cnt sz = Some (concat es')" "mset es' = mset es1" "blocks_of sz es'"
    "heap_but cmp es' 1 cnt 0"
    using Suc.IH [of es1] by blast
  then show ?case using es1 by auto
qed

lemma heap_root_max:
  assumes cmp: "strcmp_like cmp" and h: "heap_but cmp es 1 cnt 0" and "1 \<le> j" "j \<le> cnt"
  shows "cmp (at1 es j) (at1 es 1) \<le> 0"
  using assms(3,4)
proof (induction j rule: less_induct)
  case (less j)
  show ?case
  proof (cases "j = 1")
    case False
    then have "1 \<le> j div 2" "j div 2 < j" "j div 2 \<le> cnt" using less.prems by auto
    moreover have "cmp (at1 es j) (at1 es (j div 2)) \<le> 0" using h less.prems calculation(1) unfolding heap_but_def by auto
    ultimately show ?thesis using less.IH strcmp_like_trans [OF cmp] by blast
  qed (simp add: strcmp_like_refl [OF cmp])
qed

definition le_by :: "compare_func \<Rightarrow> u8 list \<Rightarrow> u8 list \<Rightarrow> bool" where
  "le_by cmp x y \<longleftrightarrow> cmp x y \<le> 0"

lemma set_take_mset:
  assumes "mset xs = mset ys" and "drop n xs = drop n ys"
  shows "set (take n xs) = set (take n ys)"
proof -
  have "mset (take n xs) + mset (drop n xs) = mset (take n ys) + mset (drop n ys)"
    using assms(1) by (simp flip: mset_append)
  then have "mset (take n xs) = mset (take n ys)" using assms(2) by simp
  then show ?thesis by (metis set_mset_mset)
qed

text \<open>One round: the root goes behind the heap, the rest becomes a heap again.\<close>

lemma sort_heap_round:
  assumes cmp: "strcmp_like cmp" and es: "blocks_of sz es" "Suc i \<le> length es" "length es < 2 ^ 31" "1 \<le> i"
    and h: "heap_but cmp es 1 (Suc i) 0"
  obtains es2 where "(do_swap (concat es) 1 (Suc i) sz \<bind> (\<lambda>arr. heapify cmp arr 1 i sz)) = Some (concat es2)"
    "mset es2 = mset es" "blocks_of sz es2" "drop i es2 = es ! 0 # drop (Suc i) es" "heap_but cmp es2 1 i 0"
    "set (take i es2) \<subseteq> set (take (Suc i) es)"
proof -
  let ?es = "swap1 es 1 (Suc i)"
  have ne: "1 \<le> length es" "1 \<noteq> Suc i" using es by simp_all
  have sw: "do_swap (concat es) 1 (Suc i) sz = Some (concat ?es)"
    using do_swap_block [OF es(1) order_refl ne(1) _ es(2) ne(2)] by simp
  have b: "blocks_of sz ?es" using blocks_of_swap [OF es(1), of 0 i] es ne(1) by (cases es) simp_all
  have dr: "drop i ?es = es ! 0 # drop (Suc i) es"
    using es(2,4) by (auto simp: list_eq_iff_nth_eq nth_Cons nth_list_update split: nat.splits)
  have "heap_but cmp ?es 1 i 1"
    unfolding heap_but_def
  proof (intro allI impI, elim conjE)
    fix j c assume j: "1 \<le> j" "j \<noteq> 1" "c div 2 = j" "c \<le> i"
    then have "at1 ?es c = at1 es c" "at1 ?es j = at1 es j"
      using es(2) at1_swap [of 1 es "Suc i" c] at1_swap [of 1 es "Suc i" j] by auto
    moreover have "cmp (at1 es c) (at1 es j) \<le> 0" using h j unfolding heap_but_def by auto
    ultimately show "cmp (at1 ?es c) (at1 ?es j) \<le> 0" by simp
  qed
  moreover have "below_parent cmp ?es 1 i 1" by (simp add: below_parent_def)
  moreover have "i < 2 ^ 31" "i \<le> length ?es" using es by simp_all
  ultimately obtain es2 where es2: "heapify cmp (concat ?es) 1 i sz = Some (concat es2)" "mset es2 = mset ?es"
    "blocks_of sz es2" "drop i es2 = drop i ?es" "heap_but cmp es2 1 i 0"
    using heapify_ok [OF cmp _ order_refl b order_refl es(4)] by blast
  have ms: "mset ?es = mset es" using es(2) by (intro mset_swap) auto
  have "set (take i es2) = set (take i ?es)" using set_take_mset [OF es2(2,4)] .
  also have "take i ?es = (take i es)[0 := es ! i]" by (simp add: take_update_swap list_update_beyond)
  also have "set \<dots> \<subseteq> insert (es ! i) (set (take i es))" by (rule set_update_subset_insert)
  also have "\<dots> \<subseteq> set (take (Suc i) es)" using es(2) by (simp add: take_Suc_conv_app_nth)
  finally show ?thesis using that [of es2] sw es2 ms dr by simp
qed

lemma sort_heap_ok:
  assumes cmp: "strcmp_like cmp" and "blocks_of sz es" "n \<le> length es" "length es < 2 ^ 31" "heap_but cmp es 1 n 0"
    and "sorted_wrt (le_by cmp) (drop n es)" and "\<forall>x \<in> set (take n es). \<forall>y \<in> set (drop n es). le_by cmp x y"
  shows "\<exists>es'. sort_heap cmp (concat es) n sz = Some (concat es') \<and> mset es' = mset es \<and> sorted_wrt (le_by cmp) es'"
  using assms(2-)
proof (induction n arbitrary: es)
  case 0
  then show ?case by auto
next
  case (Suc i)
  show ?case
  proof (cases "i = 0")
    case True
    then obtain x ys where "es = x # ys" using Suc.prems(2) by (cases es) auto
    then show ?thesis using True Suc.prems(5,6) by (rule_tac exI [of _ es]) simp
  next
    case False
    then have "1 \<le> i" by simp
    then obtain es2 where es2: "(do_swap (concat es) 1 (Suc i) sz \<bind> (\<lambda>arr. heapify cmp arr 1 i sz)) = Some (concat es2)"
      "mset es2 = mset es" "blocks_of sz es2" "drop i es2 = es ! 0 # drop (Suc i) es" "heap_but cmp es2 1 i 0"
      "set (take i es2) \<subseteq> set (take (Suc i) es)"
      using sort_heap_round [OF cmp Suc.prems(1-3) _ Suc.prems(4)] by blast
    have root: "le_by cmp x (es ! 0)" if x: "x \<in> set (take (Suc i) es)" for x
    proof -
      obtain j where "j < length (take (Suc i) es)" "take (Suc i) es ! j = x" using x unfolding in_set_conv_nth by blast
      then have "j < Suc i" "x = es ! j" by simp_all
      then show ?thesis using heap_root_max [OF cmp Suc.prems(4), of "Suc j"] by (simp add: le_by_def)
    qed
    have "es ! 0 \<in> set (take (Suc i) es)" using Suc.prems(2) by (cases es) auto
    then have srt: "sorted_wrt (le_by cmp) (drop i es2)" using es2(4) Suc.prems(5,6) by simp
    moreover have "\<forall>x \<in> set (take i es2). \<forall>y \<in> set (drop i es2). le_by cmp x y"
      unfolding es2(4) using es2(6) root Suc.prems(6) by auto
    moreover have "i \<le> length es2" "length es2 < 2 ^ 31" using mset_eq_length [OF es2(2)] Suc.prems(2,3) by simp_all
    ultimately obtain es' where "sort_heap cmp (concat es2) i sz = Some (concat es')" "mset es' = mset es2" "sorted_wrt (le_by cmp) es'"
      using Suc.IH [OF es2(3) _ _ es2(5)] by blast
    moreover have "sort_heap cmp (concat es) (Suc i) sz = sort_heap cmp (concat es2) i sz"
      using es2(1) False by (auto simp: bind_eq_Some_conv)
    ultimately show ?thesis using es2(2) by auto
  qed
qed

section \<open>Searching\<close>

lemma strcmp_like_mono:
  assumes "strcmp_like cmp" and "cmp x y \<le> 0"
  shows "cmp key x < 0 \<Longrightarrow> cmp key y < 0" and "cmp key y > 0 \<Longrightarrow> cmp key x > 0"
  using assms unfolding strcmp_like_def by (metis linorder_not_le)+

lemma binary_search_loop_ok:
  assumes cmp: "strcmp_like cmp" and es: "blocks_of sz es" "0 < sz" "sorted_wrt (le_by cmp) es"
    and "f \<le> l" and "l \<le> length es"
  shows "\<exists>r. binary_search_loop cmp key (concat es) sz (f * sz) (l * sz) = Some r \<and>
    (case r of Some ofs \<Rightarrow> (\<exists>k. f \<le> k \<and> k < l \<and> ofs = k * sz \<and> cmp key (es ! k) = 0)
     | None \<Rightarrow> (\<forall>k. f \<le> k \<and> k < l \<longrightarrow> cmp key (es ! k) \<noteq> 0))"
  using assms(5,6)
proof (induction "l - f" arbitrary: f l rule: less_induct)
  case less
  show ?case
  proof (cases "f < l")
    case False
    then show ?thesis using less.prems by (simp add: binary_search_loop.simps)
  next
    case True
    define m where "m = f + (l - f) div 2"
    have m: "f \<le> m" "m < l" "m < length es" using True less.prems(2) by (auto simp: m_def)
    have r: "(l * sz - f * sz) div sz = l - f" using es(2) by (simp flip: diff_mult_distrib)
    have mid: "f * sz + (l - f) div 2 * sz = m * sz" by (simp add: m_def algebra_simps)
    have run: "binary_search_loop cmp key (concat es) sz (f * sz) (l * sz) =
        (if cmp key (es ! m) < 0 then binary_search_loop cmp key (concat es) sz (f * sz) (m * sz)
         else if cmp key (es ! m) > 0 then binary_search_loop cmp key (concat es) sz (Suc m * sz) (l * sz)
         else Some (Some (m * sz)))"
      using True es(2) elem_at_block [OF es(1) m(3)]
      by (subst binary_search_loop.simps) (simp add: r mid Let_def add.commute)
    have h: "m - f < l - f" "l - Suc m < l - f" using m True by auto
    have ord: "cmp (es ! i) (es ! j) \<le> 0" if "i < j" "j < l" for i j
      using es(3) that less.prems(2) by (simp add: sorted_wrt_iff_nth_less le_by_def)
    consider (lo) "cmp key (es ! m) < 0" | (hi) "cmp key (es ! m) > 0" | (eq) "cmp key (es ! m) = 0" by linarith
    then show ?thesis
    proof cases
      case lo
      then have gt: "cmp key (es ! k) \<noteq> 0" if "m \<le> k" "k < l" for k
        using strcmp_like_mono(1) [OF cmp ord [of m k], of key] that by (cases "k = m") auto
      obtain r where r: "binary_search_loop cmp key (concat es) sz (f * sz) (m * sz) = Some r"
        "case r of Some ofs \<Rightarrow> (\<exists>k. f \<le> k \<and> k < m \<and> ofs = k * sz \<and> cmp key (es ! k) = 0)
         | None \<Rightarrow> (\<forall>k. f \<le> k \<and> k < m \<longrightarrow> cmp key (es ! k) \<noteq> 0)"
        using less.hyps [OF _ m(1)] h(1) m(3) by (meson less_imp_le)
      then show ?thesis using run lo gt m(2) by (rule_tac exI [of _ r]) (auto split: option.splits, metis not_le)
    next
      case hi
      then have lt: "cmp key (es ! k) \<noteq> 0" if "k \<le> m" for k
        using strcmp_like_mono(2) [OF cmp ord [of k m], of key] that m(2) by (cases "k = m") auto
      obtain r where r: "binary_search_loop cmp key (concat es) sz (Suc m * sz) (l * sz) = Some r"
        "case r of Some ofs \<Rightarrow> (\<exists>k. Suc m \<le> k \<and> k < l \<and> ofs = k * sz \<and> cmp key (es ! k) = 0)
         | None \<Rightarrow> (\<forall>k. Suc m \<le> k \<and> k < l \<longrightarrow> cmp key (es ! k) \<noteq> 0)"
        using less.hyps [OF h(2) _ less.prems(2)] m(2) by (meson Suc_leI)
      have "case r of Some ofs \<Rightarrow> (\<exists>k. f \<le> k \<and> k < l \<and> ofs = k * sz \<and> cmp key (es ! k) = 0)
         | None \<Rightarrow> (\<forall>k. f \<le> k \<and> k < l \<longrightarrow> cmp key (es ! k) \<noteq> 0)"
      proof (cases r)
        case None
        then show ?thesis using r(2) lt by (simp add: Suc_le_eq) (meson not_le)
      next
        case (Some ofs)
        then obtain k where "Suc m \<le> k" "k < l" "ofs = k * sz" "cmp key (es ! k) = 0" using r(2) by auto
        then show ?thesis using Some m(1) by (simp, rule_tac exI [of _ k]) simp
      qed
      then show ?thesis using run hi r(1) by simp
    next
      case eq
      then show ?thesis using run m by auto
    qed
  qed
qed

section \<open>Properties\<close>

text \<open>C31. Heap sort: for a comparison with a \<^verbatim>\<open>strcmp\<close>-type result and an array of fewer than \<open>2 ^ 31\<close>
  elements of any size, \<^verbatim>\<open>sort\<close> returns and leaves the array holding a permutation of its elements, in
  ascending order.\<close>

theorem heap_sort_correct:
  assumes "strcmp_like cmp" and "\<forall>e \<in> set es. length e = sz" and "0 < sz" and "length es < 2 ^ 31"
  shows "\<exists>es'. heap_sort cmp (concat es) (length es) sz = Some (concat es') \<and> mset es' = mset es \<and>
    sorted_wrt (\<lambda>x y. cmp x y \<le> 0) es'"
proof -
  have b: "blocks_of sz es" using assms(2) by (simp add: blocks_of_def)
  have "heap_but cmp es (Suc (length es div 2)) (length es) 0" by (auto simp: heap_but_def)
  then obtain es1 where es1: "build_heap cmp (concat es) (length es div 2) (length es) sz = Some (concat es1)"
    "mset es1 = mset es" "blocks_of sz es1" "heap_but cmp es1 1 (length es) 0"
    using build_heap_ok [OF assms(1,4) b order_refl refl] by blast
  have len: "length es1 = length es" using mset_eq_length [OF es1(2)] .
  then obtain es' where "sort_heap cmp (concat es1) (length es) sz = Some (concat es')" "mset es' = mset es1"
    "sorted_wrt (le_by cmp) es'"
    using sort_heap_ok [OF assms(1) es1(3) _ _ es1(4)] assms(4) by auto
  moreover have "le_by cmp = (\<lambda>x y. cmp x y \<le> 0)" by (simp add: fun_eq_iff le_by_def)
  ultimately show ?thesis using es1 assms(3) by (rule_tac exI [of _ es']) (simp add: heap_sort_def)
qed

definition cmp_first :: compare_func where
  "cmp_first x y = uint (hd x) - uint (hd y)"

theorem heap_sort_correct_witness:
  "\<exists>es'. heap_sort cmp_first (concat [[3, 1], [1, 2], [2, 3]]) (length [[3, 1 :: u8], [1, 2], [2, 3]]) 2 = Some (concat es') \<and>
    mset es' = mset [[3, 1], [1, 2], [2, 3]] \<and> sorted_wrt (\<lambda>x y. cmp_first x y \<le> 0) es'"
  by (rule heap_sort_correct) (auto simp: strcmp_like_def cmp_first_def)

text \<open>C32. Binary search in an array sorted by a \<^verbatim>\<open>strcmp\<close>-type comparison returns: the position of an
  element that compares equal to the key, or null when no element of the array does.\<close>

theorem binary_search_correct:
  assumes "strcmp_like cmp" and "\<forall>e \<in> set es. length e = sz" and "0 < sz" and "sorted_wrt (\<lambda>x y. cmp x y \<le> 0) es"
  shows "(\<exists>k < length es. bsearch cmp key (concat es) (length es) sz = Some (Some (k * sz)) \<and> cmp key (es ! k) = 0) \<or>
    (bsearch cmp key (concat es) (length es) sz = Some None \<and> (\<forall>e \<in> set es. cmp key e \<noteq> 0))"
proof -
  have s: "sorted_wrt (le_by cmp) es" using assms(4) by (simp add: le_by_def sorted_wrt_iff_nth_less)
  have b: "blocks_of sz es" using assms(2) by (simp add: blocks_of_def)
  obtain r where r: "binary_search_loop cmp key (concat es) sz (0 * sz) (length es * sz) = Some r"
    "case r of Some ofs \<Rightarrow> (\<exists>k. 0 \<le> k \<and> k < length es \<and> ofs = k * sz \<and> cmp key (es ! k) = 0)
     | None \<Rightarrow> (\<forall>k. 0 \<le> k \<and> k < length es \<longrightarrow> cmp key (es ! k) \<noteq> 0)"
    using binary_search_loop_ok [OF assms(1) b assms(3) s le0 order_refl] by blast
  then have "bsearch cmp key (concat es) (length es) sz = Some r" by (simp add: bsearch_def binary_search_def mult.commute)
  then show ?thesis using r(2) by (auto simp: in_set_conv_nth split: option.splits)
qed

theorem binary_search_correct_witness:
  "(\<exists>k < length [[1], [4 :: u8]]. bsearch cmp_first [4] (concat [[1], [4]]) (length [[1], [4 :: u8]]) 1 = Some (Some (k * 1)) \<and>
      cmp_first [4] ([[1], [4]] ! k) = 0) \<or>
    (bsearch cmp_first [4] (concat [[1], [4]]) (length [[1], [4 :: u8]]) 1 = Some None \<and> (\<forall>e \<in> set [[1], [4]]. cmp_first [4] e \<noteq> 0))"
  by (rule binary_search_correct) (auto simp: strcmp_like_def cmp_first_def)

end
