(* ===== verification/Rc4.thy ===== *)
theory Rc4
  imports Bytes
begin

text \<open>The RC4 pseudo-random generator of lib/random.c.  Its static variables are a record.\<close>

record rc4 =
  rc4_s :: "u8 list"
  s_i :: u8
  s_j :: u8
  inited :: bool

definition swap_byte :: "u8 list \<Rightarrow> u8 \<Rightarrow> u8 \<Rightarrow> u8 list option" where
  "swap_byte s a b = do {
     t \<leftarrow> aread s (unat a);
     u \<leftarrow> aread s (unat b);
     s \<leftarrow> awrite s (unat a) u;
     awrite s (unat b) t
   }"

text \<open>The second loop of \<^verbatim>\<open>random_init\<close>, over the indices left.\<close>

primrec rc4_schedule :: "u8 list \<Rightarrow> nat list \<Rightarrow> u8 \<Rightarrow> u8 list \<Rightarrow> u8 list option" where
  "rc4_schedule seedp [] j s = Some s"
| "rc4_schedule seedp (i # is) j s = do {
     x \<leftarrow> aread s i;
     k \<leftarrow> aread seedp (i mod 4);
     let j = j + (x + k);
     s \<leftarrow> swap_byte s (of_nat i) j;
     rc4_schedule seedp is j s
   }"

definition random_init :: "u32 \<Rightarrow> rc4 option" where
  "random_init seed = do {
     s \<leftarrow> rc4_schedule (u32_bytes seed) [0..<256] 0 (map of_nat [0..<256]);
     Some \<lparr>rc4_s = s, s_i = 0, s_j = 0, inited = True\<rparr>
   }"

primrec random_bytes_loop :: "nat \<Rightarrow> rc4 \<Rightarrow> (u8 list \<times> rc4) option" where
  "random_bytes_loop 0 r = Some ([], r)"
| "random_bytes_loop (Suc sz) r = do {
     let i = s_i r + 1;
     x \<leftarrow> aread (rc4_s r) (unat i);
     let j = s_j r + x;
     s \<leftarrow> swap_byte (rc4_s r) i j;
     a \<leftarrow> aread s (unat i);
     b \<leftarrow> aread s (unat j);
     let s_k = a + b;
     v \<leftarrow> aread s (unat s_k);
     (bs, r) \<leftarrow> random_bytes_loop sz (r\<lparr>rc4_s := s, s_i := i, s_j := j\<rparr>);
     Some (v # bs, r)
   }"

definition random_bytes :: "nat \<Rightarrow> rc4 \<Rightarrow> (u8 list \<times> rc4) option" where
  "random_bytes sz r = do {
     r \<leftarrow> (if \<not> inited r then random_init 0 else Some r);
     random_bytes_loop sz r
   }"

definition random_ulong :: "rc4 \<Rightarrow> (u32 \<times> rc4) option" where
  "random_ulong r = do { (bs, r) \<leftarrow> random_bytes 4 r; Some (bytes_u32 bs, r) }"

section \<open>The state is a permutation\<close>

definition is_perm :: "u8 list \<Rightarrow> bool" where
  "is_perm s \<longleftrightarrow> mset s = mset (map of_nat [0..<256])"

definition rc4_wf :: "rc4 \<Rightarrow> bool" where
  "rc4_wf r \<longleftrightarrow> (inited r \<longrightarrow> is_perm (rc4_s r))"

lemma is_perm_length: "is_perm s \<Longrightarrow> length s = 256"
  unfolding is_perm_def by (drule mset_eq_length) simp

lemma is_perm_set: "is_perm s \<Longrightarrow> distinct s \<and> set s = UNIV"
proof -
  assume "is_perm s"
  then have m: "mset s = mset (map of_nat [0..<256])" by (simp add: is_perm_def)
  have "inj_on (of_nat :: nat \<Rightarrow> u8) {0..<256}" by (rule inj_onI) (simp add: word_unat_eq_iff unat_of_nat)
  then have "distinct (map (of_nat :: nat \<Rightarrow> u8) [0..<256])" by (simp add: distinct_map)
  then have "distinct s" using m by (metis mset_eq_imp_distinct_iff)
  moreover have "x \<in> set s" for x
  proof -
    have "unat x < 256" using unsigned_less [of x, where ?'a = nat] by simp
    then have "x \<in> set (map of_nat [0..<256])" by (auto intro!: image_eqI [of _ _ "unat x"])
    then show ?thesis using m by (metis set_mset_mset)
  qed
  ultimately show ?thesis by auto
qed

lemma unat_u8 [simp]: "unat (x :: u8) < 256"
  using unsigned_less [of x, where ?'a = nat] by simp

lemma swap_byte_ok: "is_perm s \<Longrightarrow> \<exists>s'. swap_byte s a b = Some s' \<and> is_perm s'"
  using mset_swap [of "unat b" s "unat a"] is_perm_length [of s] by (simp add: swap_byte_def is_perm_def)

lemma rc4_schedule_ok:
  "\<forall>i \<in> set is. i < 256 \<Longrightarrow> length seedp = 4 \<Longrightarrow> is_perm s \<Longrightarrow> \<exists>s'. rc4_schedule seedp is j s = Some s' \<and> is_perm s'"
proof (induction "is" arbitrary: j s)
  case (Cons i "is")
  obtain s' where "swap_byte s (of_nat i) (j + (s ! i + seedp ! (i mod 4))) = Some s'" "is_perm s'"
    using swap_byte_ok [OF Cons.prems(3)] by blast
  then show ?case using Cons is_perm_length [OF Cons.prems(3)] by simp
qed simp

lemma random_init_ok: "\<exists>r. random_init seed = Some r \<and> rc4_wf r \<and> inited r"
proof -
  obtain s where "rc4_schedule (u32_bytes seed) [0..<256] 0 (map of_nat [0..<256]) = Some s" "is_perm s"
    using rc4_schedule_ok [of "[0..<256]" "u32_bytes seed" "map of_nat [0..<256]" 0] by (auto simp: is_perm_def)
  then show ?thesis by (simp add: random_init_def rc4_wf_def)
qed

lemma random_bytes_loop_ok:
  "rc4_wf r \<Longrightarrow> inited r \<Longrightarrow> \<exists>bs r'. random_bytes_loop n r = Some (bs, r') \<and> length bs = n \<and> rc4_wf r' \<and> inited r'"
proof (induction n arbitrary: r)
  case (Suc n)
  let ?i = "s_i r + 1"
  let ?j = "s_j r + rc4_s r ! unat ?i"
  have p: "is_perm (rc4_s r)" using Suc.prems by (simp add: rc4_wf_def)
  obtain s where s: "swap_byte (rc4_s r) ?i ?j = Some s" "is_perm s" using swap_byte_ok [OF p] by blast
  obtain bs r' where "random_bytes_loop n (r\<lparr>rc4_s := s, s_i := ?i, s_j := ?j\<rparr>) = Some (bs, r')"
    "length bs = n" "rc4_wf r'" "inited r'"
    using Suc.IH [of "r\<lparr>rc4_s := s, s_i := ?i, s_j := ?j\<rparr>"] s(2) Suc.prems by (auto simp: rc4_wf_def)
  then show ?case using s is_perm_length [OF p] is_perm_length [OF s(2)] by (simp add: Let_def)
qed simp

lemma random_bytes_ok:
  assumes "rc4_wf r"
  shows "\<exists>bs r'. random_bytes n r = Some (bs, r') \<and> length bs = n \<and> rc4_wf r' \<and> inited r'"
proof -
  obtain r0 where "random_init 0 = Some r0" "rc4_wf r0" "inited r0" using random_init_ok by blast
  then show ?thesis
    using random_bytes_loop_ok [of r n] random_bytes_loop_ok [of r0 n] assms by (cases "inited r") (simp_all add: random_bytes_def)
qed

text \<open>C37. The generator: from any state whose table, once initialised, is a permutation of the 256
  bytes, asking for \<open>n\<close> bytes never fails, returns exactly \<open>n\<close> of them and leaves an initialised table that
  is again a permutation.\<close>

theorem random_bytes_permutation:
  assumes "inited r \<longrightarrow> is_perm (rc4_s r)"
  shows "\<exists>bs r'. random_bytes n r = Some (bs, r') \<and> length bs = n \<and> inited r' \<and>
    distinct (rc4_s r') \<and> set (rc4_s r') = UNIV"
  using random_bytes_ok [of r n] assms is_perm_set unfolding rc4_wf_def by blast

theorem random_bytes_permutation_witness:
  "\<exists>bs r'. random_bytes 4 \<lparr>rc4_s = [], s_i = 0, s_j = 0, inited = False\<rparr> = Some (bs, r') \<and> length bs = 4 \<and> inited r' \<and>
    distinct (rc4_s r') \<and> set (rc4_s r') = UNIV"
  by (rule random_bytes_permutation) simp

end
