(* ===== verification/Hash.thy ===== *)
theory Hash
  imports List_Ordered Kstring Bytes
begin

unbundle bit_operations_syntax

text \<open>
  The chained hash table of lib/kernel/hash.c.

  A hash element is an address.  A bucket is a kernel list, given by the sequence of its elements as
  the theory \<open>Kernel_List\<close> justifies: \<^verbatim>\<open>list_push_front\<close> is \<open>(#)\<close> and \<^verbatim>\<open>list_remove\<close> takes the
  element out of the list that holds it.  \<open>hf\<close> is the table's hash function and \<open>lt\<close> its comparison,
  both with their auxiliary data; \<open>mem\<close> says whether the allocation of new buckets succeeds.
\<close>

section \<open>Data\<close>

type_synonym hash_hash_func = "ptr \<Rightarrow> u32"
type_synonym hash_less_func = "ptr \<Rightarrow> ptr \<Rightarrow> bool"

record hash =
  elem_cnt :: u32
  bucket_cnt :: u32
  buckets :: "ptr list list"

section \<open>Hash values\<close>

definition FNV_32_PRIME :: u32 where
  "FNV_32_PRIME = 16777619"

definition FNV_32_BASIS :: u32 where
  "FNV_32_BASIS = 2166136261"

primrec hash_bytes_loop :: "u8 list \<Rightarrow> u32 \<Rightarrow> u32" where
  "hash_bytes_loop [] h = h"
| "hash_bytes_loop (b # bs) h = hash_bytes_loop bs ((h * FNV_32_PRIME) XOR ucast b)"

definition hash_bytes :: "u8 list \<Rightarrow> u32" where
  "hash_bytes buf = hash_bytes_loop buf FNV_32_BASIS"

function hash_string_loop :: "memory \<Rightarrow> addr \<Rightarrow> u32 \<Rightarrow> u32 option" where
  "hash_string_loop m s h = do {
     x \<leftarrow> aread m s;
     if x \<noteq> 0 then hash_string_loop m (s + 1) ((h * FNV_32_PRIME) XOR ucast x) else Some h
   }"
  by pat_completeness auto
termination
  by (relation "measure (\<lambda>(m, p, h). length m - p)") (auto simp: panic_iff)

definition hash_string :: "memory \<Rightarrow> addr \<Rightarrow> u32 option" where
  "hash_string m s = do { ASSERT (s \<noteq> 0); hash_string_loop m s FNV_32_BASIS }"

definition hash_int :: "u32 \<Rightarrow> u32" where
  "hash_int i = hash_bytes (u32_bytes i)"

section \<open>Searching\<close>

definition bucket_idx :: "hash_hash_func \<Rightarrow> u32 \<Rightarrow> ptr \<Rightarrow> nat" where
  "bucket_idx hf cnt e = unat (hf e AND (cnt - 1))"

text \<open>\<^verbatim>\<open>find_bucket\<close>: the index of the bucket.\<close>

definition find_bucket :: "hash_hash_func \<Rightarrow> hash \<Rightarrow> ptr \<Rightarrow> nat" where
  "find_bucket hf h e = bucket_idx hf (bucket_cnt h) e"

primrec find_elem :: "hash_less_func \<Rightarrow> ptr list \<Rightarrow> ptr \<Rightarrow> ptr" where
  "find_elem lt [] e = NULL"
| "find_elem lt (hi # is) e = (if \<not> lt hi e \<and> \<not> lt e hi then hi else find_elem lt is e)"

section \<open>Insertion and removal\<close>

definition insert_elem :: "hash \<Rightarrow> nat \<Rightarrow> ptr \<Rightarrow> hash option" where
  "insert_elem h bucket e = do {
     b \<leftarrow> aread (buckets h) bucket;
     bs \<leftarrow> awrite (buckets h) bucket (e # b);
     Some (h\<lparr>elem_cnt := elem_cnt h + 1, buckets := bs\<rparr>)
   }"

definition remove_elem :: "hash \<Rightarrow> ptr \<Rightarrow> hash" where
  "remove_elem h e = h\<lparr>elem_cnt := elem_cnt h - 1, buckets := map (remove1 e) (buckets h)\<rparr>"

section \<open>Rehashing\<close>

definition turn_off_least_1bit :: "u32 \<Rightarrow> u32" where
  "turn_off_least_1bit x = x AND (x - 1)"

definition is_power_of_2 :: "u32 \<Rightarrow> bool" where
  "is_power_of_2 x \<longleftrightarrow> x \<noteq> 0 \<and> turn_off_least_1bit x = 0"

definition BEST_ELEMS_PER_BUCKET :: u32 where
  "BEST_ELEMS_PER_BUCKET = 2"

partial_function (option) round_to_power :: "u32 \<Rightarrow> u32 option" where
  "round_to_power n = (if \<not> is_power_of_2 n then round_to_power (turn_off_least_1bit n) else Some n)"

text \<open>One element moves to the front of its new bucket.\<close>

definition move_elem :: "hash_hash_func \<Rightarrow> u32 \<Rightarrow> ptr \<Rightarrow> ptr list list \<Rightarrow> ptr list list option" where
  "move_elem hf cnt e bs = do {
     b \<leftarrow> aread bs (bucket_idx hf cnt e);
     awrite bs (bucket_idx hf cnt e) (e # b)
   }"

primrec move_elems :: "hash_hash_func \<Rightarrow> u32 \<Rightarrow> ptr list \<Rightarrow> ptr list list \<Rightarrow> ptr list list option" where
  "move_elems hf cnt [] bs = Some bs"
| "move_elems hf cnt (e # es) bs = do { bs \<leftarrow> move_elem hf cnt e bs; move_elems hf cnt es bs }"

primrec move_buckets :: "hash_hash_func \<Rightarrow> u32 \<Rightarrow> ptr list list \<Rightarrow> ptr list list \<Rightarrow> ptr list list option" where
  "move_buckets hf cnt [] bs = Some bs"
| "move_buckets hf cnt (old # olds) bs = do { bs \<leftarrow> move_elems hf cnt old bs; move_buckets hf cnt olds bs }"

definition rehash :: "bool \<Rightarrow> hash_hash_func \<Rightarrow> hash \<Rightarrow> hash option" where
  "rehash mem hf h = do {
     let n = elem_cnt h div BEST_ELEMS_PER_BUCKET;
     let n = (if n < 4 then 4 else n);
     n \<leftarrow> round_to_power n;
     if n = bucket_cnt h then Some h
     else if \<not> mem then Some h
     else do {
       bs \<leftarrow> move_buckets hf n (buckets h) (replicate (unat n) []);
       Some (h\<lparr>bucket_cnt := n, buckets := bs\<rparr>)
     }
   }"

section \<open>The interface\<close>

text \<open>\<^verbatim>\<open>hash_clear\<close> also returns the elements the destructor was called for, in that order.\<close>

definition hash_clear :: "bool \<Rightarrow> hash \<Rightarrow> ptr list \<times> hash" where
  "hash_clear destructor h =
     (if destructor then concat (buckets h) else [],
      h\<lparr>elem_cnt := 0, buckets := map (\<lambda>_. []) (buckets h)\<rparr>)"

definition hash_init :: "bool \<Rightarrow> bool \<times> hash" where
  "hash_init mem = (
     let h = \<lparr>elem_cnt = 0, bucket_cnt = 4, buckets = (if mem then replicate 4 [] else [])\<rparr> in
     if mem then (True, snd (hash_clear False h)) else (False, h))"

definition hash_destroy :: "bool \<Rightarrow> hash \<Rightarrow> ptr list" where
  "hash_destroy destructor h = (if destructor then fst (hash_clear True h) else [])"

definition hash_insert :: "bool \<Rightarrow> hash_hash_func \<Rightarrow> hash_less_func \<Rightarrow> ptr \<Rightarrow> hash \<Rightarrow> (ptr \<times> hash) option" where
  "hash_insert mem hf lt new h = do {
     let bucket = find_bucket hf h new;
     b \<leftarrow> aread (buckets h) bucket;
     let old = find_elem lt b new;
     h \<leftarrow> (if old = NULL then insert_elem h bucket new else Some h);
     h \<leftarrow> rehash mem hf h;
     Some (old, h)
   }"

definition hash_replace :: "bool \<Rightarrow> hash_hash_func \<Rightarrow> hash_less_func \<Rightarrow> ptr \<Rightarrow> hash \<Rightarrow> (ptr \<times> hash) option" where
  "hash_replace mem hf lt new h = do {
     let bucket = find_bucket hf h new;
     b \<leftarrow> aread (buckets h) bucket;
     let old = find_elem lt b new;
     let h = (if old \<noteq> NULL then remove_elem h old else h);
     h \<leftarrow> insert_elem h bucket new;
     h \<leftarrow> rehash mem hf h;
     Some (old, h)
   }"

definition hash_find :: "hash_hash_func \<Rightarrow> hash_less_func \<Rightarrow> ptr \<Rightarrow> hash \<Rightarrow> ptr option" where
  "hash_find hf lt e h = do { b \<leftarrow> aread (buckets h) (find_bucket hf h e); Some (find_elem lt b e) }"

definition hash_delete :: "bool \<Rightarrow> hash_hash_func \<Rightarrow> hash_less_func \<Rightarrow> ptr \<Rightarrow> hash \<Rightarrow> (ptr \<times> hash) option" where
  "hash_delete mem hf lt e h = do {
     b \<leftarrow> aread (buckets h) (find_bucket hf h e);
     let found = find_elem lt b e;
     if found \<noteq> NULL then do { h \<leftarrow> rehash mem hf (remove_elem h found); Some (found, h) }
     else Some (found, h)
   }"

text \<open>The elements \<^verbatim>\<open>hash_apply\<close> passes to its action, in that order.\<close>

definition hash_apply :: "hash \<Rightarrow> ptr list" where
  "hash_apply h = concat (buckets h)"

definition hash_size :: "hash \<Rightarrow> u32" where
  "hash_size h = elem_cnt h"

definition hash_empty :: "hash \<Rightarrow> bool" where
  "hash_empty h \<longleftrightarrow> elem_cnt h = 0"

text \<open>An iterator: the current bucket and the position in it, 0 at the list head, or null.\<close>

record hash_iterator =
  it_bucket :: nat
  it_elem :: "nat option"

definition hash_first :: hash_iterator where
  "hash_first = \<lparr>it_bucket = 0, it_elem = Some 0\<rparr>"

function hash_next_loop :: "hash \<Rightarrow> nat \<Rightarrow> nat \<Rightarrow> hash_iterator option" where
  "hash_next_loop h b pos = do {
     bucket \<leftarrow> aread (buckets h) b;
     if pos = Suc (length bucket) then
       (if b + 1 \<ge> unat (bucket_cnt h) then Some \<lparr>it_bucket = b + 1, it_elem = None\<rparr>
        else hash_next_loop h (b + 1) 1)
     else Some \<lparr>it_bucket = b, it_elem = Some pos\<rparr>
   }"
  by pat_completeness auto
termination
  by (relation "measure (\<lambda>(h, b, pos). length (buckets h) - b)") (auto simp: panic_iff)

definition hash_cur :: "hash \<Rightarrow> hash_iterator \<Rightarrow> ptr" where
  "hash_cur h i = (case it_elem i of None \<Rightarrow> NULL | Some pos \<Rightarrow> buckets h ! it_bucket i ! (pos - 1))"

definition hash_next :: "hash \<Rightarrow> hash_iterator \<Rightarrow> (ptr \<times> hash_iterator) option" where
  "hash_next h i = do {
     pos \<leftarrow> it_elem i;
     i \<leftarrow> hash_next_loop h (it_bucket i) (pos + 1);
     Some (hash_cur h i, i)
   }"

declare hash_next_loop.simps [simp del] hash_string_loop.simps [simp del]

section \<open>Well-formed tables\<close>

text \<open>What a table asks of its two functions: \<open>lt\<close> orders the elements, and equal elements have equal hashes.\<close>

definition hash_funcs_ok :: "hash_hash_func \<Rightarrow> hash_less_func \<Rightarrow> bool" where
  "hash_funcs_ok hf lt \<longleftrightarrow> strict_weak_order lt \<and> (\<forall>x y. equivalent lt x y \<longrightarrow> hf x = hf y)"

definition placed :: "hash_hash_func \<Rightarrow> u32 \<Rightarrow> ptr list list \<Rightarrow> bool" where
  "placed hf cnt bs \<longleftrightarrow> cnt \<noteq> 0 \<and> length bs = unat cnt \<and> (\<forall>i < length bs. \<forall>e \<in> set (bs ! i). bucket_idx hf cnt e = i)"

abbreviation helems :: "hash \<Rightarrow> ptr set" where
  "helems h \<equiv> set (concat (buckets h))"

definition hash_wf :: "hash_hash_func \<Rightarrow> hash_less_func \<Rightarrow> hash \<Rightarrow> bool" where
  "hash_wf hf lt h \<longleftrightarrow> is_power_of_2 (bucket_cnt h) \<and> placed hf (bucket_cnt h) (buckets h) \<and>
     elem_cnt h = of_nat (length (concat (buckets h))) \<and> distinct (concat (buckets h)) \<and> NULL \<notin> helems h \<and>
     (\<forall>x \<in> helems h. \<forall>y \<in> helems h. equivalent lt x y \<longrightarrow> x = y)"

lemma bucket_idx_less: "cnt \<noteq> 0 \<Longrightarrow> bucket_idx hf cnt e < unat cnt"
proof -
  assume "cnt \<noteq> 0"
  then have "cnt - 1 < cnt" by (simp add: word_less_nat_alt unat_minus_one unat_gt_0)
  moreover have "hf e AND (cnt - 1) \<le> cnt - 1" by (simp add: word_and_le1)
  ultimately show ?thesis by (simp add: bucket_idx_def word_less_nat_alt word_le_nat_alt)
qed

lemma placed_idx: "placed hf cnt bs \<Longrightarrow> bucket_idx hf cnt e < length bs"
  using bucket_idx_less [of cnt hf e] by (simp add: placed_def)

lemma find_elem_spec:
  "NULL \<notin> set b \<Longrightarrow> (find_elem lt b e = NULL \<and> (\<forall>x \<in> set b. \<not> equivalent lt x e)) \<or>
     (find_elem lt b e \<in> set b \<and> find_elem lt b e \<noteq> NULL \<and> equivalent lt (find_elem lt b e) e)"
  by (induction b) (auto simp: equivalent_def)

lemma mset_concat_cons: "i < length bs \<Longrightarrow> mset (concat (bs[i := e # bs ! i])) = add_mset e (mset (concat bs))"
  by (induction bs arbitrary: i) (auto split: nat.splits)

lemma mset_concat_remove:
  "distinct (concat bs) \<Longrightarrow> mset (concat (map (remove1 e) bs)) = mset (concat bs) - {#e#}"
proof (induction bs)
  case (Cons b bs)
  have "mset (concat (map (remove1 e) bs)) = mset (concat bs)" if "e \<in> set b"
    using that Cons by (auto simp: disjoint_iff)
  moreover have "mset b + (M - {#e#}) = mset b + M - {#e#}" if "e \<notin> set b" for M
    using that by (auto simp: multiset_eq_iff count_eq_zero_iff [THEN iffD2])
  ultimately show ?case using Cons by (cases "e \<in> set b") (auto simp: remove1_idem)
qed simp

lemma wf_from_list:
  assumes "mset (concat (buckets h)) = mset xs" and "is_power_of_2 (bucket_cnt h)" and "placed hf (bucket_cnt h) (buckets h)"
    and "elem_cnt h = of_nat (length xs)" and "distinct xs" and "NULL \<notin> set xs"
    and "\<forall>x \<in> set xs. \<forall>y \<in> set xs. equivalent lt x y \<longrightarrow> x = y"
  shows "hash_wf hf lt h \<and> helems h = set xs"
  using assms mset_eq_setD [OF assms(1)] mset_eq_length [OF assms(1)] mset_eq_imp_distinct_iff [OF assms(1)]
  unfolding hash_wf_def by simp

section \<open>Rehashing keeps the elements\<close>

lemma turn_off_less: "n \<noteq> 0 \<Longrightarrow> unat (turn_off_least_1bit n) < unat n"
proof -
  assume "n \<noteq> 0"
  then have "unat (n - 1) < unat n" by (simp add: unat_minus_one unat_gt_0)
  moreover have "n AND (n - 1) \<le> n - 1" by (simp add: word_and_le1)
  ultimately show ?thesis by (simp add: turn_off_least_1bit_def word_le_nat_alt)
qed

lemma round_to_power_ok: "n \<noteq> 0 \<Longrightarrow> \<exists>p. round_to_power n = Some p \<and> is_power_of_2 p"
proof (induction "unat n" arbitrary: n rule: less_induct)
  case less
  show ?case
  proof (cases "is_power_of_2 n")
    case False
    then have "turn_off_least_1bit n \<noteq> 0" using less.prems by (simp add: is_power_of_2_def)
    then show ?thesis using less.hyps [OF turn_off_less [OF less.prems]] False by (simp add: round_to_power.simps)
  qed (simp add: round_to_power.simps)
qed

lemma move_elem_ok:
  assumes "placed hf cnt bs"
  shows "\<exists>bs'. move_elem hf cnt e bs = Some bs' \<and> placed hf cnt bs' \<and> mset (concat bs') = add_mset e (mset (concat bs))"
proof -
  define i where "i = bucket_idx hf cnt e"
  have i: "i < length bs" using placed_idx [OF assms] by (simp add: i_def)
  then have "move_elem hf cnt e bs = Some (bs[i := e # bs ! i])" by (simp add: move_elem_def flip: i_def)
  moreover have "placed hf cnt (bs[i := e # bs ! i])" using assms i by (auto simp: placed_def nth_list_update i_def)
  ultimately show ?thesis using mset_concat_cons [OF i] by blast
qed

lemma move_elems_ok:
  "placed hf cnt bs \<Longrightarrow> \<exists>bs'. move_elems hf cnt es bs = Some bs' \<and> placed hf cnt bs' \<and> mset (concat bs') = mset es + mset (concat bs)"
proof (induction es arbitrary: bs)
  case (Cons e es)
  then show ?case using move_elem_ok [OF Cons.prems, of e] by fastforce
qed simp

lemma move_buckets_ok:
  "placed hf cnt bs \<Longrightarrow> \<exists>bs'. move_buckets hf cnt olds bs = Some bs' \<and> placed hf cnt bs' \<and> mset (concat bs') = mset (concat olds) + mset (concat bs)"
proof (induction olds arbitrary: bs)
  case (Cons b olds)
  obtain bs1 where b: "move_elems hf cnt b bs = Some bs1" "placed hf cnt bs1" "mset (concat bs1) = mset b + mset (concat bs)"
    using move_elems_ok [OF Cons.prems] by blast
  then show ?case using Cons.IH [OF b(2)] by auto
qed simp

lemma rehash_ok:
  assumes "hash_wf hf lt h"
  shows "\<exists>h'. rehash mem hf h = Some h' \<and> hash_wf hf lt h' \<and> helems h' = helems h"
proof -
  define n0 where "n0 = (let n = elem_cnt h div BEST_ELEMS_PER_BUCKET in if n < 4 then 4 else n)"
  have "n0 \<noteq> 0" by (auto simp: n0_def Let_def)
  then obtain n where n: "round_to_power n0 = Some n" "is_power_of_2 n" using round_to_power_ok by blast
  have "placed hf n (replicate (unat n) [])" using n(2) by (auto simp: placed_def is_power_of_2_def)
  then obtain bs where bs: "move_buckets hf n (buckets h) (replicate (unat n) []) = Some bs" "placed hf n bs"
    "mset (concat bs) = mset (concat (buckets h))"
    using move_buckets_ok [of hf n "replicate (unat n) []" "buckets h"] by auto
  have run: "rehash mem hf h = Some (if n = bucket_cnt h \<or> \<not> mem then h else h\<lparr>bucket_cnt := n, buckets := bs\<rparr>)"
    using n(1) bs(1) by (simp add: rehash_def n0_def Let_def)
  have "hash_wf hf lt (h\<lparr>bucket_cnt := n, buckets := bs\<rparr>) \<and> helems (h\<lparr>bucket_cnt := n, buckets := bs\<rparr>) = helems h"
    using assms n(2) bs by (intro wf_from_list) (simp_all add: hash_wf_def)
  then show ?thesis using run assms by (cases "n = bucket_cnt h \<or> \<not> mem") simp_all
qed

section \<open>Every operation on the set of elements\<close>

lemma equivalent_refl: "strict_weak_order lt \<Longrightarrow> equivalent lt x x"
  by (auto simp: equivalent_def strict_weak_order_def asymmetric_def)

lemma equivalent_sym: "equivalent lt x y \<Longrightarrow> equivalent lt y x"
  by (simp add: equivalent_def)

lemma equivalent_trans: "strict_weak_order lt \<Longrightarrow> equivalent lt x y \<Longrightarrow> equivalent lt y z \<Longrightarrow> equivalent lt x z"
  unfolding equivalent_def strict_weak_order_def by blast

text \<open>The search in the bucket of \<open>e\<close> is a search in the whole table.\<close>

lemma find_in_bucket:
  assumes f: "hash_funcs_ok hf lt" and w: "hash_wf hf lt h"
  obtains b where "aread (buckets h) (find_bucket hf h e) = Some b" "find_bucket hf h e < length (buckets h)"
    "b = buckets h ! find_bucket hf h e"
    "(find_elem lt b e = NULL \<and> (\<forall>x \<in> helems h. \<not> equivalent lt x e)) \<or>
     (find_elem lt b e \<in> helems h \<and> find_elem lt b e \<noteq> NULL \<and> equivalent lt (find_elem lt b e) e)"
proof -
  let ?i = "find_bucket hf h e"
  have p: "placed hf (bucket_cnt h) (buckets h)" and nn: "NULL \<notin> helems h" using w by (simp_all add: hash_wf_def)
  have i: "?i < length (buckets h)" using placed_idx [OF p] by (simp add: find_bucket_def)
  have sub: "set (buckets h ! ?i) \<subseteq> helems h" using nth_mem [OF i] by auto
  have "x \<in> set (buckets h ! ?i)" if "x \<in> helems h" "equivalent lt x e" for x
  proof -
    obtain j where j: "j < length (buckets h)" "x \<in> set (buckets h ! j)" using \<open>x \<in> helems h\<close> by (auto simp: in_set_conv_nth [of _ "buckets h"])
    then have "bucket_idx hf (bucket_cnt h) x = j" using p by (simp add: placed_def)
    moreover have "hf x = hf e" using f that(2) by (simp add: hash_funcs_ok_def)
    ultimately show ?thesis using j(2) by (simp add: find_bucket_def bucket_idx_def)
  qed
  moreover have nb: "NULL \<notin> set (buckets h ! ?i)" using sub nn by blast
  ultimately have "(find_elem lt (buckets h ! ?i) e = NULL \<and> (\<forall>x \<in> helems h. \<not> equivalent lt x e)) \<or>
     (find_elem lt (buckets h ! ?i) e \<in> helems h \<and> find_elem lt (buckets h ! ?i) e \<noteq> NULL \<and>
      equivalent lt (find_elem lt (buckets h ! ?i) e) e)"
    using sub find_elem_spec [OF nb, of lt e] by blast
  then show ?thesis using that [of "buckets h ! ?i"] i by simp
qed

lemma insert_elem_ok:
  assumes f: "hash_funcs_ok hf lt" and w: "hash_wf hf lt h" and e: "e \<noteq> NULL" "\<forall>x \<in> helems h. \<not> equivalent lt x e"
  shows "\<exists>h'. insert_elem h (find_bucket hf h e) e = Some h' \<and> hash_wf hf lt h' \<and> helems h' = insert e (helems h)"
proof -
  let ?i = "find_bucket hf h e"
  have p: "placed hf (bucket_cnt h) (buckets h)" using w by (simp add: hash_wf_def)
  have i: "?i < length (buckets h)" using placed_idx [OF p] by (simp add: find_bucket_def)
  have s: "strict_weak_order lt" using f by (simp add: hash_funcs_ok_def)
  let ?h = "h\<lparr>elem_cnt := elem_cnt h + 1, buckets := (buckets h)[?i := e # buckets h ! ?i]\<rparr>"
  have "placed hf (bucket_cnt h) ((buckets h)[?i := e # buckets h ! ?i])"
    using p i by (auto simp: placed_def nth_list_update find_bucket_def)
  moreover have "e \<notin> helems h" using e(2) equivalent_refl [OF s] by blast
  ultimately have "hash_wf hf lt ?h \<and> helems ?h = set (e # concat (buckets h))"
    using w e mset_concat_cons [OF i] equivalent_sym
    by (intro wf_from_list) (auto simp: hash_wf_def simp del: set_concat)
  then show ?thesis using i by (simp add: insert_elem_def)
qed

lemma remove_elem_ok:
  assumes w: "hash_wf hf lt h" and e: "e \<in> helems h"
  shows "hash_wf hf lt (remove_elem h e) \<and> helems (remove_elem h e) = helems h - {e}"
proof -
  have d: "distinct (concat (buckets h))" using w by (simp add: hash_wf_def)
  have "placed hf (bucket_cnt h) (map (remove1 e) (buckets h))"
    using w by (auto simp: placed_def hash_wf_def dest: notin_set_remove1 [rotated] set_remove1_subset [THEN subsetD])
  moreover have "elem_cnt h - 1 = of_nat (length (remove1 e (concat (buckets h))))"
  proof -
    obtain n where n: "length (concat (buckets h)) = Suc n" using length_pos_if_in_set [OF e] gr0_implies_Suc by blast
    then have "length (remove1 e (concat (buckets h))) = n" using e by (simp add: length_remove1)
    moreover have "elem_cnt h = of_nat (Suc n)" using w unfolding hash_wf_def n by blast
    ultimately show ?thesis by simp
  qed
  ultimately have "hash_wf hf lt (remove_elem h e) \<and> helems (remove_elem h e) = set (remove1 e (concat (buckets h)))"
    using w mset_concat_remove [OF d, of e] d
    by (intro wf_from_list) (simp_all add: remove_elem_def hash_wf_def set_remove1_eq del: set_concat)
  then show ?thesis using d by (simp del: set_concat)
qed

section \<open>A set of elements without equals\<close>

datatype hash_op = Insert bool ptr | Replace bool ptr | Find ptr | Delete bool ptr

fun op_elem :: "hash_op \<Rightarrow> ptr" where
  "op_elem (Insert m e) = e"
| "op_elem (Replace m e) = e"
| "op_elem (Find e) = e"
| "op_elem (Delete m e) = e"

text \<open>The specification: the set afterwards, when \<open>r\<close> is the equal element found or null.\<close>

fun set_after :: "hash_op \<Rightarrow> ptr \<Rightarrow> ptr set \<Rightarrow> ptr set" where
  "set_after (Insert m e) r S = (if r = NULL then insert e S else S)"
| "set_after (Replace m e) r S = insert e (S - {r})"
| "set_after (Find e) r S = S"
| "set_after (Delete m e) r S = S - {r}"

definition set_step :: "hash_less_func \<Rightarrow> hash_op \<Rightarrow> ptr set \<Rightarrow> ptr \<Rightarrow> ptr set \<Rightarrow> bool" where
  "set_step lt op S r S' \<longleftrightarrow>
     (if \<exists>x \<in> S. equivalent lt x (op_elem op) then r \<in> S \<and> equivalent lt r (op_elem op) else r = NULL) \<and>
     S' = set_after op r S"

fun set_trace :: "hash_less_func \<Rightarrow> hash_op list \<Rightarrow> ptr list \<Rightarrow> ptr set \<Rightarrow> ptr set \<Rightarrow> bool" where
  "set_trace lt [] [] S S' \<longleftrightarrow> S' = S"
| "set_trace lt (op # ops) (r # rs) S S' \<longleftrightarrow> (\<exists>S1. set_step lt op S r S1 \<and> set_trace lt ops rs S1 S')"
| "set_trace lt _ _ S S' \<longleftrightarrow> False"

text \<open>Any table with a step that refines \<open>set_step\<close> refines it for every sequence of operations.\<close>

primrec run_table :: "(hash_op \<Rightarrow> 'h \<Rightarrow> (ptr \<times> 'h) option) \<Rightarrow> hash_op list \<Rightarrow> 'h \<Rightarrow> (ptr list \<times> 'h) option" where
  "run_table step [] h = Some ([], h)"
| "run_table step (op # ops) h = do { (r, h) \<leftarrow> step op h; (rs, h) \<leftarrow> run_table step ops h; Some (r # rs, h) }"

locale element_table =
  fixes inv :: "'h \<Rightarrow> bool" and els :: "'h \<Rightarrow> ptr set" and step :: "hash_op \<Rightarrow> 'h \<Rightarrow> (ptr \<times> 'h) option"
    and lt :: hash_less_func
  assumes step_ok: "inv h \<Longrightarrow> op_elem op \<noteq> NULL \<Longrightarrow>
    \<exists>r h'. step op h = Some (r, h') \<and> inv h' \<and> set_step lt op (els h) r (els h')"
begin

lemma run_refines:
  "inv h \<Longrightarrow> \<forall>op \<in> set ops. op_elem op \<noteq> NULL \<Longrightarrow>
   \<exists>rs h'. run_table step ops h = Some (rs, h') \<and> inv h' \<and> set_trace lt ops rs (els h) (els h')"
proof (induction ops arbitrary: h)
  case (Cons op ops)
  obtain r h1 where "step op h = Some (r, h1)" "inv h1" "set_step lt op (els h) r (els h1)"
    using step_ok Cons.prems by (metis list.set_intros(1))
  moreover obtain rs h' where "run_table step ops h1 = Some (rs, h')" "inv h'" "set_trace lt ops rs (els h1) (els h')"
    using Cons.IH [OF \<open>inv h1\<close>] Cons.prems(2) by auto
  ultimately show ?case by auto
qed simp

end

fun hash_step :: "hash_hash_func \<Rightarrow> hash_less_func \<Rightarrow> hash_op \<Rightarrow> hash \<Rightarrow> (ptr \<times> hash) option" where
  "hash_step hf lt (Insert mem e) h = hash_insert mem hf lt e h"
| "hash_step hf lt (Replace mem e) h = hash_replace mem hf lt e h"
| "hash_step hf lt (Find e) h = do { r \<leftarrow> hash_find hf lt e h; Some (r, h) }"
| "hash_step hf lt (Delete mem e) h = hash_delete mem hf lt e h"

lemma hash_insert_step:
  assumes f: "hash_funcs_ok hf lt" and w: "hash_wf hf lt h" and e: "e \<noteq> NULL"
  shows "\<exists>r h'. hash_insert mem hf lt e h = Some (r, h') \<and> hash_wf hf lt h' \<and> set_step lt (Insert mem e) (helems h) r (helems h')"
proof -
  obtain b where b: "aread (buckets h) (find_bucket hf h e) = Some b"
    "(find_elem lt b e = NULL \<and> (\<forall>x \<in> helems h. \<not> equivalent lt x e)) \<or>
     (find_elem lt b e \<in> helems h \<and> find_elem lt b e \<noteq> NULL \<and> equivalent lt (find_elem lt b e) e)"
    using find_in_bucket [OF f w] by blast
  from b(2) show ?thesis
  proof (elim disjE conjE)
    assume n: "find_elem lt b e = NULL" "\<forall>x \<in> helems h. \<not> equivalent lt x e"
    obtain h1 where h1: "insert_elem h (find_bucket hf h e) e = Some h1" "hash_wf hf lt h1" "helems h1 = insert e (helems h)"
      using insert_elem_ok [OF f w e n(2)] by blast
    then obtain h' where "rehash mem hf h1 = Some h'" "hash_wf hf lt h'" "helems h' = helems h1" using rehash_ok by blast
    then show ?thesis using b(1) n h1 by (simp add: hash_insert_def set_step_def del: set_concat)
  next
    assume o: "find_elem lt b e \<in> helems h" "find_elem lt b e \<noteq> NULL" "equivalent lt (find_elem lt b e) e"
    obtain h' where "rehash mem hf h = Some h'" "hash_wf hf lt h'" "helems h' = helems h" using rehash_ok [OF w] by blast
    then show ?thesis using b(1) o by (auto simp: hash_insert_def set_step_def simp del: set_concat)
  qed
qed

lemma hash_replace_step:
  assumes f: "hash_funcs_ok hf lt" and w: "hash_wf hf lt h" and e: "e \<noteq> NULL"
  shows "\<exists>r h'. hash_replace mem hf lt e h = Some (r, h') \<and> hash_wf hf lt h' \<and> set_step lt (Replace mem e) (helems h) r (helems h')"
proof -
  obtain b where b: "aread (buckets h) (find_bucket hf h e) = Some b"
    "(find_elem lt b e = NULL \<and> (\<forall>x \<in> helems h. \<not> equivalent lt x e)) \<or>
     (find_elem lt b e \<in> helems h \<and> find_elem lt b e \<noteq> NULL \<and> equivalent lt (find_elem lt b e) e)"
    using find_in_bucket [OF f w] by blast
  define old h1 where "old = find_elem lt b e" and "h1 = (if old \<noteq> NULL then remove_elem h old else h)"
  have swo: "strict_weak_order lt" using f by (simp add: hash_funcs_ok_def)
  have nn: "NULL \<notin> helems h" using w by (simp add: hash_wf_def)
  have h1: "hash_wf hf lt h1" "helems h1 = helems h - {old}" "find_bucket hf h1 e = find_bucket hf h e"
    using b(2) w nn remove_elem_ok [OF w, of old] by (auto simp: h1_def old_def find_bucket_def remove_elem_def simp del: set_concat)
  have "\<not> equivalent lt x e" if "x \<in> helems h1" for x
  proof
    assume x: "equivalent lt x e"
    then have o: "old \<in> helems h" "equivalent lt old e" using b(2) that h1(2) by (auto simp: old_def simp del: set_concat)
    then have "equivalent lt x old" using x equivalent_trans [OF swo] equivalent_sym by blast
    then show False using w o(1) that h1(2) unfolding hash_wf_def by blast
  qed
  then obtain h2 where h2: "insert_elem h1 (find_bucket hf h e) e = Some h2" "hash_wf hf lt h2" "helems h2 = insert e (helems h1)"
    using insert_elem_ok [OF f h1(1) e] h1(3) by auto
  then obtain h' where "rehash mem hf h2 = Some h'" "hash_wf hf lt h'" "helems h' = helems h2" using rehash_ok by blast
  moreover have "hash_replace mem hf lt e h = do { h \<leftarrow> rehash mem hf h2; Some (old, h) }"
    using b(1) h2(1) by (cases "old = NULL") (simp_all add: hash_replace_def Let_def h1_def flip: old_def)
  ultimately show ?thesis using b(2) h1(2) h2(3) by (auto simp: set_step_def old_def simp del: set_concat)
qed

lemma hash_find_delete_step:
  assumes f: "hash_funcs_ok hf lt" and w: "hash_wf hf lt h"
  shows "\<exists>r. hash_find hf lt e h = Some r \<and> set_step lt (Find e) (helems h) r (helems h)"
    and "\<exists>r h'. hash_delete mem hf lt e h = Some (r, h') \<and> hash_wf hf lt h' \<and> set_step lt (Delete mem e) (helems h) r (helems h')"
proof -
  obtain b where b: "aread (buckets h) (find_bucket hf h e) = Some b"
    "(find_elem lt b e = NULL \<and> (\<forall>x \<in> helems h. \<not> equivalent lt x e)) \<or>
     (find_elem lt b e \<in> helems h \<and> find_elem lt b e \<noteq> NULL \<and> equivalent lt (find_elem lt b e) e)"
    using find_in_bucket [OF f w] by blast
  then show "\<exists>r. hash_find hf lt e h = Some r \<and> set_step lt (Find e) (helems h) r (helems h)"
    by (auto simp: hash_find_def set_step_def simp del: set_concat)
  have nn: "NULL \<notin> helems h" using w by (simp add: hash_wf_def)
  from b(2) show "\<exists>r h'. hash_delete mem hf lt e h = Some (r, h') \<and> hash_wf hf lt h' \<and> set_step lt (Delete mem e) (helems h) r (helems h')"
  proof (elim disjE conjE)
    assume o: "find_elem lt b e \<in> helems h" "find_elem lt b e \<noteq> NULL" "equivalent lt (find_elem lt b e) e"
    then have "hash_wf hf lt (remove_elem h (find_elem lt b e))" "helems (remove_elem h (find_elem lt b e)) = helems h - {find_elem lt b e}"
      using remove_elem_ok [OF w o(1)] by blast+
    moreover obtain h' where "rehash mem hf (remove_elem h (find_elem lt b e)) = Some h'" "hash_wf hf lt h'"
      "helems h' = helems (remove_elem h (find_elem lt b e))" using rehash_ok calculation(1) by blast
    ultimately show ?thesis using b(1) o by (auto simp: hash_delete_def set_step_def simp del: set_concat)
  qed (use b(1) w nn in \<open>auto simp: hash_delete_def set_step_def simp del: set_concat\<close>)
qed

interpretation ht: element_table "\<lambda>h. hash_funcs_ok hf lt \<and> hash_wf hf lt h" helems "hash_step hf lt" lt for hf lt
proof
  fix h op assume "hash_funcs_ok hf lt \<and> hash_wf hf lt h" and e: "op_elem op \<noteq> NULL"
  then have fw: "hash_funcs_ok hf lt" "hash_wf hf lt h" by simp_all
  show "\<exists>r h'. hash_step hf lt op h = Some (r, h') \<and> (hash_funcs_ok hf lt \<and> hash_wf hf lt h') \<and> set_step lt op (helems h) r (helems h')"
  proof (cases op)
    case (Find x)
    then show ?thesis using hash_find_delete_step(1) [OF fw, of x] fw by auto
  qed (use fw e hash_insert_step [OF fw] hash_replace_step [OF fw] hash_find_delete_step(2) [OF fw] in simp_all)
qed

section \<open>Properties\<close>

lemma hash_init_wf: "hash_wf hf lt (snd (hash_init True)) \<and> helems (snd (hash_init True)) = {}"
proof -
  have "is_power_of_2 4" by (simp add: is_power_of_2_def turn_off_least_1bit_def)
  then show ?thesis by (auto simp: hash_wf_def placed_def hash_init_def hash_clear_def Let_def)
qed

text \<open>C12. The hash table: started by \<^verbatim>\<open>hash_init\<close>, for every sequence of insertions, replacements,
  searches and deletions of non-null elements, whatever allocations of new buckets fail, all operations
  return, and their results and the elements in the table are those of a set without equal elements:
  each returns the equal element, if there is one, and null otherwise.\<close>

theorem hash_refines_set:
  assumes "strict_weak_order lt" and "\<forall>x y. equivalent lt x y \<longrightarrow> hf x = hf y" and "\<forall>op \<in> set ops. op_elem op \<noteq> NULL"
  shows "\<exists>rs h'. run_table (hash_step hf lt) ops (snd (hash_init True)) = Some (rs, h') \<and>
    set_trace lt ops rs {} (set (hash_apply h')) \<and> hash_size h' = of_nat (card (set (hash_apply h')))"
proof -
  have f: "hash_funcs_ok hf lt" using assms(1,2) by (simp add: hash_funcs_ok_def)
  obtain rs h' where h': "run_table (hash_step hf lt) ops (snd (hash_init True)) = Some (rs, h')" "hash_wf hf lt h'"
    "set_trace lt ops rs {} (helems h')"
    using ht.run_refines [OF conjI [OF f conjunct1 [OF hash_init_wf]] assms(3)] unfolding conjunct2 [OF hash_init_wf] by blast
  then have "elem_cnt h' = of_nat (card (helems h'))"
    by (simp add: hash_wf_def distinct_card [symmetric] del: set_concat)
  then show ?thesis using h' by (auto simp: hash_apply_def hash_size_def)
qed

theorem hash_refines_set_witness:
  "\<exists>rs h'. run_table (hash_step (\<lambda>e. hash_int (of_nat e)) (<)) [Insert True 7, Insert True 9, Delete False 7, Find 9] (snd (hash_init True)) =
      Some (rs, h') \<and>
    set_trace (<) [Insert True 7, Insert True 9, Delete False 7, Find 9] rs {} (set (hash_apply h')) \<and>
    hash_size h' = of_nat (card (set (hash_apply h')))"
  by (rule hash_refines_set) (auto simp: strict_weak_order_def asymmetric_def equivalent_def)

end
