(* ===== verification/Vaddr.thy ===== *)
theory Vaddr
  imports Bytes
begin

unbundle bit_operations_syntax

text \<open>
  Virtual addresses (threads/vaddr.h) and page-table entries (threads/pte.h).  An address is a 32-bit
  word; the null pointer is 0.  Memory is a function from addresses to bytes.
\<close>

section \<open>Virtual addresses\<close>

definition PGBITS :: nat where
  "PGBITS = 12"

definition PGSIZE :: nat where
  "PGSIZE = 2 ^ PGBITS"

definition BITMASK :: "nat \<Rightarrow> nat \<Rightarrow> u32" where
  "BITMASK shift cnt = push_bit shift (push_bit cnt 1 - 1)"

definition PGMASK :: u32 where
  "PGMASK = BITMASK 0 PGBITS"

definition pg_ofs :: "u32 \<Rightarrow> u32" where
  "pg_ofs va = va AND PGMASK"

definition pg_no :: "u32 \<Rightarrow> u32" where
  "pg_no va = drop_bit PGBITS va"

definition pg_round_up :: "u32 \<Rightarrow> u32" where
  "pg_round_up va = (va + of_nat PGSIZE - 1) AND NOT PGMASK"

definition pg_round_down :: "u32 \<Rightarrow> u32" where
  "pg_round_down va = va AND NOT PGMASK"

definition PHYS_BASE :: u32 where
  "PHYS_BASE = 0xc0000000"

definition is_user_vaddr :: "u32 \<Rightarrow> bool" where
  "is_user_vaddr vaddr \<longleftrightarrow> vaddr < PHYS_BASE"

definition is_kernel_vaddr :: "u32 \<Rightarrow> bool" where
  "is_kernel_vaddr vaddr \<longleftrightarrow> vaddr \<ge> PHYS_BASE"

definition ptov :: "u32 \<Rightarrow> u32 option" where
  "ptov paddr = do { ASSERT (paddr < PHYS_BASE); Some (paddr + PHYS_BASE) }"

definition vtop :: "u32 \<Rightarrow> u32 option" where
  "vtop vaddr = do { ASSERT (is_kernel_vaddr vaddr); Some (vaddr - PHYS_BASE) }"

section \<open>Page-table entries\<close>

definition PTSHIFT :: nat where
  "PTSHIFT = PGBITS"

definition PTBITS :: nat where
  "PTBITS = 10"

definition PTMASK :: u32 where
  "PTMASK = BITMASK PTSHIFT PTBITS"

definition PDSHIFT :: nat where
  "PDSHIFT = PTSHIFT + PTBITS"

definition pt_no :: "u32 \<Rightarrow> u32" where
  "pt_no va = drop_bit PTSHIFT (va AND PTMASK)"

definition pd_no :: "u32 \<Rightarrow> u32" where
  "pd_no va = drop_bit PDSHIFT va"

definition PTE_ADDR :: u32 where
  "PTE_ADDR = 0xfffff000"

definition PTE_P :: u32 where
  "PTE_P = 1"

definition PTE_W :: u32 where
  "PTE_W = 2"

definition PTE_U :: u32 where
  "PTE_U = 4"

definition PTE_A :: u32 where
  "PTE_A = 0x20"

definition PTE_D :: u32 where
  "PTE_D = 0x40"

definition pde_create :: "u32 \<Rightarrow> u32 option" where
  "pde_create pt = do {
     ASSERT (pg_ofs pt = 0);
     p \<leftarrow> vtop pt;
     Some (p OR PTE_U OR PTE_P OR PTE_W)
   }"

definition pde_get_pt :: "u32 \<Rightarrow> u32 option" where
  "pde_get_pt pde = do { ASSERT (pde AND PTE_P \<noteq> 0); ptov (pde AND PTE_ADDR) }"

definition pte_create_kernel :: "u32 \<Rightarrow> bool \<Rightarrow> u32 option" where
  "pte_create_kernel page writable = do {
     ASSERT (pg_ofs page = 0);
     p \<leftarrow> vtop page;
     Some (p OR PTE_P OR (if writable then PTE_W else 0))
   }"

definition pte_create_user :: "u32 \<Rightarrow> bool \<Rightarrow> u32 option" where
  "pte_create_user page writable = do { p \<leftarrow> pte_create_kernel page writable; Some (p OR PTE_U) }"

definition pte_get_page :: "u32 \<Rightarrow> u32 option" where
  "pte_get_page pte = ptov (pte AND PTE_ADDR)"

section \<open>Memory\<close>

type_synonym kmemory = "u32 \<Rightarrow> u8"

definition rd32 :: "kmemory \<Rightarrow> u32 \<Rightarrow> u32" where
  "rd32 m a = bytes_u32 [m a, m (a + 1), m (a + 2), m (a + 3)]"

definition wr32 :: "kmemory \<Rightarrow> u32 \<Rightarrow> u32 \<Rightarrow> kmemory" where
  "wr32 m a v = (let bs = u32_bytes v in m(a := bs ! 0, a + 1 := bs ! 1, a + 2 := bs ! 2, a + 3 := bs ! 3))"

text \<open>\<^verbatim>\<open>memset\<close> and \<^verbatim>\<open>memcpy\<close> of \<open>n\<close> bytes, for ranges that do not wrap around the address space.\<close>

definition fill :: "kmemory \<Rightarrow> u32 \<Rightarrow> u8 \<Rightarrow> nat \<Rightarrow> kmemory" where
  "fill m p v n = (\<lambda>a. if unat (a - p) < n then v else m a)"

definition copy :: "kmemory \<Rightarrow> u32 \<Rightarrow> u32 \<Rightarrow> nat \<Rightarrow> kmemory" where
  "copy m dst src n = (\<lambda>a. if unat (a - dst) < n then m (src + (a - dst)) else m a)"

section \<open>Arithmetic of pages\<close>

lemma PGSIZE_eq [simp]: "PGSIZE = 4096"
  by (simp add: PGSIZE_def PGBITS_def)

lemma BITMASK_eq: "BITMASK shift cnt = push_bit shift (mask cnt)"
  by (simp add: BITMASK_def mask_eq_exp_minus_1 push_bit_eq_mult)

lemma PGMASK_eq: "PGMASK = mask 12"
  by (simp add: PGMASK_def BITMASK_eq PGBITS_def)

lemma unat_pg_ofs: "unat (pg_ofs va) = unat va mod 4096"
  by (simp add: pg_ofs_def PGMASK_eq flip: take_bit_eq_mask) (simp add: take_bit_eq_mod unat_mod)

lemma pg_ofs_0: "pg_ofs va = 0 \<longleftrightarrow> unat va mod 4096 = 0"
  using unat_pg_ofs [of va] by (metis unat_0 word_unat_eq_iff)

lemma unat_pg_no: "unat (pg_no va) = unat va div 4096"
proof -
  have "drop_bit 12 va = va div 4096" by (simp add: drop_bit_eq_div)
  then show ?thesis by (simp add: pg_no_def PGBITS_def unat_div)
qed

lemma unat_pd_no: "unat (pd_no va) = unat va div 2 ^ 22"
proof -
  have "drop_bit 22 va = va div 4194304" by (simp add: drop_bit_eq_div)
  then show ?thesis by (simp add: pd_no_def PDSHIFT_def PTSHIFT_def PTBITS_def PGBITS_def unat_div)
qed

lemma pt_no_eq: "pt_no va = take_bit 10 (drop_bit 12 va)"
  by (rule bit_word_eqI)
    (auto simp: pt_no_def PTMASK_def BITMASK_eq PTSHIFT_def PTBITS_def PGBITS_def bit_simps)

lemma unat_pt_no: "unat (pt_no va) = unat va div 4096 mod 1024"
  using unat_pg_no [of va] by (simp add: pt_no_eq pg_no_def PGBITS_def) (simp add: take_bit_eq_mod unat_mod)

text \<open>The two indices and the offset determine the address.\<close>

lemma vaddr_split: "pd_no va = pd_no vb \<Longrightarrow> pt_no va = pt_no vb \<Longrightarrow> pg_no va = pg_no vb"
proof -
  assume "pd_no va = pd_no vb" "pt_no va = pt_no vb"
  then have e: "unat va div 2 ^ 22 = unat vb div 2 ^ 22" "unat va div 4096 mod 1024 = unat vb div 4096 mod 1024"
    by (metis unat_pd_no, metis unat_pt_no)
  have "n div 4096 = n div 2 ^ 22 * 1024 + n div 4096 mod 1024" for n :: nat
    using div_mult_mod_eq [of "n div 4096" 1024] by (simp add: div_mult2_eq [symmetric])
  then have "unat va div 4096 = unat vb div 4096" using e by metis
  then show ?thesis by (simp add: word_unat_eq_iff unat_pg_no)
qed

lemma pd_no_user: "is_user_vaddr va \<longleftrightarrow> unat (pd_no va) < 768"
  by (simp add: is_user_vaddr_def PHYS_BASE_def unat_pd_no word_less_nat_alt div_less_iff_less_mult)

end
