(* ===== verification/Palloc.thy ===== *)
theory Palloc
  imports Bitmap Vaddr
begin

unbundle bit_operations_syntax

text \<open>
  The page allocator (threads/palloc.c) on the state of the machine: memory, the two pools, the size of
  RAM, the kernel's page directory and the register CR3.  The lock of a pool is held around the scan.
  A pool's bitmap lies in the pages below its base and is kept apart from the memory here.
\<close>

section \<open>Operations\<close>

record pool =
  used_map :: bitmap
  pool_base :: u32

record machine =
  kmem :: kmemory
  kernel_pool :: pool
  user_pool :: pool
  init_ram_pages :: u32
  init_page_dir :: u32
  cr3 :: u32

definition PAL_ASSERT :: u32 where
  "PAL_ASSERT = 1"

definition PAL_ZERO :: u32 where
  "PAL_ZERO = 2"

definition PAL_USER :: u32 where
  "PAL_USER = 4"

definition get_pool :: "bool \<Rightarrow> machine \<Rightarrow> pool" where
  "get_pool user m = (if user then user_pool m else kernel_pool m)"

definition set_pool :: "bool \<Rightarrow> pool \<Rightarrow> machine \<Rightarrow> machine" where
  "set_pool user p m = (if user then m\<lparr>user_pool := p\<rparr> else m\<lparr>kernel_pool := p\<rparr>)"

definition init_pool :: "kmemory \<Rightarrow> u32 \<Rightarrow> nat \<Rightarrow> pool option" where
  "init_pool mem base page_cnt = do {
     let bm_pages = DIV_ROUND_UP (bitmap_buf_size page_cnt) PGSIZE;
     ASSERT (bm_pages \<le> page_cnt);
     let page_cnt = page_cnt - bm_pages;
     b \<leftarrow> bitmap_create_in_buf page_cnt (map (\<lambda>i. rd32 mem (base + 8 + 4 * of_nat i)) [0..<Bitmap.elem_cnt page_cnt]) (bm_pages * PGSIZE);
     Some \<lparr>used_map = b, pool_base = base + of_nat (bm_pages * PGSIZE)\<rparr>
   }"

definition palloc_init :: "nat \<Rightarrow> machine \<Rightarrow> machine option" where
  "palloc_init user_page_limit m = do {
     free_start \<leftarrow> ptov (1024 * 1024);
     free_end \<leftarrow> ptov (init_ram_pages m * of_nat PGSIZE);
     let free_pages = unat (free_end - free_start) div PGSIZE;
     let user_pages = free_pages div 2;
     let user_pages = (if user_pages > user_page_limit then user_page_limit else user_pages);
     let kernel_pages = free_pages - user_pages;
     k \<leftarrow> init_pool (kmem m) free_start kernel_pages;
     u \<leftarrow> init_pool (kmem m) (free_start + of_nat (kernel_pages * PGSIZE)) user_pages;
     Some (m\<lparr>kernel_pool := k, user_pool := u\<rparr>)
   }"

definition palloc_get_multiple :: "u32 \<Rightarrow> nat \<Rightarrow> machine \<Rightarrow> (u32 \<times> machine) option" where
  "palloc_get_multiple flags page_cnt m = (
     let user = (flags AND PAL_USER \<noteq> 0); pool = get_pool user m in
     if page_cnt = 0 then Some (0, m)
     else do {
       (page_idx, b) \<leftarrow> bitmap_scan_and_flip (used_map pool) 0 page_cnt False;
       let m = set_pool user (pool\<lparr>used_map := b\<rparr>) m;
       let pages = (if page_idx \<noteq> BITMAP_ERROR then pool_base pool + of_nat (PGSIZE * page_idx) else 0);
       if pages \<noteq> 0 then
         Some (pages, if flags AND PAL_ZERO \<noteq> 0 then m\<lparr>kmem := fill (kmem m) pages 0 (wrap32 (PGSIZE * page_cnt))\<rparr> else m)
       else do {
         ASSERT (flags AND PAL_ASSERT = 0);
         Some (0, m)
       }
     })"

definition palloc_get_page :: "u32 \<Rightarrow> machine \<Rightarrow> (u32 \<times> machine) option" where
  "palloc_get_page flags m = palloc_get_multiple flags 1 m"

definition page_from_pool :: "pool \<Rightarrow> u32 \<Rightarrow> bool" where
  "page_from_pool pool page = (
     let page_no = unat (pg_no page);
         start_page = unat (pg_no (pool_base pool));
         end_page = wrap32 (start_page + bitmap_size (used_map pool))
     in page_no \<ge> start_page \<and> page_no < end_page)"

definition palloc_free_multiple :: "u32 \<Rightarrow> nat \<Rightarrow> machine \<Rightarrow> machine option" where
  "palloc_free_multiple pages page_cnt m = do {
     ASSERT (pg_ofs pages = 0);
     if pages = 0 \<or> page_cnt = 0 then Some m
     else do {
       user \<leftarrow> (if page_from_pool (kernel_pool m) pages then Some False
                 else if page_from_pool (user_pool m) pages then Some True
                 else None);
       let pool = get_pool user m;
       let page_idx = unat (pg_no pages - pg_no (pool_base pool));
       let m = m\<lparr>kmem := fill (kmem m) pages 0xcc (wrap32 (PGSIZE * page_cnt))\<rparr>;
       all \<leftarrow> bitmap_all (used_map pool) page_idx page_cnt;
       ASSERT all;
       b \<leftarrow> bitmap_set_multiple (used_map pool) page_idx page_cnt False;
       Some (set_pool user (pool\<lparr>used_map := b\<rparr>) m)
     }
   }"

definition palloc_free_page :: "u32 \<Rightarrow> machine \<Rightarrow> machine option" where
  "palloc_free_page page m = palloc_free_multiple page 1 m"

section \<open>Well-formed pools\<close>

abbreviation pool_pages :: "pool \<Rightarrow> nat" where
  "pool_pages p \<equiv> bit_cnt (used_map p)"

definition base_no :: "pool \<Rightarrow> nat" where
  "base_no p = unat (pool_base p) div 4096"

definition pool_wf :: "pool \<Rightarrow> bool" where
  "pool_wf p \<longleftrightarrow> bitmap_wf (used_map p) \<and> unat (pool_base p) mod 4096 = 0 \<and> PHYS_BASE \<le> pool_base p \<and>
     base_no p + pool_pages p \<le> 2 ^ 20"

definition machine_wf :: "machine \<Rightarrow> bool" where
  "machine_wf m \<longleftrightarrow> pool_wf (kernel_pool m) \<and> pool_wf (user_pool m) \<and>
     {base_no (kernel_pool m)..<base_no (kernel_pool m) + pool_pages (kernel_pool m)} \<inter>
     {base_no (user_pool m)..<base_no (user_pool m) + pool_pages (user_pool m)} = {}"

text \<open>Whether page number \<open>n\<close> is handed out.\<close>

definition pool_used :: "pool \<Rightarrow> nat \<Rightarrow> bool" where
  "pool_used p n \<longleftrightarrow> base_no p \<le> n \<and> n < base_no p + pool_pages p \<and> bm_bits (used_map p) ! (n - base_no p)"

definition page_used :: "machine \<Rightarrow> nat \<Rightarrow> bool" where
  "page_used m n \<longleftrightarrow> pool_used (kernel_pool m) n \<or> pool_used (user_pool m) n"

definition page_addr :: "nat \<Rightarrow> u32" where
  "page_addr n = of_nat (4096 * n)"

lemma unat_of_nat32: "n < 2 ^ 32 \<Longrightarrow> unat (of_nat n :: u32) = n"
  by (simp add: unat_of_nat)

lemma unat_page_addr: "n < 2 ^ 20 \<Longrightarrow> unat (page_addr n) = 4096 * n"
  unfolding page_addr_def by (rule unat_of_nat32) simp

lemma page_addr_div: "unat a mod 4096 = 0 \<Longrightarrow> a = page_addr (unat a div 4096)"
proof -
  assume "unat a mod 4096 = 0"
  then have "4096 * (unat a div 4096) = unat a" by auto
  then have "page_addr (unat a div 4096) = of_nat (unat a)" unfolding page_addr_def by (rule arg_cong)
  then show ?thesis by simp
qed

lemma pool_base_eq: "pool_wf p \<Longrightarrow> pool_base p = page_addr (base_no p)"
  by (simp add: pool_wf_def base_no_def page_addr_div)

lemma page_addr_add: "page_addr n + of_nat (4096 * k) = page_addr (n + k)"
  by (simp add: page_addr_def algebra_simps)

lemma pg_no_page_addr: "n < 2 ^ 20 \<Longrightarrow> unat (pg_no (page_addr n)) = n"
  by (simp add: unat_pg_no unat_page_addr)

lemma pg_ofs_page_addr: "n < 2 ^ 20 \<Longrightarrow> pg_ofs (page_addr n) = 0"
  by (simp add: pg_ofs_0 unat_page_addr)

lemma page_addr_pg_no: "pg_ofs p = 0 \<Longrightarrow> p = page_addr (unat (pg_no p))"
  by (simp add: pg_ofs_0 unat_pg_no page_addr_div)

lemma base_no_pos: "pool_wf p \<Longrightarrow> 786432 \<le> base_no p"
  by (simp add: pool_wf_def base_no_def PHYS_BASE_def word_le_nat_alt less_eq_div_iff_mult_less_eq)

lemma get_set_pool [simp]:
  "get_pool u (set_pool u p m) = p" "kmem (set_pool u p m) = kmem m"
  "get_pool (\<not> u) (set_pool u p m) = get_pool (\<not> u) m" "get_pool u (m\<lparr>kmem := x\<rparr>) = get_pool u m"
  "init_page_dir (set_pool u p m) = init_page_dir m" "cr3 (set_pool u p m) = cr3 m"
  "init_ram_pages (set_pool u p m) = init_ram_pages m"
  by (simp_all add: get_pool_def set_pool_def)

lemma in_pages:
  assumes "n + cnt \<le> 2 ^ 20" and "n < 2 ^ 20"
  shows "unat (a - page_addr n) < 4096 * cnt \<longleftrightarrow> n \<le> unat a div 4096 \<and> unat a div 4096 < n + cnt"
proof -
  have p: "unat (page_addr n) = 4096 * n" and lt: "unat a < 2 ^ 32"
    using assms(2) unsigned_less [of a, where ?'a = nat] by (simp_all add: unat_page_addr)
  show ?thesis
  proof (cases "4096 * n \<le> unat a")
    case True
    then have "unat (a - page_addr n) = unat a - 4096 * n" using p by (simp add: unat_sub_if')
    then show ?thesis using True by (auto simp: div_less_iff_less_mult less_eq_div_iff_mult_less_eq algebra_simps)
  next
    case False
    then have "unat (a - page_addr n) = unat a + 2 ^ 32 - 4096 * n" using p by (simp add: unat_sub_if')
    moreover have "\<not> n \<le> unat a div 4096" using False by (simp add: less_eq_div_iff_mult_less_eq algebra_simps)
    ultimately show ?thesis using assms(1) by simp
  qed
qed

section \<open>Allocation and release\<close>

lemma set_get_pool [simp]: "set_pool u (get_pool u m) m = m"
  by (simp add: set_pool_def get_pool_def)

lemma machine_wf_pool: "machine_wf m \<Longrightarrow> pool_wf (get_pool u m)"
  by (simp add: machine_wf_def get_pool_def)

lemma pool_wf_bound: "pool_wf p \<Longrightarrow> k + cnt \<le> pool_pages p \<Longrightarrow> base_no p + k + cnt \<le> 2 ^ 20 \<and> wrap32 (4096 * cnt) = 4096 * cnt"
  using base_no_pos [of p] by (simp add: pool_wf_def wrap32_def)

lemma page_used_get: "page_used m n \<longleftrightarrow> pool_used (get_pool u m) n \<or> pool_used (get_pool (\<not> u) m) n"
  by (auto simp: page_used_def get_pool_def)

text \<open>The pool after pages \<open>k, \<dots>, k + cnt - 1\<close> of it were marked with \<open>v\<close>.\<close>

definition marked :: "pool \<Rightarrow> nat \<Rightarrow> nat \<Rightarrow> bool \<Rightarrow> pool \<Rightarrow> bool" where
  "marked p k cnt v p' \<longleftrightarrow> pool_base p' = pool_base p \<and> pool_pages p' = pool_pages p \<and> bitmap_wf (used_map p') \<and>
     bm_bits (used_map p') = overwrite (bm_bits (used_map p)) k (replicate cnt v)"

lemma marked_wf: "pool_wf p \<Longrightarrow> marked p k cnt v p' \<Longrightarrow> pool_wf p' \<and> base_no p' = base_no p"
  by (simp add: marked_def pool_wf_def base_no_def)

lemma marked_used:
  assumes "marked p k cnt v p'" and "k + cnt \<le> pool_pages p"
  shows "pool_used p' n \<longleftrightarrow> (if base_no p + k \<le> n \<and> n < base_no p + k + cnt then v else pool_used p n)"
proof -
  have "base_no p' = base_no p" using assms(1) by (simp add: marked_def base_no_def)
  then show ?thesis using assms by (auto simp: marked_def pool_used_def nth_overwrite split: if_splits)
qed

lemma machine_wf_marked:
  assumes "machine_wf m" and "marked (get_pool u m) k cnt v p'"
  shows "machine_wf (set_pool u p' m)"
  using assms marked_wf [OF machine_wf_pool [OF assms(1)] assms(2)]
  by (cases u) (auto simp: machine_wf_def set_pool_def get_pool_def marked_def)

lemma page_used_marked:
  assumes wf: "machine_wf m" and mk: "marked (get_pool u m) k cnt v p'" and le: "k + cnt \<le> pool_pages (get_pool u m)"
  shows "page_used (set_pool u p' m) n \<longleftrightarrow>
    (if base_no (get_pool u m) + k \<le> n \<and> n < base_no (get_pool u m) + k + cnt then v else page_used m n)"
proof -
  have "\<not> pool_used (get_pool (\<not> u) m) n" if "base_no (get_pool u m) + k \<le> n" "n < base_no (get_pool u m) + k + cnt"
    using wf that le by (cases u) (auto simp: machine_wf_def get_pool_def pool_used_def disjoint_iff)
  then show ?thesis
    using marked_used [OF mk le, of n] by (auto simp: page_used_get [where u = u])
qed

lemma palloc_get_cases:
  assumes wf: "machine_wf m" and cnt: "0 < cnt" and fl: "flags AND PAL_ASSERT = 0" and u: "u = (flags AND PAL_USER \<noteq> 0)"
  obtains (none) "palloc_get_multiple flags cnt m = Some (0, m)"
      "\<And>k. k + cnt \<le> pool_pages (get_pool u m) \<Longrightarrow> \<exists>j < cnt. page_used m (base_no (get_pool u m) + k + j)"
    | (some) k p' where "palloc_get_multiple flags cnt m = Some (page_addr (base_no (get_pool u m) + k),
        (set_pool u p' m)\<lparr>kmem := (if flags AND PAL_ZERO \<noteq> 0 then fill (kmem m) (page_addr (base_no (get_pool u m) + k)) 0 (4096 * cnt) else kmem m)\<rparr>)"
      "k + cnt \<le> pool_pages (get_pool u m)" "marked (get_pool u m) k cnt True p'"
      "\<And>j. j < cnt \<Longrightarrow> \<not> pool_used (get_pool u m) (base_no (get_pool u m) + k + j)"
proof -
  let ?p = "get_pool u m"
  have pw: "pool_wf ?p" using machine_wf_pool [OF wf] .
  then have bw: "bitmap_wf (used_map ?p)" by (simp add: pool_wf_def)
  show ?thesis
  proof (cases rule: bitmap_alloc_cases [OF bw le0, where cnt = cnt and v = False])
    case 1
    show ?thesis
    proof (rule none)
      show "palloc_get_multiple flags cnt m = Some (0, m)" using 1(1) cnt fl u by (simp add: palloc_get_multiple_def)
      fix k assume "k + cnt \<le> pool_pages ?p"
      then show "\<exists>j < cnt. page_used m (base_no ?p + k + j)"
        using 1(2) [of k] by (auto simp: page_used_get [where u = u] pool_used_def add.assoc)
    qed
  next
    case (2 k b)
    have bd: "base_no ?p + k + cnt \<le> 2 ^ 20" "wrap32 (4096 * cnt) = 4096 * cnt" using pool_wf_bound [OF pw 2(4)] by simp_all
    have a: "pool_base ?p + of_nat (4096 * k) = page_addr (base_no ?p + k)" using pool_base_eq [OF pw] page_addr_add by simp
    have "unat (page_addr (base_no ?p + k)) \<noteq> 0" using bd(1) cnt base_no_pos [OF pw] by (simp add: unat_page_addr)
    then have nz: "page_addr (base_no ?p + k) \<noteq> 0" by auto
    show ?thesis
    proof (rule some [of k "?p\<lparr>used_map := b\<rparr>"])
      show "palloc_get_multiple flags cnt m = Some (page_addr (base_no ?p + k),
          (set_pool u (?p\<lparr>used_map := b\<rparr>) m)\<lparr>kmem := (if flags AND PAL_ZERO \<noteq> 0 then fill (kmem m) (page_addr (base_no ?p + k)) 0 (4096 * cnt) else kmem m)\<rparr>)"
        using 2(1,2) cnt u nz bd(2) a by (auto simp: palloc_get_multiple_def Let_def simp del: of_nat_mult)
    qed (use 2 in \<open>auto simp: marked_def pool_used_def add.assoc\<close>)
  qed
qed

lemma page_from_pool_iff:
  assumes "pool_wf p" and "n < 2 ^ 20"
  shows "page_from_pool p (page_addr n) \<longleftrightarrow> base_no p \<le> n \<and> n < base_no p + pool_pages p"
proof -
  have b: "base_no p + pool_pages p \<le> 2 ^ 20" using assms(1) by (simp add: pool_wf_def)
  have "unat (pg_no (pool_base p)) = base_no p" by (simp add: unat_pg_no base_no_def)
  then show ?thesis
    using b assms(2) by (simp add: page_from_pool_def Let_def pg_no_page_addr bitmap_size_def wrap32_def)
qed

lemma palloc_free_ok:
  assumes wf: "machine_wf m" and k: "k + cnt \<le> pool_pages (get_pool u m)" "0 < cnt"
    and used: "\<And>j. j < cnt \<Longrightarrow> pool_used (get_pool u m) (base_no (get_pool u m) + k + j)"
  obtains p' where "palloc_free_multiple (page_addr (base_no (get_pool u m) + k)) cnt m =
      Some ((set_pool u p' m)\<lparr>kmem := fill (kmem m) (page_addr (base_no (get_pool u m) + k)) 0xcc (4096 * cnt)\<rparr>)"
    "marked (get_pool u m) k cnt False p'"
proof -
  let ?p = "get_pool u m"
  define n where "n = base_no ?p + k"
  have pw: "pool_wf ?p" "pool_wf (get_pool v m)" for v using machine_wf_pool [OF wf] by simp_all
  have bd: "n + cnt \<le> 2 ^ 20" "wrap32 (4096 * cnt) = 4096 * cnt" "n < 2 ^ 20" "k < 2 ^ 20"
    using pool_wf_bound [OF pw(1) k(1)] k(2) by (simp_all add: n_def)
  have "(if page_from_pool (kernel_pool m) (page_addr n) then Some False
      else if page_from_pool (user_pool m) (page_addr n) then Some True else None) = Some u"
    using wf k pw(2) [of False] pw(2) [of True] page_from_pool_iff [OF _ bd(3)]
    by (cases u) (auto simp: machine_wf_def get_pool_def n_def disjoint_iff)
  moreover have "unat (pg_no (page_addr n) - pg_no (pool_base ?p)) = k"
  proof -
    have "pg_no (pool_base ?p) \<le> pg_no (page_addr n)"
      using pg_no_page_addr [OF bd(3)] by (simp add: word_le_nat_alt unat_pg_no n_def base_no_def)
    then show ?thesis using pg_no_page_addr [OF bd(3)] by (simp add: unat_sub unat_pg_no n_def base_no_def)
  qed
  moreover have bw: "bitmap_wf (used_map ?p)" using pw(1) by (simp add: pool_wf_def)
  moreover have "bitmap_all (used_map ?p) k cnt = Some True"
    using bitmap_all_eq [OF bw k(1)] used k(1) by (auto simp: list_all_length pool_used_def add.assoc)
  moreover obtain b where b: "bitmap_set_multiple (used_map ?p) k cnt False = Some b" "bitmap_wf b"
    "bit_cnt b = pool_pages ?p" "bm_bits b = overwrite (bm_bits (used_map ?p)) k (replicate cnt False)"
    using bitmap_set_multiple_ex [OF bw k(1)] by blast
  moreover have "page_addr n \<noteq> 0" using bd(3) base_no_pos [OF pw(1)] unat_page_addr [OF bd(3)] by (auto simp: n_def)
  ultimately have "palloc_free_multiple (page_addr n) cnt m =
      Some ((set_pool u (?p\<lparr>used_map := b\<rparr>) m)\<lparr>kmem := fill (kmem m) (page_addr n) 0xcc (4096 * cnt)\<rparr>)"
    using k(2) pg_ofs_page_addr [OF bd(3)] bd(2) by (simp add: palloc_free_multiple_def Let_def set_pool_def)
  then show ?thesis using that [of "?p\<lparr>used_map := b\<rparr>"] b by (simp add: marked_def n_def)
qed

lemma machine_wf_kmem [simp]: "machine_wf (m\<lparr>kmem := x\<rparr>) = machine_wf m" "page_used (m\<lparr>kmem := x\<rparr>) = page_used m"
  by (simp_all add: machine_wf_def page_used_def fun_eq_iff)

text \<open>What no allocation changes: where the pools are, the size of memory and the kernel's page directory.\<close>

definition same_cfg :: "machine \<Rightarrow> machine \<Rightarrow> bool" where
  "same_cfg m m' \<longleftrightarrow> init_page_dir m' = init_page_dir m \<and> init_ram_pages m' = init_ram_pages m \<and>
     (\<forall>u. base_no (get_pool u m') = base_no (get_pool u m) \<and> pool_pages (get_pool u m') = pool_pages (get_pool u m))"

lemma same_cfg_refl [simp]: "same_cfg m m"
  by (simp add: same_cfg_def)

lemma same_cfg_trans: "same_cfg m m' \<Longrightarrow> same_cfg m' m'' \<Longrightarrow> same_cfg m m''"
  by (simp add: same_cfg_def)

lemma same_cfg_kmem [simp]: "same_cfg m (m'\<lparr>kmem := x\<rparr>) = same_cfg m m'" "same_cfg (m\<lparr>kmem := x\<rparr>) m' = same_cfg m m'"
  by (simp_all add: same_cfg_def get_pool_def)

lemma palloc_get_some:
  assumes wf: "machine_wf m" and cnt: "0 < cnt" and fl: "flags AND PAL_ASSERT = 0" and u: "u = (flags AND PAL_USER \<noteq> 0)"
  obtains (none) "palloc_get_multiple flags cnt m = Some (0, m)"
      "\<And>k. k + cnt \<le> pool_pages (get_pool u m) \<Longrightarrow> \<exists>j < cnt. page_used m (base_no (get_pool u m) + k + j)"
    | (some) n k m1 where "palloc_get_multiple flags cnt m = Some (page_addr n, m1)" "n = base_no (get_pool u m) + k"
      "k + cnt \<le> pool_pages (get_pool u m)" "n + cnt \<le> 2 ^ 20" "machine_wf m1" "page_addr n \<noteq> 0"
      "\<forall>j. n \<le> j \<and> j < n + cnt \<longrightarrow> \<not> page_used m j" "\<forall>j. page_used m1 j \<longleftrightarrow> page_used m j \<or> (n \<le> j \<and> j < n + cnt)"
      "\<forall>a. kmem m1 a = (if flags AND PAL_ZERO \<noteq> 0 \<and> n \<le> unat a div 4096 \<and> unat a div 4096 < n + cnt then 0 else kmem m a)"
      "get_pool u m1 = get_pool u m\<lparr>used_map := used_map (get_pool u m1)\<rparr>" "pool_pages (get_pool u m1) = pool_pages (get_pool u m)"
      "786432 \<le> n" "init_page_dir m1 = init_page_dir m" "cr3 m1 = cr3 m" "init_ram_pages m1 = init_ram_pages m"
      "get_pool (\<not> u) m1 = get_pool (\<not> u) m" "same_cfg m m1"
proof (cases rule: palloc_get_cases [OF wf cnt fl u])
  case 1
  then show ?thesis using none by blast
next
  case (2 k p')
  let ?p = "get_pool u m"
  define n where "n = base_no ?p + k"
  have pw: "pool_wf ?p" using machine_wf_pool [OF wf] .
  have bd: "n + cnt \<le> 2 ^ 20" "n < 2 ^ 20" "786432 \<le> n" using pool_wf_bound [OF pw 2(2)] cnt base_no_pos [OF pw] by (simp_all add: n_def)
  have nz: "page_addr n \<noteq> 0" using bd unat_page_addr [OF bd(2)] by auto
  have free: "\<not> page_used m j" if "n \<le> j" "j < n + cnt" for j
  proof -
    have "\<not> pool_used (get_pool u m) j" using 2(4) [of "j - n"] that by (simp add: n_def)
    moreover have "\<not> pool_used (get_pool (\<not> u) m) j"
      using wf that 2(2) by (cases u) (auto simp: machine_wf_def get_pool_def pool_used_def disjoint_iff n_def)
    ultimately show ?thesis by (simp add: page_used_get [where u = u])
  qed
  define m1 where "m1 = (set_pool u p' m)\<lparr>kmem := (if flags AND PAL_ZERO \<noteq> 0 then fill (kmem m) (page_addr n) 0 (4096 * cnt) else kmem m)\<rparr>"
  have run: "palloc_get_multiple flags cnt m = Some (page_addr n, m1)" using 2(1) by (simp add: m1_def n_def)
  have us: "\<forall>j. page_used m1 j \<longleftrightarrow> page_used m j \<or> (n \<le> j \<and> j < n + cnt)"
    using page_used_marked [OF wf 2(3,2), folded n_def] by (auto simp: m1_def)
  have mem: "\<forall>a. kmem m1 a = (if flags AND PAL_ZERO \<noteq> 0 \<and> n \<le> unat a div 4096 \<and> unat a div 4096 < n + cnt then 0 else kmem m a)"
    using in_pages [OF bd(1,2)] by (auto simp: m1_def fill_def)
  show ?thesis
  proof (rule some [OF run n_def 2(2) bd(1) _ nz _ us mem])
    show "machine_wf m1" using machine_wf_marked [OF wf 2(3)] by (simp add: m1_def)
    show "\<forall>j. n \<le> j \<and> j < n + cnt \<longrightarrow> \<not> page_used m j" using free by blast
  qed (use 2(3) bd(3) in \<open>auto simp: m1_def marked_def get_pool_def set_pool_def same_cfg_def base_no_def\<close>)
qed

text \<open>A small machine: eight kernel pages of which two are in use, four user pages.\<close>

definition ex_machine :: machine where
  "ex_machine = \<lparr>kmem = (\<lambda>a. 0), kernel_pool = \<lparr>used_map = \<lparr>bit_cnt = 8, bits = [3]\<rparr>, pool_base = 0xc0100000\<rparr>,
     user_pool = \<lparr>used_map = \<lparr>bit_cnt = 4, bits = [0]\<rparr>, pool_base = 0xc0110000\<rparr>,
     init_ram_pages = 1024, init_page_dir = 0xc0000000, cr3 = 0\<rparr>"

lemma ex_machine_wf: "machine_wf ex_machine"
  by (simp add: machine_wf_def ex_machine_def pool_wf_def bitmap_wf_def Bitmap.elem_cnt_def DIV_ROUND_UP_def
    ELEM_BITS_def wrap32_def base_no_def PHYS_BASE_def word_le_nat_alt)

section \<open>Single pages as an interface\<close>

text \<open>What the owners of pages rely on: a page that is handed out was not owned, and it can be given back.\<close>

locale page_source =
  fixes get :: "'s \<Rightarrow> (u32 \<times> 's) option" and put :: "u32 \<Rightarrow> 's \<Rightarrow> 's option" and inv :: "'s \<Rightarrow> bool"
    and owned :: "'s \<Rightarrow> u32 set" and area :: "'s \<Rightarrow> u32 set" and cfg :: "'s \<Rightarrow> 'c"
  assumes get_law: "inv m \<Longrightarrow> get m = Some (0, m) \<or> (\<exists>p m'. get m = Some (p, m') \<and> p \<noteq> 0 \<and> inv m' \<and> p \<in> area m \<and> p \<notin> owned m \<and>
      owned m' = insert p (owned m) \<and> area m' = area m \<and> cfg m' = cfg m)"
    and put_law: "inv m \<Longrightarrow> p \<in> owned m \<Longrightarrow>
      \<exists>m'. put p m = Some m' \<and> inv m' \<and> owned m' = owned m - {p} \<and> area m' = area m \<and> cfg m' = cfg m"
begin

text \<open>Objects that live in pages: all but one in owned pages, the exception outside the area.\<close>

definition housed :: "u32 set \<Rightarrow> u32 \<Rightarrow> 's \<Rightarrow> bool" where
  "housed live x m \<longleftrightarrow> inv m \<and> live - {x} \<subseteq> owned m \<and> x \<notin> area m"

lemma housed_get:
  assumes "housed live x m" and "get m = Some (p, m')" and "p \<noteq> 0"
  shows "p \<notin> live \<and> housed (insert p live) x m' \<and> cfg m' = cfg m \<and> p \<noteq> x"
  using get_law [of m] assms by (auto simp: housed_def)

lemma housed_get_null: "housed live x m \<Longrightarrow> get m = Some (0, m') \<Longrightarrow> m' = m"
  using get_law [of m] by (auto simp: housed_def)

lemma housed_put:
  assumes "housed live x m" and "p \<in> live" and "p \<noteq> x"
  obtains m' where "put p m = Some m'" "housed (live - {p}) x m'" "cfg m' = cfg m"
proof -
  have "inv m" "p \<in> owned m" using assms by (auto simp: housed_def)
  from put_law [OF this] obtain m' where "put p m = Some m'" "inv m'" "owned m' = owned m - {p}" "area m' = area m" "cfg m' = cfg m" by blast
  then show ?thesis using that assms(1) by (fastforce simp: housed_def)
qed

lemma housed_put_Some:
  assumes "housed live x m" and "p \<in> live" and "p \<noteq> x" and "put p m = Some m'"
  shows "housed (live - {p}) x m' \<and> cfg m' = cfg m"
  using housed_put [OF assms(1-3)] assms(4) by (metis option.inject)

end

definition owned_pages :: "machine \<Rightarrow> u32 set" where
  "owned_pages m = {p. \<exists>n < 2 ^ 20. p = page_addr n \<and> page_used m n}"

definition pool_area :: "machine \<Rightarrow> u32 set" where
  "pool_area m = {p. \<exists>u k. k < pool_pages (get_pool u m) \<and> p = page_addr (base_no (get_pool u m) + k)}"

lemma page_addr_inj: "n < 2 ^ 20 \<Longrightarrow> n' < 2 ^ 20 \<Longrightarrow> page_addr n = page_addr n' \<longleftrightarrow> n = n'"
  by (metis mult_cancel1 unat_page_addr zero_neq_numeral)

lemma pool_area_marked:
  assumes "marked (get_pool u m) k cnt v p'"
  shows "pool_area ((set_pool u p' m)\<lparr>kmem := x\<rparr>) = pool_area m"
proof -
  have b: "base_no p' = base_no (get_pool u m)" "pool_pages p' = pool_pages (get_pool u m)" using assms by (simp_all add: marked_def base_no_def)
  have "base_no (get_pool w ((set_pool u p' m)\<lparr>kmem := x\<rparr>)) = base_no (get_pool w m) \<and>
      pool_pages (get_pool w ((set_pool u p' m)\<lparr>kmem := x\<rparr>)) = pool_pages (get_pool w m)" for w
    using b by (cases "w = u") (auto simp: get_pool_def set_pool_def split: if_splits)
  then show ?thesis by (simp add: pool_area_def)
qed

lemma owned_pages_marked:
  assumes wf: "machine_wf m" and mk: "marked (get_pool u m) k 1 v p'" and k: "k < pool_pages (get_pool u m)"
  shows "owned_pages ((set_pool u p' m)\<lparr>kmem := x\<rparr>) =
    (if v then insert (page_addr (base_no (get_pool u m) + k)) (owned_pages m) else owned_pages m - {page_addr (base_no (get_pool u m) + k)})"
proof -
  let ?n = "base_no (get_pool u m) + k"
  have n: "?n < 2 ^ 20" using pool_wf_bound [OF machine_wf_pool [OF wf], of k 1 u] k by simp
  have us: "page_used ((set_pool u p' m)\<lparr>kmem := x\<rparr>) j \<longleftrightarrow> (if j = ?n then v else page_used m j)" for j
    using page_used_marked [OF wf mk, of j] k by (auto simp: le_less_Suc_eq page_used_def)
  show ?thesis
  proof (cases v)
    case True
    have "p \<in> owned_pages ((set_pool u p' m)\<lparr>kmem := x\<rparr>) \<longleftrightarrow> p = page_addr ?n \<or> p \<in> owned_pages m" for p
      unfolding owned_pages_def mem_Collect_eq us using True n by metis
    then show ?thesis using True by auto
  next
    case False
    have "p \<in> owned_pages ((set_pool u p' m)\<lparr>kmem := x\<rparr>) \<longleftrightarrow> p \<in> owned_pages m \<and> p \<noteq> page_addr ?n" for p
      unfolding owned_pages_def mem_Collect_eq us using False page_addr_inj [OF n] by metis
    then show ?thesis using False by auto
  qed
qed

interpretation pg: page_source "palloc_get_page PAL_ZERO" palloc_free_page machine_wf owned_pages pool_area init_page_dir
proof
  fix m assume wf: "machine_wf m"
  have fl: "PAL_ZERO AND PAL_ASSERT = 0" "False = (PAL_ZERO AND PAL_USER \<noteq> 0)" by (simp_all add: PAL_ZERO_def PAL_ASSERT_def PAL_USER_def)
  show "palloc_get_page PAL_ZERO m = Some (0, m) \<or> (\<exists>p m'. palloc_get_page PAL_ZERO m = Some (p, m') \<and> p \<noteq> 0 \<and> machine_wf m' \<and>
      p \<in> pool_area m \<and> p \<notin> owned_pages m \<and> owned_pages m' = insert p (owned_pages m) \<and> pool_area m' = pool_area m \<and> init_page_dir m' = init_page_dir m)"
  proof (cases rule: palloc_get_cases [OF wf zero_less_one fl])
    case 1
    then show ?thesis by (simp add: palloc_get_page_def)
  next
    case (2 k p')
    let ?n = "base_no (get_pool False m) + k"
    let ?m = "(set_pool False p' m)\<lparr>kmem := (if PAL_ZERO AND PAL_ZERO \<noteq> 0 then fill (kmem m) (page_addr ?n) 0 (4096 * 1) else kmem m)\<rparr>"
    have k: "k < pool_pages (get_pool False m)" using 2(2) by simp
    have n: "?n < 2 ^ 20" "0 < ?n" using pool_wf_bound [OF machine_wf_pool [OF wf] 2(2)] base_no_pos [OF machine_wf_pool [OF wf], of False] by simp_all
    have "\<not> page_used m ?n"
      using 2(4) [of 0] wf k by (auto simp: page_used_get [where u = False] machine_wf_def get_pool_def pool_used_def disjoint_iff)
    then have "page_addr ?n \<notin> owned_pages m" using page_addr_inj [OF n(1)] by (auto simp: owned_pages_def)
    moreover have "page_addr ?n \<noteq> 0" using n unat_page_addr [OF n(1)] by auto
    moreover have "page_addr ?n \<in> pool_area m" using k by (auto simp: pool_area_def)
    ultimately show ?thesis
      using 2(1) machine_wf_marked [OF wf 2(3)] owned_pages_marked [OF wf 2(3) k] pool_area_marked [OF 2(3)]
      unfolding palloc_get_page_def by (intro disjI2 exI [of _ "page_addr ?n"] exI [of _ ?m]) simp
  qed
next
  fix m p assume wf: "machine_wf m" and p: "p \<in> owned_pages m"
  then obtain n u where n: "n < 2 ^ 20" "p = page_addr n" "pool_used (get_pool u m) n"
    by (auto simp: owned_pages_def page_used_get [where u = True])
  define k where "k = n - base_no (get_pool u m)"
  have k: "k < pool_pages (get_pool u m)" "n = base_no (get_pool u m) + k" using n(3) by (auto simp: pool_used_def k_def)
  obtain p' where p': "palloc_free_multiple (page_addr (base_no (get_pool u m) + k)) 1 m =
      Some ((set_pool u p' m)\<lparr>kmem := fill (kmem m) (page_addr (base_no (get_pool u m) + k)) 0xcc (4096 * 1)\<rparr>)"
    "marked (get_pool u m) k 1 False p'"
    by (rule palloc_free_ok [OF wf, of k 1 u]) (use k n(3) in auto)
  then show "\<exists>m'. palloc_free_page p m = Some m' \<and> machine_wf m' \<and> owned_pages m' = owned_pages m - {p} \<and> pool_area m' = pool_area m \<and>
      init_page_dir m' = init_page_dir m"
    using machine_wf_marked [OF wf p'(2)] owned_pages_marked [OF wf p'(2) k(1)] pool_area_marked [OF p'(2)] k(2) n(2)
    by (simp add: palloc_free_page_def)
qed

section \<open>Properties\<close>

text \<open>C14. The page allocator: a request for \<open>cnt\<close> pages that may fail returns null, changing nothing, only
  when the chosen pool has no \<open>cnt\<close> consecutive free pages.  Otherwise it returns page-aligned memory none of whose
  pages was in use, marks exactly these pages, writes no memory outside them and, when asked to, fills them
  with zeros; freeing the same pages afterwards succeeds and makes exactly them free again.\<close>

theorem palloc_get_free:
  assumes "machine_wf m" and "0 < cnt" and "flags AND PAL_ASSERT = 0" and "pl = get_pool (flags AND PAL_USER \<noteq> 0) m"
  shows "(palloc_get_multiple flags cnt m = Some (0, m) \<and>
      (\<forall>k. k + cnt \<le> bitmap_size (used_map pl) \<longrightarrow> (\<exists>j < cnt. page_used m (base_no pl + k + j)))) \<or>
    (\<exists>n m1 m2. palloc_get_multiple flags cnt m = Some (page_addr n, m1) \<and> page_addr n \<noteq> 0 \<and>
      (\<forall>j. n \<le> j \<and> j < n + cnt \<longrightarrow> \<not> page_used m j) \<and>
      (\<forall>j. page_used m1 j \<longleftrightarrow> page_used m j \<or> (n \<le> j \<and> j < n + cnt)) \<and>
      (\<forall>a. kmem m1 a = (if flags AND PAL_ZERO \<noteq> 0 \<and> n \<le> unat a div PGSIZE \<and> unat a div PGSIZE < n + cnt then 0 else kmem m a)) \<and>
      palloc_free_multiple (page_addr n) cnt m1 = Some m2 \<and> (\<forall>j. page_used m2 j \<longleftrightarrow> page_used m j) \<and> machine_wf m2)"
proof (cases rule: palloc_get_some [OF assms(1-3) refl])
  case 1
  then show ?thesis using assms(4) by (auto simp: bitmap_size_def)
next
  case (2 n k m1)
  let ?u = "flags AND PAL_USER \<noteq> 0"
  have b: "base_no (get_pool ?u m1) = base_no (get_pool ?u m)" using 2(10) by (metis base_no_def pool.select_convs(2) pool.surjective pool.update_convs(1))
  have own: "pool_used (get_pool ?u m1) (base_no (get_pool ?u m1) + k + j)" if "j < cnt" for j
  proof -
    have "page_used m1 (n + j)" using 2(8) that by simp
    moreover have "\<not> pool_used (get_pool (\<not> ?u) m1) (n + j)"
      using 2(3,5,11) b that by (cases ?u) (auto simp: machine_wf_def get_pool_def pool_used_def disjoint_iff 2(2))
    ultimately show ?thesis using b by (simp add: page_used_get [where u = ?u] 2(2))
  qed
  have k1: "k + cnt \<le> pool_pages (get_pool ?u m1)" using 2(3,11) by simp
  obtain p' where p': "palloc_free_multiple (page_addr (base_no (get_pool ?u m1) + k)) cnt m1 =
      Some ((set_pool ?u p' m1)\<lparr>kmem := fill (kmem m1) (page_addr (base_no (get_pool ?u m1) + k)) 0xcc (4096 * cnt)\<rparr>)"
    "marked (get_pool ?u m1) k cnt False p'"
    using palloc_free_ok [OF 2(5) k1 assms(2) own] by blast
  define m2 where "m2 = (set_pool ?u p' m1)\<lparr>kmem := fill (kmem m1) (page_addr (base_no (get_pool ?u m1) + k)) 0xcc (4096 * cnt)\<rparr>"
  have "palloc_free_multiple (page_addr n) cnt m1 = Some m2" using p'(1) b by (simp add: m2_def 2(2))
  moreover have "page_used m2 j \<longleftrightarrow> page_used m j" for j
    using page_used_marked [OF 2(5) p'(2) k1, of j] 2(7,8) b by (auto simp: m2_def 2(2))
  moreover have "machine_wf m2" using machine_wf_marked [OF 2(5) p'(2)] by (simp add: m2_def)
  ultimately show ?thesis
    by (intro disjI2, rule_tac exI [of _ n], rule_tac exI [of _ m1], rule_tac exI [of _ m2]) (use 2(1,6-9) in simp)
qed

theorem palloc_get_free_witness:
  "(palloc_get_multiple PAL_ZERO 2 ex_machine = Some (0, ex_machine) \<and>
      (\<forall>k. k + 2 \<le> bitmap_size (used_map (kernel_pool ex_machine)) \<longrightarrow>
        (\<exists>j < 2. page_used ex_machine (base_no (kernel_pool ex_machine) + k + j)))) \<or>
    (\<exists>n m1 m2. palloc_get_multiple PAL_ZERO 2 ex_machine = Some (page_addr n, m1) \<and> page_addr n \<noteq> 0 \<and>
      (\<forall>j. n \<le> j \<and> j < n + 2 \<longrightarrow> \<not> page_used ex_machine j) \<and>
      (\<forall>j. page_used m1 j \<longleftrightarrow> page_used ex_machine j \<or> (n \<le> j \<and> j < n + 2)) \<and>
      (\<forall>a. kmem m1 a = (if PAL_ZERO AND PAL_ZERO \<noteq> 0 \<and> n \<le> unat a div PGSIZE \<and> unat a div PGSIZE < n + 2 then 0 else kmem ex_machine a)) \<and>
      palloc_free_multiple (page_addr n) 2 m1 = Some m2 \<and> (\<forall>j. page_used m2 j \<longleftrightarrow> page_used ex_machine j) \<and> machine_wf m2)"
  by (rule palloc_get_free [OF ex_machine_wf]) (simp_all add: PAL_ZERO_def PAL_ASSERT_def PAL_USER_def get_pool_def)

end
