(* ===== verification/Pagedir.thy ===== *)
theory Pagedir
  imports Palloc
begin

unbundle bit_operations_syntax

text \<open>
  Two-level page tables (userprog/pagedir.c) in the memory of the machine.  A page directory is the
  address of its page.  The translation lookaside buffer is not part of the state: invalidating it
  reloads CR3.
\<close>

section \<open>Operations\<close>

definition pagedir_create :: "machine \<Rightarrow> (u32 \<times> machine) option" where
  "pagedir_create m = do {
     (pd, m) \<leftarrow> palloc_get_page 0 m;
     Some (pd, if pd \<noteq> 0 then m\<lparr>kmem := copy (kmem m) pd (init_page_dir m) PGSIZE\<rparr> else m)
   }"

text \<open>The two loops of \<^verbatim>\<open>pagedir_destroy\<close>, over the entries left.\<close>

primrec destroy_ptes :: "u32 \<Rightarrow> nat list \<Rightarrow> machine \<Rightarrow> machine option" where
  "destroy_ptes pt [] m = Some m"
| "destroy_ptes pt (j # js) m = do {
     let pte = rd32 (kmem m) (pt + 4 * of_nat j);
     m \<leftarrow> (if pte AND PTE_P \<noteq> 0 then do { page \<leftarrow> pte_get_page pte; palloc_free_page page m } else Some m);
     destroy_ptes pt js m
   }"

primrec destroy_pdes :: "u32 \<Rightarrow> nat list \<Rightarrow> machine \<Rightarrow> machine option" where
  "destroy_pdes pd [] m = Some m"
| "destroy_pdes pd (i # is) m = do {
     let pde = rd32 (kmem m) (pd + 4 * of_nat i);
     m \<leftarrow> (if pde AND PTE_P \<noteq> 0 then do {
             pt \<leftarrow> pde_get_pt pde;
             m \<leftarrow> destroy_ptes pt [0..<PGSIZE div 4] m;
             palloc_free_page pt m
           } else Some m);
     destroy_pdes pd is m
   }"

definition pagedir_destroy :: "u32 \<Rightarrow> machine \<Rightarrow> machine option" where
  "pagedir_destroy pd m = (
     if pd = 0 then Some m
     else do {
       ASSERT (pd \<noteq> init_page_dir m);
       m \<leftarrow> destroy_pdes pd [0..<unat (pd_no PHYS_BASE)] m;
       palloc_free_page pd m
     })"

definition lookup_page :: "u32 \<Rightarrow> u32 \<Rightarrow> bool \<Rightarrow> machine \<Rightarrow> (u32 \<times> machine) option" where
  "lookup_page pd vaddr create m = do {
     ASSERT (pd \<noteq> 0);
     ASSERT (\<not> create \<or> is_user_vaddr vaddr);
     let pde = pd + 4 * pd_no vaddr;
     (found, m) \<leftarrow>
       (if rd32 (kmem m) pde = 0 then
          (if create then do {
             (pt, m) \<leftarrow> palloc_get_page PAL_ZERO m;
             if pt = 0 then Some (False, m)
             else do { e \<leftarrow> pde_create pt; Some (True, m\<lparr>kmem := wr32 (kmem m) pde e\<rparr>) }
           } else Some (False, m))
        else Some (True, m));
     if found then do {
       pt \<leftarrow> pde_get_pt (rd32 (kmem m) pde);
       Some (pt + 4 * pt_no vaddr, m)
     } else Some (0, m)
   }"

definition pagedir_set_page :: "u32 \<Rightarrow> u32 \<Rightarrow> u32 \<Rightarrow> bool \<Rightarrow> machine \<Rightarrow> (bool \<times> machine) option" where
  "pagedir_set_page pd upage kpage writable m = do {
     ASSERT (pg_ofs upage = 0);
     ASSERT (pg_ofs kpage = 0);
     ASSERT (is_user_vaddr upage);
     p \<leftarrow> vtop kpage;
     ASSERT (drop_bit PTSHIFT p < init_ram_pages m);
     ASSERT (pd \<noteq> init_page_dir m);
     (pte, m) \<leftarrow> lookup_page pd upage True m;
     if pte \<noteq> 0 then do {
       ASSERT (rd32 (kmem m) pte AND PTE_P = 0);
       e \<leftarrow> pte_create_user kpage writable;
       Some (True, m\<lparr>kmem := wr32 (kmem m) pte e\<rparr>)
     } else Some (False, m)
   }"

definition pagedir_get_page :: "u32 \<Rightarrow> u32 \<Rightarrow> machine \<Rightarrow> u32 option" where
  "pagedir_get_page pd uaddr m = do {
     ASSERT (is_user_vaddr uaddr);
     (pte, m) \<leftarrow> lookup_page pd uaddr False m;
     if pte \<noteq> 0 \<and> rd32 (kmem m) pte AND PTE_P \<noteq> 0
     then do { page \<leftarrow> pte_get_page (rd32 (kmem m) pte); Some (page + pg_ofs uaddr) }
     else Some 0
   }"

definition pagedir_activate :: "u32 \<Rightarrow> machine \<Rightarrow> machine option" where
  "pagedir_activate pd m = do {
     p \<leftarrow> vtop (if pd = 0 then init_page_dir m else pd);
     Some (m\<lparr>cr3 := p\<rparr>)
   }"

definition active_pd :: "machine \<Rightarrow> u32 option" where
  "active_pd m = ptov (cr3 m)"

definition invalidate_pagedir :: "u32 \<Rightarrow> machine \<Rightarrow> machine option" where
  "invalidate_pagedir pd m = do { a \<leftarrow> active_pd m; if a = pd then pagedir_activate pd m else Some m }"

definition pagedir_clear_page :: "u32 \<Rightarrow> u32 \<Rightarrow> machine \<Rightarrow> machine option" where
  "pagedir_clear_page pd upage m = do {
     ASSERT (pg_ofs upage = 0);
     ASSERT (is_user_vaddr upage);
     (pte, m) \<leftarrow> lookup_page pd upage False m;
     if pte \<noteq> 0 \<and> rd32 (kmem m) pte AND PTE_P \<noteq> 0
     then invalidate_pagedir pd (m\<lparr>kmem := wr32 (kmem m) pte (rd32 (kmem m) pte AND NOT PTE_P)\<rparr>)
     else Some m
   }"

text \<open>The four functions on the dirty and the accessed bit have one shape.\<close>

definition pte_bit :: "u32 \<Rightarrow> u32 \<Rightarrow> u32 \<Rightarrow> machine \<Rightarrow> bool option" where
  "pte_bit flag pd vpage m = do {
     (pte, m) \<leftarrow> lookup_page pd vpage False m;
     Some (pte \<noteq> 0 \<and> rd32 (kmem m) pte AND flag \<noteq> 0)
   }"

definition pte_set_bit :: "u32 \<Rightarrow> u32 \<Rightarrow> u32 \<Rightarrow> bool \<Rightarrow> machine \<Rightarrow> machine option" where
  "pte_set_bit flag pd vpage v m = do {
     (pte, m) \<leftarrow> lookup_page pd vpage False m;
     if pte = 0 then Some m
     else if v then Some (m\<lparr>kmem := wr32 (kmem m) pte (rd32 (kmem m) pte OR flag)\<rparr>)
     else invalidate_pagedir pd (m\<lparr>kmem := wr32 (kmem m) pte (rd32 (kmem m) pte AND NOT flag)\<rparr>)
   }"

definition pagedir_is_dirty :: "u32 \<Rightarrow> u32 \<Rightarrow> machine \<Rightarrow> bool option" where
  "pagedir_is_dirty = pte_bit PTE_D"

definition pagedir_set_dirty :: "u32 \<Rightarrow> u32 \<Rightarrow> bool \<Rightarrow> machine \<Rightarrow> machine option" where
  "pagedir_set_dirty = pte_set_bit PTE_D"

definition pagedir_is_accessed :: "u32 \<Rightarrow> u32 \<Rightarrow> machine \<Rightarrow> bool option" where
  "pagedir_is_accessed = pte_bit PTE_A"

definition pagedir_set_accessed :: "u32 \<Rightarrow> u32 \<Rightarrow> bool \<Rightarrow> machine \<Rightarrow> machine option" where
  "pagedir_set_accessed = pte_set_bit PTE_A"

section \<open>Words in memory\<close>

lemma unat_add_small: "unat a + k < 2 ^ 32 \<Longrightarrow> unat (a + of_nat k) = unat a + k" for a :: u32
  by (simp add: unat_word_ariths unat_of_nat)

definition aligned4 :: "u32 \<Rightarrow> bool" where
  "aligned4 a \<longleftrightarrow> unat a mod 4 = 0"

lemma aligned4_byte: "aligned4 a \<Longrightarrow> k < 4 \<Longrightarrow> unat (a + of_nat k) = unat a + k"
proof (rule unat_add_small)
  assume a: "aligned4 a" "k < 4"
  obtain q where q: "unat a = 4 * q" using a(1) by (auto simp: aligned4_def mod_eq_0_iff_dvd elim: dvdE)
  have "unat a < 2 ^ 32" using unsigned_less [of a, where ?'a = nat] by simp
  then have "q < 1073741824" using q by simp
  then show "unat a + k < 2 ^ 32" using a(2) q by simp
qed

lemma aligned4_disjoint:
  assumes "aligned4 a" and "aligned4 b" and "k < 4" and "l < 4" and "a + of_nat k = b + of_nat l"
  shows "a = b \<and> k = l"
proof -
  have "unat a + k = unat b + l" using assms aligned4_byte by metis
  then show ?thesis using assms(1-4) unfolding aligned4_def word_unat_eq_iff by presburger
qed

lemma rd32_wr32:
  assumes "aligned4 a" and "aligned4 b"
  shows "rd32 (wr32 m a v) b = (if a = b then v else rd32 m b)"
proof -
  have ne: "a + of_nat k \<noteq> b + of_nat l" if "a \<noteq> b \<or> k \<noteq> l" "k < 4" "l < 4" for k l
    using aligned4_disjoint [OF assms that(2,3)] that(1) by blast
  have z: "(of_nat 0 :: u32) = 0" "(of_nat 1 :: u32) = 1" "(of_nat 2 :: u32) = 2" "(of_nat 3 :: u32) = 3" by simp_all
  show ?thesis
  proof (cases "a = b")
    case True
    have "[wr32 m a v a, wr32 m a v (a + 1), wr32 m a v (a + 2), wr32 m a v (a + 3)] = u32_bytes v"
      by (simp add: wr32_def Let_def u32_bytes_def)
    then show ?thesis using True by (simp add: rd32_def)
  next
    case False
    have "wr32 m a v (b + of_nat l) = m (b + of_nat l)" if "l < 4" for l
      using ne [of 0 l] ne [of 1 l] ne [of 2 l] ne [of 3 l] False that by (auto simp: wr32_def Let_def)
    from this [of 0] this [of 1] this [of 2] this [of 3] show ?thesis using False by (simp add: rd32_def)
  qed
qed

section \<open>Table entries\<close>

text \<open>The address of entry \<open>j\<close> of the table in page \<open>n\<close>.\<close>

definition ent :: "nat \<Rightarrow> nat \<Rightarrow> u32" where
  "ent n j = page_addr n + of_nat (4 * j)"

lemma unat_ent: "n < 2 ^ 20 \<Longrightarrow> j < 1024 \<Longrightarrow> unat (ent n j) = 4096 * n + 4 * j"
  unfolding ent_def by (subst unat_add_small) (simp_all add: unat_page_addr)

lemma ent_aligned: "n < 2 ^ 20 \<Longrightarrow> j < 1024 \<Longrightarrow> aligned4 (ent n j)"
  by (simp add: aligned4_def unat_ent mod_add_eq [symmetric] mod_mult_left_eq)

lemma ent_inj: "n < 2 ^ 20 \<Longrightarrow> j < 1024 \<Longrightarrow> n' < 2 ^ 20 \<Longrightarrow> j' < 1024 \<Longrightarrow> ent n j = ent n' j' \<longleftrightarrow> n = n' \<and> j = j'"
proof -
  assume a: "n < 2 ^ 20" "j < 1024" "n' < 2 ^ 20" "j' < 1024"
  have "n = n' \<and> j = j'" if "1024 * n + j = 1024 * n' + j'"
  proof -
    have "(1024 * n + j) div 1024 = n" "(1024 * n' + j') div 1024 = n'" using a(2,4) by simp_all
    then show ?thesis using that by auto
  qed
  moreover have "ent n j = ent n' j' \<longleftrightarrow> 4096 * n + 4 * j = 4096 * n' + 4 * j'"
    by (simp only: word_unat_eq_iff unat_ent [OF a(1,2)] unat_ent [OF a(3,4)])
  ultimately show ?thesis by auto
qed

lemma ent_page: "n < 2 ^ 20 \<Longrightarrow> j < 1024 \<Longrightarrow> k < 4 \<Longrightarrow> unat (ent n j + of_nat k) div 4096 = n"
proof -
  assume a: "n < 2 ^ 20" "j < 1024" "k < 4"
  have "unat (ent n j + of_nat k) = 4096 * n + (4 * j + k)" using aligned4_byte [OF ent_aligned [OF a(1,2)] a(3)] unat_ent [OF a(1,2)] by simp
  then show ?thesis using a(2,3) by simp
qed

lemma rd32_cong:
  assumes "n < 2 ^ 20" and "j < 1024" and "\<And>a. unat a div 4096 = n \<Longrightarrow> m' a = m a"
  shows "rd32 m' (ent n j) = rd32 m (ent n j)"
  using assms(3) ent_page [OF assms(1,2), of 0] ent_page [OF assms(1,2), of 1] ent_page [OF assms(1,2), of 2]
    ent_page [OF assms(1,2), of 3]
  by (simp add: rd32_def)

lemma rd32_zero:
  assumes "n < 2 ^ 20" and "j < 1024" and "\<And>a. unat a div 4096 = n \<Longrightarrow> m a = 0"
  shows "rd32 m (ent n j) = 0"
  using rd32_cong [OF assms(1,2), of m "\<lambda>a. 0"] assms(3) by (simp add: rd32_def bytes_u32_def)

lemma rd32_wr32_ent:
  "n < 2 ^ 20 \<Longrightarrow> j < 1024 \<Longrightarrow> n' < 2 ^ 20 \<Longrightarrow> j' < 1024 \<Longrightarrow>
   rd32 (wr32 m (ent n j) v) (ent n' j') = (if n = n' \<and> j = j' then v else rd32 m (ent n' j'))"
  by (simp add: rd32_wr32 ent_aligned ent_inj)

section \<open>Encoding of entries\<close>

lemma page_addr_push: "page_addr n = push_bit 12 (of_nat n)"
  by (simp add: page_addr_def push_bit_eq_mult mult.commute)

lemma PTE_ADDR_eq: "PTE_ADDR = NOT (mask 12)"
  by (simp add: PTE_ADDR_def mask_eq_exp_minus_1)

lemma pte_flags:
  assumes "f = take_bit 12 f"
  shows "(page_addr n OR f) AND PTE_ADDR = page_addr n"
proof (rule bit_word_eqI)
  fix k assume "k < LENGTH(32)"
  moreover have "bit f k \<Longrightarrow> k < 12" using assms by (metis bit_take_bit_iff)
  ultimately show "bit ((page_addr n OR f) AND PTE_ADDR) k = bit (page_addr n) k"
    by (auto simp: page_addr_push PTE_ADDR_eq bit_simps)
qed

lemma vtop_page: "786432 \<le> n \<Longrightarrow> n < 2 ^ 20 \<Longrightarrow> vtop (page_addr n) = Some (page_addr (n - 786432))"
proof -
  assume n: "786432 \<le> n" "n < 2 ^ 20"
  have "page_addr n = page_addr (n - 786432) + of_nat (4096 * 786432)" using page_addr_add [of "n - 786432" 786432] n by simp
  then have "page_addr n - PHYS_BASE = page_addr (n - 786432)" by (simp add: PHYS_BASE_def)
  moreover have "is_kernel_vaddr (page_addr n)" using n unat_page_addr [OF n(2)] by (simp add: is_kernel_vaddr_def PHYS_BASE_def word_le_nat_alt)
  ultimately show ?thesis by (simp add: vtop_def)
qed

lemma ptov_page: "k < 262144 \<Longrightarrow> ptov (page_addr k) = Some (page_addr (k + 786432))"
proof -
  assume k: "k < 262144"
  have "page_addr k < PHYS_BASE" using k unat_page_addr [of k] by (simp add: PHYS_BASE_def word_less_nat_alt)
  then show ?thesis using page_addr_add [of k 786432] by (simp add: ptov_def PHYS_BASE_def)
qed

lemma and_PTE_ADDR: "e AND PTE_ADDR = page_addr (unat e div 4096)"
proof -
  have "e AND PTE_ADDR = push_bit 12 (pg_no e)"
    by (rule bit_word_eqI) (auto simp: PTE_ADDR_eq pg_no_def PGBITS_def bit_simps)
  also have "pg_no e = of_nat (unat (pg_no e))" by simp
  finally show ?thesis by (simp only: page_addr_push unat_pg_no)
qed

section \<open>Well-formed page directories\<close>

text \<open>Page \<open>P\<close> holds a page directory: its present user entries point to page tables, all these pages
  differ and are in use, and present table entries hold physical addresses of frames that the kernel
  maps above \<^verbatim>\<open>PHYS_BASE\<close> (the first gigabyte).\<close>

abbreviation pde_val :: "machine \<Rightarrow> nat \<Rightarrow> nat \<Rightarrow> u32" where
  "pde_val m P i \<equiv> rd32 (kmem m) (ent P i)"

definition pt_page :: "machine \<Rightarrow> nat \<Rightarrow> nat \<Rightarrow> nat" where
  "pt_page m P i = unat (pde_val m P i) div 4096 + 786432"

definition pte_ok :: "u32 \<Rightarrow> bool" where
  "pte_ok e \<longleftrightarrow> (e AND PTE_P \<noteq> 0 \<longrightarrow> unat e div 4096 < 262144)"

definition pd_wf :: "machine \<Rightarrow> nat \<Rightarrow> bool" where
  "pd_wf m P \<longleftrightarrow> 786432 \<le> P \<and> P < 2 ^ 20 \<and> page_used m P \<and>
     (\<forall>i < 768. pde_val m P i \<noteq> 0 \<longrightarrow> pde_val m P i AND PTE_P \<noteq> 0 \<and> pt_page m P i < 2 ^ 20 \<and> pt_page m P i \<noteq> P \<and>
        page_used m (pt_page m P i) \<and> (\<forall>j < 1024. pte_ok (rd32 (kmem m) (ent (pt_page m P i) j))) \<and>
        (\<forall>i' < 768. pde_val m P i' \<noteq> 0 \<and> i' \<noteq> i \<longrightarrow> pt_page m P i' \<noteq> pt_page m P i))"

text \<open>The entry of a user page; no table is the same as an empty entry.\<close>

definition pte_val :: "machine \<Rightarrow> nat \<Rightarrow> nat \<Rightarrow> nat \<Rightarrow> u32" where
  "pte_val m P i j = (if pde_val m P i = 0 then 0 else rd32 (kmem m) (ent (pt_page m P i) j))"

text \<open>A page that is neither the directory nor one of its page tables, and what a change of the directory keeps: the
  pages in use of that kind stay so, with their contents.\<close>

definition data_page :: "machine \<Rightarrow> nat \<Rightarrow> nat \<Rightarrow> bool" where
  "data_page m P n \<longleftrightarrow> n < 2 ^ 20 \<and> n \<noteq> P \<and> (\<forall>i < 768. pde_val m P i \<noteq> 0 \<longrightarrow> pt_page m P i \<noteq> n)"

definition data_kept :: "machine \<Rightarrow> machine \<Rightarrow> nat \<Rightarrow> bool" where
  "data_kept m m' P \<longleftrightarrow> (\<forall>k. data_page m P k \<and> page_used m k \<longrightarrow>
     data_page m' P k \<and> page_used m' k \<and> (\<forall>a. unat a div 4096 = k \<longrightarrow> kmem m' a = kmem m a))"

lemma data_kept_refl [simp]: "data_kept m m P"
  by (simp add: data_kept_def)

lemma data_kept_trans: "data_kept m m' P \<Longrightarrow> data_kept m' m'' P \<Longrightarrow> data_kept m m'' P"
  unfolding data_kept_def by metis

lemma pd_wfD:
  assumes "pd_wf m P" and "i < 768" and "pde_val m P i \<noteq> 0"
  shows "pde_val m P i AND PTE_P \<noteq> 0" "pt_page m P i < 2 ^ 20" "pt_page m P i \<noteq> P" "page_used m (pt_page m P i)"
    "j < 1024 \<Longrightarrow> pte_ok (rd32 (kmem m) (ent (pt_page m P i) j))"
    "i' < 768 \<Longrightarrow> pde_val m P i' \<noteq> 0 \<Longrightarrow> i' \<noteq> i \<Longrightarrow> pt_page m P i' \<noteq> pt_page m P i"
  using assms unfolding pd_wf_def by blast+

lemma pde_get_pt_ok: "pd_wf m P \<Longrightarrow> i < 768 \<Longrightarrow> pde_val m P i \<noteq> 0 \<Longrightarrow> pde_get_pt (pde_val m P i) = Some (page_addr (pt_page m P i))"
  using ptov_page [of "unat (pde_val m P i) div 4096"] pd_wfD(1,2) [of m P i]
  by (simp add: pde_get_pt_def and_PTE_ADDR pt_page_def)

lemma ent_index: "page_addr n + 4 * x = ent n (unat x)"
  by (simp add: ent_def)

lemma pt_no_less: "unat (pt_no va) < 1024"
  by (simp add: unat_pt_no)

lemma lookup_present:
  assumes "pd_wf m P" and "is_user_vaddr va" and "pde_val m P (unat (pd_no va)) \<noteq> 0"
  shows "lookup_page (page_addr P) va c m = Some (ent (pt_page m P (unat (pd_no va))) (unat (pt_no va)), m)"
proof -
  have i: "unat (pd_no va) < 768" using assms(2) pd_no_user by simp
  have "page_addr P \<noteq> 0" using assms(1) unat_page_addr [of P] by (auto simp: pd_wf_def)
  then show ?thesis
    using assms pde_get_pt_ok [OF assms(1) i assms(3)] by (simp add: lookup_page_def Let_def ent_index)
qed

lemma lookup_absent:
  assumes "pd_wf m P" and "pde_val m P (unat (pd_no va)) = 0"
  shows "lookup_page (page_addr P) va False m = Some (0, m)"
proof -
  have "page_addr P \<noteq> 0" using assms(1) unat_page_addr [of P] by (auto simp: pd_wf_def)
  then show ?thesis using assms by (simp add: lookup_page_def Let_def ent_index)
qed

lemma ent_not_0: "786432 \<le> n \<Longrightarrow> n < 2 ^ 20 \<Longrightarrow> j < 1024 \<Longrightarrow> ent n j \<noteq> 0"
  using unat_ent [of n j] by auto

lemma pt_page_ge: "786432 \<le> pt_page m P i"
  by (simp add: pt_page_def)

text \<open>Storing into an entry of a page table.\<close>

lemma wr32_other_page: "n < 2 ^ 20 \<Longrightarrow> j < 1024 \<Longrightarrow> unat a div 4096 \<noteq> n \<Longrightarrow> wr32 mem (ent n j) v a = mem a"
  using ent_page [of n j 0] ent_page [of n j 1] ent_page [of n j 2] ent_page [of n j 3] by (auto simp: wr32_def Let_def)

lemma store_pte:
  assumes wf: "pd_wf m P" and i: "i < 768" "pde_val m P i \<noteq> 0" "j < 1024" and v: "pte_ok v"
    and m': "m' = m\<lparr>kmem := wr32 (kmem m) (ent (pt_page m P i) j) v\<rparr>"
  shows "pd_wf m' P" and "i' < 768 \<Longrightarrow> j' < 1024 \<Longrightarrow> pte_val m' P i' j' = (if i' = i \<and> j' = j then v else pte_val m P i' j')"
    and "data_kept m m' P"
proof -
  have P: "P < 2 ^ 20" using wf by (simp add: pd_wf_def)
  note T = pd_wfD [OF wf i(1,2)]
  have pde: "pde_val m' P k = pde_val m P k" if "k < 768" for k
    using rd32_wr32_ent [OF T(2) i(3) P, of k] T(3) that by (simp add: m')
  then have pt: "pt_page m' P k = pt_page m P k" if "k < 768" for k using that by (simp add: pt_page_def)
  have ptv: "rd32 (kmem m') (ent (pt_page m P k) l) = (if k = i \<and> l = j then v else rd32 (kmem m) (ent (pt_page m P k) l))"
    if "k < 768" "l < 1024" "pde_val m P k \<noteq> 0" for k l
    using rd32_wr32_ent [OF T(2) i(3) pd_wfD(2) [OF wf that(1,3)] that(2)] T(6) [of k] that by (auto simp: m')
  show "pte_val m' P i' j' = (if i' = i \<and> j' = j then v else pte_val m P i' j')" if "i' < 768" "j' < 1024"
    using that ptv pde pt i(2) by (simp add: pte_val_def)
  have pu: "page_used m' = page_used m" by (simp add: m')
  then show "pd_wf m' P"
    using wf pde pt ptv v unfolding pd_wf_def by simp
  show "data_kept m m' P"
    using pde pt pu i wr32_other_page [OF T(2) i(3)] by (auto simp: data_kept_def data_page_def m')
qed

lemma entry_page:
  assumes "f = take_bit 12 f" and "k < 2 ^ 20"
  shows "unat (page_addr k OR f) div 4096 = k"
proof -
  have "page_addr (unat (page_addr k OR f) div 4096) = page_addr k"
    using pte_flags [OF assms(1), of k] by (simp add: and_PTE_ADDR)
  then have "4096 * (unat (page_addr k OR f) div 4096) = 4096 * k"
    using unat_page_addr [OF assms(2)] unat_page_addr [of "unat (page_addr k OR f) div 4096"] unsigned_less [of "page_addr k OR f", where ?'a = nat]
    by (simp add: div_less_iff_less_mult)
  then show ?thesis by simp
qed

lemma entry_present: "odd f \<Longrightarrow> (x OR f) AND PTE_P \<noteq> 0"
  by (simp add: PTE_P_def and_one_eq even_or_iff flip: odd_iff_mod_2_eq_one)

text \<open>Looking an entry up with permission to create its table: without memory nothing changes; otherwise
  the directory stays well formed, has the table, and every user entry reads as before.\<close>

lemma new_table:
  assumes wf: "pd_wf m P" and i: "i < 768" "pde_val m P i = 0"
    and n: "786432 \<le> n" "n < 2 ^ 20" "\<not> page_used m n"
    and us: "\<And>k. page_used m1 k \<longleftrightarrow> page_used m k \<or> k = n"
    and mem: "\<And>a. kmem m1 a = (if unat a div 4096 = n then 0 else kmem m a)"
    and m': "m' = m1\<lparr>kmem := wr32 (kmem m1) (ent P i) (page_addr (n - 786432) OR 7)\<rparr>"
  shows "pd_wf m' P" and "pt_page m' P i = n" and "pde_val m' P i \<noteq> 0"
    and "i' < 768 \<Longrightarrow> j' < 1024 \<Longrightarrow> pte_val m' P i' j' = pte_val m P i' j'" and "data_kept m m' P"
proof -
  have P: "P < 2 ^ 20" "P \<noteq> n" "page_used m P" using wf n by (auto simp: pd_wf_def)
  have keep: "rd32 (kmem m') (ent k j) = (if k = P \<and> j = i then page_addr (n - 786432) OR 7 else rd32 (kmem m) (ent k j))"
    if "k < 2 ^ 20" "j < 1024" "k \<noteq> n" for k j
    using rd32_wr32_ent [OF P(1) _ that(1,2), of i] rd32_cong [OF that(1,2), of "kmem m1" "kmem m"] mem that(3) i(1) by (auto simp: m')
  have zero: "rd32 (kmem m') (ent n j) = 0" if "j < 1024" for j
    using rd32_wr32_ent [OF P(1) _ n(2) that, of i] rd32_zero [OF n(2) that, of "kmem m1"] mem P(2) i(1) by (auto simp: m')
  have pde: "pde_val m' P k = (if k = i then page_addr (n - 786432) OR 7 else pde_val m P k)" if "k < 768" for k
    using keep [OF P(1) _ P(2), of k] that by simp
  have e: "unat (page_addr (n - 786432) OR 7) div 4096 = n - 786432" "(page_addr (n - 786432) OR 7) AND PTE_P \<noteq> 0"
    using entry_page [of 7 "n - 786432"] n(1,2) by (simp_all add: entry_present)
  show z: "pde_val m' P i \<noteq> 0" using pde [OF i(1)] e(2) by auto
  have pt: "pt_page m' P k = (if k = i then n else pt_page m P k)" if "k < 768" for k
    using pde [OF that] e(1) n(1) by (simp add: pt_page_def)
  then show "pt_page m' P i = n" using i(1) by simp
  have T: "pt_page m P k < 2 ^ 20" "pt_page m P k \<noteq> n" "pt_page m P k \<noteq> P" if "k < 768" "pde_val m P k \<noteq> 0" for k
    using pd_wfD [OF wf that] n(3) by auto
  show "i' < 768 \<Longrightarrow> j' < 1024 \<Longrightarrow> pte_val m' P i' j' = pte_val m P i' j'"
    using pde pt T keep zero i(2) z by (simp add: pte_val_def)
  have pu: "page_used m' = page_used m1" by (simp add: m')
  show "data_kept m m' P"
    using pde pt pu us mem n(3) wr32_other_page [OF P(1), of i] i(1) by (auto simp: data_kept_def data_page_def m')
  show "pd_wf m' P"
    using pu wf pde pt T T(2) [THEN not_sym] keep zero i e(2) n us P unfolding pd_wf_def by (simp add: pte_ok_def)
qed

lemma lookup_create:
  assumes wf: "machine_wf m" "pd_wf m P" and va: "is_user_vaddr va"
  obtains (none) "lookup_page (page_addr P) va True m = Some (0, m)" "pde_val m P (unat (pd_no va)) = 0"
      "\<forall>k < pool_pages (kernel_pool m). page_used m (base_no (kernel_pool m) + k)"
    | (some) m' where "lookup_page (page_addr P) va True m = Some (ent (pt_page m' P (unat (pd_no va))) (unat (pt_no va)), m')"
      "machine_wf m'" "pd_wf m' P" "pde_val m' P (unat (pd_no va)) \<noteq> 0"
      "\<forall>i < 768. \<forall>j < 1024. pte_val m' P i j = pte_val m P i j" "init_page_dir m' = init_page_dir m"
      "data_kept m m' P" "same_cfg m m'"
proof (cases "pde_val m P (unat (pd_no va)) = 0")
  case False
  then show ?thesis using some [of m] lookup_present [OF wf(2) va, of True] wf by simp
next
  case True
  let ?i = "unat (pd_no va)" and ?j = "unat (pt_no va)"
  have i: "?i < 768" using va pd_no_user by simp
  have pd: "page_addr P \<noteq> 0" using wf(2) unat_page_addr [of P] by (auto simp: pd_wf_def)
  have fl: "PAL_ZERO AND PAL_ASSERT = 0" "(PAL_ZERO AND PAL_USER \<noteq> 0) = False" "PAL_ZERO AND PAL_ZERO \<noteq> 0"
    by (simp_all add: PAL_ZERO_def PAL_ASSERT_def PAL_USER_def)
  show ?thesis
  proof (cases rule: palloc_get_some [OF wf(1) zero_less_one fl(1) fl(2) [symmetric]])
    case 1
    then show ?thesis using none True pd va
      by (simp add: lookup_page_def Let_def ent_index palloc_get_page_def get_pool_def Suc_le_eq)
  next
    case (2 n k m1)
    define m' where "m' = m1\<lparr>kmem := wr32 (kmem m1) (ent P ?i) (page_addr (n - 786432) OR 7)\<rparr>"
    have n: "n < 2 ^ 20" using 2(4) by simp
    have eq: "(n \<le> x \<and> x < Suc n) = (x = n)" for x by auto
    note T = new_table [OF wf(2) i True 2(12) n _ _ _ m'_def]
    have c: "pde_create (page_addr n) = Some (page_addr (n - 786432) OR 7)"
      using vtop_page [OF 2(12) n] pg_ofs_page_addr [OF n] by (simp add: pde_create_def PTE_U_def PTE_P_def PTE_W_def or.assoc)
    have h: "\<not> page_used m n" "\<And>k. page_used m1 k \<longleftrightarrow> page_used m k \<or> k = n" "\<And>a. kmem m1 a = (if unat a div 4096 = n then 0 else kmem m a)"
      using 2(7-9) fl(3) by (simp_all add: eq)
    note T = T [OF h]
    have "lookup_page (page_addr P) va True m = Some (ent (pt_page m' P ?i) ?j, m')"
      using True pd va 2(1,6) c pde_get_pt_ok [OF T(1) i T(3)]
      by (simp add: lookup_page_def Let_def ent_index palloc_get_page_def m'_def)
    then show ?thesis using some [of m'] T 2(5,13,17) by (simp add: m'_def)
  qed
qed

text \<open>What the translation of an address depends on.\<close>

lemma pagedir_get_page_eq:
  assumes wf: "pd_wf m P" and va: "is_user_vaddr va"
  shows "pagedir_get_page (page_addr P) va m =
    (let e = pte_val m P (unat (pd_no va)) (unat (pt_no va)) in
     if e AND PTE_P = 0 then Some 0 else Some (page_addr (unat e div 4096 + 786432) + pg_ofs va))"
proof (cases "pde_val m P (unat (pd_no va)) = 0")
  case True
  then show ?thesis using va lookup_absent [OF wf True] by (simp add: pagedir_get_page_def pte_val_def Let_def)
next
  case False
  let ?i = "unat (pd_no va)" and ?j = "unat (pt_no va)"
  have i: "?i < 768" using va pd_no_user by simp
  let ?e = "rd32 (kmem m) (ent (pt_page m P ?i) ?j)"
  have nz: "ent (pt_page m P ?i) ?j \<noteq> 0" using ent_not_0 [OF pt_page_ge pd_wfD(2) [OF wf i False] pt_no_less] .
  have "pte_get_page ?e = Some (page_addr (unat ?e div 4096 + 786432))" if "?e AND PTE_P \<noteq> 0"
  proof -
    have "unat ?e div 4096 < 262144" using pd_wfD(5) [OF wf i False pt_no_less] that by (simp add: pte_ok_def)
    from ptov_page [OF this] show ?thesis by (simp add: pte_get_page_def and_PTE_ADDR)
  qed
  then show ?thesis using va nz lookup_present [OF wf va False] False by (simp add: pagedir_get_page_def pte_val_def Let_def)
qed

lemma pte_bit_eq:
  assumes wf: "pd_wf m P" and va: "is_user_vaddr va"
  shows "pte_bit flag (page_addr P) va m = Some (pte_val m P (unat (pd_no va)) (unat (pt_no va)) AND flag \<noteq> 0)"
proof (cases "pde_val m P (unat (pd_no va)) = 0")
  case True
  then show ?thesis using lookup_absent [OF wf True] by (simp add: pte_bit_def pte_val_def)
next
  case False
  have i: "unat (pd_no va) < 768" using va pd_no_user by simp
  have "ent (pt_page m P (unat (pd_no va))) (unat (pt_no va)) \<noteq> 0" using ent_not_0 [OF pt_page_ge pd_wfD(2) [OF wf i False] pt_no_less] .
  then show ?thesis using lookup_present [OF wf va False] False by (simp add: pte_bit_def pte_val_def)
qed

lemma same_page_entry:
  "pg_no va = pg_no vb \<longleftrightarrow> unat (pd_no va) = unat (pd_no vb) \<and> unat (pt_no va) = unat (pt_no vb)"
proof
  assume "pg_no va = pg_no vb"
  then have "unat va div 4096 = unat vb div 4096" by (metis unat_pg_no)
  moreover have "n div 2 ^ 22 = n div 4096 div 1024" for n :: nat by (simp add: div_mult2_eq [symmetric])
  ultimately show "unat (pd_no va) = unat (pd_no vb) \<and> unat (pt_no va) = unat (pt_no vb)" by (simp add: unat_pd_no unat_pt_no)
next
  assume "unat (pd_no va) = unat (pd_no vb) \<and> unat (pt_no va) = unat (pt_no vb)"
  then have "pd_no va = pd_no vb" "pt_no va = pt_no vb" by (blast intro: word_unat_eq_iff [THEN iffD2])+
  then show "pg_no va = pg_no vb" by (rule vaddr_split)
qed

lemma get_page_update:
  assumes "pd_wf m P" "pd_wf m' P" "is_user_vaddr up" "is_user_vaddr va"
    and "\<And>i j. i < 768 \<Longrightarrow> j < 1024 \<Longrightarrow> pte_val m' P i j =
      (if i = unat (pd_no up) \<and> j = unat (pt_no up) then e else pte_val m P i j)"
  shows "pagedir_get_page (page_addr P) va m' =
    (if pg_no va = pg_no up then (if e AND PTE_P = 0 then Some 0 else Some (page_addr (unat e div 4096 + 786432) + pg_ofs va))
     else pagedir_get_page (page_addr P) va m)"
  using assms(1,2,4) assms(5) [OF _ pt_no_less, of "unat (pd_no va)" va] pd_no_user [of va]
  by (cases "pg_no va = pg_no up") (auto simp: pagedir_get_page_eq same_page_entry Let_def)

definition user_entry :: "nat \<Rightarrow> bool \<Rightarrow> u32" where
  "user_entry k writable = (page_addr k OR PTE_P OR (if writable then PTE_W else 0)) OR PTE_U"

lemma user_entry:
  assumes "k < 262144"
  shows "unat (user_entry k w) div 4096 = k" "user_entry k w AND PTE_P \<noteq> 0" "pte_ok (user_entry k w)"
proof -
  let ?f = "1 OR (if w then 2 else 0) OR 4 :: u32"
  have e: "user_entry k w = page_addr k OR ?f" by (simp add: user_entry_def PTE_P_def PTE_W_def PTE_U_def or.assoc)
  have "?f = take_bit 12 ?f" by simp
  note u = entry_page [OF this]
  show "unat (user_entry k w) div 4096 = k" using u [of k] assms unfolding e by simp
  show "user_entry k w AND PTE_P \<noteq> 0" unfolding e by (rule entry_present) simp
  show "pte_ok (user_entry k w)"
    using u [of k] assms unfolding e pte_ok_def by simp
qed

lemma drop_page_addr: "k < 2 ^ 20 \<Longrightarrow> drop_bit PTSHIFT (page_addr k) = of_nat k"
  using pg_no_page_addr [of k] by (simp add: PTSHIFT_def pg_no_def word_unat_eq_iff unat_of_nat)

lemma pte_create_user_page:
  "786432 \<le> n \<Longrightarrow> n < 2 ^ 20 \<Longrightarrow> pte_create_user (page_addr n) w = Some (user_entry (n - 786432) w)"
  by (simp add: pte_create_user_def pte_create_kernel_def pg_ofs_page_addr vtop_page user_entry_def)

text \<open>Both operations that change a mapping store one entry of an existing table.\<close>

lemma set_entry:
  assumes wf: "machine_wf m" "pd_wf m P" and up: "is_user_vaddr up" and z: "pde_val m P (unat (pd_no up)) \<noteq> 0" and v: "pte_ok v"
    and m': "m' = m\<lparr>kmem := wr32 (kmem m) (ent (pt_page m P (unat (pd_no up))) (unat (pt_no up))) v\<rparr>"
  shows "pd_wf m' P" "machine_wf m'" "i < 768 \<Longrightarrow> j < 1024 \<Longrightarrow> pte_val m' P i j = (if i = unat (pd_no up) \<and> j = unat (pt_no up) then v else pte_val m P i j)"
    "data_kept m m' P"
  using store_pte [OF wf(2) _ z pt_no_less v m'] wf(1) up pd_no_user [of up] by (simp_all add: m')

lemma set_page_cases:
  assumes wf: "machine_wf m" "pd_wf m P" and up: "is_user_vaddr up" "pg_ofs up = 0"
    and n: "786432 \<le> n" "n < 2 ^ 20" "of_nat (n - 786432) < init_ram_pages m" and ipd: "page_addr P \<noteq> init_page_dir m"
    and free: "pagedir_get_page (page_addr P) up m = Some 0"
  obtains (none) "pagedir_set_page (page_addr P) up (page_addr n) w m = Some (False, m)"
      "\<forall>k < bitmap_size (used_map (kernel_pool m)). page_used m (base_no (kernel_pool m) + k)"
    | (some) m' where "pagedir_set_page (page_addr P) up (page_addr n) w m = Some (True, m')" "machine_wf m'" "pd_wf m' P"
      "\<forall>va. is_user_vaddr va \<longrightarrow> pagedir_get_page (page_addr P) va m' =
        (if pg_no va = pg_no up then Some (page_addr n + pg_ofs va) else pagedir_get_page (page_addr P) va m)"
      "data_kept m m' P" "same_cfg m m'" "pte_val m' P (unat (pd_no up)) (unat (pt_no up)) = user_entry (n - 786432) w"
proof (cases rule: lookup_create [OF wf up(1)])
  case 1
  then show ?thesis
    using none n ipd up drop_page_addr [of "n - 786432"] by (simp add: pagedir_set_page_def pg_ofs_page_addr vtop_page bitmap_size_def)
next
  case (2 m1)
  let ?i = "unat (pd_no up)" and ?j = "unat (pt_no up)" and ?e = "user_entry (n - 786432) w"
  define m' where "m' = m1\<lparr>kmem := wr32 (kmem m1) (ent (pt_page m1 P ?i) ?j) ?e\<rparr>"
  have i: "?i < 768" using up(1) pd_no_user by simp
  have k: "n - 786432 < 262144" using n(2) by simp
  note E = user_entry [OF k, of w]
  note S = set_entry [OF 2(2,3) up(1) 2(4) E(3) m'_def]
  have "rd32 (kmem m1) (ent (pt_page m1 P ?i) ?j) AND PTE_P = 0"
  proof (rule ccontr)
    assume p: "rd32 (kmem m1) (ent (pt_page m1 P ?i) ?j) AND PTE_P \<noteq> 0"
    have "pte_val m P ?i ?j = pte_val m1 P ?i ?j" using 2(5) i pt_no_less by simp
    moreover have "pte_val m1 P ?i ?j AND PTE_P \<noteq> 0" using p 2(4) by (simp add: pte_val_def)
    ultimately have "page_addr (unat (pte_val m1 P ?i ?j) div 4096 + 786432) = 0"
      using free pagedir_get_page_eq [OF wf(2) up(1)] up(2) by (simp add: Let_def)
    moreover have "unat (pte_val m1 P ?i ?j) div 4096 < 262144"
      using pd_wfD(5) [OF 2(3) i 2(4) pt_no_less] p 2(4) by (simp add: pte_ok_def pte_val_def)
    ultimately show False using unat_page_addr [of "unat (pte_val m1 P ?i ?j) div 4096 + 786432"] by simp
  qed
  then have "pagedir_set_page (page_addr P) up (page_addr n) w m = Some (True, m')"
    using n ipd up 2(1) drop_page_addr [of "n - 786432"] ent_not_0 [OF pt_page_ge pd_wfD(2) [OF 2(3) i 2(4)] pt_no_less] 2(6)
    by (simp add: pagedir_set_page_def pg_ofs_page_addr vtop_page pte_create_user_page m'_def)
  moreover have "\<forall>va. is_user_vaddr va \<longrightarrow> pagedir_get_page (page_addr P) va m' =
      (if pg_no va = pg_no up then Some (page_addr n + pg_ofs va) else pagedir_get_page (page_addr P) va m)"
    using get_page_update [OF wf(2) S(1) up(1), of _ ?e] S(3) 2(5) E n(1) by simp
  moreover have "same_cfg m m'" using 2(8) by (simp add: m'_def)
  moreover have "pte_val m' P ?i ?j = ?e" using S(3) [OF i pt_no_less] by simp
  ultimately show ?thesis using some S(1,2) data_kept_trans [OF 2(7) S(4)] by blast
qed

section \<open>Properties of mappings\<close>

text \<open>C13. Installing a mapping: for a well-formed page directory and a user page that is not yet mapped,
  \<^verbatim>\<open>pagedir_set_page\<close> either fails because the kernel pool has no page left for a page table, changing
  nothing, or succeeds: then every address of the page translates to the same offset in the given frame, every other
  user address translates as before, and the directory stays well formed, so that the guarantee holds for every further call.\<close>

theorem pagedir_set_get:
  assumes "machine_wf m" and "pd_wf m P" and "is_user_vaddr up" and "pg_ofs up = 0"
    and "786432 \<le> n" and "n < 2 ^ 20" and "of_nat (n - 786432) < init_ram_pages m" and "page_addr P \<noteq> init_page_dir m"
    and "pagedir_get_page (page_addr P) up m = Some 0"
  shows "(pagedir_set_page (page_addr P) up (page_addr n) w m = Some (False, m) \<and>
      (\<forall>k < bitmap_size (used_map (kernel_pool m)). page_used m (base_no (kernel_pool m) + k))) \<or>
    (\<exists>m'. pagedir_set_page (page_addr P) up (page_addr n) w m = Some (True, m') \<and> machine_wf m' \<and> pd_wf m' P \<and>
      (\<forall>va. is_user_vaddr va \<longrightarrow> pagedir_get_page (page_addr P) va m' =
        (if pg_no va = pg_no up then Some (page_addr n + pg_ofs va) else pagedir_get_page (page_addr P) va m)))"
  by (cases rule: set_page_cases [OF assms, of w]) auto

definition ex_pd :: nat where
  "ex_pd = 0xc0100"

lemma rd32_ex: "rd32 (kmem ex_machine) a = 0"
  by (simp add: ex_machine_def rd32_def bytes_u32_def)

lemma ex_pd_wf: "pd_wf ex_machine ex_pd"
  by (simp add: pd_wf_def rd32_ex ex_pd_def page_used_def pool_used_def)
     (simp add: ex_machine_def base_no_def bm_bits_def elem_idx_def ELEM_BITS_def)

lemma ex_free_page: "\<not> page_used ex_machine (base_no (kernel_pool ex_machine) + 2)"
  by (simp add: ex_machine_def page_used_def pool_used_def base_no_def bm_bits_def elem_idx_def ELEM_BITS_def)

theorem pagedir_set_get_witness:
  "\<exists>m'. pagedir_set_page (page_addr ex_pd) 0x8048000 (page_addr 0xc0110) True ex_machine = Some (True, m') \<and>
     pagedir_get_page (page_addr ex_pd) 0x8048123 m' = Some 0xc0110123"
proof -
  have "pagedir_get_page (page_addr ex_pd) 0x8048000 ex_machine = Some 0"
    by (simp add: pagedir_get_page_def lookup_page_def rd32_ex is_user_vaddr_def PHYS_BASE_def ex_pd_def page_addr_def Let_def)
  moreover have "2 < bitmap_size (used_map (kernel_pool ex_machine))" by (simp add: ex_machine_def bitmap_size_def)
  ultimately have "\<exists>m'. pagedir_set_page (page_addr ex_pd) 0x8048000 (page_addr 0xc0110) True ex_machine = Some (True, m') \<and>
     (\<forall>va. is_user_vaddr va \<longrightarrow> pagedir_get_page (page_addr ex_pd) va m' =
        (if pg_no va = pg_no 0x8048000 then Some (page_addr 0xc0110 + pg_ofs va) else pagedir_get_page (page_addr ex_pd) va ex_machine))"
    using pagedir_set_get [OF ex_machine_wf ex_pd_wf, where up = "0x8048000" and n = "0xc0110" and w = True] ex_free_page
    by (auto simp: is_user_vaddr_def PHYS_BASE_def ex_machine_def ex_pd_def page_addr_def pg_ofs_0)
  then show ?thesis
    by (rule ex_forward) (simp add: is_user_vaddr_def PHYS_BASE_def pg_no_def PGBITS_def page_addr_def pg_ofs_def PGMASK_def BITMASK_def)
qed

lemma invalidate_ok:
  assumes "cr3 m < PHYS_BASE" and "786432 \<le> P" and "P < 2 ^ 20"
  obtains c where "invalidate_pagedir (page_addr P) m = Some (m\<lparr>cr3 := c\<rparr>)" "c < PHYS_BASE"
proof (cases "cr3 m + PHYS_BASE = page_addr P")
  case True
  have "page_addr P \<noteq> 0" using assms(2,3) unat_page_addr [of P] by auto
  moreover have "page_addr (P - 786432) < PHYS_BASE" using assms(2,3) unat_page_addr [of "P - 786432"] by (simp add: PHYS_BASE_def word_less_nat_alt)
  ultimately show ?thesis using that [of "page_addr (P - 786432)"] assms vtop_page [of P] True
    by (simp add: invalidate_pagedir_def active_pd_def ptov_def pagedir_activate_def)
next
  case False
  then show ?thesis using that [of "cr3 m"] assms by (simp add: invalidate_pagedir_def active_pd_def ptov_def)
qed

lemma pd_wf_cr3 [simp]: "pd_wf (m\<lparr>cr3 := c\<rparr>) P = pd_wf m P" "machine_wf (m\<lparr>cr3 := c\<rparr>) = machine_wf m" "pte_val (m\<lparr>cr3 := c\<rparr>) = pte_val m"
  by (simp_all add: pd_wf_def pt_page_def page_used_def machine_wf_def pte_val_def fun_eq_iff)

lemma clear_present: "(e AND NOT PTE_P) AND PTE_P = 0"
  by (simp add: and.assoc)

text \<open>Removing a mapping: \<^verbatim>\<open>pagedir_clear_page\<close> always succeeds on an aligned user page; afterwards no
  address of the page translates, and every other user address translates as before.\<close>

theorem pagedir_clear_get:
  assumes "machine_wf m" and "pd_wf m P" and "is_user_vaddr up" and "pg_ofs up = 0" and "cr3 m < PHYS_BASE"
  shows "\<exists>m'. pagedir_clear_page (page_addr P) up m = Some m' \<and> machine_wf m' \<and> pd_wf m' P \<and> cr3 m' < PHYS_BASE \<and>
    (\<forall>va. is_user_vaddr va \<longrightarrow> pagedir_get_page (page_addr P) va m' =
      (if pg_no va = pg_no up then Some 0 else pagedir_get_page (page_addr P) va m))"
proof -
  let ?i = "unat (pd_no up)" and ?j = "unat (pt_no up)"
  have i: "?i < 768" using assms(3) pd_no_user by simp
  have P: "786432 \<le> P" "P < 2 ^ 20" using assms(2) by (simp_all add: pd_wf_def)
  show ?thesis
  proof (cases "pte_val m P ?i ?j AND PTE_P = 0")
    case True
    then have "pagedir_clear_page (page_addr P) up m = Some m"
      using assms lookup_absent [OF assms(2), of up] lookup_present [OF assms(2,3), of False]
      by (simp add: pagedir_clear_page_def pte_val_def split: if_splits)
    moreover have "pagedir_get_page (page_addr P) va m = Some 0" if "is_user_vaddr va" "pg_no va = pg_no up" for va
      using that True pagedir_get_page_eq [OF assms(2) that(1)] by (simp add: same_page_entry)
    ultimately show ?thesis using assms by (simp add: if_distrib cong: if_cong)
  next
    case False
    then have z: "pde_val m P ?i \<noteq> 0" and pv: "pte_val m P ?i ?j = rd32 (kmem m) (ent (pt_page m P ?i) ?j)"
      by (auto simp: pte_val_def split: if_splits)
    let ?e = "pte_val m P ?i ?j AND NOT PTE_P"
    define m1 where "m1 = m\<lparr>kmem := wr32 (kmem m) (ent (pt_page m P ?i) ?j) ?e\<rparr>"
    have ok: "pte_ok ?e" using clear_present by (simp add: pte_ok_def)
    note S = set_entry [OF assms(1-3) z ok m1_def]
    obtain c where c: "invalidate_pagedir (page_addr P) m1 = Some (m1\<lparr>cr3 := c\<rparr>)" "c < PHYS_BASE"
      using invalidate_ok [OF _ P, of m1] assms(5) by (auto simp: m1_def)
    have run: "pagedir_clear_page (page_addr P) up m = Some (m1\<lparr>cr3 := c\<rparr>)"
      using assms lookup_present [OF assms(2,3) z, of False] ent_not_0 [OF pt_page_ge pd_wfD(2) [OF assms(2) i z] pt_no_less] False c(1)
      by (simp add: pagedir_clear_page_def m1_def pv)
    have "pagedir_get_page (page_addr P) va (m1\<lparr>cr3 := c\<rparr>) =
        (if pg_no va = pg_no up then Some 0 else pagedir_get_page (page_addr P) va m)" if "is_user_vaddr va" for va
      using get_page_update [OF assms(2) _ assms(3) that, of "m1\<lparr>cr3 := c\<rparr>" ?e] S clear_present by simp
    then show ?thesis using run S c(2) by simp
  qed
qed

theorem pagedir_clear_get_witness:
  "\<exists>m'. pagedir_clear_page (page_addr ex_pd) 0x8048000 ex_machine = Some m' \<and> pagedir_get_page (page_addr ex_pd) 0x8048123 m' = Some 0"
  using pagedir_clear_get [OF ex_machine_wf ex_pd_wf, where up = "0x8048000"]
  by (auto simp: is_user_vaddr_def PHYS_BASE_def ex_machine_def pg_ofs_0 pg_no_def PGBITS_def)

end
