(* ===== verification/Threads.thy ===== *)
theory Threads
  imports Pagedir Directory
begin

text \<open>
  Threads, scheduling and interrupts (threads/thread.c, threads/interrupt.c, the part of userprog/process.c
  and userprog/tss.c that runs at a context switch).

  A thread is the address of its page.  The kernel code of a thread gives up the processor only inside
  \<^verbatim>\<open>schedule\<close>; what a thread still has to do when it runs again is kept as a list of continuations
  (\<open>konts\<close>), which stands for its saved kernel stack.  An empty list means that the thread runs code
  outside the scheduler and the synchronisation primitives.  Linked lists of threads are sequences of
  addresses.  The sections of code under \<^verbatim>\<open>tid_lock\<close> and the pool locks are single steps.
\<close>

section \<open>Data\<close>

type_synonym tptr = u32

datatype thread_status = THREAD_RUNNING | THREAD_READY | THREAD_BLOCKED | THREAD_DYING

text \<open>A semaphore is named by the object that contains it: a semaphore of its own, a lock, the
  \<^verbatim>\<open>semaphore_elem\<close> on the stack of a thread inside \<^verbatim>\<open>cond_wait\<close>, or one of the two in a thread.\<close>

datatype sema_ref = Sema nat | Lock_sema nat | Waiter tptr | Proc_exec tptr | Proc_wait tptr

record semaphore =
  sema_value :: u32
  waiters :: "tptr list"

text \<open>What is left to do: the loop of \<^verbatim>\<open>sema_down\<close>; a call of \<^verbatim>\<open>sema_down\<close>; the assignment of the
  holder in \<^verbatim>\<open>lock_acquire\<close>; a call of \<^verbatim>\<open>sema_up\<close> or of \<^verbatim>\<open>lock_acquire\<close>; restoring the interrupt
  level in \<^verbatim>\<open>thread_yield\<close>; returning from an interrupt; the start of a kernel thread; the three stages of
  the idle thread; the loops of \<^verbatim>\<open>cond_broadcast\<close> and of \<^verbatim>\<open>timer_sleep\<close>.\<close>

datatype kont =
    K_down sema_ref bool | K_sema_down sema_ref | K_holder nat | K_up sema_ref | K_acquire nat
  | K_set_level bool | K_iret | K_kernel_thread | K_idle_start sema_ref | K_idle | K_hlt
  | K_broadcast nat nat | K_sleep u64 u64

record file_struct =
  fd :: int
  fs_file :: ptr

record thread =
  tid :: u32
  status :: thread_status
  th_name :: "u8 list"
  stack :: u32
  priority :: int
  parent :: tptr
  pagedir :: u32
  file_struct_list :: "file_struct list"
  child_processes :: "ptr list"
  th_magic :: u32
  th_current_dir :: ptr
  konts :: "kont list"

record child_process =
  child_pid :: u32
  cur_status :: int
  is_awaited :: bool
  is_loaded :: bool
  exit_status :: int
  child_proc_thread :: tptr

record kernel =
  threads :: "tptr \<Rightarrow> thread option"
  ready_list :: "tptr list"
  all_list :: "tptr list"
  idle_thread :: tptr
  initial_thread :: tptr
  running :: tptr
  next_tid :: u32
  idle_ticks :: u64
  kernel_ticks :: u64
  user_ticks :: u64
  thread_ticks :: u32
  intr_on :: bool
  in_external_intr :: bool
  yield_on_return :: bool
  unexpected_cnt :: "nat \<Rightarrow> u32"
  timer_count :: u64
  esp0 :: u32
  semas :: "sema_ref \<Rightarrow> semaphore option"
  holder :: "nat \<Rightarrow> tptr"
  cond_waiters :: "nat \<Rightarrow> tptr list"
  childs :: "ptr \<Rightarrow> child_process option"
  mach :: machine
  kfs :: fs

definition THREAD_MAGIC :: u32 where
  "THREAD_MAGIC = 0xcd6abf4b"

definition TIME_SLICE :: u32 where
  "TIME_SLICE = 4"

definition PRI_MIN :: int where
  "PRI_MIN = 0"

definition PRI_DEFAULT :: int where
  "PRI_DEFAULT = 31"

definition PRI_MAX :: int where
  "PRI_MAX = 63"

definition TID_ERROR :: u32 where
  "TID_ERROR = -1"

definition CHILD_ALIVE :: int where
  "CHILD_ALIVE = 10"

definition CHILD_KILLED :: int where
  "CHILD_KILLED = -1"

definition CHILD_EXITED :: int where
  "CHILD_EXITED = 1"

definition CHILD_NOT_EXITED :: int where
  "CHILD_NOT_EXITED = 2"

definition upd_th :: "tptr \<Rightarrow> (thread \<Rightarrow> thread) \<Rightarrow> kernel \<Rightarrow> kernel option" where
  "upd_th t f k = (case threads k t of None \<Rightarrow> None | Some th \<Rightarrow> Some (k\<lparr>threads := (threads k)(t \<mapsto> f th)\<rparr>))"

definition push_kont :: "kont \<Rightarrow> kernel \<Rightarrow> kernel option" where
  "push_kont c k = upd_th (running k) (\<lambda>th. th\<lparr>konts := c # konts th\<rparr>) k"

section \<open>Interrupts\<close>

definition intr_context :: "kernel \<Rightarrow> bool" where
  "intr_context k = in_external_intr k"

definition intr_enable :: "kernel \<Rightarrow> kernel option" where
  "intr_enable k = do { ASSERT (\<not> intr_context k); Some (k\<lparr>intr_on := True\<rparr>) }"

definition intr_disable :: "kernel \<Rightarrow> kernel" where
  "intr_disable k = k\<lparr>intr_on := False\<rparr>"

definition intr_set_level :: "bool \<Rightarrow> kernel \<Rightarrow> kernel option" where
  "intr_set_level level k = (if level then intr_enable k else Some (intr_disable k))"

definition intr_yield_on_return :: "kernel \<Rightarrow> kernel option" where
  "intr_yield_on_return k = do { ASSERT (intr_context k); Some (k\<lparr>yield_on_return := True\<rparr>) }"

section \<open>The running thread and its switch\<close>

definition is_thread :: "kernel \<Rightarrow> tptr \<Rightarrow> bool" where
  "is_thread k t = (t \<noteq> 0 \<and> (case threads k t of None \<Rightarrow> False | Some th \<Rightarrow> th_magic th = THREAD_MAGIC))"

definition running_thread :: "kernel \<Rightarrow> tptr" where
  "running_thread k = running k"

definition thread_current :: "kernel \<Rightarrow> tptr option" where
  "thread_current k = do {
     let t = running_thread k;
     ASSERT (is_thread k t);
     th \<leftarrow> threads k t;
     ASSERT (status th = THREAD_RUNNING);
     Some t
   }"

definition tss_update :: "kernel \<Rightarrow> kernel option" where
  "tss_update k = do { t \<leftarrow> thread_current k; Some (k\<lparr>esp0 := t + of_nat PGSIZE\<rparr>) }"

definition process_activate :: "kernel \<Rightarrow> kernel option" where
  "process_activate k = do {
     t \<leftarrow> thread_current k;
     th \<leftarrow> threads k t;
     m \<leftarrow> pagedir_activate (pagedir th) (mach k);
     tss_update (k\<lparr>mach := m\<rparr>)
   }"

definition next_thread_to_run :: "kernel \<Rightarrow> tptr \<times> kernel" where
  "next_thread_to_run k = (case ready_list k of [] \<Rightarrow> (idle_thread k, k) | t # ts \<Rightarrow> (t, k\<lparr>ready_list := ts\<rparr>))"

text \<open>Freeing the page of a thread frees the thread and the semaphores in it.\<close>

definition free_thread :: "tptr \<Rightarrow> kernel \<Rightarrow> kernel option" where
  "free_thread t k = do {
     m \<leftarrow> palloc_free_page t (mach k);
     Some (k\<lparr>mach := m, threads := (threads k)(t := None), semas := (semas k)(Proc_exec t := None, Proc_wait t := None)\<rparr>)
   }"

definition thread_schedule_tail :: "tptr \<Rightarrow> kernel \<Rightarrow> kernel option" where
  "thread_schedule_tail prev k = do {
     let cur = running_thread k;
     ASSERT (\<not> intr_on k);
     k \<leftarrow> upd_th cur (\<lambda>th. th\<lparr>status := THREAD_RUNNING\<rparr>) k;
     let k = k\<lparr>thread_ticks := 0\<rparr>;
     k \<leftarrow> process_activate k;
     if prev = 0 then Some k
     else do {
       pth \<leftarrow> threads k prev;
       if status pth = THREAD_DYING \<and> prev \<noteq> initial_thread k
       then do { ASSERT (prev \<noteq> cur); free_thread prev k }
       else Some k
     }
   }"

definition schedule :: "kernel \<Rightarrow> kernel option" where
  "schedule k = do {
     let cur = running_thread k;
     let (nxt, k) = next_thread_to_run k;
     ASSERT (\<not> intr_on k);
     cth \<leftarrow> threads k cur;
     ASSERT (status cth \<noteq> THREAD_RUNNING);
     ASSERT (is_thread k nxt);
     let prev = (if cur \<noteq> nxt then cur else 0);
     thread_schedule_tail prev (k\<lparr>running := nxt\<rparr>)
   }"

section \<open>Blocking, waking and yielding\<close>

definition thread_block :: "kernel \<Rightarrow> kernel option" where
  "thread_block k = do {
     ASSERT (\<not> intr_context k);
     ASSERT (\<not> intr_on k);
     cur \<leftarrow> thread_current k;
     k \<leftarrow> upd_th cur (\<lambda>th. th\<lparr>status := THREAD_BLOCKED\<rparr>) k;
     schedule k
   }"

definition thread_unblock :: "tptr \<Rightarrow> kernel \<Rightarrow> kernel option" where
  "thread_unblock t k = do {
     ASSERT (is_thread k t);
     let old_level = intr_on k;
     let k = intr_disable k;
     th \<leftarrow> threads k t;
     ASSERT (status th = THREAD_BLOCKED);
     let k = k\<lparr>ready_list := ready_list k @ [t]\<rparr>;
     k \<leftarrow> upd_th t (\<lambda>th. th\<lparr>status := THREAD_READY\<rparr>) k;
     intr_set_level old_level k
   }"

definition thread_yield :: "kernel \<Rightarrow> kernel option" where
  "thread_yield k = do {
     cur \<leftarrow> thread_current k;
     ASSERT (\<not> intr_context k);
     let old_level = intr_on k;
     let k = intr_disable k;
     let k = (if cur \<noteq> idle_thread k then k\<lparr>ready_list := ready_list k @ [cur]\<rparr> else k);
     k \<leftarrow> upd_th cur (\<lambda>th. th\<lparr>status := THREAD_READY, konts := K_set_level old_level # konts th\<rparr>) k;
     schedule k
   }"

text \<open>\<^verbatim>\<open>thread_exit\<close> after its call of \<^verbatim>\<open>process_exit\<close>.\<close>

definition thread_exit_tail :: "kernel \<Rightarrow> kernel option" where
  "thread_exit_tail k = do {
     let k = intr_disable k;
     cur \<leftarrow> thread_current k;
     let k = k\<lparr>all_list := remove1 cur (all_list k)\<rparr>;
     k \<leftarrow> upd_th cur (\<lambda>th. th\<lparr>status := THREAD_DYING\<rparr>) k;
     schedule k
   }"

section \<open>The timer interrupt\<close>

definition thread_tick :: "kernel \<Rightarrow> kernel option" where
  "thread_tick k = do {
     t \<leftarrow> thread_current k;
     th \<leftarrow> threads k t;
     let k = (if t = idle_thread k then k\<lparr>idle_ticks := idle_ticks k + 1\<rparr>
              else if pagedir th \<noteq> 0 then k\<lparr>user_ticks := user_ticks k + 1\<rparr>
              else k\<lparr>kernel_ticks := kernel_ticks k + 1\<rparr>);
     let k = k\<lparr>thread_ticks := thread_ticks k + 1\<rparr>;
     if thread_ticks k \<ge> TIME_SLICE then intr_yield_on_return k else Some k
   }"

definition timer_interrupt :: "kernel \<Rightarrow> kernel option" where
  "timer_interrupt k = thread_tick (k\<lparr>timer_count := timer_count k + 1\<rparr>)"

definition unexpected_interrupt :: "nat \<Rightarrow> kernel \<Rightarrow> kernel" where
  "unexpected_interrupt vec k = k\<lparr>unexpected_cnt := (unexpected_cnt k)(vec := unexpected_cnt k vec + 1)\<rparr>"

text \<open>\<open>handlers\<close> is the table of registered handlers.  Acknowledging the interrupt controller is output
  to a port.\<close>

definition intr_handler :: "(nat \<Rightarrow> (kernel \<Rightarrow> kernel option) option) \<Rightarrow> nat \<Rightarrow> kernel \<Rightarrow> kernel option" where
  "intr_handler handlers vec_no k = do {
     let external = (0x20 \<le> vec_no \<and> vec_no < 0x30);
     k \<leftarrow> (if external then do {
             ASSERT (\<not> intr_on k);
             ASSERT (\<not> intr_context k);
             Some (k\<lparr>in_external_intr := True, yield_on_return := False\<rparr>)
           } else Some k);
     k \<leftarrow> (case handlers vec_no of
             Some h \<Rightarrow> h k
           | None \<Rightarrow> if vec_no = 0x27 \<or> vec_no = 0x2f then Some k else Some (unexpected_interrupt vec_no k));
     if external then do {
       ASSERT (\<not> intr_on k);
       ASSERT (intr_context k);
       let k = k\<lparr>in_external_intr := False\<rparr>;
       if yield_on_return k then thread_yield k else Some k
     } else Some k
   }"

text \<open>The processor takes an external interrupt: it saves where to return to and clears the interrupt flag.\<close>

definition take_irq :: "(nat \<Rightarrow> (kernel \<Rightarrow> kernel option) option) \<Rightarrow> nat \<Rightarrow> kernel \<Rightarrow> kernel option" where
  "take_irq handlers vec_no k = do { k \<leftarrow> push_kont K_iret k; intr_handler handlers vec_no (intr_disable k) }"

section \<open>Creation of threads\<close>

definition sema_init :: "sema_ref \<Rightarrow> u32 \<Rightarrow> kernel \<Rightarrow> kernel" where
  "sema_init s v k = k\<lparr>semas := (semas k)(s \<mapsto> \<lparr>sema_value = v, waiters = []\<rparr>)\<rparr>"

definition init_thread :: "tptr \<Rightarrow> u8 list \<Rightarrow> int \<Rightarrow> kernel \<Rightarrow> kernel option" where
  "init_thread t name prio k = do {
     ASSERT (t \<noteq> 0);
     ASSERT (PRI_MIN \<le> prio \<and> prio \<le> PRI_MAX);
     let k = sema_init (Proc_wait t) 0 (sema_init (Proc_exec t) 0 k);
     let th = \<lparr>tid = 0, status = THREAD_BLOCKED, th_name = take 15 name, stack = t + of_nat PGSIZE, priority = prio,
               parent = 0, pagedir = 0, file_struct_list = [], child_processes = [], th_magic = THREAD_MAGIC,
               th_current_dir = 0, konts = []\<rparr>;
     Some (k\<lparr>threads := (threads k)(t \<mapsto> th), all_list := all_list k @ [t]\<rparr>)
   }"

definition allocate_tid :: "kernel \<Rightarrow> (u32 \<times> kernel) option" where
  "allocate_tid k = do { ASSERT (next_tid k \<noteq> 0x7fffffff); Some (next_tid k, k\<lparr>next_tid := next_tid k + 1\<rparr>) }"

definition alloc_frame :: "tptr \<Rightarrow> u32 \<Rightarrow> kernel \<Rightarrow> kernel option" where
  "alloc_frame t sz k = do {
     ASSERT (is_thread k t);
     ASSERT (sz mod 4 = 0);
     upd_th t (\<lambda>th. th\<lparr>stack := stack th - sz\<rparr>) k
   }"

definition create_child_process :: "tptr \<Rightarrow> kernel \<Rightarrow> (ptr \<times> kernel) option" where
  "create_child_process t k = do {
     th \<leftarrow> threads k t;
     let (p, f) = malloc (kfs k);
     ASSERT (p \<noteq> NULL);
     Some (p, k\<lparr>kfs := f, childs := (childs k)(p \<mapsto> \<lparr>child_pid = tid th, cur_status = CHILD_ALIVE, is_awaited = False,
       is_loaded = False, exit_status = CHILD_NOT_EXITED, child_proc_thread = t\<rparr>)\<rparr>)
   }"

definition thread_init :: "kernel \<Rightarrow> kernel option" where
  "thread_init k = do {
     ASSERT (\<not> intr_on k);
     let k = k\<lparr>ready_list := [], all_list := [], initial_thread := running_thread k\<rparr>;
     let t = initial_thread k;
     k \<leftarrow> init_thread t (map (\<lambda>c. of_nat c) [109, 97, 105, 110]) PRI_DEFAULT k;
     k \<leftarrow> upd_th t (\<lambda>th. th\<lparr>status := THREAD_RUNNING\<rparr>) k;
     (i, k) \<leftarrow> allocate_tid k;
     upd_th t (\<lambda>th. th\<lparr>tid := i\<rparr>) k
   }"

text \<open>The function of the new thread is the list of continuations \<open>function\<close>: empty for one outside the
  scheduler.  The frames pushed on the new stack have 12, 4 and 28 bytes.\<close>

definition thread_create :: "nat \<Rightarrow> u8 list \<Rightarrow> int \<Rightarrow> kont list option \<Rightarrow> kernel \<Rightarrow> (u32 \<times> kernel) option" where
  "thread_create depth name prio function k = do {
     ASSERT (function \<noteq> None);
     (t, m) \<leftarrow> palloc_get_page PAL_ZERO (mach k);
     let k = k\<lparr>mach := m\<rparr>;
     if t = 0 then Some (TID_ERROR, k)
     else do {
       k \<leftarrow> init_thread t name prio k;
       (i, k) \<leftarrow> allocate_tid k;
       k \<leftarrow> upd_th t (\<lambda>th. th\<lparr>tid := i\<rparr>) k;
       cur \<leftarrow> thread_current k;
       cth \<leftarrow> threads k cur;
       (d, f) \<leftarrow> (if th_current_dir cth \<noteq> NULL then dir_reopen depth (th_current_dir cth) (kfs k) else Some (NULL, kfs k));
       k \<leftarrow> upd_th t (\<lambda>th. th\<lparr>th_current_dir := d, file_struct_list := [], parent := cur\<rparr>) (k\<lparr>kfs := f\<rparr>);
       (c, k) \<leftarrow> create_child_process t k;
       k \<leftarrow> upd_th cur (\<lambda>th. th\<lparr>child_processes := child_processes th @ [c]\<rparr>) k;
       let old_level = intr_on k;
       k \<leftarrow> alloc_frame t 12 (intr_disable k);
       k \<leftarrow> alloc_frame t 4 k;
       k \<leftarrow> alloc_frame t 28 k;
       k \<leftarrow> upd_th t (\<lambda>th. th\<lparr>konts := K_kernel_thread # the function\<rparr>) k;
       k \<leftarrow> intr_set_level old_level k;
       k \<leftarrow> thread_unblock t k;
       Some (i, k)
     }
   }"

section \<open>Other operations of thread.c\<close>

definition thread_tid :: "kernel \<Rightarrow> u32 option" where
  "thread_tid k = do { t \<leftarrow> thread_current k; th \<leftarrow> threads k t; Some (tid th) }"

definition thread_name :: "kernel \<Rightarrow> u8 list option" where
  "thread_name k = do { t \<leftarrow> thread_current k; th \<leftarrow> threads k t; Some (th_name th) }"

definition thread_set_priority :: "int \<Rightarrow> kernel \<Rightarrow> kernel option" where
  "thread_set_priority p k = do { t \<leftarrow> thread_current k; upd_th t (\<lambda>th. th\<lparr>priority := p\<rparr>) k }"

definition thread_get_priority :: "kernel \<Rightarrow> int option" where
  "thread_get_priority k = do { t \<leftarrow> thread_current k; th \<leftarrow> threads k t; Some (priority th) }"

primrec foreach_loop :: "(tptr \<Rightarrow> kernel \<Rightarrow> kernel option) \<Rightarrow> tptr list \<Rightarrow> kernel \<Rightarrow> kernel option" where
  "foreach_loop func [] k = Some k"
| "foreach_loop func (t # ts) k = do { k \<leftarrow> func t k; foreach_loop func ts k }"

definition thread_foreach :: "(tptr \<Rightarrow> kernel \<Rightarrow> kernel option) \<Rightarrow> kernel \<Rightarrow> kernel option" where
  "thread_foreach func k = do { ASSERT (\<not> intr_on k); foreach_loop func (all_list k) k }"

end
