(* ===== verification/Synch.thy ===== *)
theory Synch
  imports Threads
begin

text \<open>
  Semaphores, locks and condition variables (threads/synch.c), sleeping (devices/timer.c), and the
  transition system of the kernel threads: a thread continues where it gave up the processor, an
  interrupt is taken whenever interrupts are enabled, or code outside calls an operation.
\<close>

section \<open>Semaphores\<close>

definition set_sema :: "sema_ref \<Rightarrow> semaphore \<Rightarrow> kernel \<Rightarrow> kernel" where
  "set_sema s sm k = k\<lparr>semas := (semas k)(s \<mapsto> sm)\<rparr>"

text \<open>The loop of \<^verbatim>\<open>sema_down\<close> and the code after it: a thread that has to wait leaves the loop as its
  continuation.\<close>

definition sema_down_loop :: "sema_ref \<Rightarrow> bool \<Rightarrow> kernel \<Rightarrow> kernel option" where
  "sema_down_loop s old_level k = do {
     sm \<leftarrow> semas k s;
     if sema_value sm = 0 then do {
       cur \<leftarrow> thread_current k;
       let k = set_sema s (sm\<lparr>waiters := waiters sm @ [cur]\<rparr>) k;
       k \<leftarrow> push_kont (K_down s old_level) k;
       thread_block k
     } else intr_set_level old_level (set_sema s (sm\<lparr>sema_value := sema_value sm - 1\<rparr>) k)
   }"

definition sema_down :: "sema_ref \<Rightarrow> kernel \<Rightarrow> kernel option" where
  "sema_down s k = do { ASSERT (\<not> intr_context k); sema_down_loop s (intr_on k) (intr_disable k) }"

definition sema_try_down :: "sema_ref \<Rightarrow> kernel \<Rightarrow> (bool \<times> kernel) option" where
  "sema_try_down s k = do {
     let old_level = intr_on k;
     let k = intr_disable k;
     sm \<leftarrow> semas k s;
     let success = (sema_value sm > 0);
     let k = (if success then set_sema s (sm\<lparr>sema_value := sema_value sm - 1\<rparr>) k else k);
     k \<leftarrow> intr_set_level old_level k;
     Some (success, k)
   }"

definition sema_up :: "sema_ref \<Rightarrow> kernel \<Rightarrow> kernel option" where
  "sema_up s k = do {
     let old_level = intr_on k;
     let k = intr_disable k;
     sm \<leftarrow> semas k s;
     k \<leftarrow> (case waiters sm of [] \<Rightarrow> Some k | t # ts \<Rightarrow> thread_unblock t (set_sema s (sm\<lparr>waiters := ts\<rparr>) k));
     sm \<leftarrow> semas k s;
     intr_set_level old_level (set_sema s (sm\<lparr>sema_value := sema_value sm + 1\<rparr>) k)
   }"

section \<open>Locks\<close>

definition lock_init :: "nat \<Rightarrow> kernel \<Rightarrow> kernel" where
  "lock_init l k = sema_init (Lock_sema l) 1 (k\<lparr>holder := (holder k)(l := 0)\<rparr>)"

definition lock_held_by_current_thread :: "nat \<Rightarrow> kernel \<Rightarrow> bool option" where
  "lock_held_by_current_thread l k = do { t \<leftarrow> thread_current k; Some (holder k l = t) }"

definition lock_acquire :: "nat \<Rightarrow> kernel \<Rightarrow> kernel option" where
  "lock_acquire l k = do {
     ASSERT (\<not> intr_context k);
     held \<leftarrow> lock_held_by_current_thread l k;
     ASSERT (\<not> held);
     k \<leftarrow> push_kont (K_holder l) k;
     push_kont (K_sema_down (Lock_sema l)) k
   }"

definition lock_try_acquire :: "nat \<Rightarrow> kernel \<Rightarrow> (bool \<times> kernel) option" where
  "lock_try_acquire l k = do {
     held \<leftarrow> lock_held_by_current_thread l k;
     ASSERT (\<not> held);
     (success, k) \<leftarrow> sema_try_down (Lock_sema l) k;
     k \<leftarrow> (if success then push_kont (K_holder l) k else Some k);
     Some (success, k)
   }"

definition lock_release :: "nat \<Rightarrow> kernel \<Rightarrow> kernel option" where
  "lock_release l k = do {
     held \<leftarrow> lock_held_by_current_thread l k;
     ASSERT held;
     push_kont (K_up (Lock_sema l)) (k\<lparr>holder := (holder k)(l := 0)\<rparr>)
   }"

section \<open>Condition variables\<close>

definition cond_init :: "nat \<Rightarrow> kernel \<Rightarrow> kernel" where
  "cond_init c k = k\<lparr>cond_waiters := (cond_waiters k)(c := [])\<rparr>"

definition cond_wait :: "nat \<Rightarrow> nat \<Rightarrow> kernel \<Rightarrow> kernel option" where
  "cond_wait c l k = do {
     ASSERT (\<not> intr_context k);
     held \<leftarrow> lock_held_by_current_thread l k;
     ASSERT held;
     cur \<leftarrow> thread_current k;
     let k = sema_init (Waiter cur) 0 k;
     let k = k\<lparr>cond_waiters := (cond_waiters k)(c := cond_waiters k c @ [cur])\<rparr>;
     k \<leftarrow> push_kont (K_acquire l) k;
     k \<leftarrow> push_kont (K_sema_down (Waiter cur)) k;
     lock_release l k
   }"

definition cond_signal :: "nat \<Rightarrow> nat \<Rightarrow> kernel \<Rightarrow> kernel option" where
  "cond_signal c l k = do {
     ASSERT (\<not> intr_context k);
     held \<leftarrow> lock_held_by_current_thread l k;
     ASSERT held;
     case cond_waiters k c of
       [] \<Rightarrow> Some k
     | t # ts \<Rightarrow> push_kont (K_up (Waiter t)) (k\<lparr>cond_waiters := (cond_waiters k)(c := ts)\<rparr>)
   }"

text \<open>One round of the loop of \<^verbatim>\<open>cond_broadcast\<close>.\<close>

definition cond_broadcast :: "nat \<Rightarrow> nat \<Rightarrow> kernel \<Rightarrow> kernel option" where
  "cond_broadcast c l k = (
     if cond_waiters k c = [] then Some k
     else do { k \<leftarrow> push_kont (K_broadcast c l) k; cond_signal c l k })"

section \<open>Sleeping\<close>

definition timer_ticks :: "kernel \<Rightarrow> u64" where
  "timer_ticks k = timer_count k"

definition timer_elapsed :: "u64 \<Rightarrow> kernel \<Rightarrow> u64" where
  "timer_elapsed since k = timer_ticks k - since"

definition timer_sleep_loop :: "u64 \<Rightarrow> u64 \<Rightarrow> kernel \<Rightarrow> kernel option" where
  "timer_sleep_loop since n k = (
     if sint (timer_elapsed since k) < sint n then do { k \<leftarrow> push_kont (K_sleep since n) k; thread_yield k }
     else Some k)"

definition timer_sleep :: "u64 \<Rightarrow> kernel \<Rightarrow> kernel option" where
  "timer_sleep n k = do { let since = timer_ticks k; ASSERT (intr_on k); timer_sleep_loop since n k }"

section \<open>Continuing a thread\<close>

text \<open>The idle thread disables interrupts and blocks; when it runs again, \<^verbatim>\<open>sti; hlt\<close> enables them.\<close>

definition idle_start :: "sema_ref \<Rightarrow> kernel \<Rightarrow> kernel option" where
  "idle_start s k = do {
     cur \<leftarrow> thread_current k;
     k \<leftarrow> push_kont K_idle (k\<lparr>idle_thread := cur\<rparr>);
     push_kont (K_up s) k
   }"

definition idle :: "kernel \<Rightarrow> kernel option" where
  "idle k = do { k \<leftarrow> push_kont K_hlt (intr_disable k); thread_block k }"

definition kernel_thread :: "kernel \<Rightarrow> kernel option" where
  "kernel_thread k = intr_enable k"

definition thread_start :: "nat \<Rightarrow> kernel \<Rightarrow> kernel option" where
  "thread_start depth k = do {
     let k = sema_init (Sema 0) 0 k;
     (i, k) \<leftarrow> thread_create depth (map (\<lambda>c. of_nat c) [105, 100, 108, 101]) PRI_MIN (Some [K_idle_start (Sema 0)]) k;
     k \<leftarrow> intr_enable k;
     sema_down (Sema 0) k
   }"

definition resume :: "kont \<Rightarrow> kernel \<Rightarrow> kernel option" where
  "resume c k = (case c of
       K_down s old \<Rightarrow> sema_down_loop s old k
     | K_sema_down s \<Rightarrow> sema_down s k
     | K_holder l \<Rightarrow> do { t \<leftarrow> thread_current k; Some (k\<lparr>holder := (holder k)(l := t)\<rparr>) }
     | K_up s \<Rightarrow> sema_up s k
     | K_acquire l \<Rightarrow> lock_acquire l k
     | K_set_level b \<Rightarrow> intr_set_level b k
     | K_iret \<Rightarrow> Some (k\<lparr>intr_on := True\<rparr>)
     | K_kernel_thread \<Rightarrow> kernel_thread k
     | K_idle_start s \<Rightarrow> idle_start s k
     | K_idle \<Rightarrow> idle k
     | K_hlt \<Rightarrow> push_kont K_idle (k\<lparr>intr_on := True\<rparr>)
     | K_broadcast c l \<Rightarrow> cond_broadcast c l k
     | K_sleep since n \<Rightarrow> timer_sleep_loop since n k)"

definition continue_thread :: "kernel \<Rightarrow> kernel option" where
  "continue_thread k = do {
     th \<leftarrow> threads k (running k);
     case konts th of
       [] \<Rightarrow> None
     | c # cs \<Rightarrow> resume c (k\<lparr>threads := (threads k)(running k \<mapsto> th\<lparr>konts := cs\<rparr>)\<rparr>)
   }"

end
