(* ===== verification/Process.thy ===== *)
theory Process
  imports Synch
begin

text \<open>
  Processes as parents and children (the synchronisation part of userprog/process.c and
  userprog/syscall.c).  A parent reaches its children through a list of \<^verbatim>\<open>child_process\<close> structures
  that are never freed; a child reaches its parent through the address of the parent's thread, which
  may have been freed.
\<close>

primrec get_child :: "u32 \<Rightarrow> ptr list \<Rightarrow> kernel \<Rightarrow> ptr option" where
  "get_child pid [] k = Some NULL"
| "get_child pid (c # cs) k = do { ch \<leftarrow> childs k c; if child_pid ch = pid then Some c else get_child pid cs k }"

definition upd_child :: "ptr \<Rightarrow> (child_process \<Rightarrow> child_process) \<Rightarrow> kernel \<Rightarrow> kernel option" where
  "upd_child c f k = (case childs k c of None \<Rightarrow> None | Some ch \<Rightarrow> Some (k\<lparr>childs := (childs k)(c \<mapsto> f ch)\<rparr>))"

text \<open>The child structure of the running thread in the list of its parent.\<close>

definition own_child :: "kernel \<Rightarrow> ptr option" where
  "own_child k = do {
     cur \<leftarrow> thread_current k;
     cth \<leftarrow> threads k cur;
     pth \<leftarrow> threads k (parent cth);
     get_child (tid cth) (child_processes pth) k
   }"

definition process_exit :: "kernel \<Rightarrow> kernel option" where
  "process_exit k = do {
     cur \<leftarrow> thread_current k;
     cth \<leftarrow> threads k cur;
     k \<leftarrow> (if parent cth \<noteq> 0 then do {
             c \<leftarrow> own_child k;
             ASSERT (c \<noteq> NULL);
             k \<leftarrow> upd_th (parent cth) (\<lambda>th. th\<lparr>child_processes := remove1 c (child_processes th)\<rparr>) k;
             upd_child c (\<lambda>ch. if cur_status ch = CHILD_ALIVE then ch\<lparr>cur_status := CHILD_KILLED, exit_status := -1\<rparr> else ch) k
           } else Some k);
     k \<leftarrow> sema_up (Proc_wait cur) k;
     cth \<leftarrow> threads k cur;
     let pd = pagedir cth;
     if pd \<noteq> 0 then do {
       k \<leftarrow> upd_th cur (\<lambda>th. th\<lparr>pagedir := 0\<rparr>) k;
       m \<leftarrow> pagedir_activate 0 (mach k);
       m \<leftarrow> pagedir_destroy pd m;
       Some (k\<lparr>mach := m\<rparr>)
     } else Some k
   }"

definition thread_exit :: "kernel \<Rightarrow> kernel option" where
  "thread_exit k = do { ASSERT (\<not> intr_context k); k \<leftarrow> process_exit k; thread_exit_tail k }"

text \<open>The system call: it records the status and ends the thread.\<close>

definition exit_process :: "int \<Rightarrow> kernel \<Rightarrow> kernel option" where
  "exit_process st k = do {
     c \<leftarrow> own_child k;
     ASSERT (c \<noteq> NULL);
     k \<leftarrow> upd_child c (\<lambda>ch. ch\<lparr>exit_status := st, cur_status := (if st = -1 then CHILD_KILLED else CHILD_EXITED)\<rparr>) k;
     thread_exit k
   }"

text \<open>\<^verbatim>\<open>process_wait\<close> up to its call of \<^verbatim>\<open>sema_down\<close>: either the result, or the child whose exit
  status is returned after the wait.\<close>

definition process_wait :: "u32 \<Rightarrow> kernel \<Rightarrow> ((int + ptr) \<times> kernel) option" where
  "process_wait child_tid k = do {
     cur \<leftarrow> thread_current k;
     cth \<leftarrow> threads k cur;
     c \<leftarrow> get_child child_tid (child_processes cth) k;
     if c = NULL then Some (Inl (-1), k)
     else do {
       ch \<leftarrow> childs k c;
       if \<not> is_awaited ch then do {
         k \<leftarrow> upd_child c (\<lambda>ch. ch\<lparr>is_awaited := True\<rparr>) k;
         if cur_status ch = CHILD_ALIVE then do {
           k \<leftarrow> sema_down (Proc_wait (child_proc_thread ch)) k;
           Some (Inr c, k)
         } else Some (Inl (exit_status ch), k)
       } else Some (Inl (-1), k)
     }
   }"

definition process_wait_result :: "ptr \<Rightarrow> kernel \<Rightarrow> int option" where
  "process_wait_result c k = do { ch \<leftarrow> childs k c; Some (exit_status ch) }"

text \<open>The first word of a command line, which \<^verbatim>\<open>strtok_r\<close> returns (null when there is none).\<close>

definition first_word :: "u8 list \<Rightarrow> u8 list option" where
  "first_word cmd = (let w = takeWhile (\<lambda>c. c \<noteq> 32) (dropWhile (\<lambda>c. c = 32) cmd) in if w = [] then None else Some w)"

text \<open>\<^verbatim>\<open>free (name)\<close> is given the start of the first word, which is a block only when the line does not
  begin with a space.\<close>

definition process_execute :: "nat \<Rightarrow> u8 list \<Rightarrow> kernel \<Rightarrow> (u32 \<times> kernel) option" where
  "process_execute depth file_name k = do {
     let (p, f) = malloc (kfs k);
     ASSERT (p \<noteq> NULL);
     let k = k\<lparr>kfs := f\<rparr>;
     (fn_copy, m) \<leftarrow> palloc_get_page 0 (mach k);
     let k = k\<lparr>mach := m\<rparr>;
     if fn_copy = 0 then Some (TID_ERROR, k)
     else do {
       name \<leftarrow> first_word file_name;
       (i, k) \<leftarrow> thread_create depth name PRI_DEFAULT (Some []) k;
       ASSERT (hd file_name \<noteq> 32);
       if i = TID_ERROR then do {
         m \<leftarrow> palloc_free_page fn_copy (mach k);
         Some (i, k\<lparr>mach := m\<rparr>)
       } else Some (i, k)
     }
   }"

text \<open>\<^verbatim>\<open>start_process\<close> after \<^verbatim>\<open>load\<close> returned \<open>success\<close>; a process that was loaded goes on in user mode.\<close>

definition start_process_tail :: "u32 \<Rightarrow> bool \<Rightarrow> kernel \<Rightarrow> kernel option" where
  "start_process_tail fn_copy success k = do {
     cur \<leftarrow> thread_current k;
     cth \<leftarrow> threads k cur;
     k \<leftarrow> (if parent cth \<noteq> 0 then do {
             c \<leftarrow> own_child k;
             ASSERT (c \<noteq> NULL);
             upd_child c (\<lambda>ch. ch\<lparr>is_loaded := success\<rparr>) k
           } else Some k);
     k \<leftarrow> sema_up (Proc_exec cur) k;
     m \<leftarrow> palloc_free_page fn_copy (mach k);
     let k = k\<lparr>mach := m\<rparr>;
     if \<not> success then thread_exit k else Some k
   }"

text \<open>The system call \<^verbatim>\<open>exec\<close> up to its \<^verbatim>\<open>sema_down\<close>, and its result afterwards.  When no process could
  be created the caller itself exits.\<close>

definition exec :: "nat \<Rightarrow> u8 list \<Rightarrow> kernel \<Rightarrow> ((ptr \<times> u32) option \<times> kernel) option" where
  "exec depth cmd_line k = do {
     (pid, k) \<leftarrow> process_execute depth cmd_line k;
     if pid = TID_ERROR then do { k \<leftarrow> exit_process (-1) k; Some (None, k) }
     else do {
       cur \<leftarrow> thread_current k;
       cth \<leftarrow> threads k cur;
       c \<leftarrow> get_child pid (child_processes cth) k;
       ch \<leftarrow> childs k c;
       k \<leftarrow> sema_down (Proc_exec (child_proc_thread ch)) k;
       Some (Some (c, pid), k)
     }
   }"

definition exec_result :: "ptr \<Rightarrow> u32 \<Rightarrow> kernel \<Rightarrow> u32 option" where
  "exec_result c pid k = do { ch \<leftarrow> childs k c; Some (if is_loaded ch then pid else -1) }"

section \<open>The transition system\<close>

datatype client_op =
    C_sema_down nat | C_sema_up nat | C_sema_try_down nat | C_acquire nat | C_try_acquire nat | C_release nat
  | C_wait nat nat | C_signal nat nat | C_broadcast nat nat | C_yield | C_sleep u64 | C_exit
  | C_create nat "u8 list" int

definition client_step :: "client_op \<Rightarrow> kernel \<Rightarrow> kernel option" where
  "client_step c k = (case c of
       C_sema_down n \<Rightarrow> sema_down (Sema n) k
     | C_sema_up n \<Rightarrow> sema_up (Sema n) k
     | C_sema_try_down n \<Rightarrow> map_option snd (sema_try_down (Sema n) k)
     | C_acquire l \<Rightarrow> lock_acquire l k
     | C_try_acquire l \<Rightarrow> map_option snd (lock_try_acquire l k)
     | C_release l \<Rightarrow> lock_release l k
     | C_wait c l \<Rightarrow> cond_wait c l k
     | C_signal c l \<Rightarrow> cond_signal c l k
     | C_broadcast c l \<Rightarrow> cond_broadcast c l k
     | C_yield \<Rightarrow> thread_yield k
     | C_sleep n \<Rightarrow> timer_sleep n k
     | C_exit \<Rightarrow> thread_exit k
     | C_create depth name prio \<Rightarrow> map_option snd (thread_create depth name prio (Some []) k))"

text \<open>The handlers: the timer, and devices whose handler wakes a waiting thread.\<close>

definition irq_handlers :: "nat \<Rightarrow> nat \<Rightarrow> (kernel \<Rightarrow> kernel option) option" where
  "irq_handlers n vec_no = (if vec_no = 0x20 then Some timer_interrupt else if 0x20 < vec_no \<and> vec_no < 0x30 then Some (sema_up (Sema n)) else None)"

datatype event = Continue | Client client_op | Timer_irq | Device_irq nat nat

inductive kstep :: "event \<Rightarrow> kernel \<Rightarrow> kernel \<Rightarrow> bool" where
  step_continue: "continue_thread k = Some k' \<Longrightarrow> kstep Continue k k'"
| step_client: "threads k (running k) = Some th \<Longrightarrow> konts th = [] \<Longrightarrow> client_step c k = Some k' \<Longrightarrow> kstep (Client c) k k'"
| step_timer: "intr_on k \<Longrightarrow> take_irq (irq_handlers 0) 0x20 k = Some k' \<Longrightarrow> kstep Timer_irq k k'"
| step_device: "intr_on k \<Longrightarrow> 0x20 < v \<Longrightarrow> v < 0x30 \<Longrightarrow> take_irq (irq_handlers n) v k = Some k' \<Longrightarrow> kstep (Device_irq n v) k k'"

inductive ksteps :: "event list \<Rightarrow> kernel \<Rightarrow> kernel \<Rightarrow> bool" where
  ksteps_refl: "ksteps [] k k"
| ksteps_step: "kstep e k k' \<Longrightarrow> ksteps es k' k'' \<Longrightarrow> ksteps (e # es) k k''"

inductive_cases kstep_cases: "kstep e k k'"
inductive_cases ksteps_cases: "ksteps es k k'"

end
