(* ===== verification/Sched_Inv.thy ===== *)
theory Sched_Inv
  imports Process
begin

text \<open>
  The invariant of the scheduler and of the synchronisation primitives, and that a context switch keeps
  it.  The invariant is stated for a running thread, and for the moment inside \<^verbatim>\<open>schedule\<close> at which no
  thread is marked as running.
\<close>

section \<open>The invariant\<close>

definition is_proc :: "sema_ref \<Rightarrow> bool" where
  "is_proc s = (case s of Proc_exec t \<Rightarrow> True | Proc_wait t \<Rightarrow> True | _ \<Rightarrow> False)"

definition live_semas :: "kernel \<Rightarrow> sema_ref set" where
  "live_semas k = {s. semas k s \<noteq> None \<and> \<not> is_proc s}"

definition own_sema :: "tptr \<Rightarrow> sema_ref \<Rightarrow> bool" where
  "own_sema t s = (case s of Waiter u \<Rightarrow> u = t | _ \<Rightarrow> True)"

text \<open>The continuations of thread \<open>t\<close> fit together: run with interrupts on or off (\<open>b\<close>), they reach code
  outside with interrupts on.\<close>

fun stack_ok :: "sema_ref set \<Rightarrow> tptr \<Rightarrow> tptr \<Rightarrow> bool \<Rightarrow> kont list \<Rightarrow> bool" where
  "stack_ok S idl t b [] = (b \<and> t \<noteq> idl)"
| "stack_ok S idl t b (c # ks) = (case c of
       K_down s old \<Rightarrow> \<not> b \<and> s \<in> S \<and> own_sema t s \<and> t \<noteq> idl \<and> stack_ok S idl t old ks
     | K_sema_down s \<Rightarrow> s \<in> S \<and> own_sema t s \<and> t \<noteq> idl \<and> stack_ok S idl t b ks
     | K_up s \<Rightarrow> s \<in> S \<and> stack_ok S idl t b ks
     | K_holder l \<Rightarrow> stack_ok S idl t b ks
     | K_acquire l \<Rightarrow> Lock_sema l \<in> S \<and> t \<noteq> idl \<and> stack_ok S idl t b ks
     | K_set_level old \<Rightarrow> \<not> b \<and> stack_ok S idl t old ks
     | K_iret \<Rightarrow> \<not> b \<and> stack_ok S idl t True ks
     | K_kernel_thread \<Rightarrow> \<not> b \<and> stack_ok S idl t True ks
     | K_idle_start s \<Rightarrow> False
     | K_idle \<Rightarrow> b \<and> t = idl \<and> ks = []
     | K_hlt \<Rightarrow> \<not> b \<and> t = idl \<and> ks = []
     | K_broadcast c l \<Rightarrow> stack_ok S idl t b ks
     | K_sleep since n \<Rightarrow> stack_ok S idl t b ks)"

definition sema_waiters :: "kernel \<Rightarrow> sema_ref \<Rightarrow> tptr list" where
  "sema_waiters k s = (case semas k s of None \<Rightarrow> [] | Some sm \<Rightarrow> waiters sm)"

definition waits :: "kernel \<Rightarrow> tptr \<Rightarrow> bool" where
  "waits k t \<longleftrightarrow> (\<exists>s. t \<in> set (sema_waiters k s))"

definition status_ok :: "tptr option \<Rightarrow> kernel \<Rightarrow> tptr \<Rightarrow> thread_status \<Rightarrow> bool" where
  "status_ok r k t st \<longleftrightarrow>
     (st = THREAD_RUNNING \<longrightarrow> r = Some t) \<and>
     (st = THREAD_READY \<longrightarrow> t \<in> set (ready_list k) \<or> t = idle_thread k) \<and>
     (st = THREAD_BLOCKED \<longrightarrow> t = idle_thread k \<or> waits k t) \<and>
     (st = THREAD_DYING \<longrightarrow> t = initial_thread k \<or> r = None \<and> t = running k)"

definition threads_ok :: "tptr option \<Rightarrow> kernel \<Rightarrow> bool" where
  "threads_ok r k \<longleftrightarrow> (\<forall>t th. threads k t = Some th \<longrightarrow> t \<noteq> 0 \<and> th_magic th = THREAD_MAGIC \<and> pagedir th = 0 \<and>
     status_ok r k t (status th) \<and>
     (status th \<noteq> THREAD_DYING \<longrightarrow> stack_ok (live_semas k) (idle_thread k) t (r = Some t \<and> intr_on k) (konts th)))"

definition running_ok :: "tptr option \<Rightarrow> kernel \<Rightarrow> bool" where
  "running_ok r k \<longleftrightarrow> (\<exists>th. threads k (running k) = Some th \<and> (r \<noteq> None \<longrightarrow> r = Some (running k) \<and> status th = THREAD_RUNNING))"

definition ready_ok :: "kernel \<Rightarrow> bool" where
  "ready_ok k \<longleftrightarrow> distinct (ready_list k) \<and>
     (\<forall>t \<in> set (ready_list k). t \<noteq> idle_thread k \<and> (\<exists>th. threads k t = Some th \<and> status th = THREAD_READY))"

definition waiting :: "kernel \<Rightarrow> tptr \<Rightarrow> sema_ref \<Rightarrow> bool" where
  "waiting k t s \<longleftrightarrow> (\<exists>th b ks. threads k t = Some th \<and> status th = THREAD_BLOCKED \<and> konts th = K_down s b # ks)"

definition waiters_ok :: "kernel \<Rightarrow> bool" where
  "waiters_ok k \<longleftrightarrow> (\<forall>s. distinct (sema_waiters k s) \<and> (is_proc s \<longrightarrow> sema_waiters k s = []) \<and>
     (\<forall>t \<in> set (sema_waiters k s). t \<noteq> idle_thread k \<and> waiting k t s))"

definition all_ok :: "kernel \<Rightarrow> bool" where
  "all_ok k \<longleftrightarrow> distinct (all_list k) \<and> set (all_list k) = {t. \<exists>th. threads k t = Some th \<and> status th \<noteq> THREAD_DYING}"

definition global_ok :: "kernel \<Rightarrow> bool" where
  "global_ok k \<longleftrightarrow> threads k (idle_thread k) \<noteq> None \<and> idle_thread k \<noteq> initial_thread k \<and> idle_thread k \<in> set (all_list k) \<and>
     pg.housed (dom (threads k)) (initial_thread k) (mach k) \<and> PHYS_BASE \<le> init_page_dir (mach k) \<and> finite (dom (threads k)) \<and>
     thread_ticks k < TIME_SLICE \<and> (\<forall>l. Lock_sema l \<in> live_semas k \<and> Sema l \<in> live_semas k) \<and>
     (\<forall>c. \<forall>t \<in> set (cond_waiters k c). Waiter t \<in> live_semas k)"

definition sched_inv :: "tptr option \<Rightarrow> kernel \<Rightarrow> bool" where
  "sched_inv r k \<longleftrightarrow> threads_ok r k \<and> running_ok r k \<and> ready_ok k \<and> waiters_ok k \<and> all_ok k \<and> global_ok k"

definition kernel_inv :: "kernel \<Rightarrow> bool" where
  "kernel_inv k \<longleftrightarrow> sched_inv (Some (running k)) k \<and> \<not> in_external_intr k"

lemmas inv_defs = sched_inv_def threads_ok_def running_ok_def ready_ok_def waiters_ok_def waiting_def all_ok_def global_ok_def
  status_ok_def live_semas_def waits_def sema_waiters_def

lemma sched_inv_frame [simp]:
  "sched_inv r (k\<lparr>holder := x1\<rparr>) = sched_inv r k"
  "sched_inv r (k\<lparr>yield_on_return := x2\<rparr>) = sched_inv r k"
  "sched_inv r (k\<lparr>in_external_intr := x2\<rparr>) = sched_inv r k"
  "sched_inv r (k\<lparr>timer_count := x3\<rparr>) = sched_inv r k"
  "sched_inv r (k\<lparr>idle_ticks := x3\<rparr>) = sched_inv r k"
  "sched_inv r (k\<lparr>user_ticks := x3\<rparr>) = sched_inv r k"
  "sched_inv r (k\<lparr>kernel_ticks := x3\<rparr>) = sched_inv r k"
  "sched_inv r (k\<lparr>esp0 := x4\<rparr>) = sched_inv r k"
  "sched_inv r (k\<lparr>childs := x5\<rparr>) = sched_inv r k"
  "sched_inv r (k\<lparr>kfs := x6\<rparr>) = sched_inv r k"
  "sched_inv r (k\<lparr>next_tid := x7\<rparr>) = sched_inv r k"
  by (simp_all add: inv_defs)

lemma sched_inv_None_intr [simp]: "sched_inv None (k\<lparr>intr_on := b\<rparr>) = sched_inv None k"
  by (simp add: inv_defs)

section \<open>Primitive changes\<close>

lemma stack_ok_mono: "stack_ok S idl t b ks \<Longrightarrow> S \<subseteq> S' \<Longrightarrow> stack_ok S' idl t b ks"
  by (induction S idl t b ks rule: stack_ok.induct) (auto split: kont.splits)

lemma thread_okD:
  assumes "sched_inv r k" and "threads k t = Some th"
  shows "t \<noteq> 0" "th_magic th = THREAD_MAGIC" "pagedir th = 0" "status_ok r k t (status th)"
    "status th \<noteq> THREAD_DYING \<Longrightarrow> stack_ok (live_semas k) (idle_thread k) t (r = Some t \<and> intr_on k) (konts th)"
  using assms unfolding sched_inv_def threads_ok_def by blast+

lemma sched_invD:
  assumes "sched_inv (Some t) k"
  obtains th where "t = running k" "threads k t = Some th" "status th = THREAD_RUNNING" "t \<noteq> 0" "th_magic th = THREAD_MAGIC" "pagedir th = 0"
    "stack_ok (live_semas k) (idle_thread k) t (intr_on k) (konts th)"
proof -
  obtain th where th: "t = running k" "threads k t = Some th" "status th = THREAD_RUNNING"
    using assms by (auto simp: sched_inv_def running_ok_def)
  moreover have "t \<noteq> 0" "th_magic th = THREAD_MAGIC" "pagedir th = 0" "stack_ok (live_semas k) (idle_thread k) t (intr_on k) (konts th)"
    using thread_okD [OF assms th(2)] th(3) by simp_all
  ultimately show ?thesis by (rule that)
qed

lemma threads_okI:
  assumes "\<And>t th. threads k t = Some th \<Longrightarrow> t \<noteq> 0 \<and> th_magic th = THREAD_MAGIC \<and> pagedir th = 0 \<and> status_ok r k t (status th) \<and>
     (status th \<noteq> THREAD_DYING \<longrightarrow> stack_ok (live_semas k) (idle_thread k) t (r = Some t \<and> intr_on k) (konts th))"
  shows "threads_ok r k"
  using assms unfolding threads_ok_def by blast

lemma runningD: "sched_inv (Some t) k \<Longrightarrow> threads k t = Some th \<Longrightarrow> t = running k \<and> status th = THREAD_RUNNING"
  by (auto simp: sched_inv_def running_ok_def)

lemma is_proc_simps [simp]: "\<not> is_proc (Sema n)" "\<not> is_proc (Lock_sema n)" "\<not> is_proc (Waiter t)" "is_proc (Proc_exec t)" "is_proc (Proc_wait t)"
  by (simp_all add: is_proc_def)

lemma own_sema_simps [simp]: "own_sema t (Sema n)" "own_sema t (Lock_sema n)" "own_sema t (Waiter u) = (u = t)"
  by (simp_all add: own_sema_def)

lemma sema_waiters_upd [simp]: "sema_waiters (k\<lparr>semas := (semas k)(s \<mapsto> sm)\<rparr>) = (sema_waiters k)(s := waiters sm)"
  by (rule ext) (simp add: sema_waiters_def)

lemma sema_waiters_frame [simp]:
  "sema_waiters (k\<lparr>threads := x\<rparr>) = sema_waiters k" "sema_waiters (k\<lparr>ready_list := y\<rparr>) = sema_waiters k"
  "sema_waiters (k\<lparr>running := z\<rparr>) = sema_waiters k" "sema_waiters (k\<lparr>intr_on := b\<rparr>) = sema_waiters k"
  "sema_waiters (k\<lparr>all_list := y\<rparr>) = sema_waiters k" "sema_waiters (k\<lparr>thread_ticks := w\<rparr>) = sema_waiters k"
  "sema_waiters (k\<lparr>mach := m\<rparr>) = sema_waiters k" "sema_waiters (k\<lparr>esp0 := z\<rparr>) = sema_waiters k"
  by (simp_all add: sema_waiters_def fun_eq_iff)

lemma waits_frame [simp]:
  "waits (k\<lparr>threads := x\<rparr>) t = waits k t" "waits (k\<lparr>ready_list := y\<rparr>) t = waits k t"
  "waits (k\<lparr>running := z\<rparr>) t = waits k t" "waits (k\<lparr>intr_on := b\<rparr>) t = waits k t"
  "waits (k\<lparr>all_list := y\<rparr>) t = waits k t" "waits (k\<lparr>thread_ticks := w\<rparr>) t = waits k t"
  "waits (k\<lparr>mach := m\<rparr>) t = waits k t" "waits (k\<lparr>esp0 := z\<rparr>) t = waits k t"
  by (simp_all add: waits_def)

lemma waits_cong: "sema_waiters k' = sema_waiters k \<Longrightarrow> waits k' t = waits k t"
  by (simp add: waits_def)

lemma sema_waiters_Some [simp]: "semas k s = Some sm \<Longrightarrow> sema_waiters k s = waiters sm"
  by (simp add: sema_waiters_def)

text \<open>The running thread changes its continuations and the interrupt level.\<close>

lemma set_konts:
  assumes inv: "sched_inv (Some t) k" and th: "threads k t = Some th"
    and ok: "stack_ok (live_semas k) (idle_thread k) t b ks"
  shows "sched_inv (Some t) (k\<lparr>threads := (threads k)(t \<mapsto> th\<lparr>konts := ks\<rparr>), intr_on := b\<rparr>)"
proof -
  let ?k = "k\<lparr>threads := (threads k)(t \<mapsto> th\<lparr>konts := ks\<rparr>), intr_on := b\<rparr>"
  have t: "t = running k" "status th = THREAD_RUNNING" using runningD [OF inv th] by simp_all
  have live: "live_semas ?k = live_semas k" by (simp add: live_semas_def)
  have d: "dom (threads ?k) = dom (threads k)" using th by auto
  have "threads_ok (Some t) ?k"
  proof (rule threads_okI)
    fix u uth assume u: "threads ?k u = Some uth"
    show "u \<noteq> 0 \<and> th_magic uth = THREAD_MAGIC \<and> pagedir uth = 0 \<and> status_ok (Some t) ?k u (status uth) \<and>
       (status uth \<noteq> THREAD_DYING \<longrightarrow> stack_ok (live_semas ?k) (idle_thread ?k) u (Some t = Some u \<and> intr_on ?k) (konts uth))"
      unfolding live using thread_okD [OF inv, of u] u th ok by (cases "u = t") (auto simp: status_ok_def)
  qed
  moreover have "running_ok (Some t) ?k" using inv t by (auto simp: sched_inv_def running_ok_def)
  moreover have "ready_ok ?k" using inv t th by (auto simp: sched_inv_def ready_ok_def)
  moreover have "waiters_ok ?k" using inv t th unfolding sched_inv_def waiters_ok_def waiting_def by (fastforce simp: sema_waiters_def)
  moreover have "all_ok ?k" using inv t th by (auto simp: sched_inv_def all_ok_def)
  moreover have "global_ok ?k" using inv t th unfolding sched_inv_def global_ok_def d live by auto
  ultimately show ?thesis by (simp add: sched_inv_def)
qed

lemma set_value:
  assumes inv: "sched_inv r k" and s: "semas k s = Some sm"
  shows "sched_inv r (set_sema s (sm\<lparr>sema_value := v\<rparr>) k)"
proof -
  let ?k = "set_sema s (sm\<lparr>sema_value := v\<rparr>) k"
  have live: "live_semas ?k = live_semas k" using s by (auto simp: live_semas_def set_sema_def)
  have w: "sema_waiters ?k = sema_waiters k" using s by (auto simp: set_sema_def)
  have "threads_ok r ?k" using inv unfolding sched_inv_def threads_ok_def live status_ok_def waits_def w by (simp add: set_sema_def)
  moreover have "waiters_ok ?k" using inv unfolding sched_inv_def waiters_ok_def waiting_def w by (simp add: set_sema_def)
  moreover have "running_ok r ?k" "ready_ok ?k" "all_ok ?k" using inv by (simp_all add: sched_inv_def running_ok_def ready_ok_def all_ok_def set_sema_def)
  moreover have "global_ok ?k" using inv unfolding sched_inv_def global_ok_def live by (simp add: set_sema_def)
  ultimately show ?thesis by (simp add: sched_inv_def)
qed

text \<open>A waiting thread becomes ready.\<close>

lemma waitersD:
  assumes "sched_inv r k" and "t \<in> set (sema_waiters k s)" and "threads k t = Some th"
  shows "t \<noteq> idle_thread k" "status th = THREAD_BLOCKED" "\<not> is_proc s" "\<exists>b ks. konts th = K_down s b # ks"
    "t \<in> set (sema_waiters k s') \<Longrightarrow> s' = s"
proof -
  have w: "waiters_ok k" using assms(1) by (simp add: sched_inv_def)
  show "t \<noteq> idle_thread k" "status th = THREAD_BLOCKED" "\<exists>b ks. konts th = K_down s b # ks"
    using w assms(2,3) unfolding waiters_ok_def waiting_def by fastforce+
  show "\<not> is_proc s" using w assms(2) by (auto simp: waiters_ok_def)
  have kd: "\<exists>b ks. konts th = K_down x b # ks" if "t \<in> set (sema_waiters k x)" for x
    using w that assms(3) unfolding waiters_ok_def waiting_def by fastforce
  show "s' = s" if "t \<in> set (sema_waiters k s')" using kd [OF that] kd [OF assms(2)] by auto
qed

lemma wake_inv:
  assumes inv: "sched_inv r k" and s: "semas k s = Some sm" "waiters sm = t # ts" and th: "threads k t = Some th"
  shows "sched_inv r (k\<lparr>semas := (semas k)(s \<mapsto> sm\<lparr>waiters := ts\<rparr>), ready_list := ready_list k @ [t],
    threads := (threads k)(t \<mapsto> th\<lparr>status := THREAD_READY\<rparr>)\<rparr>)" (is "sched_inv r ?k")
proof -
  have t: "t \<in> set (sema_waiters k s)" using s by simp
  note w = waitersD [OF inv t th]
  have ts: "t \<notin> set ts" "distinct ts" using inv s unfolding sched_inv_def waiters_ok_def by (metis distinct.simps(2) sema_waiters_Some)+
  have nr: "t \<notin> set (ready_list k)" using inv th w(2) by (auto simp: sched_inv_def ready_ok_def)
  have run: "r \<noteq> None \<Longrightarrow> t \<noteq> running k" using inv th w(2) by (auto simp: sched_inv_def running_ok_def)
  have live: "live_semas ?k = live_semas k" using s by (auto simp: live_semas_def)
  have d: "dom (threads ?k) = dom (threads k)" using th by auto
  have sw: "sema_waiters ?k = (sema_waiters k)(s := ts)" by simp
  have ex: "waits ?k u" if "waits k u" "u \<noteq> t" for u
  proof -
    from that(1) obtain y where "u \<in> set (sema_waiters k y)" by (auto simp: waits_def)
    then show ?thesis using that(2) s unfolding waits_def sw by (intro exI [of _ y]) auto
  qed
  have so: "status_ok r ?k u st" if "status_ok r k u st" "u \<noteq> t" for u st
    using that ex [of u] by (auto simp: status_ok_def)
  have "threads_ok r ?k"
  proof (rule threads_okI)
    fix u uth assume u: "threads ?k u = Some uth"
    show "u \<noteq> 0 \<and> th_magic uth = THREAD_MAGIC \<and> pagedir uth = 0 \<and> status_ok r ?k u (status uth) \<and>
       (status uth \<noteq> THREAD_DYING \<longrightarrow> stack_ok (live_semas ?k) (idle_thread ?k) u (r = Some u \<and> intr_on ?k) (konts uth))"
      unfolding live using thread_okD [OF inv, of u] u th so w(2) by (cases "u = t") (auto simp: status_ok_def)
  qed
  moreover have "running_ok r ?k" using inv run th by (auto simp: sched_inv_def running_ok_def)
  moreover have "ready_ok ?k" using inv nr w(1) by (auto simp: sched_inv_def ready_ok_def)
  moreover have "waiters_ok ?k"
    unfolding waiters_ok_def sw
  proof (intro allI)
    fix s'
    have "distinct (sema_waiters k s') \<and> (is_proc s' \<longrightarrow> sema_waiters k s' = []) \<and>
        (\<forall>u \<in> set (sema_waiters k s'). u \<noteq> idle_thread k \<and> waiting k u s')"
      using inv by (simp add: sched_inv_def waiters_ok_def)
    then show "distinct (((sema_waiters k)(s := ts)) s') \<and> (is_proc s' \<longrightarrow> ((sema_waiters k)(s := ts)) s' = []) \<and>
        (\<forall>u \<in> set (((sema_waiters k)(s := ts)) s'). u \<noteq> idle_thread ?k \<and> waiting ?k u s')"
      using s ts w by (auto simp: waiting_def)
  qed
  moreover have "all_ok ?k" using inv th w(2) by (auto simp: sched_inv_def all_ok_def)
  moreover have "global_ok ?k" using inv th unfolding sched_inv_def global_ok_def d live by auto
  ultimately show ?thesis by (simp add: sched_inv_def)
qed

section \<open>Giving up the processor\<close>

text \<open>The running thread \<open>t\<close> leaves: it waits for semaphore \<open>s\<close> (the idle thread for nothing), becomes
  ready, or dies.\<close>

lemma leave_inv:
  assumes inv: "sched_inv (Some t) k" and th: "threads k t = Some th"
    and s: "semas k s = Some sm" "\<not> is_proc s"
    and th': "th_magic th' = th_magic th" "pagedir th' = pagedir th" "status th' \<noteq> THREAD_DYING \<Longrightarrow> stack_ok (live_semas k) (idle_thread k) t False (konts th')"
    and st: "(status th' = THREAD_BLOCKED \<and> rs = [] \<and> A = all_list k \<and>
        (if t = idle_thread k then ws = [] else ws = [t] \<and> (\<exists>b ks. konts th' = K_down s b # ks))) \<or>
      (status th' = THREAD_READY \<and> ws = [] \<and> rs = (if t = idle_thread k then [] else [t]) \<and> A = all_list k) \<or>
      (status th' = THREAD_DYING \<and> ws = [] \<and> rs = [] \<and> A = remove1 t (all_list k) \<and> t \<noteq> idle_thread k)"
  shows "sched_inv None (k\<lparr>semas := (semas k)(s \<mapsto> sm\<lparr>waiters := waiters sm @ ws\<rparr>), ready_list := ready_list k @ rs,
    all_list := A, threads := (threads k)(t \<mapsto> th')\<rparr>)" (is "sched_inv None ?k")
proof -
  note t = runningD [OF inv th]
  have nw: "t \<notin> set (sema_waiters k x)" for x using waitersD(2) [OF inv _ th] t by auto
  have nr: "t \<notin> set (ready_list k)" using inv th t by (auto simp: sched_inv_def ready_ok_def)
  have live: "live_semas ?k = live_semas k" using s by (auto simp: live_semas_def)
  have d: "dom (threads ?k) = dom (threads k)" using th by auto
  have sw: "sema_waiters ?k = (sema_waiters k)(s := waiters sm @ ws)" by simp
  have ex: "waits ?k u" if "waits k u" for u
  proof -
    from that obtain y where "u \<in> set (sema_waiters k y)" by (auto simp: waits_def)
    then show ?thesis using s unfolding waits_def sw by (intro exI [of _ y]) auto
  qed
  have "threads_ok None ?k"
  proof (rule threads_okI)
    fix u uth assume u: "threads ?k u = Some uth"
    show "u \<noteq> 0 \<and> th_magic uth = THREAD_MAGIC \<and> pagedir uth = 0 \<and> status_ok None ?k u (status uth) \<and>
       (status uth \<noteq> THREAD_DYING \<longrightarrow> stack_ok (live_semas ?k) (idle_thread ?k) u (None = Some u \<and> intr_on ?k) (konts uth))"
    proof (cases "u = t")
      case True
      have "waits ?k t" if "ws = [t]" using that unfolding waits_def sw by (intro exI [of _ s]) simp
      then have "status_ok None ?k t (status th')" using st t by (auto simp: status_ok_def split: if_splits)
      then show ?thesis unfolding live using thread_okD [OF inv th] u True th' by auto
    next
      case False
      then have u': "threads k u = Some uth" using u by simp
      have "status_ok None ?k u (status uth)"
        using thread_okD(4) [OF inv u'] ex [of u] False by (auto simp: status_ok_def)
      then show ?thesis unfolding live using thread_okD [OF inv u'] False by auto
    qed
  qed
  moreover have "running_ok None ?k" using t by (simp add: running_ok_def)
  moreover have "ready_ok ?k"
  proof -
    have "rs = [] \<or> rs = [t] \<and> t \<noteq> idle_thread k \<and> status th' = THREAD_READY" using st by (auto split: if_splits)
    then show ?thesis using inv nr by (auto simp: sched_inv_def ready_ok_def)
  qed
  moreover have "waiters_ok ?k"
    unfolding waiters_ok_def sw
  proof (intro allI)
    fix s'
    have "distinct (sema_waiters k s') \<and> (is_proc s' \<longrightarrow> sema_waiters k s' = []) \<and>
        (\<forall>u \<in> set (sema_waiters k s'). u \<noteq> idle_thread k \<and> waiting k u s')"
      using inv by (simp add: sched_inv_def waiters_ok_def)
    moreover have "waiting ?k u s'" if "waiting k u s'" for u using that th t by (auto simp: waiting_def)
    moreover have "t \<noteq> idle_thread k \<and> waiting ?k t s" if "ws \<noteq> []" using st that by (auto simp: waiting_def split: if_splits)
    moreover have "ws = [] \<or> ws = [t]" using st by (auto split: if_splits)
    ultimately show "distinct (((sema_waiters k)(s := waiters sm @ ws)) s') \<and> (is_proc s' \<longrightarrow> ((sema_waiters k)(s := waiters sm @ ws)) s' = []) \<and>
        (\<forall>u \<in> set (((sema_waiters k)(s := waiters sm @ ws)) s'). u \<noteq> idle_thread ?k \<and> waiting ?k u s')"
      using s nw [of s] by auto
  qed
  moreover have "all_ok ?k" using inv th t st by (auto simp: sched_inv_def all_ok_def)
  moreover have "global_ok ?k" using inv th st unfolding sched_inv_def global_ok_def d live by auto
  ultimately show ?thesis by (simp add: sched_inv_def)
qed

text \<open>The next thread runs; the threads \<open>X\<close> (at most the one that left) are gone.\<close>

definition next_of :: "kernel \<Rightarrow> tptr" where
  "next_of k = (case ready_list k of [] \<Rightarrow> idle_thread k | t # ts \<Rightarrow> t)"

lemma next_of_thread:
  assumes inv: "sched_inv None k"
  obtains th where "threads k (next_of k) = Some th" "status th = THREAD_READY \<or> status th = THREAD_BLOCKED"
    "next_of k = idle_thread k \<or> next_of k \<in> set (ready_list k)" "next_of k \<notin> set (tl (ready_list k))"
    "next_of k \<notin> set (sema_waiters k s)" "status th \<noteq> THREAD_DYING"
proof (cases "ready_list k")
  case Nil
  obtain th where th: "threads k (idle_thread k) = Some th" using inv by (auto simp: sched_inv_def global_ok_def)
  have "idle_thread k \<in> set (all_list k)" "idle_thread k \<notin> set (sema_waiters k s)"
    using inv by (auto simp: sched_inv_def global_ok_def waiters_ok_def)
  moreover have "status th \<noteq> THREAD_RUNNING" using thread_okD(4) [OF inv th] by (auto simp: status_ok_def)
  moreover have "status th \<noteq> THREAD_DYING" using th inv calculation(1) by (auto simp: sched_inv_def all_ok_def)
  ultimately show ?thesis using that [of th] Nil th by (cases "status th") (simp_all add: next_of_def)
next
  case (Cons t ts)
  then obtain th where th: "threads k t = Some th" "status th = THREAD_READY" "t \<notin> set ts"
    using inv by (auto simp: sched_inv_def ready_ok_def)
  moreover have "t \<notin> set (sema_waiters k s)" using waitersD(2) [OF inv _ th(1), of s] th(2) by auto
  ultimately show ?thesis using that [of th] Cons by (simp add: next_of_def)
qed

lemma switch_inv:
  assumes inv: "sched_inv None k" and nh: "threads k (next_of k) = Some nh" "status nh \<noteq> THREAD_DYING" and off: "\<not> intr_on k"
    and X: "\<And>t. t \<in> X \<longleftrightarrow> t \<noteq> initial_thread k \<and> t = running k \<and> (\<exists>th. threads k t = Some th \<and> status th = THREAD_DYING)"
    and S: "\<And>s. \<not> is_proc s \<Longrightarrow> S s = semas k s" "\<And>s. is_proc s \<Longrightarrow> S s = semas k s \<or> S s = None"
    and m: "pg.housed (dom (threads k) - X) (initial_thread k) m" "init_page_dir m = init_page_dir (mach k)"
  shows "sched_inv (Some (next_of k)) (k\<lparr>ready_list := tl (ready_list k), running := next_of k, thread_ticks := 0, esp0 := e,
    threads := (\<lambda>t. if t \<in> X then None else ((threads k)(next_of k \<mapsto> nh\<lparr>status := THREAD_RUNNING\<rparr>)) t), semas := S, mach := m\<rparr>)"
    (is "sched_inv _ ?k")
proof -
  let ?n = "next_of k"
  have ws: "sema_waiters k s = []" if "is_proc s" for s using inv that by (simp add: sched_inv_def waiters_ok_def)
  have sw: "sema_waiters ?k = sema_waiters k"
  proof
    fix s
    show "sema_waiters ?k s = sema_waiters k s" using S ws by (cases "is_proc s") (fastforce simp: sema_waiters_def)+
  qed
  have wt: "waits ?k t = waits k t" for t using sw by (simp add: waits_def)
  have live: "live_semas ?k = live_semas k" using S(1) by (auto simp: live_semas_def)
  have nX: "?n \<notin> X" using nh X by auto
  obtain th0 where n: "threads k ?n = Some th0" "status th0 = THREAD_READY \<or> status th0 = THREAD_BLOCKED"
      "?n = idle_thread k \<or> ?n \<in> set (ready_list k)" "?n \<notin> set (tl (ready_list k))" "\<And>s. ?n \<notin> set (sema_waiters k s)"
    using next_of_thread [OF inv] by metis
  have d: "dom (threads ?k) = dom (threads k) - X" using nh(1) nX by (auto split: if_splits)
  have tl: "t \<in> set (tl (ready_list k)) \<or> t = idle_thread k" if "t \<in> set (ready_list k) \<or> t = idle_thread k" "t \<noteq> ?n" for t
    using that by (cases "ready_list k") (auto simp: next_of_def)
  have "threads_ok (Some ?n) ?k"
  proof (rule threads_okI)
    fix u uth assume u: "threads ?k u = Some uth"
    show "u \<noteq> 0 \<and> th_magic uth = THREAD_MAGIC \<and> pagedir uth = 0 \<and> status_ok (Some ?n) ?k u (status uth) \<and>
       (status uth \<noteq> THREAD_DYING \<longrightarrow> stack_ok (live_semas ?k) (idle_thread ?k) u (Some ?n = Some u \<and> intr_on ?k) (konts uth))"
    proof (cases "u = ?n")
      case True
      then have "uth = nh\<lparr>status := THREAD_RUNNING\<rparr>" using u nX by simp
      then show ?thesis unfolding live using thread_okD [OF inv nh(1)] nh(2) True off by (simp add: status_ok_def)
    next
      case False
      then have u': "threads k u = Some uth" "u \<notin> X" using u by (auto split: if_splits)
      have "status_ok (Some ?n) ?k u (status uth)"
        using thread_okD(4) [OF inv u'(1)] tl [of u] False u' X [of u] wt unfolding status_ok_def by auto
      then show ?thesis unfolding live using thread_okD [OF inv u'(1)] False by simp
    qed
  qed
  moreover have "running_ok (Some ?n) ?k" using nX by (simp add: running_ok_def)
  moreover have "ready_ok ?k"
  proof -
    have "t \<in> set (ready_list k)" if "t \<in> set (tl (ready_list k))" for t using that by (cases "ready_list k") auto
    moreover have "t \<notin> X" if "t \<in> set (ready_list k)" for t using inv that X [of t] by (auto simp: sched_inv_def ready_ok_def)
    ultimately show ?thesis using inv n(4) by (auto simp: sched_inv_def ready_ok_def distinct_tl)
  qed
  moreover have "waiters_ok ?k"
  proof -
    have "waiting ?k t s" if tw: "t \<in> set (sema_waiters k s)" "waiting k t s" for t s
    proof -
      obtain th b ks where th: "threads k t = Some th" "status th = THREAD_BLOCKED" "konts th = K_down s b # ks"
        using tw(2) by (auto simp: waiting_def)
      have "t \<noteq> ?n" using tw(1) n(5) [of s] by metis
      moreover have "t \<notin> X" using X [of t] th by simp
      ultimately show ?thesis using th by (simp add: waiting_def)
    qed
    then show ?thesis using inv unfolding sched_inv_def waiters_ok_def sw by simp
  qed
  moreover have "all_ok ?k"
  proof -
    have "(\<exists>th. threads ?k t = Some th \<and> status th \<noteq> THREAD_DYING) \<longleftrightarrow> (\<exists>th. threads k t = Some th \<and> status th \<noteq> THREAD_DYING)" for t
      using X [of t] nh by auto
    then show ?thesis using inv by (simp add: sched_inv_def all_ok_def)
  qed
  moreover have "global_ok ?k"
  proof -
    have "idle_thread k \<notin> X" using inv X [of "idle_thread k"] by (auto simp: sched_inv_def global_ok_def all_ok_def)
    then show ?thesis using inv m unfolding sched_inv_def global_ok_def live d by (auto simp: TIME_SLICE_def)
  qed
  ultimately show ?thesis by (simp add: sched_inv_def)
qed

text \<open>What a switch keeps: everything but the statuses, the dead thread and the semaphores in it.\<close>

definition dead :: "kernel \<Rightarrow> tptr \<Rightarrow> bool" where
  "dead k t \<longleftrightarrow> t \<noteq> initial_thread k \<and> t = running k \<and> (\<exists>th. threads k t = Some th \<and> status th = THREAD_DYING)"

definition switched :: "kernel \<Rightarrow> kernel \<Rightarrow> bool" where
  "switched k k' \<longleftrightarrow> running k' = next_of k \<and> ready_list k' = tl (ready_list k) \<and> thread_ticks k' = 0 \<and>
     holder k' = holder k \<and> intr_on k' = intr_on k \<and> in_external_intr k' = in_external_intr k \<and> timer_count k' = timer_count k \<and>
     idle_thread k' = idle_thread k \<and> cond_waiters k' = cond_waiters k \<and> (\<forall>s. \<not> is_proc s \<longrightarrow> semas k' s = semas k s) \<and>
     (\<forall>t. threads k' t = (if dead k t then None
        else map_option (\<lambda>th. if t = next_of k then th\<lparr>status := THREAD_RUNNING\<rparr> else th) (threads k t)))"

lemma owned_cr3 [simp]: "owned_pages (m\<lparr>cr3 := c\<rparr>) = owned_pages m" "pool_area (m\<lparr>cr3 := c\<rparr>) = pool_area m"
  by (simp_all add: owned_pages_def page_used_def pool_area_def get_pool_def)

lemma housed_cr3 [simp]: "pg.housed L x (m\<lparr>cr3 := c\<rparr>) = pg.housed L x m"
  by (simp add: pg.housed_def)

lemma schedule_run:
  assumes inv: "sched_inv None k" and off: "\<not> intr_on k"
  obtains k' where "schedule k = Some k'" "sched_inv (Some (next_of k)) k'" "switched k k'"
proof -
  let ?n = "next_of k" and ?c = "running k"
  obtain nh where nh: "threads k ?n = Some nh" "status nh \<noteq> THREAD_DYING" using next_of_thread [OF inv] by metis
  obtain cth where cth: "threads k ?c = Some cth" using inv by (auto simp: sched_inv_def running_ok_def)
  have cst: "status cth \<noteq> THREAD_RUNNING" using thread_okD(4) [OF inv cth] by (auto simp: status_ok_def)
  note N = thread_okD [OF inv nh(1)]
  define m where "m = (mach k)\<lparr>cr3 := init_page_dir (mach k) - PHYS_BASE\<rparr>"
  have act: "pagedir_activate 0 (mach k) = Some m"
    using inv by (simp add: sched_inv_def global_ok_def pagedir_activate_def vtop_def is_kernel_vaddr_def m_def)
  define k1 where "k1 = k\<lparr>ready_list := tl (ready_list k), running := ?n, threads := (threads k)(?n \<mapsto> nh\<lparr>status := THREAD_RUNNING\<rparr>),
    thread_ticks := 0, mach := m, esp0 := ?n + of_nat PGSIZE\<rparr>"
  have nt: "next_thread_to_run k = (?n, k\<lparr>ready_list := tl (ready_list k)\<rparr>)"
    by (cases "ready_list k") (simp_all add: next_thread_to_run_def next_of_def)
  have hs: "pg.housed (dom (threads k)) (initial_thread k) m" "init_page_dir m = init_page_dir (mach k)"
    using inv by (simp_all add: sched_inv_def global_ok_def m_def)
  have run: "schedule k = (if ?c = ?n then Some k1 else if dead k ?c then free_thread ?c k1 else Some k1)"
    using nt nh N(1-3) cth cst act off thread_okD(1) [OF inv cth]
    by (auto simp: schedule_def thread_schedule_tail_def running_thread_def is_thread_def upd_th_def process_activate_def thread_current_def
      tss_update_def k1_def dead_def Let_def)
  show ?thesis
  proof (cases "dead k ?c")
    case True
    then have ne: "?c \<noteq> ?n" "?c \<noteq> initial_thread k" using nh by (auto simp: dead_def)
    obtain m' where m': "palloc_free_page ?c m = Some m'" "pg.housed (dom (threads k) - {?c}) (initial_thread k) m'" "init_page_dir m' = init_page_dir m"
      using pg.housed_put [OF hs(1), of ?c] cth ne(2) by auto
    define k2 where "k2 = k\<lparr>ready_list := tl (ready_list k), running := ?n, thread_ticks := 0, esp0 := ?n + of_nat PGSIZE,
      threads := (\<lambda>t. if t \<in> {?c} then None else ((threads k)(?n \<mapsto> nh\<lparr>status := THREAD_RUNNING\<rparr>)) t),
      semas := (semas k)(Proc_exec ?c := None, Proc_wait ?c := None), mach := m'\<rparr>"
    have "sched_inv (Some ?n) k2"
      unfolding k2_def by (rule switch_inv [OF inv nh off]) (use m' hs(2) True cth in \<open>auto simp: dead_def is_proc_def\<close>)
    moreover have "schedule k = Some k2" using run True ne m'(1) by (simp add: free_thread_def k1_def k2_def fun_upd_def cong: if_cong)
    moreover have "switched k k2"
      unfolding switched_def using nh True by (auto simp: k2_def dead_def option.map_ident)
    ultimately show ?thesis using that by blast
  next
    case False
    have e: "k1 = k\<lparr>ready_list := tl (ready_list k), running := ?n, thread_ticks := 0, esp0 := ?n + of_nat PGSIZE,
      threads := (\<lambda>t. if t \<in> {} then None else ((threads k)(?n \<mapsto> nh\<lparr>status := THREAD_RUNNING\<rparr>)) t), semas := semas k, mach := m\<rparr>"
      by (simp add: k1_def fun_upd_def)
    have "sched_inv (Some ?n) k1"
      unfolding e by (rule switch_inv [OF inv nh off]) (use hs False cth in \<open>auto simp: dead_def\<close>)
    moreover have "schedule k = Some k1" using run False by simp
    moreover have "switched k k1"
      unfolding switched_def using nh False by (auto simp: k1_def dead_def option.map_ident)
    ultimately show ?thesis using that by blast
  qed
qed

end
