(* ===== verification/Sched_Laws.thy ===== *)
theory Sched_Laws
  imports Sched_Inv
begin

text \<open>
  The effect of the operations of the scheduler and of the synchronisation primitives in states that
  satisfy the invariant: none of their assertions fails, and every step of the transition system keeps the
  invariant.
\<close>

section \<open>The operations\<close>

lemma set_level:
  assumes "sched_inv (Some t) k" and "threads k t = Some th" and "stack_ok (live_semas k) (idle_thread k) t b (konts th)"
  shows "sched_inv (Some t) (k\<lparr>intr_on := b\<rparr>)"
proof -
  have "(threads k)(t \<mapsto> th\<lparr>konts := konts th\<rparr>) = threads k" using assms(2) by (simp add: fun_upd_idem)
  then show ?thesis using set_konts [OF assms] by simp
qed

text \<open>A normal form of states: the interrupt level is set last.\<close>

lemma intr_last:
  "k\<lparr>intr_on := b, threads := x\<rparr> = k\<lparr>threads := x, intr_on := b\<rparr>"
  "k\<lparr>intr_on := b, ready_list := y\<rparr> = k\<lparr>ready_list := y, intr_on := b\<rparr>"
  "k\<lparr>intr_on := b, all_list := y\<rparr> = k\<lparr>all_list := y, intr_on := b\<rparr>"
  "k\<lparr>intr_on := b, semas := z\<rparr> = k\<lparr>semas := z, intr_on := b\<rparr>"
  by simp_all

lemma thread_current_run: "sched_inv (Some t) k \<Longrightarrow> thread_current k = Some t"
  by (erule sched_invD) (simp add: thread_current_def running_thread_def is_thread_def)

text \<open>The state after \<^verbatim>\<open>sema_up\<close>.\<close>

definition up_state :: "sema_ref \<Rightarrow> kernel \<Rightarrow> kernel" where
  "up_state s k = (case semas k s of None \<Rightarrow> k | Some sm \<Rightarrow>
     (case waiters sm of
        [] \<Rightarrow> k\<lparr>semas := (semas k)(s \<mapsto> sm\<lparr>sema_value := sema_value sm + 1\<rparr>)\<rparr>
      | w # ws \<Rightarrow> k\<lparr>ready_list := ready_list k @ [w],
          threads := (threads k)(w := map_option (\<lambda>th. th\<lparr>status := THREAD_READY\<rparr>) (threads k w)),
          semas := (semas k)(s \<mapsto> sm\<lparr>waiters := ws, sema_value := sema_value sm + 1\<rparr>)\<rparr>))"

lemma waiterE:
  assumes "sched_inv r k" and "semas k s = Some sm" and "waiters sm = w # ws"
  obtains wth b ks where "threads k w = Some wth" "status wth = THREAD_BLOCKED" "konts wth = K_down s b # ks" "w \<noteq> idle_thread k" "\<not> is_proc s" "w \<notin> set ws"
proof -
  have wk: "waiters_ok k" using assms(1) by (simp add: sched_inv_def)
  then have "waiting k w s" "w \<noteq> idle_thread k" "\<not> is_proc s" "distinct (waiters sm)"
    using assms(2,3) sema_waiters_Some [OF assms(2)] unfolding waiters_ok_def by (metis list.set_intros(1) list.distinct(1))+
  then show ?thesis using that assms(3) by (auto simp: waiting_def)
qed

lemma up_state_inv:
  assumes inv: "sched_inv r k" and s: "semas k s = Some sm"
  shows "sched_inv r (up_state s k)"
proof (cases "waiters sm")
  case Nil
  then show ?thesis using set_value [OF inv s] s by (simp add: up_state_def set_sema_def)
next
  case (Cons w ws)
  obtain wth b ks where w: "threads k w = Some wth" using waiterE [OF inv s Cons] by metis
  let ?k = "k\<lparr>semas := (semas k)(s \<mapsto> sm\<lparr>waiters := ws\<rparr>), ready_list := ready_list k @ [w], threads := (threads k)(w \<mapsto> wth\<lparr>status := THREAD_READY\<rparr>)\<rparr>"
  have "sched_inv r ?k" using wake_inv [OF inv s Cons w] .
  then have "sched_inv r (set_sema s ((sm\<lparr>waiters := ws\<rparr>)\<lparr>sema_value := sema_value sm + 1\<rparr>) ?k)" by (rule set_value) simp
  then show ?thesis using s Cons w by (simp add: up_state_def set_sema_def)
qed

lemma sema_up_run:
  assumes inv: "sched_inv r k" and s: "semas k s = Some sm" and ext: "in_external_intr k \<longrightarrow> \<not> intr_on k"
  shows "sema_up s k = Some (up_state s k)"
proof (cases "waiters sm")
  case Nil
  then show ?thesis using s ext
    by (cases "intr_on k") (simp_all add: sema_up_def up_state_def intr_disable_def intr_set_level_def intr_enable_def intr_context_def set_sema_def Let_def)
next
  case (Cons w ws)
  obtain wth b ks where w: "threads k w = Some wth" "status wth = THREAD_BLOCKED" using waiterE [OF inv s Cons] by metis
  have "th_magic wth = THREAD_MAGIC" "w \<noteq> 0" using thread_okD [OF inv w(1)] by simp_all
  then show ?thesis using s ext Cons w
    by (cases "intr_on k") (simp_all add: sema_up_def up_state_def thread_unblock_def is_thread_def upd_th_def intr_disable_def intr_set_level_def intr_enable_def
      intr_context_def set_sema_def Let_def)
qed

text \<open>Waiting, yielding, idling and dying: the state in which \<^verbatim>\<open>schedule\<close> is called.\<close>

definition wait_state :: "sema_ref \<Rightarrow> bool \<Rightarrow> kernel \<Rightarrow> kernel" where
  "wait_state s old k = k\<lparr>semas := (semas k)(s := map_option (\<lambda>sm. sm\<lparr>waiters := waiters sm @ [running k]\<rparr>) (semas k s)),
     threads := (threads k)(running k := map_option (\<lambda>th. th\<lparr>konts := K_down s old # konts th, status := THREAD_BLOCKED\<rparr>) (threads k (running k)))\<rparr>"

definition yield_state :: "kernel \<Rightarrow> kernel" where
  "yield_state k = k\<lparr>ready_list := ready_list k @ (if running k = idle_thread k then [] else [running k]),
     threads := (threads k)(running k := map_option (\<lambda>th. th\<lparr>status := THREAD_READY, konts := K_set_level (intr_on k) # konts th\<rparr>) (threads k (running k))),
     intr_on := False\<rparr>"

definition exit_state :: "kernel \<Rightarrow> kernel" where
  "exit_state k = k\<lparr>all_list := remove1 (running k) (all_list k),
     threads := (threads k)(running k := map_option (\<lambda>th. th\<lparr>status := THREAD_DYING\<rparr>) (threads k (running k))), intr_on := False\<rparr>"

lemma some_sema: "sched_inv r k \<Longrightarrow> \<exists>sm. semas k (Sema 0) = Some sm"
  by (auto simp: sched_inv_def global_ok_def live_semas_def)

lemma wait_state_inv:
  assumes inv: "sched_inv (Some t) k" and th: "threads k t = Some th"
    and s: "s \<in> live_semas k" "own_sema t s" and t: "t \<noteq> idle_thread k" and st: "stack_ok (live_semas k) (idle_thread k) t old (konts th)"
  shows "sched_inv None (wait_state s old k)"
proof -
  have r: "t = running k" using runningD [OF inv th] by simp
  obtain sm where sm: "semas k s = Some sm" "\<not> is_proc s" using s(1) by (auto simp: live_semas_def)
  have "sched_inv None (k\<lparr>semas := (semas k)(s \<mapsto> sm\<lparr>waiters := waiters sm @ [t]\<rparr>), ready_list := ready_list k @ [],
    all_list := all_list k, threads := (threads k)(t \<mapsto> th\<lparr>konts := K_down s old # konts th, status := THREAD_BLOCKED\<rparr>)\<rparr>)"
    by (rule leave_inv [OF inv th sm]) (use s t st in auto)
  then show ?thesis using sm th r by (simp add: wait_state_def)
qed

text \<open>A thread that leaves without waiting: the semaphore of the general lemma does not change.\<close>

lemma leave_inv0:
  assumes inv: "sched_inv (Some t) k" and th: "threads k t = Some th"
    and th': "th_magic th' = th_magic th" "pagedir th' = pagedir th" "status th' \<noteq> THREAD_DYING \<Longrightarrow> stack_ok (live_semas k) (idle_thread k) t False (konts th')"
    and st: "(status th' = THREAD_BLOCKED \<and> rs = [] \<and> A = all_list k \<and> t = idle_thread k) \<or>
      (status th' = THREAD_READY \<and> rs = (if t = idle_thread k then [] else [t]) \<and> A = all_list k) \<or>
      (status th' = THREAD_DYING \<and> rs = [] \<and> A = remove1 t (all_list k) \<and> t \<noteq> idle_thread k)"
  shows "sched_inv None (k\<lparr>ready_list := ready_list k @ rs, all_list := A, threads := (threads k)(t \<mapsto> th')\<rparr>)"
proof -
  obtain sm where sm: "semas k (Sema 0) = Some sm" using some_sema [OF inv] by blast
  have "sched_inv None (k\<lparr>semas := (semas k)(Sema 0 \<mapsto> sm\<lparr>waiters := waiters sm @ []\<rparr>), ready_list := ready_list k @ rs,
    all_list := A, threads := (threads k)(t \<mapsto> th')\<rparr>)"
    by (rule leave_inv [OF inv th sm]) (use th' st in \<open>auto split: if_splits\<close>)
  moreover have "(semas k)(Sema 0 \<mapsto> sm) = semas k" using sm by (simp add: fun_upd_idem)
  ultimately show ?thesis by simp
qed

lemma yield_state_inv:
  assumes inv: "sched_inv (Some (running k)) k"
  shows "sched_inv None (yield_state k)"
proof -
  obtain th where th: "threads k (running k) = Some th" "stack_ok (live_semas k) (idle_thread k) (running k) (intr_on k) (konts th)"
    using sched_invD [OF inv] by metis
  have "sched_inv None (k\<lparr>ready_list := ready_list k @ (if running k = idle_thread k then [] else [running k]), all_list := all_list k,
      threads := (threads k)(running k \<mapsto> th\<lparr>status := THREAD_READY, konts := K_set_level (intr_on k) # konts th\<rparr>)\<rparr>)"
    by (rule leave_inv0 [OF inv th(1)]) (use th(2) in auto)
  then show ?thesis using th by (simp add: yield_state_def)
qed

lemma idle_state_inv:
  assumes inv: "sched_inv (Some t) k" and t: "t = idle_thread k" and th: "threads k t = Some th"
  shows "sched_inv None (k\<lparr>threads := (threads k)(t \<mapsto> th\<lparr>konts := [K_hlt], status := THREAD_BLOCKED\<rparr>), intr_on := False\<rparr>)"
proof -
  have "sched_inv None (k\<lparr>ready_list := ready_list k @ [], all_list := all_list k,
      threads := (threads k)(t \<mapsto> th\<lparr>konts := [K_hlt], status := THREAD_BLOCKED\<rparr>)\<rparr>)" (is "sched_inv None ?k")
    by (rule leave_inv0 [OF inv th]) (use t in auto)
  then show ?thesis by simp
qed

lemma exit_state_inv:
  assumes inv: "sched_inv (Some (running k)) k" and t: "running k \<noteq> idle_thread k"
  shows "sched_inv None (exit_state k)"
proof -
  obtain th where th: "threads k (running k) = Some th" using sched_invD [OF inv] by metis
  have "sched_inv None (k\<lparr>ready_list := ready_list k @ [], all_list := remove1 (running k) (all_list k),
      threads := (threads k)(running k \<mapsto> th\<lparr>status := THREAD_DYING\<rparr>)\<rparr>)"
    by (rule leave_inv0 [OF inv th]) (use t in auto)
  then show ?thesis using th by (simp add: exit_state_def)
qed

lemma thread_current_intr [simp]: "thread_current (k\<lparr>intr_on := b\<rparr>) = thread_current k"
  by (simp add: thread_current_def running_thread_def is_thread_def)

lemma live_semas_intr [simp]: "live_semas (k\<lparr>intr_on := b\<rparr>) = live_semas k"
  by (simp add: live_semas_def)

lemma down_loop_run:
  assumes inv: "sched_inv (Some t) (k\<lparr>intr_on := old\<rparr>)" and off: "\<not> intr_on k" and ext: "\<not> in_external_intr k"
    and s: "s \<in> live_semas k" "own_sema t s" and t: "t \<noteq> idle_thread k"
  obtains (take) sm where "semas k s = Some sm" "sema_value sm \<noteq> 0"
      "sema_down_loop s old k = Some (k\<lparr>semas := (semas k)(s \<mapsto> sm\<lparr>sema_value := sema_value sm - 1\<rparr>), intr_on := old\<rparr>)"
      "sched_inv (Some t) (k\<lparr>semas := (semas k)(s \<mapsto> sm\<lparr>sema_value := sema_value sm - 1\<rparr>), intr_on := old\<rparr>)"
    | (wait) sm k' where "semas k s = Some sm" "sema_value sm = 0" "sema_down_loop s old k = Some k'" "t = running k"
      "sched_inv (Some (running k')) k'" "switched (wait_state s old k) k'" "sched_inv None (wait_state s old k)"
proof -
  obtain sm where sm: "semas k s = Some sm" using s(1) by (auto simp: live_semas_def)
  obtain th where th: "t = running k" "threads k t = Some th" "status th = THREAD_RUNNING" "stack_ok (live_semas k) (idle_thread k) t old (konts th)"
      "t \<noteq> 0" "th_magic th = THREAD_MAGIC"
    by (rule sched_invD [OF inv]) simp
  have cur: "thread_current k = Some t" using thread_current_run [OF inv] by simp
  show ?thesis
  proof (cases "sema_value sm = 0")
    case False
    have "sched_inv (Some t) (set_sema s (sm\<lparr>sema_value := sema_value sm - 1\<rparr>) (k\<lparr>intr_on := old\<rparr>))"
      by (rule set_value [OF inv]) (use sm in simp)
    moreover have "set_sema s (sm\<lparr>sema_value := sema_value sm - 1\<rparr>) (k\<lparr>intr_on := old\<rparr>) =
      k\<lparr>semas := (semas k)(s \<mapsto> sm\<lparr>sema_value := sema_value sm - 1\<rparr>), intr_on := old\<rparr>" by (simp add: set_sema_def)
    ultimately have "sched_inv (Some t) (k\<lparr>semas := (semas k)(s \<mapsto> sm\<lparr>sema_value := sema_value sm - 1\<rparr>), intr_on := old\<rparr>)" by metis
    then show ?thesis using take [OF sm False] sm False ext
      by (cases old) (simp_all add: sema_down_loop_def set_sema_def intr_set_level_def intr_enable_def intr_disable_def intr_context_def)
  next
    case True
    have "sched_inv None (wait_state s old (k\<lparr>intr_on := old\<rparr>))"
      by (rule wait_state_inv [OF inv]) (use th s t in simp_all)
    moreover have "wait_state s old (k\<lparr>intr_on := old\<rparr>) = (wait_state s old k)\<lparr>intr_on := old\<rparr>" by (simp add: wait_state_def)
    ultimately have w: "sched_inv None (wait_state s old k)" by (metis sched_inv_None_intr)
    obtain k' where k': "schedule (wait_state s old k) = Some k'" "sched_inv (Some (next_of (wait_state s old k))) k'" "switched (wait_state s old k) k'"
      using schedule_run [OF w] off by (auto simp: wait_state_def)
    then have "sema_down_loop s old k = Some k'"
      using sm True cur off ext th
      by (simp add: sema_down_loop_def set_sema_def push_kont_def upd_th_def thread_block_def intr_context_def thread_current_def
        running_thread_def is_thread_def wait_state_def Let_def)
    then show ?thesis using wait [OF sm True _ th(1) _ k'(3) w] k'(2,3) by (simp add: switched_def)
  qed
qed

lemma yield_run:
  assumes inv: "sched_inv (Some (running k)) k" and ext: "\<not> in_external_intr k"
  obtains k' where "thread_yield k = Some k'" "sched_inv (Some (running k')) k'" "switched (yield_state k) k'"
proof -
  obtain th where th: "threads k (running k) = Some th" "status th = THREAD_RUNNING" "running k \<noteq> 0" "th_magic th = THREAD_MAGIC"
    by (rule sched_invD [OF inv]) simp
  obtain k' where k': "schedule (yield_state k) = Some k'" "sched_inv (Some (next_of (yield_state k))) k'" "switched (yield_state k) k'"
    using schedule_run [OF yield_state_inv [OF inv]] by (auto simp: yield_state_def)
  have "thread_yield k = schedule (yield_state k)"
    using th ext by (cases "running k = idle_thread k") (simp_all add: thread_yield_def thread_current_def running_thread_def is_thread_def
      intr_context_def intr_disable_def upd_th_def yield_state_def Let_def intr_last)
  then show ?thesis using that k' by (simp add: switched_def)
qed

lemma exit_tail_run:
  assumes inv: "sched_inv (Some (running k)) k" and t: "running k \<noteq> idle_thread k"
  obtains k' where "thread_exit_tail k = Some k'" "sched_inv (Some (running k')) k'" "switched (exit_state k) k'"
proof -
  obtain th where th: "threads k (running k) = Some th" "status th = THREAD_RUNNING" "running k \<noteq> 0" "th_magic th = THREAD_MAGIC"
    by (rule sched_invD [OF inv]) simp
  obtain k' where k': "schedule (exit_state k) = Some k'" "sched_inv (Some (next_of (exit_state k))) k'" "switched (exit_state k) k'"
    using schedule_run [OF exit_state_inv [OF inv t]] by (auto simp: exit_state_def)
  have "thread_exit_tail k = schedule (exit_state k)"
    using th by (simp add: thread_exit_tail_def thread_current_def running_thread_def is_thread_def intr_disable_def
      upd_th_def exit_state_def Let_def intr_last)
  then show ?thesis using that k' by (simp add: switched_def)
qed

lemma idle_run:
  assumes inv: "sched_inv (Some (running k)) k" and ext: "\<not> in_external_intr k" and t: "running k = idle_thread k"
    and th: "threads k (running k) = Some th" and k1: "k1 = k\<lparr>threads := (threads k)(running k \<mapsto> th\<lparr>konts := [K_hlt], status := THREAD_BLOCKED\<rparr>), intr_on := False\<rparr>"
  obtains k' where "idle (k\<lparr>threads := (threads k)(running k \<mapsto> th\<lparr>konts := []\<rparr>)\<rparr>) = Some k'"
    "sched_inv (Some (running k')) k'" "switched k1 k'" "sched_inv None k1"
proof -
  have i: "sched_inv None k1" using idle_state_inv [OF inv t th] by (simp add: k1)
  obtain k' where k': "schedule k1 = Some k'" "sched_inv (Some (next_of k1)) k'" "switched k1 k'"
    using schedule_run [OF i] by (auto simp: k1)
  have "idle (k\<lparr>threads := (threads k)(running k \<mapsto> th\<lparr>konts := []\<rparr>)\<rparr>) = schedule k1"
    using runningD [OF inv th] thread_okD [OF inv th] th ext
    by (simp add: idle_def push_kont_def upd_th_def intr_disable_def thread_block_def thread_current_def running_thread_def is_thread_def
      intr_context_def k1 intr_last)
  then show ?thesis using that k' i by (simp add: switched_def)
qed

text \<open>Fields of a thread that the invariant does not mention.\<close>

lemma set_thread:
  assumes inv: "sched_inv r k" and th: "threads k u = Some uth"
    and same: "status uth' = status uth" "konts uth' = konts uth" "th_magic uth' = th_magic uth" "pagedir uth' = pagedir uth"
  shows "sched_inv r (k\<lparr>threads := (threads k)(u \<mapsto> uth')\<rparr>)" (is "sched_inv r ?k")
proof -
  have live: "live_semas ?k = live_semas k" by (simp add: live_semas_def)
  have ex: "(\<exists>th. threads ?k t = Some th \<and> P (status th) (konts th)) = (\<exists>th. threads k t = Some th \<and> P (status th) (konts th))" for t P
    using th same by simp
  have d: "dom (threads ?k) = dom (threads k)" using th by auto
  have "threads_ok r ?k"
    unfolding threads_ok_def live status_ok_def using inv th same by (auto simp: sched_inv_def threads_ok_def status_ok_def)
  moreover have "running_ok r ?k" using inv ex [of "running k" "\<lambda>st ks. r \<noteq> None \<longrightarrow> r = Some (running k) \<and> st = THREAD_RUNNING"]
    by (simp add: sched_inv_def running_ok_def)
  moreover have "ready_ok ?k" using inv ex [of _ "\<lambda>st ks. st = THREAD_READY"] by (simp add: sched_inv_def ready_ok_def)
  moreover have "waiting ?k t s = waiting k t s" for t s
    unfolding waiting_def using ex [of t "\<lambda>st kt. st = THREAD_BLOCKED \<and> (\<exists>b ks. kt = K_down s b # ks)"] by auto
  then have "waiters_ok ?k" using inv by (simp add: sched_inv_def waiters_ok_def)
  moreover have "all_ok ?k" using inv ex [of _ "\<lambda>st ks. st \<noteq> THREAD_DYING"] by (simp add: sched_inv_def all_ok_def)
  moreover have "global_ok ?k" using inv th unfolding sched_inv_def global_ok_def d live by auto
  ultimately show ?thesis by (simp add: sched_inv_def)
qed

lemma set_cond_waiters:
  assumes "sched_inv r k" and "\<And>c t. t \<in> set (w c) \<Longrightarrow> Waiter t \<in> live_semas k"
  shows "sched_inv r (k\<lparr>cond_waiters := w\<rparr>)" (is "sched_inv r ?k")
proof -
  have live: "live_semas ?k = live_semas k" and sw: "sema_waiters ?k = sema_waiters k" by (simp_all add: live_semas_def sema_waiters_def fun_eq_iff)
  have "threads_ok r ?k = threads_ok r k" "running_ok r ?k = running_ok r k" "ready_ok ?k = ready_ok k" "all_ok ?k = all_ok k"
    by (simp_all add: threads_ok_def live status_ok_def waits_def sw running_ok_def ready_ok_def all_ok_def)
  moreover have "waiters_ok ?k = waiters_ok k" by (simp add: waiters_ok_def sw waiting_def)
  moreover have "global_ok ?k" using assms by (simp add: sched_inv_def global_ok_def live)
  ultimately show ?thesis using assms(1) by (simp add: sched_inv_def)
qed

text \<open>Nobody else waits for the semaphore of the running thread's own \<^verbatim>\<open>semaphore_elem\<close>.\<close>

lemma own_waiter:
  assumes inv: "sched_inv (Some t) k"
  shows "sema_waiters k (Waiter t) = []"
proof (rule ccontr)
  obtain th where th: "threads k t = Some th" "status th = THREAD_RUNNING" by (rule sched_invD [OF inv])
  assume "sema_waiters k (Waiter t) \<noteq> []"
  then obtain u where u: "u \<in> set (sema_waiters k (Waiter t))" by (cases "sema_waiters k (Waiter t)") auto
  then obtain uth b ks where uth: "threads k u = Some uth" "status uth = THREAD_BLOCKED" "konts uth = K_down (Waiter t) b # ks"
    using inv unfolding sched_inv_def waiters_ok_def waiting_def by metis
  have "u = t" using thread_okD(5) [OF inv uth(1)] uth(2,3) by simp
  then show False using th uth by simp
qed

lemma init_waiter:
  assumes inv: "sched_inv (Some t) k"
  shows "sched_inv (Some t) (sema_init (Waiter t) 0 k)" (is "sched_inv (Some t) ?k")
    and "live_semas (sema_init (Waiter t) 0 k) = insert (Waiter t) (live_semas k)"
proof -
  have sw: "sema_waiters ?k = sema_waiters k" using own_waiter [OF inv] by (auto simp: sema_init_def)
  show live: "live_semas ?k = insert (Waiter t) (live_semas k)" by (auto simp: live_semas_def sema_init_def)
  have st: "stack_ok (live_semas ?k) (idle_thread k) u b ks" if "stack_ok (live_semas k) (idle_thread k) u b ks" for u b ks
    using stack_ok_mono [OF that] live by auto
  have "threads_ok (Some t) ?k"
    unfolding threads_ok_def status_ok_def waits_def sw using inv st
    by (auto simp: sched_inv_def threads_ok_def status_ok_def waits_def sema_init_def)
  moreover have "waiters_ok ?k" using inv unfolding sched_inv_def waiters_ok_def waiting_def sw by (simp add: sema_init_def)
  moreover have "running_ok (Some t) ?k" "ready_ok ?k" "all_ok ?k"
    using inv by (simp_all add: sched_inv_def running_ok_def ready_ok_def all_ok_def sema_init_def)
  moreover have "global_ok ?k" using inv live unfolding sched_inv_def global_ok_def by (simp add: sema_init_def)
  ultimately show "sched_inv (Some t) ?k" by (simp add: sched_inv_def)
qed

text \<open>A new thread, ready to run.\<close>

lemma add_thread:
  assumes inv: "sched_inv (Some c) k" and new: "threads k t = None" "t \<noteq> 0"
    and th: "status th = THREAD_READY" "th_magic th = THREAD_MAGIC" "pagedir th = 0" "konts th = [K_kernel_thread]"
    and m: "pg.housed (insert t (dom (threads k))) (initial_thread k) m" "init_page_dir m = init_page_dir (mach k)"
  shows "sched_inv (Some c) (k\<lparr>mach := m, semas := (semas k)(Proc_exec t \<mapsto> \<lparr>sema_value = v, waiters = []\<rparr>, Proc_wait t \<mapsto> \<lparr>sema_value = w, waiters = []\<rparr>),
    threads := (threads k)(t \<mapsto> th), all_list := all_list k @ [t], ready_list := ready_list k @ [t]\<rparr>)" (is "sched_inv _ ?k")
proof -
  have ws: "sema_waiters k s = []" if "is_proc s" for s using inv that by (simp add: sched_inv_def waiters_ok_def)
  have sw: "sema_waiters ?k = sema_waiters k" using ws [of "Proc_exec t"] ws [of "Proc_wait t"] by (auto simp: sema_waiters_def)
  have wt: "waits ?k u = waits k u" for u using sw by (simp add: waits_def)
  have live: "live_semas ?k = live_semas k" by (auto simp: live_semas_def)
  have ti: "t \<noteq> idle_thread k" "t \<noteq> running k" "c = running k"
    using inv new(1) by (auto simp: sched_inv_def global_ok_def running_ok_def)
  have nr: "t \<notin> set (ready_list k)" "t \<notin> set (all_list k)" using inv new(1) by (auto simp: sched_inv_def ready_ok_def all_ok_def)
  have "threads_ok (Some c) ?k"
  proof (rule threads_okI)
    fix u uth assume u: "threads ?k u = Some uth"
    show "u \<noteq> 0 \<and> th_magic uth = THREAD_MAGIC \<and> pagedir uth = 0 \<and> status_ok (Some c) ?k u (status uth) \<and>
       (status uth \<noteq> THREAD_DYING \<longrightarrow> stack_ok (live_semas ?k) (idle_thread ?k) u (Some c = Some u \<and> intr_on ?k) (konts uth))"
    proof (cases "u = t")
      case True
      then show ?thesis using u new th ti by (auto simp: status_ok_def)
    next
      case False
      then have u': "threads k u = Some uth" using u by simp
      have "status_ok (Some c) ?k u (status uth)" using thread_okD(4) [OF inv u'] wt unfolding status_ok_def by auto
      then show ?thesis unfolding live using thread_okD [OF inv u'] by auto
    qed
  qed
  moreover have "running_ok (Some c) ?k" using inv ti by (auto simp: sched_inv_def running_ok_def)
  moreover have "ready_ok ?k" using inv nr(1) ti(1) th(1) new(1) unfolding sched_inv_def ready_ok_def by auto
  moreover have "waiters_ok ?k"
  proof -
    have "waiting ?k u s" if "waiting k u s" for u s using that new(1) by (auto simp: waiting_def)
    then show ?thesis using inv unfolding sched_inv_def waiters_ok_def sw by simp
  qed
  moreover have "all_ok ?k" using inv nr(2) th(1) new(1) unfolding sched_inv_def all_ok_def by auto
  moreover have "global_ok ?k" using inv m ti unfolding sched_inv_def global_ok_def live by auto
  ultimately show ?thesis by (simp add: sched_inv_def)
qed

end
