(* ===== verification/Lock_View.thy ===== *)
theory Lock_View
  imports Sched_Laws
begin

text \<open>
  Lock tokens and pending wake-ups.  Both are stated on a view of the kernel: the continuations of every
  thread, the waiters and the value of every semaphore, and the holder of every lock.

  A token of lock \<open>l\<close> is what entitles to enter its section: it is in the semaphore, or with the holder, or
  with a thread that took the semaphore and has not yet recorded itself as the holder, or with one that
  gave the lock up and has not yet raised the semaphore.
\<close>

section \<open>Tokens\<close>

definition wgt :: "nat \<Rightarrow> kont \<Rightarrow> int" where
  "wgt l c = (case c of
       K_holder a \<Rightarrow> of_bool (a = l)
     | K_up s \<Rightarrow> of_bool (s = Lock_sema l)
     | K_down s old \<Rightarrow> - of_bool (s = Lock_sema l)
     | K_sema_down s \<Rightarrow> - of_bool (s = Lock_sema l)
     | _ \<Rightarrow> 0)"

primrec tok :: "nat \<Rightarrow> kont list \<Rightarrow> int" where
  "tok l [] = 0"
| "tok l (c # ks) = wgt l c + tok l ks"

text \<open>Waiting for the semaphore of a lock is followed by recording the holder.\<close>

definition pair_head :: "kont \<Rightarrow> kont list \<Rightarrow> bool" where
  "pair_head c ks = (case c of
       K_down s old \<Rightarrow> (\<forall>l. s = Lock_sema l \<longrightarrow> ks \<noteq> [] \<and> hd ks = K_holder l)
     | K_sema_down s \<Rightarrow> (\<forall>l. s = Lock_sema l \<longrightarrow> ks \<noteq> [] \<and> hd ks = K_holder l)
     | _ \<Rightarrow> True)"

primrec pair_ok :: "kont list \<Rightarrow> bool" where
  "pair_ok [] = True"
| "pair_ok (c # ks) = (pair_head c ks \<and> pair_ok ks)"

lemma wgt_simps [simp]:
  "wgt l (K_holder a) = of_bool (a = l)" "wgt l (K_up s) = of_bool (s = Lock_sema l)" "wgt l (K_down s b) = - of_bool (s = Lock_sema l)"
  "wgt l (K_sema_down s) = - of_bool (s = Lock_sema l)" "wgt l (K_acquire a) = 0" "wgt l (K_set_level b) = 0" "wgt l K_iret = 0"
  "wgt l K_kernel_thread = 0" "wgt l (K_idle_start s) = 0" "wgt l K_idle = 0" "wgt l K_hlt = 0" "wgt l (K_broadcast c a) = 0" "wgt l (K_sleep x y) = 0"
  by (simp_all add: wgt_def)

lemma pair_head_simps [simp]:
  "pair_head (K_holder a) ks" "pair_head (K_up s) ks" "pair_head (K_acquire a) ks" "pair_head (K_set_level b) ks" "pair_head K_iret ks"
  "pair_head K_kernel_thread ks" "pair_head K_idle ks" "pair_head K_hlt ks" "pair_head (K_broadcast c a) ks" "pair_head (K_sleep x y) ks"
  "pair_head (K_sema_down (Lock_sema l)) (K_holder l # ks)" "pair_head (K_sema_down (Sema n)) ks" "pair_head (K_sema_down (Waiter u)) ks"
  "pair_head (K_down s b) ks = pair_head (K_sema_down s) ks"
  by (simp_all add: pair_head_def)

lemma tok_nonneg_aux: "pair_ok ks \<Longrightarrow> of_bool (ks \<noteq> [] \<and> hd ks = K_holder l) \<le> tok l ks"
proof (induction ks)
  case (Cons c ks)
  have p: "pair_ok ks" "pair_head c ks" using Cons.prems by simp_all
  note IH = Cons.IH [OF p(1)]
  have nn: "0 \<le> tok l ks" using IH by (simp add: order_trans [OF _ IH])
  show ?case
  proof (cases c)
    case (K_down s b)
    then show ?thesis using p(2) IH nn by (cases "s = Lock_sema l") (auto simp: pair_head_def split: if_splits)
  next
    case (K_sema_down s)
    then show ?thesis using p(2) IH nn by (cases "s = Lock_sema l") (auto simp: pair_head_def split: if_splits)
  qed (use nn in auto)
qed simp

lemma tok_nonneg: "pair_ok ks \<Longrightarrow> 0 \<le> tok l ks"
  using tok_nonneg_aux [of ks l] by (auto split: if_splits intro: order_trans [rotated])

section \<open>The view\<close>

type_synonym kmap = "tptr \<Rightarrow> kont list option"

definition tsum :: "nat \<Rightarrow> kmap \<Rightarrow> int" where
  "tsum l km = (\<Sum>t \<in> dom km. tok l (the (km t)))"

definition pend :: "kmap \<Rightarrow> (sema_ref \<Rightarrow> tptr list) \<Rightarrow> sema_ref \<Rightarrow> tptr set" where
  "pend km sw s = {t. (\<exists>b ks. km t = Some (K_down s b # ks)) \<and> t \<notin> set (sw s)}"

definition view_inv :: "kmap \<Rightarrow> (sema_ref \<Rightarrow> tptr list) \<Rightarrow> (sema_ref \<Rightarrow> int) \<Rightarrow> (nat \<Rightarrow> tptr) \<Rightarrow> bool" where
  "view_inv km sw sv h \<longleftrightarrow> finite (dom km) \<and> (\<forall>s. 0 \<le> sv s) \<and>
     (\<forall>l. sv (Lock_sema l) + of_bool (h l \<noteq> 0) + tsum l km = 1) \<and>
     (\<forall>t ks. km t = Some ks \<longrightarrow> pair_ok ks) \<and> (\<forall>s. sw s \<noteq> [] \<longrightarrow> sv s \<le> int (card (pend km sw s)))"

lemma tsum_upd: "finite (dom km) \<Longrightarrow> km t = Some ks \<Longrightarrow> tsum l (km(t \<mapsto> ks')) = tsum l km - tok l ks + tok l ks'"
proof -
  assume f: "finite (dom km)" and t: "km t = Some ks"
  have d: "dom (km(t \<mapsto> ks')) = dom km" "t \<in> dom km" using t by auto
  have "tsum l (km(t \<mapsto> ks')) = tok l ks' + (\<Sum>u \<in> dom km - {t}. tok l (the ((km(t \<mapsto> ks')) u)))"
    unfolding tsum_def d(1) using sum.remove [OF f d(2), of "\<lambda>u. tok l (the ((km(t \<mapsto> ks')) u))"] by simp
  also have "(\<Sum>u \<in> dom km - {t}. tok l (the ((km(t \<mapsto> ks')) u))) = (\<Sum>u \<in> dom km - {t}. tok l (the (km u)))"
    by (rule sum.cong) auto
  also have "\<dots> = tsum l km - tok l ks"
    unfolding tsum_def using sum.remove [OF f d(2), of "\<lambda>u. tok l (the (km u))"] t by simp
  finally show ?thesis by linarith
qed

lemma tsum_new: "finite (dom km) \<Longrightarrow> km t = None \<Longrightarrow> tsum l (km(t \<mapsto> ks)) = tsum l km + tok l ks"
proof -
  assume f: "finite (dom km)" and t: "km t = None"
  have d: "dom (km(t \<mapsto> ks)) = insert t (dom km)" "t \<notin> dom km" using t by auto
  have "tsum l (km(t \<mapsto> ks)) = tok l ks + (\<Sum>u \<in> dom km. tok l (the ((km(t \<mapsto> ks)) u)))"
    unfolding tsum_def d(1) using f d(2) by (subst sum.insert) auto
  also have "(\<Sum>u \<in> dom km. tok l (the ((km(t \<mapsto> ks)) u))) = tsum l km"
    unfolding tsum_def using d(2) by (intro sum.cong) auto
  finally show ?thesis by linarith
qed

lemma tsum_del: "finite (dom km) \<Longrightarrow> km t = Some ks \<Longrightarrow> tsum l (km(t := None)) = tsum l km - tok l ks"
proof -
  assume f: "finite (dom km)" and t: "km t = Some ks"
  have "(km(t := None))(t \<mapsto> ks) = km" using t by auto
  then show ?thesis using tsum_new [of "km(t := None)" t l ks] f by simp
qed

lemma tok_le_tsum:
  assumes "view_inv km sw sv h" and "km t = Some ks"
  shows "tok l ks \<le> tsum l km"
proof -
  have "tsum l (km(t := None)) = tsum l km - tok l ks" using assms by (simp add: view_inv_def tsum_del)
  moreover have "0 \<le> tsum l (km(t := None))"
    unfolding tsum_def using assms(1) by (intro sum_nonneg) (auto simp: view_inv_def dom_def intro: tok_nonneg)
  ultimately show ?thesis by simp
qed

lemma finite_pend: "finite (dom km) \<Longrightarrow> finite (pend km sw s)"
  by (rule finite_subset [of _ "dom km"]) (auto simp: pend_def)

text \<open>One thread changes its continuations; the tokens are kept in sum.\<close>

lemma view_step:
  assumes inv: "view_inv km sw sv h" and t: "km t = Some ks" and ks': "pair_ok ks'" and nn: "\<And>s. 0 \<le> sv' s"
    and tk: "\<And>l. sv' (Lock_sema l) + of_bool (h' l \<noteq> 0) + tok l ks' = sv (Lock_sema l) + of_bool (h l \<noteq> 0) + tok l ks"
    and wk: "\<And>s. sw' s \<noteq> [] \<Longrightarrow> sv' s \<le> int (card (pend (km(t \<mapsto> ks')) sw' s))"
  shows "view_inv (km(t \<mapsto> ks')) sw' sv' h'"
proof -
  have f: "finite (dom km)" using inv by (simp add: view_inv_def)
  have "sv' (Lock_sema l) + of_bool (h' l \<noteq> 0) + tsum l (km(t \<mapsto> ks')) = 1" for l
  proof -
    have "sv (Lock_sema l) + of_bool (h l \<noteq> 0) + tsum l km = 1" using inv unfolding view_inv_def by blast
    then show ?thesis using tk [of l] tsum_upd [OF f t, of l ks'] by linarith
  qed
  moreover have "pair_ok us" if "(km(t \<mapsto> ks')) u = Some us" for u us
    using inv ks' that by (auto simp: view_inv_def split: if_splits)
  ultimately show ?thesis using f nn wk unfolding view_inv_def by auto
qed

definition down_top :: "kont list \<Rightarrow> sema_ref \<Rightarrow> bool" where
  "down_top ks s \<longleftrightarrow> (\<exists>b r. ks = K_down s b # r)"

lemma down_top_simps [simp]: "down_top (K_down s b # r) s' = (s' = s)" "\<not> down_top [] s"
  by (auto simp: down_top_def)

lemma pend_local:
  assumes "finite (dom km)" and "km t = Some ks"
  shows "int (card (pend km sw s)) - of_bool (down_top ks s) \<le> int (card (pend (km(t \<mapsto> ks')) sw s))"
proof -
  have f: "finite (pend (km(t \<mapsto> ks')) sw s)" using assms(1) by (intro finite_pend) simp
  have sub: "pend km sw s - {t} \<subseteq> pend (km(t \<mapsto> ks')) sw s" by (auto simp: pend_def)
  have c: "card (pend km sw s - {t}) \<le> card (pend (km(t \<mapsto> ks')) sw s)" using card_mono [OF f sub] .
  show ?thesis
  proof (cases "t \<in> pend km sw s")
    case True
    then have "down_top ks s" using assms(2) by (auto simp: pend_def down_top_def)
    then show ?thesis using c True finite_pend [OF assms(1), of sw s] by simp
  next
    case False
    then show ?thesis using c by simp
  qed
qed

lemma wake_local:
  assumes inv: "view_inv km sw sv h" and t: "km t = Some ks" and le: "sw s \<noteq> [] \<Longrightarrow> sv' s \<le> sv s - of_bool (down_top ks s)" and s: "sw s \<noteq> []"
  shows "sv' s \<le> int (card (pend (km(t \<mapsto> ks')) sw s))"
proof -
  have "sv s \<le> int (card (pend km sw s))" and f: "finite (dom km)" using inv s by (auto simp: view_inv_def)
  then show ?thesis using pend_local [OF f t, of sw s ks'] le [OF s] by linarith
qed

lemma view_local:
  assumes "view_inv km sw sv h" and "km t = Some ks" and "pair_ok ks'" and "\<And>s. 0 \<le> sv' s"
    and "\<And>l. sv' (Lock_sema l) + of_bool (h' l \<noteq> 0) + tok l ks' = sv (Lock_sema l) + of_bool (h l \<noteq> 0) + tok l ks"
    and "\<And>s. sw s \<noteq> [] \<Longrightarrow> sv' s \<le> sv s - of_bool (down_top ks s)"
  shows "view_inv (km(t \<mapsto> ks')) sw sv' h'"
  by (rule view_step [OF assms(1-5)]) (rule wake_local [OF assms(1,2,6)])

text \<open>The thread starts to wait for semaphore \<open>s\<close>.\<close>

lemma view_wait:
  assumes inv: "view_inv km sw sv h" and t: "km t = Some ks" and s0: "sv s = 0" and p: "pair_ok (K_down s old # r)"
    and tk: "\<And>l. tok l (K_down s old # r) = tok l ks" and top: "\<And>s'. down_top ks s' \<Longrightarrow> s' = s"
  shows "view_inv (km(t \<mapsto> K_down s old # r)) (sw(s := sw s @ [t])) sv h"
proof (rule view_step [OF inv t p])
  show "0 \<le> sv x" for x using inv by (simp add: view_inv_def)
  show "sv (Lock_sema l) + of_bool (h l \<noteq> 0) + tok l (K_down s old # r) = sv (Lock_sema l) + of_bool (h l \<noteq> 0) + tok l ks" for l
    using tk by simp
  fix x assume x: "(sw(s := sw s @ [t])) x \<noteq> []"
  let ?km = "km(t \<mapsto> K_down s old # r)"
  show "sv x \<le> int (card (pend ?km (sw(s := sw s @ [t])) x))"
  proof (cases "x = s")
    case False
    then have "pend ?km (sw(s := sw s @ [t])) x = pend ?km sw x" "sw x \<noteq> []" using x by (simp_all add: pend_def)
    moreover have "\<not> down_top ks x" using top False by auto
    ultimately show ?thesis using wake_local [OF inv t, of x sv "K_down s old # r"] by simp
  qed (simp add: s0)
qed

text \<open>The first waiter \<open>w\<close> of \<open>s\<close> is woken.\<close>

lemma view_up:
  assumes inv: "view_inv km sw sv h" and t: "km t = Some ks" "\<And>s'. \<not> down_top ks s'" and ks': "pair_ok ks'" and nn: "\<And>s. 0 \<le> sv' s"
    and tk: "\<And>l. sv' (Lock_sema l) + of_bool (h l \<noteq> 0) + tok l ks' = sv (Lock_sema l) + of_bool (h l \<noteq> 0) + tok l ks"
    and s: "sw s = w # ws" "w \<notin> set ws" "km w = Some (K_down s b # r)" "w \<noteq> t"
    and sv': "sv' s \<le> sv s + 1" "\<And>x. x \<noteq> s \<Longrightarrow> sv' x = sv x"
  shows "view_inv (km(t \<mapsto> ks')) (sw(s := ws)) sv' h"
proof (rule view_step [OF inv t(1) ks' nn tk])
  fix x assume x: "(sw(s := ws)) x \<noteq> []"
  let ?km = "km(t \<mapsto> ks')"
  have f: "finite (dom ?km)" using inv by (simp add: view_inv_def)
  show "sv' x \<le> int (card (pend ?km (sw(s := ws)) x))"
  proof (cases "x = s")
    case False
    then have "pend ?km (sw(s := ws)) x = pend ?km sw x" "sw x \<noteq> []" using x by (simp_all add: pend_def)
    then show ?thesis using wake_local [OF inv t(1), of x sv' ks'] t(2) sv'(2) [OF False] by simp
  next
    case True
    have le: "sv s \<le> int (card (pend ?km sw s))" using wake_local [OF inv t(1), of s sv ks'] s(1) t(2) by simp
    have "insert w (pend ?km sw s) \<subseteq> pend ?km (sw(s := ws)) s" using s by (auto simp: pend_def)
    then have "card (insert w (pend ?km sw s)) \<le> card (pend ?km (sw(s := ws)) s)" by (intro card_mono finite_pend f)
    moreover have "w \<notin> pend ?km sw s" using s(1) by (simp add: pend_def)
    ultimately show ?thesis using le sv'(1) True finite_pend [OF f, of sw s] by simp
  qed
qed

end
