(* ===== verification/Kernel_Steps.thy ===== *)
theory Kernel_Steps
  imports Lock_View
begin

text \<open>
  Every step of the transition system keeps the scheduler invariant and the view invariant, and moves the
  ready queue only forward.
\<close>

section \<open>The view of a kernel state\<close>

text \<open>The continuations of the threads that are not dying.\<close>

definition kmap_of :: "kernel \<Rightarrow> kmap" where
  "kmap_of k = (\<lambda>t. case threads k t of None \<Rightarrow> None | Some th \<Rightarrow> if status th = THREAD_DYING then None else Some (konts th))"

definition sval :: "kernel \<Rightarrow> sema_ref \<Rightarrow> int" where
  "sval k s = (if is_proc s then 0 else case semas k s of None \<Rightarrow> 0 | Some sm \<Rightarrow> uint (sema_value sm))"

definition view_ok :: "kernel \<Rightarrow> bool" where
  "view_ok k \<longleftrightarrow> view_inv (kmap_of k) (sema_waiters k) (sval k) (holder k)"

definition sync_inv :: "kernel \<Rightarrow> bool" where
  "sync_inv k \<longleftrightarrow> kernel_inv k \<and> view_ok k"

text \<open>Either the running thread goes on, or the thread at the head of the ready queue takes over;
  threads join the queue only at its end.\<close>

definition moved :: "bool \<Rightarrow> kernel \<Rightarrow> kernel \<Rightarrow> bool" where
  "moved tick k k' \<longleftrightarrow> (\<exists>xs.
     (running k' = running k \<and> ready_list k' = ready_list k @ xs \<and> thread_ticks k' = thread_ticks k + of_bool tick) \<or>
     (running k' = (case ready_list k @ xs of [] \<Rightarrow> idle_thread k | t # ts \<Rightarrow> t) \<and> ready_list k' = tl (ready_list k @ xs) \<and> thread_ticks k' = 0))"

definition good :: "bool \<Rightarrow> kernel \<Rightarrow> kernel \<Rightarrow> bool" where
  "good tick k k' \<longleftrightarrow> sync_inv k' \<and> moved tick k k'"

lemma kmap_same: "threads k' = threads k \<Longrightarrow> kmap_of k' = kmap_of k"
  by (simp add: kmap_of_def)

lemma kmap_upd: "threads k' = (threads k)(t \<mapsto> th) \<Longrightarrow> status th \<noteq> THREAD_DYING \<Longrightarrow> kmap_of k' = (kmap_of k)(t \<mapsto> konts th)"
  by (auto simp: kmap_of_def)

lemma kmap_run: "sched_inv (Some t) k \<Longrightarrow> threads k t = Some th \<Longrightarrow> kmap_of k t = Some (konts th)"
  using runningD by (fastforce simp: kmap_of_def)

lemma semas_same: "semas k' = semas k \<Longrightarrow> sval k' = sval k" "semas k' = semas k \<Longrightarrow> sema_waiters k' = sema_waiters k"
  by (simp_all add: sval_def sema_waiters_def fun_eq_iff)

lemma sval_upd: "semas k' = (semas k)(s \<mapsto> sm) \<Longrightarrow> \<not> is_proc s \<Longrightarrow> sval k' = (sval k)(s := uint (sema_value sm))"
  by (auto simp: sval_def fun_eq_iff)

lemma waiters_upd: "semas k' = (semas k)(s \<mapsto> sm) \<Longrightarrow> sema_waiters k' = (sema_waiters k)(s := waiters sm)"
  by (auto simp: sema_waiters_def fun_eq_iff)

lemma sval_Some: "semas k s = Some sm \<Longrightarrow> \<not> is_proc s \<Longrightarrow> sval k s = uint (sema_value sm)"
  by (simp add: sval_def)

lemma sval_nonneg: "0 \<le> sval k s"
  by (simp add: sval_def split: option.split)

lemma sync_invD:
  assumes "sync_inv k"
  obtains th where "sched_inv (Some (running k)) k" "\<not> in_external_intr k" "threads k (running k) = Some th" "kmap_of k (running k) = Some (konts th)"
    "stack_ok (live_semas k) (idle_thread k) (running k) (intr_on k) (konts th)" "pair_ok (konts th)"
    "view_inv (kmap_of k) (sema_waiters k) (sval k) (holder k)" "status th = THREAD_RUNNING"
proof -
  have i: "sched_inv (Some (running k)) k" "\<not> in_external_intr k" and v: "view_inv (kmap_of k) (sema_waiters k) (sval k) (holder k)"
    using assms by (simp_all add: sync_inv_def kernel_inv_def view_ok_def)
  obtain th where th: "threads k (running k) = Some th" "stack_ok (live_semas k) (idle_thread k) (running k) (intr_on k) (konts th)" "status th = THREAD_RUNNING"
    by (rule sched_invD [OF i(1)])
  have "kmap_of k (running k) = Some (konts th)" using th by (simp add: kmap_of_def)
  moreover then have "pair_ok (konts th)" using v by (simp add: view_inv_def)
  ultimately show ?thesis using that i v th by blast
qed

lemma not_waiting:
  assumes "sched_inv (Some t) k" shows "t \<notin> set (sema_waiters k s)"
proof -
  obtain th where th: "threads k t = Some th" "status th = THREAD_RUNNING" by (rule sched_invD [OF assms])
  then show ?thesis using waitersD(2) [OF assms _ th(1)] by auto
qed

section \<open>Staying and switching\<close>

text \<open>The running thread goes on with continuations \<open>ks'\<close>.\<close>

lemma good_stay:
  assumes k: "sync_inv k" and k': "kernel_inv k'" and th: "threads k (running k) = Some th"
    and same: "running k' = running k" "ready_list k' = ready_list k" "thread_ticks k' = thread_ticks k + of_bool tick"
    and v: "kmap_of k' = (kmap_of k)(running k \<mapsto> ks')" "sema_waiters k' = sema_waiters k"
    and p: "pair_ok ks'"
    and tk: "\<And>l. sval k' (Lock_sema l) + of_bool (holder k' l \<noteq> 0) + tok l ks' = sval k (Lock_sema l) + of_bool (holder k l \<noteq> 0) + tok l (konts th)"
    and wk: "\<And>s. sema_waiters k s \<noteq> [] \<Longrightarrow> sval k' s \<le> sval k s - of_bool (down_top (konts th) s)"
  shows "good tick k k'"
proof -
  have v0: "view_inv (kmap_of k) (sema_waiters k) (sval k) (holder k)" and i: "sched_inv (Some (running k)) k"
    using k by (simp_all add: sync_inv_def view_ok_def kernel_inv_def)
  have "kmap_of k (running k) = Some (konts th)" by (rule kmap_run [OF i th])
  then have "view_inv ((kmap_of k)(running k \<mapsto> ks')) (sema_waiters k) (sval k') (holder k')"
    by (rule view_local [OF v0 _ p sval_nonneg tk wk])
  then have "sync_inv k'" using k' v by (simp add: sync_inv_def view_ok_def)
  then show ?thesis using same by (auto simp: good_def moved_def)
qed

lemma kmap_switched:
  assumes sw: "switched k1 k'" and i1: "sched_inv None k1"
  shows "kmap_of k' = kmap_of k1"
proof
  fix t
  obtain nh where nh: "threads k1 (next_of k1) = Some nh" "status nh \<noteq> THREAD_DYING" using next_of_thread [OF i1] by metis
  have d: "kmap_of k1 t = None" if "dead k1 t" using that by (auto simp: dead_def kmap_of_def)
  show "kmap_of k' t = kmap_of k1 t"
    using sw nh d by (cases "threads k1 t"; cases "t = next_of k1"; cases "dead k1 t") (auto simp: switched_def kmap_of_def)
qed

lemma switched_view:
  assumes sw: "switched k1 k'" and i1: "sched_inv None k1" and i: "sched_inv (Some (running k')) k'"
  shows "sema_waiters k' = sema_waiters k1" "sval k' = sval k1" "holder k' = holder k1"
proof -
  have s: "semas k' s = semas k1 s" if "\<not> is_proc s" for s using sw that by (simp add: switched_def)
  have p: "sema_waiters k' s = []" "sema_waiters k1 s = []" if "is_proc s" for s using i i1 that by (simp_all add: sched_inv_def waiters_ok_def)
  show "sema_waiters k' = sema_waiters k1" using s p by (metis (no_types, lifting) ext sema_waiters_def)
  show "sval k' = sval k1" using s by (auto simp: sval_def)
  show "holder k' = holder k1" using sw by (simp add: switched_def)
qed

lemma good_leave:
  assumes k1: "running k1 = running k" "idle_thread k1 = idle_thread k" "ready_list k1 = ready_list k @ xs" "\<not> in_external_intr k1"
    and sw: "switched k1 k'" and i1: "sched_inv None k1" and i: "sched_inv (Some (running k')) k'" and v: "view_ok k1"
  shows "good tick k k'"
proof -
  have "view_ok k'" using v kmap_switched [OF sw i1] switched_view [OF sw i1 i] by (simp add: view_ok_def)
  then have "sync_inv k'" using i sw k1(4) by (simp add: sync_inv_def kernel_inv_def switched_def)
  moreover have "moved tick k k'"
    unfolding moved_def using sw k1 by (intro exI [of _ xs] disjI2) (simp add: switched_def next_of_def split: list.split)
  ultimately show ?thesis by (simp add: good_def)
qed

section \<open>Down\<close>

lemma uint_pred: "v \<noteq> 0 \<Longrightarrow> uint (v - 1) = uint v - 1" for v :: u32
proof -
  assume "v \<noteq> 0"
  then have "0 < v" by (simp only: word_neq_0_conv)
  then have "1 \<le> v" using inc_le [of 0 v] by simp
  from uint_minus_simple_alt [THEN iffD1, OF this] show ?thesis by simp
qed

text \<open>The loop of \<^verbatim>\<open>sema_down\<close>, run by a thread whose continuations were \<open>konts th\<close> and are \<open>cs\<close> once it
  has the semaphore.\<close>

lemma good_down:
  assumes k: "sync_inv k" and th: "threads k (running k) = Some th"
    and k0: "k0 = k\<lparr>threads := (threads k)(running k \<mapsto> th\<lparr>konts := cs\<rparr>), intr_on := False\<rparr>"
    and s: "s \<in> live_semas k" "own_sema (running k) s" "running k \<noteq> idle_thread k"
    and cs: "stack_ok (live_semas k) (idle_thread k) (running k) old cs" "pair_ok (K_down s old # cs)"
    and tk: "\<And>l. tok l (konts th) = tok l (K_down s old # cs)" and top: "\<And>s'. down_top (konts th) s' \<Longrightarrow> s' = s"
    and run: "sema_down_loop s old k0 = Some k'"
  shows "good False k k'"
proof -
  let ?t = "running k"
  have i: "sched_inv (Some ?t) k" "\<not> in_external_intr k" and v: "view_inv (kmap_of k) (sema_waiters k) (sval k) (holder k)"
    using k by (simp_all add: sync_inv_def kernel_inv_def view_ok_def)
  have np: "\<not> is_proc s" using s(1) by (simp add: live_semas_def)
  have i0: "sched_inv (Some ?t) (k0\<lparr>intr_on := old\<rparr>)" using set_konts [OF i(1) th cs(1)] by (simp add: k0)
  have live: "live_semas k0 = live_semas k" by (simp add: k0 live_semas_def)
  have h: "\<not> intr_on k0" "\<not> in_external_intr k0" "s \<in> live_semas k0" "own_sema ?t s" "?t \<noteq> idle_thread k0" using i s live by (simp_all add: k0)
  have km: "kmap_of k ?t = Some (konts th)" and nd: "status th \<noteq> THREAD_DYING" using kmap_run [OF i(1) th] runningD [OF i(1) th] by simp_all
  show ?thesis
  proof (cases rule: down_loop_run [OF i0 h])
    case (1 sm)
    have k': "k' = k\<lparr>threads := (threads k)(?t \<mapsto> th\<lparr>konts := cs\<rparr>), semas := (semas k)(s \<mapsto> sm\<lparr>sema_value := sema_value sm - 1\<rparr>), intr_on := old\<rparr>"
      using 1(3) run by (simp add: k0)
    have sm: "semas k s = Some sm" using 1(1) by (simp add: k0)
    have u: "uint (sema_value sm - 1) = uint (sema_value sm) - 1" using 1(2) by (rule uint_pred)
    have sv: "sval k' = (sval k)(s := sval k s - 1)"
      by (subst sval_upd [of k' k s "sm\<lparr>sema_value := sema_value sm - 1\<rparr>"]) (use np sm u in \<open>simp_all add: k' sval_Some\<close>)
    have hh: "holder k' = holder k" by (simp add: k')
    show ?thesis
    proof (rule good_stay [OF k _ th, where ks' = cs])
      show "kernel_inv k'" using 1(4) i(2) by (simp add: kernel_inv_def k' k0)
      show "kmap_of k' = (kmap_of k)(?t \<mapsto> cs)" using kmap_upd [of k' k ?t "th\<lparr>konts := cs\<rparr>"] nd by (simp add: k')
      show "sema_waiters k' = sema_waiters k" using waiters_upd [of k' k s "sm\<lparr>sema_value := sema_value sm - 1\<rparr>"] sm by (simp add: k' fun_upd_idem)
      show "sval k' (Lock_sema l) + of_bool (holder k' l \<noteq> 0) + tok l cs = sval k (Lock_sema l) + of_bool (holder k l \<noteq> 0) + tok l (konts th)" for l
        using tk [of l] hh by (simp add: sv)
      show "sval k' x \<le> sval k x - of_bool (down_top (konts th) x)" for x using top [of x] by (auto simp: sv)
    qed (use cs(2) in \<open>simp_all add: k'\<close>)
  next
    case (2 sm k'')
    have kk: "k'' = k'" using 2(3) run by simp
    let ?k1 = "wait_state s old k0"
    have sm: "semas k s = Some sm" using 2(1) by (simp add: k0)
    have e: "kmap_of ?k1 = (kmap_of k)(?t \<mapsto> K_down s old # cs)" "sema_waiters ?k1 = (sema_waiters k)(s := sema_waiters k s @ [?t])"
        "sval ?k1 = sval k" "holder ?k1 = holder k"
      using sm np by (auto simp: wait_state_def k0 kmap_of_def sema_waiters_def sval_def fun_eq_iff)
    have "view_ok ?k1"
      unfolding view_ok_def e by (rule view_wait [OF v km _ cs(2)]) (use 2(2) sm np tk top in \<open>simp_all add: sval_def\<close>)
    moreover have "running ?k1 = ?t" "idle_thread ?k1 = idle_thread k" "ready_list ?k1 = ready_list k @ []" "\<not> in_external_intr ?k1"
      using i(2) by (simp_all add: wait_state_def k0)
    ultimately show ?thesis
      using 2(5-7) unfolding kk by (rule_tac good_leave [of ?k1 k "[]" k']) (assumption | simp)+
  qed
qed

section \<open>Up\<close>

lemma uint_succ_le: "uint (v + 1) \<le> uint v + 1" for v :: u32
  by (simp add: uint_word_ariths zmod_le_nonneg_dividend)

lemma lock_value_0:
  assumes "view_inv km sw sv h" and "km t = Some ks" and "0 < tok l ks"
  shows "sv (Lock_sema l) = 0" and "h l = 0"
proof -
  have "sv (Lock_sema l) + of_bool (h l \<noteq> 0) + tsum l km = 1" "0 \<le> sv (Lock_sema l)" using assms(1) by (simp_all add: view_inv_def)
  then show "sv (Lock_sema l) = 0" "h l = 0" using tok_le_tsum [OF assms(1,2), of l] assms(3) by (auto split: if_splits simp: of_bool_def)
qed

text \<open>The state \<open>k0\<close> is \<open>k\<close> with the continuations of the running thread replaced by \<open>cs\<close>.\<close>

lemma up_good:
  assumes k: "sync_inv k" and th: "threads k (running k) = Some th"
    and k0: "sched_inv (Some (running k)) k0" "threads k0 = (threads k)(running k \<mapsto> th\<lparr>konts := cs\<rparr>)" "semas k0 = semas k"
      "holder k0 = holder k" "ready_list k0 = ready_list k" "running k0 = running k" "thread_ticks k0 = thread_ticks k"
    and s: "s \<in> live_semas k" and cs: "pair_ok cs" and top: "\<And>s'. \<not> down_top (konts th) s'"
    and tk: "\<And>l. tok l (konts th) = tok l cs + of_bool (s = Lock_sema l)"
  shows "view_ok (up_state s k0)" "sched_inv (Some (running k)) (up_state s k0)" "running (up_state s k0) = running k"
    "\<exists>xs. ready_list (up_state s k0) = ready_list k @ xs" "thread_ticks (up_state s k0) = thread_ticks k"
proof -
  let ?t = "running k" and ?k = "up_state s k0"
  have v: "view_inv (kmap_of k) (sema_waiters k) (sval k) (holder k)" using k by (simp add: sync_inv_def view_ok_def)
  obtain sm where sm: "semas k s = Some sm" "\<not> is_proc s" using s by (auto simp: live_semas_def)
  have sm0: "semas k0 s = Some sm" using sm k0(3) by simp
  have ik: "sched_inv (Some ?t) k" using k by (simp add: sync_inv_def kernel_inv_def)
  have km: "kmap_of k ?t = Some (konts th)" by (rule kmap_run [OF ik th])
  have km0: "kmap_of k0 = (kmap_of k)(?t \<mapsto> cs)" using kmap_upd [OF k0(2)] runningD [OF ik th] by simp
  have nd: "0 \<le> tok l cs" for l using tok_nonneg [OF cs] .
  show "sched_inv (Some ?t) ?k" using up_state_inv [OF k0(1) sm0] .
  show "running ?k = ?t" "\<exists>xs. ready_list ?k = ready_list k @ xs" "thread_ticks ?k = thread_ticks k"
    using sm0 k0 by (auto simp: up_state_def split: list.split)
  have sv: "sval ?k = (sval k)(s := uint (sema_value sm + 1))" if "semas ?k = (semas k)(s \<mapsto> sm\<lparr>waiters := ws, sema_value := sema_value sm + 1\<rparr>)" for ws
    using sval_upd [OF that sm(2)] by simp
  have nn: "0 \<le> ((sval k)(s := uint (sema_value sm + 1))) x" for x using sval_nonneg by simp
  have tk': "((sval k)(s := uint (sema_value sm + 1))) (Lock_sema l) + of_bool (holder k l \<noteq> 0) + tok l cs =
      sval k (Lock_sema l) + of_bool (holder k l \<noteq> 0) + tok l (konts th)" for l
  proof (cases "s = Lock_sema l")
    case True
    then have "0 < tok l (konts th)" using tk [of l] nd [of l] by simp
    then have "sval k s = 0" using lock_value_0(1) [OF v km] True by simp
    then have "sema_value sm = 0" using sval_Some [OF sm] by (simp add: uint_0_iff)
    then show ?thesis using tk [of l] True \<open>sval k s = 0\<close> by simp
  qed (use tk [of l] in simp)
  have le: "uint (sema_value sm + 1) \<le> sval k s + 1" using uint_succ_le sval_Some [OF sm] by simp
  show "view_ok ?k"
  proof (cases "waiters sm")
    case Nil
    have eq: "sm\<lparr>waiters := [], sema_value := sema_value sm + 1\<rparr> = sm\<lparr>sema_value := sema_value sm + 1\<rparr>" using Nil by (cases sm) simp
    have e: "semas ?k = (semas k)(s \<mapsto> sm\<lparr>waiters := [], sema_value := sema_value sm + 1\<rparr>)" "threads ?k = threads k0" "holder ?k = holder k"
      unfolding eq using sm0 Nil k0 by (simp_all add: up_state_def)
    have w: "sema_waiters ?k = sema_waiters k" using waiters_upd [OF e(1)] sm(1) Nil by (simp add: fun_upd_idem)
    have "view_inv ((kmap_of k)(?t \<mapsto> cs)) (sema_waiters k) ((sval k)(s := uint (sema_value sm + 1))) (holder k)"
      by (rule view_local [OF v km cs nn tk']) (use top sm(1) Nil in \<open>auto simp: down_top_def\<close>)
    then show ?thesis using w sv [OF e(1)] kmap_same [OF e(2)] km0 e(3) by (simp add: view_ok_def)
  next
    case (Cons w ws)
    obtain wth b r where w: "threads k0 w = Some wth" "status wth = THREAD_BLOCKED" "konts wth = K_down s b # r" "w \<notin> set ws"
      using waiterE [OF k0(1) sm0 Cons] by metis
    have wt: "w \<noteq> ?t" using w(2) runningD [OF k0(1)] k0(6) w(1) by auto
    have e: "semas ?k = (semas k)(s \<mapsto> sm\<lparr>waiters := ws, sema_value := sema_value sm + 1\<rparr>)" "holder ?k = holder k"
        "threads ?k = (threads k0)(w \<mapsto> wth\<lparr>status := THREAD_READY\<rparr>)"
      using sm0 Cons k0 w(1) by (simp_all add: up_state_def)
    have kw: "kmap_of k w = Some (K_down s b # r)" using w(1,2,3) k0(2) wt by (simp add: kmap_of_def)
    have "kmap_of ?k = (kmap_of k)(?t \<mapsto> cs)" using kmap_upd [OF e(3)] km0 w(3) kw wt by (simp add: fun_upd_idem)
    moreover have "sema_waiters ?k = (sema_waiters k)(s := ws)" using waiters_upd [OF e(1)] by simp
    moreover have "view_inv ((kmap_of k)(?t \<mapsto> cs)) ((sema_waiters k)(s := ws)) ((sval k)(s := uint (sema_value sm + 1))) (holder k)"
      by (rule view_up [OF v km top cs nn tk' _ w(4) kw wt]) (use sm Cons le in simp_all)
    ultimately show ?thesis using sv [OF e(1)] e(2) by (simp add: view_ok_def)
  qed
qed

section \<open>Continuing a thread\<close>

lemma good_local:
  assumes k: "sync_inv k" and th: "threads k (running k) = Some th"
    and ks': "stack_ok (live_semas k) (idle_thread k) (running k) b ks'" "pair_ok ks'"
    and tk: "\<And>l. of_bool (h' l \<noteq> 0) + tok l ks' = of_bool (holder k l \<noteq> 0) + tok l (konts th)" and top: "\<And>s. \<not> down_top (konts th) s"
    and w: "\<And>c t. t \<in> set (w' c) \<Longrightarrow> Waiter t \<in> live_semas k"
  shows "good False k (k\<lparr>threads := (threads k)(running k \<mapsto> th\<lparr>konts := ks'\<rparr>), intr_on := b, holder := h', cond_waiters := w'\<rparr>)"
    (is "good False k ?k")
proof (rule good_stay [OF k _ th, where ks' = ks'])
  have i: "sched_inv (Some (running k)) k" "\<not> in_external_intr k" using k by (simp_all add: sync_inv_def kernel_inv_def)
  let ?k1 = "k\<lparr>threads := (threads k)(running k \<mapsto> th\<lparr>konts := ks'\<rparr>), intr_on := b\<rparr>"
  have "sched_inv (Some (running k)) (?k1\<lparr>holder := h'\<rparr>)" using set_konts [OF i(1) th ks'(1)] by simp
  then have "sched_inv (Some (running k)) ?k" by (rule set_cond_waiters) (use w in \<open>simp add: live_semas_def\<close>)
  then show "kernel_inv ?k" using i(2) by (simp add: kernel_inv_def)
  show "kmap_of ?k = (kmap_of k)(running k \<mapsto> ks')" using kmap_upd [of ?k k "running k" "th\<lparr>konts := ks'\<rparr>"] runningD [OF i(1) th] by simp
  show "sema_waiters ?k = sema_waiters k" by (rule semas_same) simp
  have sv: "sval ?k = sval k" by (rule semas_same) simp
  show "sval ?k (Lock_sema l) + of_bool (holder ?k l \<noteq> 0) + tok l ks' = sval k (Lock_sema l) + of_bool (holder k l \<noteq> 0) + tok l (konts th)" for l
    using tk [of l] sv by simp
  show "sval ?k s \<le> sval k s - of_bool (down_top (konts th) s)" for s using sv top [of s] by simp
qed (use ks'(2) in simp_all)

lemma waiter_live: "sync_inv k \<Longrightarrow> t \<in> set (cond_waiters k c) \<Longrightarrow> Waiter t \<in> live_semas k"
  by (simp add: sync_inv_def kernel_inv_def sched_inv_def global_ok_def)

lemma good_konts:
  assumes k: "sync_inv k" and th: "threads k (running k) = Some th"
    and "stack_ok (live_semas k) (idle_thread k) (running k) b ks'" "pair_ok ks'"
    and "\<And>l. tok l ks' = tok l (konts th)" and "\<And>s. \<not> down_top (konts th) s"
  shows "good False k (k\<lparr>threads := (threads k)(running k \<mapsto> th\<lparr>konts := ks'\<rparr>), intr_on := b\<rparr>)"
  using good_local [OF k th assms(3,4), of "holder k" "cond_waiters k"] assms(5,6) waiter_live [OF k] by simp

lemma good_up:
  assumes k: "sync_inv k" and th: "threads k (running k) = Some th"
    and cs: "stack_ok (live_semas k) (idle_thread k) (running k) (intr_on k) cs" "pair_ok cs"
    and tk: "\<And>l. tok l (konts th) = tok l cs + of_bool (s = Lock_sema l)" and top: "\<And>s'. \<not> down_top (konts th) s'" and s: "s \<in> live_semas k"
    and run: "sema_up s (k\<lparr>threads := (threads k)(running k \<mapsto> th\<lparr>konts := cs\<rparr>)\<rparr>) = Some k'"
  shows "good False k k'"
proof -
  let ?k0 = "k\<lparr>threads := (threads k)(running k \<mapsto> th\<lparr>konts := cs\<rparr>)\<rparr>"
  have i: "sched_inv (Some (running k)) k" "\<not> in_external_intr k" using k by (simp_all add: sync_inv_def kernel_inv_def)
  have i0: "sched_inv (Some (running k)) ?k0" using set_konts [OF i(1) th cs(1)] by simp
  obtain sm where sm: "semas ?k0 s = Some sm" using s by (auto simp: live_semas_def)
  have k': "k' = up_state s ?k0" using sema_up_run [OF i0 sm] run i(2) by simp
  note U = up_good [OF k th i0 _ _ _ _ _ _ s cs(2) top tk]
  have "in_external_intr k' = in_external_intr k" using sm by (simp add: k' up_state_def split: list.split)
  then show ?thesis using U i(2) unfolding good_def sync_inv_def kernel_inv_def moved_def k' by auto
qed

lemma good_yield:
  assumes k: "sync_inv k" and th: "threads k (running k) = Some th"
    and cs: "stack_ok (live_semas k) (idle_thread k) (running k) (intr_on k) cs" "pair_ok cs"
    and tk: "\<And>l. tok l cs = tok l (konts th)" and top: "\<And>s. \<not> down_top (konts th) s"
    and run: "thread_yield (k\<lparr>threads := (threads k)(running k \<mapsto> th\<lparr>konts := cs\<rparr>)\<rparr>) = Some k'"
  shows "good tick k k'"
proof -
  let ?k0 = "k\<lparr>threads := (threads k)(running k \<mapsto> th\<lparr>konts := cs\<rparr>)\<rparr>" and ?t = "running k"
  let ?k1 = "yield_state ?k0"
  have i: "sched_inv (Some ?t) k" "\<not> in_external_intr k" and v: "view_inv (kmap_of k) (sema_waiters k) (sval k) (holder k)"
    using k by (simp_all add: sync_inv_def kernel_inv_def view_ok_def)
  have i0: "sched_inv (Some (running ?k0)) ?k0" using set_konts [OF i(1) th cs(1)] by simp
  have km: "kmap_of k ?t = Some (konts th)" by (rule kmap_run [OF i(1) th])
  let ?th1 = "th\<lparr>status := THREAD_READY, konts := K_set_level (intr_on k) # cs\<rparr>"
  have T: "threads ?k1 = (threads k)(?t \<mapsto> ?th1)" by (simp add: yield_state_def)
  have s: "semas ?k1 = semas k" by (simp add: yield_state_def)
  have "view_inv ((kmap_of k)(?t \<mapsto> K_set_level (intr_on k) # cs)) (sema_waiters k) (sval k) (holder k)"
    by (rule view_local [OF v km]) (use cs(2) tk top sval_nonneg in simp_all)
  then have v1: "view_ok ?k1" using kmap_upd [OF T] semas_same [OF s] by (simp add: view_ok_def yield_state_def)
  obtain k'' where K: "thread_yield ?k0 = Some k''" "sched_inv (Some (running k'')) k''" "switched ?k1 k''"
    using yield_run [OF i0] i(2) by auto
  have "k'' = k'" using K(1) run by simp
  then show ?thesis
    using good_leave [of ?k1 k _ k' tick, OF _ _ _ _ _ yield_state_inv [OF i0] _ v1] K i(2) by (simp add: yield_state_def)
qed

lemma good_idle:
  assumes k: "sync_inv k" and th: "threads k (running k) = Some th" "konts th = [K_idle]"
    and run: "idle (k\<lparr>threads := (threads k)(running k \<mapsto> th\<lparr>konts := []\<rparr>)\<rparr>) = Some k'"
  shows "good False k k'"
proof -
  let ?t = "running k" and ?th1 = "th\<lparr>konts := [K_hlt], status := THREAD_BLOCKED\<rparr>"
  let ?k1 = "k\<lparr>threads := (threads k)(?t \<mapsto> ?th1), intr_on := False\<rparr>"
  have i: "sched_inv (Some ?t) k" "\<not> in_external_intr k" and v: "view_inv (kmap_of k) (sema_waiters k) (sval k) (holder k)"
    using k by (simp_all add: sync_inv_def kernel_inv_def view_ok_def)
  have idl: "?t = idle_thread k" using thread_okD(5) [OF i(1) th(1)] runningD [OF i(1) th(1)] th(2) by simp
  have km: "kmap_of k ?t = Some (konts th)" by (rule kmap_run [OF i(1) th(1)])
  have T: "threads ?k1 = (threads k)(?t \<mapsto> ?th1)" and s: "semas ?k1 = semas k" by simp_all
  have "view_inv ((kmap_of k)(?t \<mapsto> [K_hlt])) (sema_waiters k) (sval k) (holder k)"
    by (rule view_local [OF v km]) (use th(2) sval_nonneg in \<open>simp_all add: down_top_def\<close>)
  then have v1: "view_ok ?k1" using kmap_upd [OF T] semas_same [OF s] by (simp add: view_ok_def)
  obtain k'' where K: "idle (k\<lparr>threads := (threads k)(?t \<mapsto> th\<lparr>konts := []\<rparr>)\<rparr>) = Some k''" "sched_inv (Some (running k'')) k''" "switched ?k1 k''" "sched_inv None ?k1"
    by (rule idle_run [OF i idl th(1) refl])
  have "k'' = k'" using K(1) run by simp
  then show ?thesis
    using good_leave [of ?k1 k "[]" k' False, OF _ _ _ _ _ K(4) _ v1] K(2,3) i(2) by simp
qed

lemma push_run: "threads k (running k) = Some th \<Longrightarrow> push_kont c k = Some (k\<lparr>threads := (threads k)(running k \<mapsto> th\<lparr>konts := c # konts th\<rparr>)\<rparr>)"
  by (simp add: push_kont_def upd_th_def)

text \<open>The running thread with continuations \<open>cs\<close>.\<close>

definition popped :: "kernel \<Rightarrow> thread \<Rightarrow> kont list \<Rightarrow> kernel" where
  "popped k th cs = k\<lparr>threads := (threads k)(running k \<mapsto> th\<lparr>konts := cs\<rparr>)\<rparr>"

lemma popped_simps [simp]:
  "running (popped k th cs) = running k" "threads (popped k th cs) = (threads k)(running k \<mapsto> th\<lparr>konts := cs\<rparr>)" "intr_on (popped k th cs) = intr_on k"
  "in_external_intr (popped k th cs) = in_external_intr k" "holder (popped k th cs) = holder k" "cond_waiters (popped k th cs) = cond_waiters k"
  "timer_count (popped k th cs) = timer_count k" "semas (popped k th cs) = semas k" "idle_thread (popped k th cs) = idle_thread k"
  by (simp_all add: popped_def)

lemma intr_off_id: "\<not> intr_on k \<Longrightarrow> k\<lparr>intr_on := False\<rparr> = k"
  by (cases k) simp

lemma push_popped: "push_kont c (popped k th cs) = Some (popped k th (c # cs))"
  by (simp add: push_kont_def upd_th_def popped_def)

lemma thread_current_popped:
  assumes "sync_inv k" and "threads k (running k) = Some th"
  shows "thread_current (popped k th cs) = Some (running k)"
proof -
  have i: "sched_inv (Some (running k)) k" using assms by (simp add: sync_inv_def kernel_inv_def)
  then show ?thesis using thread_okD(1,2) [OF i assms(2)] runningD [OF i assms(2)]
    by (simp add: thread_current_def running_thread_def is_thread_def)
qed

lemma good_popped:
  assumes "sync_inv k" and "threads k (running k) = Some th"
    and "stack_ok (live_semas k) (idle_thread k) (running k) (intr_on k) ks'" "pair_ok ks'"
    and "\<And>l. of_bool (h' l \<noteq> 0) + tok l ks' = of_bool (holder k l \<noteq> 0) + tok l (konts th)" and "\<And>s. \<not> down_top (konts th) s"
    and "\<And>c t. t \<in> set (w' c) \<Longrightarrow> Waiter t \<in> live_semas k"
  shows "good False k ((popped k th ks')\<lparr>holder := h', cond_waiters := w'\<rparr>)"
  using good_local [OF assms] by (simp add: popped_def)

lemma good_popped0:
  assumes "sync_inv k" and "threads k (running k) = Some th"
    and "stack_ok (live_semas k) (idle_thread k) (running k) (intr_on k) ks'" "pair_ok ks'"
    and "\<And>l. tok l ks' = tok l (konts th)" and "\<And>s. \<not> down_top (konts th) s"
  shows "good False k (popped k th ks')"
  using good_konts [OF assms(1-4)] assms(5,6) by (simp add: popped_def)

text \<open>Acquiring a lock, signalling and sleeping, started with continuations \<open>cs\<close>.\<close>

lemma good_acquire:
  assumes k: "sync_inv k" and th: "threads k (running k) = Some th"
    and cs: "stack_ok (live_semas k) (idle_thread k) (running k) (intr_on k) cs" "pair_ok cs"
    and tk: "\<And>l. tok l cs = tok l (konts th)" and top: "\<And>s. \<not> down_top (konts th) s" and t: "running k \<noteq> idle_thread k"
    and run: "lock_acquire l (popped k th cs) = Some k'"
  shows "good False k k'"
proof -
  have "Lock_sema l \<in> live_semas k" using k by (simp add: sync_inv_def kernel_inv_def sched_inv_def global_ok_def)
  moreover have "k' = popped k th (K_sema_down (Lock_sema l) # K_holder l # cs)"
    using run by (auto simp: lock_acquire_def push_popped panic_iff bind_eq_Some_conv)
  ultimately show ?thesis
    using cs tk top t by (simp only:, intro good_popped0 [OF k th]) (simp_all add: own_sema_def)
qed

lemma good_signal:
  assumes k: "sync_inv k" and th: "threads k (running k) = Some th"
    and cs: "stack_ok (live_semas k) (idle_thread k) (running k) (intr_on k) cs" "pair_ok cs"
    and tk: "\<And>l. tok l cs = tok l (konts th)" and top: "\<And>s. \<not> down_top (konts th) s"
    and run: "cond_signal c l (popped k th cs) = Some k'"
  shows "good False k k'"
proof (cases "cond_waiters k c")
  case Nil
  then have "k' = popped k th cs" using run by (auto simp: cond_signal_def panic_iff bind_eq_Some_conv)
  then show ?thesis using good_popped0 [OF k th cs tk top] by simp
next
  case (Cons u us)
  have "k' = (popped k th (K_up (Waiter u) # cs))\<lparr>holder := holder k, cond_waiters := (cond_waiters k)(c := us)\<rparr>"
    using run Cons by (auto simp: cond_signal_def panic_iff bind_eq_Some_conv push_kont_def upd_th_def popped_def)
  moreover have "Waiter u \<in> live_semas k" using waiter_live [OF k, of u c] Cons by simp
  moreover have "Waiter x \<in> live_semas k" if "x \<in> set (((cond_waiters k)(c := us)) d)" for x d
    using waiter_live [OF k, of x d] that Cons by (auto split: if_splits)
  ultimately show ?thesis
    using cs tk top by (simp only:, intro good_popped [OF k th]) simp_all
qed

lemma good_broadcast:
  assumes k: "sync_inv k" and th: "threads k (running k) = Some th"
    and cs: "stack_ok (live_semas k) (idle_thread k) (running k) (intr_on k) cs" "pair_ok cs"
    and tk: "\<And>l. tok l cs = tok l (konts th)" and top: "\<And>s. \<not> down_top (konts th) s"
    and run: "cond_broadcast c l (popped k th cs) = Some k'"
  shows "good False k k'"
proof (cases "cond_waiters k c = []")
  case True
  then show ?thesis using run good_popped0 [OF k th cs tk top] by (simp add: cond_broadcast_def)
next
  case False
  then have "cond_signal c l (popped k th (K_broadcast c l # cs)) = Some k'" using run by (simp add: cond_broadcast_def push_popped)
  then show ?thesis by (rule good_signal [OF k th, rotated 4]) (use cs tk top in simp_all)
qed

lemma good_sleep:
  assumes k: "sync_inv k" and th: "threads k (running k) = Some th"
    and cs: "stack_ok (live_semas k) (idle_thread k) (running k) (intr_on k) cs" "pair_ok cs"
    and tk: "\<And>l. tok l cs = tok l (konts th)" and top: "\<And>s. \<not> down_top (konts th) s"
    and run: "timer_sleep_loop since n (popped k th cs) = Some k'"
  shows "good False k k'"
proof (cases "sint (timer_elapsed since (popped k th cs)) < sint n")
  case False
  then show ?thesis using run good_popped0 [OF k th cs tk top] by (simp add: timer_sleep_loop_def)
next
  case True
  then have "thread_yield (popped k th (K_sleep since n # cs)) = Some k'" using run by (simp add: timer_sleep_loop_def push_popped)
  then show ?thesis unfolding popped_def by (rule good_yield [OF k th, rotated 4]) (use cs tk top in simp_all)
qed

lemma good_continue:
  assumes k: "sync_inv k" and run: "continue_thread k = Some k'"
  shows "good False k k'"
proof -
  obtain th where S: "sched_inv (Some (running k)) k" "\<not> in_external_intr k" "threads k (running k) = Some th"
      "stack_ok (live_semas k) (idle_thread k) (running k) (intr_on k) (konts th)" "pair_ok (konts th)"
      "view_inv (kmap_of k) (sema_waiters k) (sval k) (holder k)" "kmap_of k (running k) = Some (konts th)"
    by (rule sync_invD [OF k])
  obtain c cs where ks: "konts th = c # cs" and r: "resume c (popped k th cs) = Some k'"
    using run S(3) by (auto simp: continue_thread_def popped_def split: list.splits)
  have st: "stack_ok (live_semas k) (idle_thread k) (running k) (intr_on k) (c # cs)" and p: "pair_ok (c # cs)" using S(4,5) ks by simp_all
  note loc = good_konts [OF k S(3)] and loc' = good_popped [OF k S(3)]
  show ?thesis
  proof (cases c)
    case (K_down s old)
    have e: "(popped k th cs)\<lparr>intr_on := False\<rparr> = popped k th cs" using st K_down by (intro intr_off_id) simp
    have "sema_down_loop s old ((popped k th cs)\<lparr>intr_on := False\<rparr>) = Some k'" using r K_down unfolding e by (simp add: resume_def)
    then show ?thesis unfolding popped_def by (rule good_down [OF k S(3) refl, rotated 7]) (use st p K_down ks in simp_all)
  next
    case (K_sema_down s)
    have "sema_down_loop s (intr_on k) (k\<lparr>threads := (threads k)(running k \<mapsto> th\<lparr>konts := cs\<rparr>), intr_on := False\<rparr>) = Some k'"
      using r K_sema_down S(2) by (simp add: resume_def sema_down_def intr_context_def intr_disable_def popped_def)
    then show ?thesis by (rule good_down [OF k S(3) refl, rotated 7]) (use st p K_sema_down ks in \<open>simp_all add: down_top_def\<close>)
  next
    case (K_holder l)
    have "k' = (popped k th cs)\<lparr>holder := (holder k)(l := running k), cond_waiters := cond_waiters k\<rparr>"
      using r K_holder thread_current_popped [OF k S(3), of cs] unfolding popped_def by (auto simp: resume_def)
    moreover have "0 < tok l (konts th)" using ks K_holder p tok_nonneg [of cs l] by simp
    then have "holder k l = 0" using lock_value_0(2) [OF S(6,7)] by blast
    moreover have "running k \<noteq> 0" using thread_okD(1) [OF S(1,3)] .
    ultimately show ?thesis
      using st p K_holder ks waiter_live [OF k] by (simp only:, intro loc') (auto simp: down_top_def)
  next
    case (K_up s)
    have "sema_up s (k\<lparr>threads := (threads k)(running k \<mapsto> th\<lparr>konts := cs\<rparr>)\<rparr>) = Some k'" using r K_up by (simp add: resume_def popped_def)
    then show ?thesis by (rule good_up [OF k S(3), rotated 5]) (use st p K_up ks in \<open>simp_all add: down_top_def\<close>)
  next
    case (K_acquire l)
    then have "lock_acquire l (popped k th cs) = Some k'" using r by (simp add: resume_def)
    then show ?thesis by (rule good_acquire [OF k S(3), rotated 5]) (use st p K_acquire ks in \<open>simp_all add: down_top_def\<close>)
  next
    case (K_set_level b)
    have "k' = k\<lparr>threads := (threads k)(running k \<mapsto> th\<lparr>konts := cs\<rparr>), intr_on := b\<rparr>"
      using r K_set_level S(2) by (cases b) (simp_all add: resume_def intr_set_level_def intr_enable_def intr_disable_def intr_context_def popped_def)
    then show ?thesis using st p K_set_level ks by (simp only:, intro loc) (simp_all add: down_top_def)
  next
    case K_iret
    have "k' = k\<lparr>threads := (threads k)(running k \<mapsto> th\<lparr>konts := cs\<rparr>), intr_on := True\<rparr>" using r K_iret by (simp add: resume_def popped_def)
    then show ?thesis using st p K_iret ks by (simp only:, intro loc) (simp_all add: down_top_def)
  next
    case K_kernel_thread
    have "k' = k\<lparr>threads := (threads k)(running k \<mapsto> th\<lparr>konts := cs\<rparr>), intr_on := True\<rparr>"
      using r K_kernel_thread S(2) by (simp add: resume_def kernel_thread_def intr_enable_def intr_context_def popped_def)
    then show ?thesis using st p K_kernel_thread ks by (simp only:, intro loc) (simp_all add: down_top_def)
  next
    case (K_idle_start s)
    then show ?thesis using st by simp
  next
    case K_idle
    then have "cs = []" using st by simp
    then have "idle (k\<lparr>threads := (threads k)(running k \<mapsto> th\<lparr>konts := []\<rparr>)\<rparr>) = Some k'" "konts th = [K_idle]" using r K_idle ks by (simp_all add: resume_def popped_def)
    then show ?thesis by (rule_tac good_idle [OF k S(3)])
  next
    case K_hlt
    then have c: "cs = []" "running k = idle_thread k" using st by simp_all
    have e: "k' = k\<lparr>threads := (threads k)(running k \<mapsto> th\<lparr>konts := [K_idle]\<rparr>), intr_on := True\<rparr>"
      using r K_hlt c(1) by (simp add: resume_def push_kont_def upd_th_def popped_def intr_last)
    show ?thesis unfolding e by (rule loc) (use c ks K_hlt in \<open>simp_all add: down_top_def\<close>)
  next
    case (K_broadcast a l)
    then have "cond_broadcast a l (popped k th cs) = Some k'" using r by (simp add: resume_def)
    then show ?thesis by (rule good_broadcast [OF k S(3), rotated 4]) (use st p K_broadcast ks in \<open>simp_all add: down_top_def\<close>)
  next
    case (K_sleep since n)
    then have "timer_sleep_loop since n (popped k th cs) = Some k'" using r by (simp add: resume_def)
    then show ?thesis by (rule good_sleep [OF k S(3), rotated 4]) (use st p K_sleep ks in \<open>simp_all add: down_top_def\<close>)
  qed
qed

end
