(* ===== verification/Kernel_Calls.thy ===== *)
theory Kernel_Calls
  imports Kernel_Steps
begin

text \<open>
  Calls of the synchronisation primitives and of the scheduler from outside, and external interrupts: they keep
  the invariants too.  With the continuations this covers every step of the transition system.
\<close>

section \<open>Calls from outside\<close>

lemma popped_id: "threads k (running k) = Some th \<Longrightarrow> konts th = cs \<Longrightarrow> popped k th cs = k"
  by (auto simp: popped_def fun_upd_idem)

text \<open>Taking a semaphore without waiting.\<close>

lemma good_take:
  assumes k: "sync_inv k" and th: "threads k (running k) = Some th" and sm: "semas k s = Some sm" "\<not> is_proc s" "sema_value sm \<noteq> 0"
    and ks': "stack_ok (live_semas k) (idle_thread k) (running k) (intr_on k) ks'" "pair_ok ks'"
    and tk: "\<And>l. tok l ks' = tok l (konts th) + of_bool (s = Lock_sema l)" and top: "\<And>s. \<not> down_top (konts th) s"
  shows "good False k ((popped k th ks')\<lparr>semas := (semas k)(s \<mapsto> sm\<lparr>sema_value := sema_value sm - 1\<rparr>)\<rparr>)" (is "good False k ?k")
proof (rule good_stay [OF k _ th, where ks' = ks'])
  have i: "sched_inv (Some (running k)) k" "\<not> in_external_intr k" using k by (simp_all add: sync_inv_def kernel_inv_def)
  have "sched_inv (Some (running k)) (popped k th ks')" using set_konts [OF i(1) th ks'(1)] by (simp add: popped_def)
  then have "sched_inv (Some (running k)) (set_sema s (sm\<lparr>sema_value := sema_value sm - 1\<rparr>) (popped k th ks'))" by (rule set_value) (simp add: sm)
  then show "kernel_inv ?k" using i(2) by (simp add: kernel_inv_def set_sema_def)
  have e: "semas ?k = (semas k)(s \<mapsto> sm\<lparr>sema_value := sema_value sm - 1\<rparr>)" by simp
  show "sema_waiters ?k = sema_waiters k" using waiters_upd [OF e] sm(1) by (simp add: fun_upd_idem)
  have sv: "sval ?k = (sval k)(s := sval k s - 1)" using sval_upd [OF e sm(2)] uint_pred [OF sm(3)] sval_Some [OF sm(1,2)] by simp
  show "kmap_of ?k = (kmap_of k)(running k \<mapsto> ks')" using kmap_upd [of ?k k "running k" "th\<lparr>konts := ks'\<rparr>"] runningD [OF i(1) th] by simp
  have h: "holder ?k = holder k" by simp
  show "sval ?k (Lock_sema l) + of_bool (holder ?k l \<noteq> 0) + tok l ks' = sval k (Lock_sema l) + of_bool (holder k l \<noteq> 0) + tok l (konts th)" for l
    unfolding sv h using tk [of l] by auto
  show "sval ?k x \<le> sval k x - of_bool (down_top (konts th) x)" for x unfolding sv using top [of x] by simp
qed (use ks'(2) in \<open>simp_all add: popped_def\<close>)

lemma try_down_run:
  assumes ext: "\<not> in_external_intr k" and sm: "semas k s = Some sm" and run: "sema_try_down s k = Some (b, k')"
  shows "b = (sema_value sm \<noteq> 0)"
    "k' = (if b then k\<lparr>semas := (semas k)(s \<mapsto> sm\<lparr>sema_value := sema_value sm - 1\<rparr>)\<rparr> else k)"
proof -
  have "sema_try_down s k = Some (sema_value sm \<noteq> 0, if sema_value sm \<noteq> 0 then k\<lparr>semas := (semas k)(s \<mapsto> sm\<lparr>sema_value := sema_value sm - 1\<rparr>)\<rparr> else k)"
    using sm ext by (cases "intr_on k")
      (simp_all add: sema_try_down_def intr_disable_def intr_set_level_def intr_enable_def intr_context_def set_sema_def Let_def intr_off_id word_gt_0)
  then show "b = (sema_value sm \<noteq> 0)"
    "k' = (if b then k\<lparr>semas := (semas k)(s \<mapsto> sm\<lparr>sema_value := sema_value sm - 1\<rparr>)\<rparr> else k)" using run by simp_all
qed

lemma good_refl: "sync_inv k \<Longrightarrow> good False k k"
  by (auto simp: good_def moved_def)

lemma lock_live: "sync_inv k \<Longrightarrow> Lock_sema l \<in> live_semas k \<and> Sema n \<in> live_semas k"
  by (simp add: sync_inv_def kernel_inv_def sched_inv_def global_ok_def)

lemma good_try_down:
  assumes k: "sync_inv k" and th: "threads k (running k) = Some th" "konts th = []" and run: "sema_try_down (Sema n) k = Some (b, k')"
  shows "good False k k'"
proof -
  obtain S: "\<not> in_external_intr k" "stack_ok (live_semas k) (idle_thread k) (running k) (intr_on k) []" by (rule sync_invD [OF k]) (use th in simp)
  obtain sm where sm: "semas k (Sema n) = Some sm" using lock_live [OF k, of 0 n] by (auto simp: live_semas_def)
  note R = try_down_run [OF S(1) sm run]
  show ?thesis
  proof (cases b)
    case True
    have p: "popped k th [] = k" using popped_id [OF th] .
    have "good False k ((popped k th [])\<lparr>semas := (semas k)(Sema n \<mapsto> sm\<lparr>sema_value := sema_value sm - 1\<rparr>)\<rparr>)"
      by (rule good_take [OF k th(1) sm]) (use R True S th in simp_all)
    then show ?thesis using R(2) True unfolding p by simp
  qed (use R good_refl [OF k] in simp)
qed

lemma good_try_acquire:
  assumes k: "sync_inv k" and th: "threads k (running k) = Some th" "konts th = []" and run: "lock_try_acquire l k = Some (b, k')"
  shows "good False k k'"
proof -
  obtain S: "\<not> in_external_intr k" "stack_ok (live_semas k) (idle_thread k) (running k) (intr_on k) []" by (rule sync_invD [OF k]) (use th in simp)
  obtain sm where sm: "semas k (Lock_sema l) = Some sm" using lock_live [OF k, of l 0] by (auto simp: live_semas_def)
  obtain k1 where r: "sema_try_down (Lock_sema l) k = Some (b, k1)" "(if b then push_kont (K_holder l) k1 else Some k1) = Some k'"
    using run by (auto simp: lock_try_acquire_def panic_iff bind_eq_Some_conv split: if_splits)
  note R = try_down_run [OF S(1) sm r(1)]
  show ?thesis
  proof (cases b)
    case True
    have e: "k' = (popped k th [K_holder l])\<lparr>semas := (semas k)(Lock_sema l \<mapsto> sm\<lparr>sema_value := sema_value sm - 1\<rparr>)\<rparr>"
      using r(2) R(2) True th by (auto simp: push_kont_def upd_th_def popped_def)
    show ?thesis unfolding e by (rule good_take [OF k th(1) sm]) (use R True S th in auto)
  qed (use R r good_refl [OF k] in simp)
qed

lemma good_release:
  assumes k: "sync_inv k" and th: "threads k (running k) = Some th" "konts th = []" and run: "lock_release l k = Some k'"
  shows "good False k k'"
proof -
  obtain S: "sched_inv (Some (running k)) k" "stack_ok (live_semas k) (idle_thread k) (running k) (intr_on k) []" by (rule sync_invD [OF k]) (use th in simp)
  have t0: "running k \<noteq> 0" using thread_okD(1) [OF S(1) th(1)] .
  have h: "holder k l = running k" and e: "k' = (popped k th [K_up (Lock_sema l)])\<lparr>holder := (holder k)(l := 0), cond_waiters := cond_waiters k\<rparr>"
    using run thread_current_run [OF S(1)] th
    by (auto simp: lock_release_def lock_held_by_current_thread_def panic_iff bind_eq_Some_conv push_kont_def upd_th_def popped_def)
  show ?thesis unfolding e by (rule good_popped [OF k th(1)]) (use S th lock_live [OF k] waiter_live [OF k] h t0 in auto)
qed

lemma good_wait:
  assumes k: "sync_inv k" and th: "threads k (running k) = Some th" "konts th = []" and run: "cond_wait c l k = Some k'"
  shows "good False k k'"
proof -
  let ?t = "running k" and ?ks = "[K_up (Lock_sema l), K_sema_down (Waiter (running k)), K_acquire l]"
  let ?w = "(cond_waiters k)(c := cond_waiters k c @ [?t])" and ?h = "(holder k)(l := 0)" and ?k1 = "sema_init (Waiter ?t) 0 k"
  obtain S: "sched_inv (Some ?t) k" "\<not> in_external_intr k" "stack_ok (live_semas k) (idle_thread k) ?t (intr_on k) []"
    by (rule sync_invD [OF k]) (use th in simp)
  have cur: "thread_current k = Some ?t" using thread_current_run [OF S(1)] .
  have t0: "?t \<noteq> 0" and st: "status th = THREAD_RUNNING" "th_magic th = THREAD_MAGIC"
    using thread_okD [OF S(1) th(1)] runningD [OF S(1) th(1)] by simp_all
  have h: "holder k l = ?t" using run cur by (auto simp: cond_wait_def lock_held_by_current_thread_def panic_iff bind_eq_Some_conv)
  define k2 where "k2 = ?k1\<lparr>threads := (threads k)(?t \<mapsto> th\<lparr>konts := ?ks\<rparr>), intr_on := intr_on k, holder := ?h\<rparr>"
  have e: "k' = k2\<lparr>cond_waiters := ?w\<rparr>"
    using run cur th h S(2) t0 st by (auto simp: cond_wait_def lock_held_by_current_thread_def lock_release_def push_kont_def upd_th_def sema_init_def
      intr_context_def thread_current_def running_thread_def is_thread_def k2_def)
  note W = init_waiter [OF S(1)]
  have th1: "threads ?k1 ?t = Some th" "idle_thread ?k1 = idle_thread k" "threads ?k1 = threads k" using th by (simp_all add: sema_init_def)
  have "sched_inv (Some ?t) (?k1\<lparr>threads := (threads ?k1)(?t \<mapsto> th\<lparr>konts := ?ks\<rparr>), intr_on := intr_on k\<rparr>)"
    by (rule set_konts [OF W(1) th1(1)]) (use S(3) lock_live [OF k] W(2) th1(2) in simp)
  then have "sched_inv (Some ?t) k2" using th1(3) by (simp add: k2_def)
  then have i: "sched_inv (Some ?t) k'" unfolding e
    by (rule set_cond_waiters) (use W(2) waiter_live [OF k] in \<open>auto simp: k2_def live_semas_def sema_init_def split: if_splits\<close>)
  have se: "semas k' = (semas k)(Waiter ?t \<mapsto> \<lparr>sema_value = 0, waiters = []\<rparr>)" by (simp add: e k2_def sema_init_def)
  show ?thesis
  proof (rule good_stay [OF k _ th(1), where ks' = ?ks])
    show "kernel_inv k'" using i S(2) by (simp add: kernel_inv_def e k2_def sema_init_def)
    show "kmap_of k' = (kmap_of k)(?t \<mapsto> ?ks)" using kmap_upd [of k' k ?t "th\<lparr>konts := ?ks\<rparr>"] st by (simp add: e k2_def sema_init_def)
    have sv: "sval k' = (sval k)(Waiter ?t := 0)" using sval_upd [OF se] by simp
    have hk: "holder k' = ?h" by (simp add: e k2_def)
    show "sval k' (Lock_sema a) + of_bool (holder k' a \<noteq> 0) + tok a ?ks = sval k (Lock_sema a) + of_bool (holder k a \<noteq> 0) + tok a (konts th)" for a
      unfolding sv hk using h t0 th(2) by simp
    show "sval k' s \<le> sval k s - of_bool (down_top (konts th) s)" for s unfolding sv using sval_nonneg [of k] th(2) by simp
    show "sema_waiters k' = sema_waiters k" using waiters_upd [OF se] own_waiter [OF S(1)] by (simp add: fun_upd_idem)
  qed (simp_all add: e k2_def sema_init_def)
qed

section \<open>The end and the start of a thread\<close>

lemma view_del:
  assumes v: "view_inv km sw sv h" and t: "km t = Some ks" "\<And>l. tok l ks = 0" "\<And>s. \<not> down_top ks s"
  shows "view_inv (km(t := None)) sw sv h"
proof -
  have f: "finite (dom km)" using v by (simp add: view_inv_def)
  have "pend (km(t := None)) sw s = pend km sw s" for s using t(1) t(3) [of s] by (auto simp: pend_def)
  moreover have "pair_ok us" if "(km(t := None)) u = Some us" for u us using v that by (auto simp: view_inv_def split: if_splits)
  moreover have "finite (dom (km(t := None)))" using f by simp
  ultimately show ?thesis using v tsum_del [OF f t(1)] t(2) unfolding view_inv_def by simp
qed

lemma view_new:
  assumes v: "view_inv km sw sv h" and t: "km t = None" "pair_ok ks" "\<And>l. tok l ks = 0"
  shows "view_inv (km(t \<mapsto> ks)) sw sv h"
proof -
  have f: "finite (dom km)" "finite (dom (km(t \<mapsto> ks)))" using v by (simp_all add: view_inv_def)
  have "pend km sw s \<subseteq> pend (km(t \<mapsto> ks)) sw s" for s using t(1) by (auto simp: pend_def)
  then have le: "card (pend km sw s) \<le> card (pend (km(t \<mapsto> ks)) sw s)" for s by (rule card_mono [OF finite_pend [OF f(2)]])
  have "sv s \<le> int (card (pend (km(t \<mapsto> ks)) sw s))" if "sw s \<noteq> []" for s
  proof -
    have "sv s \<le> int (card (pend km sw s))" using v that by (simp add: view_inv_def)
    then show ?thesis using le [of s] by linarith
  qed
  moreover have "pair_ok us" if "(km(t \<mapsto> ks)) u = Some us" for u us using v t(2) that by (auto simp: view_inv_def split: if_splits)
  ultimately show ?thesis using v f(2) tsum_new [OF f(1) t(1)] t(3) unfolding view_inv_def by simp
qed

text \<open>Changes that the invariants do not see.\<close>

definition quiet :: "kernel \<Rightarrow> kernel \<Rightarrow> bool" where
  "quiet k k1 \<longleftrightarrow> sched_inv (Some (running k)) k1 \<and> kmap_of k1 = kmap_of k \<and> sema_waiters k1 = sema_waiters k \<and> sval k1 = sval k \<and>
     holder k1 = holder k \<and> running k1 = running k \<and> ready_list k1 = ready_list k \<and> idle_thread k1 = idle_thread k \<and>
     in_external_intr k1 = in_external_intr k"

lemma quiet_refl: "sched_inv (Some (running k)) k \<Longrightarrow> quiet k k"
  by (simp add: quiet_def)

lemma frame_childs:
  "kmap_of (k\<lparr>childs := c\<rparr>) = kmap_of k" "sema_waiters (k\<lparr>childs := c\<rparr>) = sema_waiters k" "sval (k\<lparr>childs := c\<rparr>) = sval k"
  by (simp_all add: kmap_of_def sema_waiters_def sval_def fun_eq_iff)

lemma quiet_child: "quiet k k1 \<Longrightarrow> upd_child c f k1 = Some k2 \<Longrightarrow> quiet k k2"
  by (auto simp: quiet_def upd_child_def frame_childs split: option.splits)

lemma quiet_children:
  assumes q: "quiet k k1" and run: "upd_th u (\<lambda>th. th\<lparr>child_processes := f th\<rparr>) k1 = Some k2"
  shows "quiet k k2"
proof -
  obtain uth where u: "threads k1 u = Some uth" and k2: "k2 = k1\<lparr>threads := (threads k1)(u \<mapsto> uth\<lparr>child_processes := f uth\<rparr>)\<rparr>"
    using run by (auto simp: upd_th_def split: option.splits)
  have "sched_inv (Some (running k)) k2" unfolding k2 by (rule set_thread [OF _ u]) (use q in \<open>simp_all add: quiet_def\<close>)
  moreover have "kmap_of k2 = kmap_of k1" using u by (auto simp: k2 kmap_of_def)
  moreover have "sval k2 = sval k1" "sema_waiters k2 = sema_waiters k1" by (rule semas_same, simp add: k2)+
  ultimately show ?thesis using q by (simp add: quiet_def k2)
qed

lemma quiet_up:
  assumes q: "quiet k k1" and s: "is_proc s" and ext: "\<not> in_external_intr k" and run: "sema_up s k1 = Some k2"
  shows "quiet k k2"
proof -
  have i: "sched_inv (Some (running k)) k1" using q by (simp add: quiet_def)
  obtain sm where sm: "semas k1 s = Some sm" using run by (auto simp: sema_up_def intr_disable_def bind_eq_Some_conv Let_def)
  have w: "waiters sm = []" using i s sm sema_waiters_Some [OF sm] unfolding sched_inv_def waiters_ok_def by metis
  have k2: "k2 = up_state s k1" using sema_up_run [OF i sm] run q ext by (simp add: quiet_def)
  have e: "semas k2 = (semas k1)(s \<mapsto> sm\<lparr>sema_value := sema_value sm + 1\<rparr>)" "threads k2 = threads k1" using sm w by (simp_all add: k2 up_state_def)
  have "sched_inv (Some (running k)) k2" unfolding k2 by (rule up_state_inv [OF i sm])
  moreover have "sema_waiters k2 = sema_waiters k1" using waiters_upd [OF e(1)] sm w by (simp add: fun_upd_idem)
  moreover have "sval k2 = sval k1" using e(1) s by (auto simp: sval_def)
  ultimately show ?thesis using q kmap_same [OF e(2)] sm w by (simp add: quiet_def k2 up_state_def)
qed

lemma process_exit_quiet:
  assumes k: "sync_inv k" and run: "process_exit k = Some k1"
  shows "quiet k k1"
proof -
  have i: "sched_inv (Some (running k)) k" "\<not> in_external_intr k" using k by (simp_all add: sync_inv_def kernel_inv_def)
  have cur: "thread_current k = Some (running k)" by (rule thread_current_run [OF i(1)])
  obtain cth where cth: "threads k (running k) = Some cth" by (rule sched_invD [OF i(1)])
  obtain k2 k3 th3 where k2: "(if parent cth \<noteq> 0 then do {
             c \<leftarrow> own_child k; ASSERT (c \<noteq> NULL);
             k \<leftarrow> upd_th (parent cth) (\<lambda>th. th\<lparr>child_processes := remove1 c (child_processes th)\<rparr>) k;
             upd_child c (\<lambda>ch. if cur_status ch = CHILD_ALIVE then ch\<lparr>cur_status := CHILD_KILLED, exit_status := -1\<rparr> else ch) k
           } else Some k) = Some k2"
      and k3: "sema_up (Proc_wait (running k)) k2 = Some k3" "threads k3 (running k) = Some th3" and k1: "pagedir th3 = 0 \<Longrightarrow> k1 = k3"
    using run cur cth by (auto simp: process_exit_def bind_eq_Some_conv Let_def split: if_splits)
  have "quiet k k2"
  proof (cases "parent cth = 0")
    case False
    then obtain c ka where "upd_th (parent cth) (\<lambda>th. th\<lparr>child_processes := remove1 c (child_processes th)\<rparr>) k = Some ka"
      "upd_child c (\<lambda>ch. if cur_status ch = CHILD_ALIVE then ch\<lparr>cur_status := CHILD_KILLED, exit_status := -1\<rparr> else ch) ka = Some k2"
      using k2 by (auto simp: bind_eq_Some_conv)
    then show ?thesis by (rule quiet_child [OF quiet_children [OF quiet_refl [OF i(1)]]])
  qed (use k2 quiet_refl [OF i(1)] in simp)
  then have q: "quiet k k3" by (rule quiet_up [OF _ _ i(2) k3(1)]) simp
  then have "pagedir th3 = 0" using thread_okD(3) [of "Some (running k)", OF _ k3(2)] by (simp add: quiet_def)
  then show ?thesis using q k1 by simp
qed

lemma good_exit:
  assumes k: "sync_inv k" and th: "threads k (running k) = Some th" "konts th = []" and run: "thread_exit k = Some k'"
  shows "good False k k'"
proof -
  let ?t = "running k"
  obtain S: "\<not> in_external_intr k" "stack_ok (live_semas k) (idle_thread k) ?t (intr_on k) []" "view_inv (kmap_of k) (sema_waiters k) (sval k) (holder k)"
    by (rule sync_invD [OF k]) (use th in simp)
  obtain k1 where k1: "process_exit k = Some k1" "thread_exit_tail k1 = Some k'" using run by (auto simp: thread_exit_def panic_iff bind_eq_Some_conv)
  have q: "quiet k k1" by (rule process_exit_quiet [OF k k1(1)])
  have i1: "sched_inv (Some (running k1)) k1" and n1: "running k1 \<noteq> idle_thread k1" using q S(2) by (simp_all add: quiet_def)
  obtain X: "sched_inv (Some (running k')) k'" "switched (exit_state k1) k'" by (rule exit_tail_run [OF i1 n1]) (use k1(2) in simp)
  note E = exit_state_inv [OF i1 n1]
  have th1: "\<exists>th1. threads k1 ?t = Some th1" using i1 q by (auto simp: sched_inv_def running_ok_def quiet_def)
  have km: "kmap_of (exit_state k1) = (kmap_of k)(?t := None)" using q th1 by (auto simp: quiet_def exit_state_def kmap_of_def fun_eq_iff)
  have se: "semas (exit_state k1) = semas k1" by (simp add: exit_state_def)
  have i: "sched_inv (Some ?t) k" using k by (simp add: sync_inv_def kernel_inv_def)
  have "view_inv ((kmap_of k)(?t := None)) (sema_waiters k) (sval k) (holder k)"
    by (rule view_del [OF S(3) kmap_run [OF i th(1)]]) (simp_all add: th(2))
  then have "view_ok (exit_state k1)" using semas_same [OF se] q km by (simp add: view_ok_def quiet_def exit_state_def)
  then show ?thesis by (intro good_leave [OF _ _ _ _ X(2) E X(1), of k "[]"]) (use q S(1) in \<open>simp_all add: quiet_def exit_state_def\<close>)
qed

text \<open>The state after the creation of a thread at \<open>t\<close>.\<close>

definition created :: "tptr \<Rightarrow> thread \<Rightarrow> machine \<Rightarrow> kernel \<Rightarrow> kernel" where
  "created t th m k = k\<lparr>mach := m,
     semas := (semas k)(Proc_exec t \<mapsto> \<lparr>sema_value = 0, waiters = []\<rparr>, Proc_wait t \<mapsto> \<lparr>sema_value = 0, waiters = []\<rparr>),
     threads := (threads k)(t \<mapsto> th), all_list := all_list k @ [t], ready_list := ready_list k @ [t]\<rparr>"

lemma intr_id: "intr_on k = b \<Longrightarrow> k\<lparr>intr_on := b\<rparr> = k"
  by auto

lemma thread_create_run:
  assumes run: "thread_create depth name prio (Some []) k = Some (i, k')" and on: "intr_on k = b" and ext: "\<not> in_external_intr k"
    and cth: "threads k (running k) = Some cth" "status cth = THREAD_RUNNING" "th_magic cth = THREAD_MAGIC" "running k \<noteq> 0"
    and get: "palloc_get_page PAL_ZERO (mach k) = Some (t, m)" "t \<noteq> 0" "t \<noteq> running k"
  obtains th c n f cs where "status th = THREAD_READY" "th_magic th = THREAD_MAGIC" "pagedir th = 0" "konts th = [K_kernel_thread]"
    "k' = (created t th m k)\<lparr>threads := (threads k)(t \<mapsto> th, running k \<mapsto> cth\<lparr>child_processes := c\<rparr>), next_tid := n, kfs := f, childs := cs, intr_on := b\<rparr>"
proof -
  obtain d f1 where f1: "(if th_current_dir cth \<noteq> NULL then dir_reopen depth (th_current_dir cth) (kfs k) else Some (NULL, kfs k)) = Some (d, f1)"
    and pr: "PRI_MIN \<le> prio \<and> prio \<le> PRI_MAX" and nt: "next_tid k \<noteq> 0x7fffffff" and ml: "fst (malloc f1) \<noteq> NULL"
    using run get cth
    by (cases "NULL < th_current_dir cth"; simp add: thread_create_def init_thread_def sema_init_def allocate_tid_def upd_th_def thread_current_def running_thread_def is_thread_def
      create_child_process_def panic_iff bind_eq_Some_conv Let_def split_beta) blast+
  obtain p f2 where ml': "malloc f1 = (p, f2)" "p \<noteq> NULL" using ml by (cases "malloc f1") simp
  define th where "th = \<lparr>tid = next_tid k, status = THREAD_READY, th_name = take 15 name, stack = t + of_nat PGSIZE - 44, priority = prio,
               parent = running k, pagedir = 0, file_struct_list = [], child_processes = [], th_magic = THREAD_MAGIC,
               th_current_dir = d, konts = [K_kernel_thread]\<rparr>"
  define k2 where "k2 = (created t th m k)\<lparr>threads := (threads k)(t \<mapsto> th, running k \<mapsto> cth\<lparr>child_processes := child_processes cth @ [p]\<rparr>),
    next_tid := next_tid k + 1, kfs := f2,
      childs := (childs k)(p \<mapsto> \<lparr>child_pid = next_tid k, cur_status = CHILD_ALIVE, is_awaited = False,
       is_loaded = False, exit_status = CHILD_NOT_EXITED, child_proc_thread = t\<rparr>), intr_on := b\<rparr>"
  have "thread_create depth name prio (Some []) k = Some (next_tid k, k2)"
    using get cth on ext f1 pr nt ml' unfolding k2_def created_def th_def
    by (cases b; cases "NULL < th_current_dir cth"; simp add: thread_create_def init_thread_def sema_init_def allocate_tid_def upd_th_def thread_current_def
      running_thread_def is_thread_def create_child_process_def alloc_frame_def intr_disable_def intr_set_level_def intr_enable_def intr_context_def
      thread_unblock_def Let_def fun_upd_twist)
  then have "k' = k2" using run by simp
  then show ?thesis unfolding k2_def by (rule that [rotated 4]) (simp_all add: th_def)
qed

lemma good_create:
  assumes k: "sync_inv k" and run: "thread_create depth name prio (Some []) k = Some (i, k')"
  shows "good False k k'"
proof -
  let ?t = "running k"
  obtain cth where S: "sched_inv (Some ?t) k" "\<not> in_external_intr k" "threads k ?t = Some cth" "status cth = THREAD_RUNNING"
      "view_inv (kmap_of k) (sema_waiters k) (sval k) (holder k)"
    by (rule sync_invD [OF k])
  note C = thread_okD [OF S(1,3)]
  have H: "pg.housed (dom (threads k)) (initial_thread k) (mach k)" using S(1) by (simp add: sched_inv_def global_ok_def)
  obtain t m where g: "palloc_get_page PAL_ZERO (mach k) = Some (t, m)" using run by (auto simp: thread_create_def bind_eq_Some_conv)
  show ?thesis
  proof (cases "t = 0")
    case True
    have "m = mach k" using pg.housed_get_null [OF H] g True by simp
    then have "k' = k" using run g True by (simp add: thread_create_def)
    then show ?thesis using good_refl [OF k] by simp
  next
    case False
    have N: "t \<notin> dom (threads k)" "pg.housed (insert t (dom (threads k))) (initial_thread k) m" "init_page_dir m = init_page_dir (mach k)"
      using pg.housed_get [OF H g False] by simp_all
    have tn: "threads k t = None" "t \<noteq> ?t" using N(1) S(3) by auto
    obtain th c n f cs where T: "status th = THREAD_READY" "th_magic th = THREAD_MAGIC" "pagedir th = 0" "konts th = [K_kernel_thread]"
      "k' = (created t th m k)\<lparr>threads := (threads k)(t \<mapsto> th, ?t \<mapsto> cth\<lparr>child_processes := c\<rparr>), next_tid := n, kfs := f, childs := cs, intr_on := intr_on k\<rparr>"
      by (rule thread_create_run [OF run refl S(2,3,4) C(2,1) g False tn(2)])
    have "sched_inv (Some ?t) (created t th m k)"
      unfolding created_def by (rule add_thread [OF S(1) tn(1) False T(1-4) N(2,3)])
    then have "sched_inv (Some ?t) ((created t th m k)\<lparr>threads := (threads (created t th m k))(?t \<mapsto> cth\<lparr>child_processes := c\<rparr>)\<rparr>)"
      by (rule set_thread [where uth = cth]) (use S(3) tn in \<open>simp_all add: created_def\<close>)
    moreover have "k' = (created t th m k)\<lparr>threads := (threads (created t th m k))(?t \<mapsto> cth\<lparr>child_processes := c\<rparr>), next_tid := n, kfs := f, childs := cs\<rparr>"
      unfolding T(5) by (simp add: created_def)
    ultimately have i: "kernel_inv k'" using S(2) by (simp add: kernel_inv_def created_def)
    have km: "kmap_of k' = (kmap_of k)(t \<mapsto> [K_kernel_thread])" using S(3) tn T(1,4) by (auto simp: T(5) kmap_of_def fun_eq_iff)
    have se: "semas k' s = semas k s" if "\<not> is_proc s" for s using that by (auto simp: T(5) created_def)
    have "sema_waiters k s = [] \<and> sema_waiters k' s = []" if "is_proc s" for s
      using S(1) i that by (simp add: kernel_inv_def sched_inv_def waiters_ok_def)
    then have sw: "sema_waiters k' = sema_waiters k" using se by (metis (no_types, lifting) ext sema_waiters_def)
    have sv: "sval k' = sval k" using se by (auto simp: sval_def)
    have "view_inv ((kmap_of k)(t \<mapsto> [K_kernel_thread])) (sema_waiters k) (sval k) (holder k)"
      by (rule view_new [OF S(5)]) (use tn in \<open>simp_all add: kmap_of_def\<close>)
    then have "sync_inv k'" using i km sw sv by (simp add: sync_inv_def view_ok_def T(5) created_def)
    then show ?thesis by (auto simp: good_def moved_def T(5) created_def)
  qed
qed

lemma good_client:
  assumes k: "sync_inv k" and th: "threads k (running k) = Some th" "konts th = []" and run: "client_step c k = Some k'"
  shows "good False k k'"
proof -
  obtain S: "\<not> in_external_intr k" "stack_ok (live_semas k) (idle_thread k) (running k) (intr_on k) []" by (rule sync_invD [OF k]) (use th in simp)
  have on: "intr_on k" "running k \<noteq> idle_thread k" using S(2) by simp_all
  have p: "popped k th [] = k" by (rule popped_id [OF th])
  note p' = p [unfolded popped_def]
  have st: "pair_ok []" "\<And>l. tok l [] = tok l (konts th)" "\<And>s. \<not> down_top (konts th) s" using th(2) by simp_all
  show ?thesis
  proof (cases c)
    case (C_sema_down n)
    have e: "k\<lparr>intr_on := False\<rparr> = k\<lparr>threads := (threads k)(running k \<mapsto> th\<lparr>konts := []\<rparr>), intr_on := False\<rparr>" unfolding p' ..
    have "sema_down_loop (Sema n) (intr_on k) (k\<lparr>intr_on := False\<rparr>) = Some k'"
      using run C_sema_down S(1) by (simp add: client_step_def sema_down_def intr_context_def intr_disable_def)
    then show ?thesis by (rule good_down [OF k th(1) e, rotated 7]) (use S on th lock_live [OF k] in simp_all)
  next
    case (C_sema_up n)
    then have "sema_up (Sema n) (popped k th []) = Some k'" using run unfolding p by (simp add: client_step_def)
    then show ?thesis unfolding popped_def by (rule good_up [OF k th(1), rotated 5]) (use S th lock_live [OF k] in simp_all)
  next
    case (C_sema_try_down n)
    then show ?thesis using run good_try_down [OF k th] by (auto simp: client_step_def)
  next
    case (C_acquire l)
    then have "lock_acquire l (popped k th []) = Some k'" using run unfolding p by (simp add: client_step_def)
    then show ?thesis by (rule good_acquire [OF k th(1) S(2) st on(2)])
  next
    case (C_try_acquire l)
    then show ?thesis using run good_try_acquire [OF k th] by (auto simp: client_step_def)
  next
    case (C_release l)
    then show ?thesis using run good_release [OF k th] by (simp add: client_step_def)
  next
    case (C_wait c l)
    then show ?thesis using run good_wait [OF k th] by (simp add: client_step_def)
  next
    case (C_signal c l)
    then have "cond_signal c l (popped k th []) = Some k'" using run unfolding p by (simp add: client_step_def)
    then show ?thesis by (rule good_signal [OF k th(1) S(2) st])
  next
    case (C_broadcast c l)
    then have "cond_broadcast c l (popped k th []) = Some k'" using run unfolding p by (simp add: client_step_def)
    then show ?thesis by (rule good_broadcast [OF k th(1) S(2) st])
  next
    case C_yield
    then have "thread_yield (popped k th []) = Some k'" using run unfolding p by (simp add: client_step_def)
    then show ?thesis unfolding popped_def by (rule good_yield [OF k th(1) S(2) st])
  next
    case (C_sleep n)
    then have "timer_sleep_loop (timer_ticks k) n (popped k th []) = Some k'" using run unfolding p by (simp add: client_step_def timer_sleep_def panic_iff)
    then show ?thesis by (rule good_sleep [OF k th(1) S(2) st])
  next
    case C_exit
    then show ?thesis using run good_exit [OF k th] by (simp add: client_step_def)
  next
    case (C_create depth name prio)
    then show ?thesis using run good_create [OF k] by (auto simp: client_step_def)
  qed
qed

section \<open>External interrupts\<close>

lemma view_ok_cong:
  "threads k' = threads k \<Longrightarrow> semas k' = semas k \<Longrightarrow> holder k' = holder k \<Longrightarrow> view_ok k' = view_ok k"
  using kmap_same [of k' k] semas_same [of k' k] by (simp add: view_ok_def)

lemma set_ticks: "sched_inv r k \<Longrightarrow> n < TIME_SLICE \<Longrightarrow> sched_inv r (k\<lparr>thread_ticks := n\<rparr>)"
proof -
  assume i: "sched_inv r k" and n: "n < TIME_SLICE"
  let ?k = "k\<lparr>thread_ticks := n\<rparr>"
  have l: "live_semas ?k = live_semas k" by (simp add: live_semas_def)
  have "threads_ok r ?k = threads_ok r k" "running_ok r ?k = running_ok r k" "ready_ok ?k = ready_ok k" "all_ok ?k = all_ok k"
    by (simp_all add: threads_ok_def l status_ok_def running_ok_def ready_ok_def all_ok_def)
  moreover have "waiters_ok ?k = waiters_ok k" by (simp add: waiters_ok_def waiting_def)
  ultimately show ?thesis using i n by (simp add: sched_inv_def global_ok_def l)
qed

lemma schedule_ticks: "schedule (k\<lparr>thread_ticks := n\<rparr>) = schedule k"
  by (cases "ready_list k") (simp_all add: schedule_def next_thread_to_run_def running_thread_def is_thread_def thread_schedule_tail_def upd_th_def Let_def
    split: option.split)

lemma thread_yield_ticks: "thread_yield (k\<lparr>thread_ticks := n\<rparr>) = thread_yield k"
proof (cases "threads k (running k)")
  case (Some th)
  let ?r = "ready_list k @ [running k]" and ?T = "(threads k)(running k \<mapsto> th\<lparr>status := THREAD_READY, konts := K_set_level (intr_on k) # konts th\<rparr>)"
  have "schedule (k\<lparr>thread_ticks := n, intr_on := False, ready_list := ?r, threads := ?T\<rparr>) = schedule (k\<lparr>intr_on := False, ready_list := ?r, threads := ?T\<rparr>)"
    by (rule trans [OF arg_cong [where f = schedule] schedule_ticks [where n = n]]) simp
  moreover have "schedule (k\<lparr>thread_ticks := n, intr_on := False, threads := ?T\<rparr>) = schedule (k\<lparr>intr_on := False, threads := ?T\<rparr>)"
    by (rule trans [OF arg_cong [where f = schedule] schedule_ticks [where n = n]]) simp
  ultimately show ?thesis using Some
    by (cases "running k = idle_thread k") (simp_all add: thread_yield_def thread_current_def running_thread_def is_thread_def intr_context_def intr_disable_def upd_th_def Let_def)
qed (simp add: thread_yield_def thread_current_def running_thread_def is_thread_def)

text \<open>The state in which a handler starts, apart from the flags that say so.\<close>

lemma irq_entry:
  assumes k: "sync_inv k" and on: "intr_on k" and th: "threads k (running k) = Some th" and k1: "k1 = (popped k th (K_iret # konts th))\<lparr>intr_on := False\<rparr>"
  shows "sync_inv k1" "running k1 = running k" "ready_list k1 = ready_list k" "thread_ticks k1 = thread_ticks k" "idle_thread k1 = idle_thread k"
    "\<not> intr_on k1" "\<not> in_external_intr k1"
proof -
  obtain S: "stack_ok (live_semas k) (idle_thread k) (running k) (intr_on k) (konts th)" "pair_ok (konts th)" "\<not> in_external_intr k"
    by (rule sync_invD [OF k]) (use th in simp)
  have "\<not> down_top (konts th) s" for s using S(1) on by (auto simp: down_top_def)
  then have "good False k (k\<lparr>threads := (threads k)(running k \<mapsto> th\<lparr>konts := K_iret # konts th\<rparr>), intr_on := False\<rparr>)"
    by (intro good_konts [OF k th]) (use S on in simp_all)
  then show "sync_inv k1" by (simp add: good_def k1 popped_def)
  show "running k1 = running k" "ready_list k1 = ready_list k" "thread_ticks k1 = thread_ticks k" "idle_thread k1 = idle_thread k"
    "\<not> intr_on k1" "\<not> in_external_intr k1" using S(3) by (simp_all add: k1 popped_def)
qed

lemma sync_frame:
  "sync_inv (k\<lparr>timer_count := x1, idle_ticks := x2, user_ticks := x3, kernel_ticks := x4, yield_on_return := x5\<rparr>) = sync_inv k" (is "sync_inv ?k = _")
  using view_ok_cong [of ?k k] by (simp add: sync_inv_def kernel_inv_def)

lemma ticks_bound: "sync_inv k \<Longrightarrow> thread_ticks k < TIME_SLICE"
  by (simp add: sync_inv_def kernel_inv_def sched_inv_def global_ok_def)

lemma good_timer:
  assumes k: "sync_inv k" and on: "intr_on k"
  obtains k' where "take_irq (irq_handlers 0) 0x20 k = Some k'" "good True k k'"
proof -
  obtain th where th: "threads k (running k) = Some th" by (rule sync_invD [OF k])
  define k1 where "k1 = (popped k th (K_iret # konts th))\<lparr>intr_on := False\<rparr>"
  note E = irq_entry [OF k on th k1_def]
  have i1: "sched_inv (Some (running k1)) k1" using E(1) by (simp add: sync_inv_def kernel_inv_def)
  obtain th1 where th1: "threads k1 (running k1) = Some th1" "status th1 = THREAD_RUNNING" "th_magic th1 = THREAD_MAGIC" "running k1 \<noteq> 0" "pagedir th1 = 0"
    by (rule sched_invD [OF i1])
  define y where "y = (TIME_SLICE \<le> thread_ticks k + 1)"
  define k2 where "k2 = k1\<lparr>timer_count := timer_count k1 + 1, idle_ticks := (if running k1 = idle_thread k1 then idle_ticks k1 + 1 else idle_ticks k1),
    user_ticks := user_ticks k1, kernel_ticks := (if running k1 = idle_thread k1 then kernel_ticks k1 else kernel_ticks k1 + 1), yield_on_return := y\<rparr>"
  have s2: "sync_inv k2" unfolding k2_def sync_frame by (rule E(1))
  have run: "take_irq (irq_handlers 0) 0x20 k = (if y then thread_yield (k2\<lparr>thread_ticks := thread_ticks k + 1\<rparr>) else Some (k2\<lparr>thread_ticks := thread_ticks k + 1\<rparr>))"
  proof -
    have "push_kont K_iret k = Some (popped k th (K_iret # konts th))" using push_run [OF th] by (simp add: popped_def)
    then have "take_irq (irq_handlers 0) 0x20 k = intr_handler (irq_handlers 0) 0x20 k1" by (simp add: take_irq_def intr_disable_def k1_def)
    also have "\<dots> = (if y then thread_yield (k2\<lparr>thread_ticks := thread_ticks k + 1\<rparr>) else Some (k2\<lparr>thread_ticks := thread_ticks k + 1\<rparr>))"
      using E(4-7) th1 unfolding k2_def y_def
      by (cases "running k1 = idle_thread k1"; cases "TIME_SLICE \<le> thread_ticks k + 1") (simp_all add: intr_handler_def irq_handlers_def timer_interrupt_def thread_tick_def thread_current_def running_thread_def is_thread_def
        intr_context_def intr_yield_on_return_def Let_def, (rule arg_cong [where f = thread_yield], simp)+)
    finally show ?thesis .
  qed
  have F: "running k2 = running k" "ready_list k2 = ready_list k" "thread_ticks k2 = thread_ticks k" "idle_thread k2 = idle_thread k"
    using E by (simp_all add: k2_def)
  have m: "moved True k k'" if "moved True k2 k'" for k' using that unfolding moved_def F .
  show ?thesis
  proof (cases y)
    case True
    obtain th2 where th2: "threads k2 (running k2) = Some th2" "stack_ok (live_semas k2) (idle_thread k2) (running k2) (intr_on k2) (konts th2)" "pair_ok (konts th2)"
      by (rule sync_invD [OF s2])
    have i2: "sched_inv (Some (running k2)) k2" "\<not> in_external_intr k2" using s2 by (simp_all add: sync_inv_def kernel_inv_def)
    obtain k' where k': "thread_yield k2 = Some k'" using yield_run [OF i2] by metis
    have "konts th2 = K_iret # konts th" using th2(1) by (auto simp: k2_def k1_def)
    then have "\<not> down_top (konts th2) s" for s by (simp add: down_top_def)
    moreover have "thread_yield (k2\<lparr>threads := (threads k2)(running k2 \<mapsto> th2\<lparr>konts := konts th2\<rparr>)\<rparr>) = Some k'"
      using k' th2(1) by (simp add: fun_upd_idem)
    ultimately have "good True k2 k'" by (intro good_yield [OF s2 th2(1,2,3) refl])
    then show ?thesis using that [of k'] run True k' m by (simp add: thread_yield_ticks good_def)
  next
    case False
    have t: "thread_ticks k + 1 < TIME_SLICE" using False by (simp add: y_def)
    let ?k = "k2\<lparr>thread_ticks := thread_ticks k + 1\<rparr>"
    have "sched_inv (Some (running k2)) ?k" using s2 t by (intro set_ticks) (simp_all add: sync_inv_def kernel_inv_def)
    moreover have "view_ok ?k = view_ok k2" by (rule view_ok_cong) simp_all
    ultimately have "sync_inv ?k" using s2 by (simp add: sync_inv_def kernel_inv_def)
    moreover have "moved True k2 ?k" using E by (auto simp: moved_def k2_def)
    ultimately show ?thesis using that [of ?k] run False m by (simp add: good_def)
  qed
qed

lemma good_device:
  assumes k: "sync_inv k" and on: "intr_on k" and v: "0x20 < v" "v < 0x30"
  obtains k' where "take_irq (irq_handlers n) v k = Some k'" "good False k k'"
proof -
  let ?s = "Sema n"
  obtain th where th: "threads k (running k) = Some th" "stack_ok (live_semas k) (idle_thread k) (running k) (intr_on k) (konts th)" "pair_ok (konts th)"
    by (rule sync_invD [OF k])
  define k1 where "k1 = (popped k th (K_iret # konts th))\<lparr>intr_on := False\<rparr>"
  note E = irq_entry [OF k on th(1) k1_def]
  define k2 where "k2 = k1\<lparr>in_external_intr := True, yield_on_return := False\<rparr>"
  have i2: "sched_inv (Some (running k)) k2" using E(1,2) by (simp add: k2_def sync_inv_def kernel_inv_def)
  have s: "?s \<in> live_semas k" using lock_live [OF k] by blast
  then obtain sm where sm: "semas k2 ?s = Some sm" by (auto simp: live_semas_def k2_def k1_def)
  have up: "sema_up ?s k2 = Some (up_state ?s k2)" by (rule sema_up_run [OF i2 sm]) (use E in \<open>simp add: k2_def\<close>)
  have fl: "\<not> intr_on (up_state ?s k2)" "in_external_intr (up_state ?s k2)" "\<not> yield_on_return (up_state ?s k2)"
    using sm E(6) by (auto simp: up_state_def k2_def split: list.split)
  let ?k = "(up_state ?s k2)\<lparr>in_external_intr := False\<rparr>"
  have "push_kont K_iret k = Some (popped k th (K_iret # konts th))" using push_run [OF th(1)] by (simp add: popped_def)
  then have "take_irq (irq_handlers n) v k = intr_handler (irq_handlers n) v k1" by (simp add: take_irq_def intr_disable_def k1_def)
  also have "\<dots> = Some ?k" using v E(6,7) up fl
    by (simp add: intr_handler_def irq_handlers_def intr_context_def Let_def k2_def)
  finally have run: "take_irq (irq_handlers n) v k = Some ?k" .
  have top: "\<not> down_top (konts th) s'" for s' using th(2) on by (auto simp: down_top_def)
  have e: "threads k2 = (threads k)(running k \<mapsto> th\<lparr>konts := K_iret # konts th\<rparr>)" "semas k2 = semas k" "holder k2 = holder k" "ready_list k2 = ready_list k"
    "running k2 = running k" "thread_ticks k2 = thread_ticks k" by (simp_all add: k2_def k1_def popped_def)
  note U = up_good [OF k th(1) i2 e s _ top]
  have "view_ok ?k = view_ok (up_state ?s k2)" by (rule view_ok_cong) simp_all
  then have "sync_inv ?k" using U th(3) by (simp add: sync_inv_def kernel_inv_def)
  moreover have "moved False k ?k" using U th(3) by (auto simp: moved_def)
  ultimately show ?thesis using that [OF run] by (simp add: good_def)
qed

section \<open>All steps\<close>

lemma kstep_good:
  assumes "kstep e k k'" and "sync_inv k"
  shows "good (e = Timer_irq) k k'"
  using assms
proof cases
  case step_continue
  then show ?thesis using good_continue [OF assms(2)] by simp
next
  case (step_client th c)
  then show ?thesis using good_client [OF assms(2)] by simp
next
  case step_timer
  obtain k2 where "take_irq (irq_handlers 0) 0x20 k = Some k2" "good True k k2" by (rule good_timer [OF assms(2) step_timer(2)])
  then show ?thesis using step_timer by simp
next
  case (step_device v n)
  obtain k2 where "take_irq (irq_handlers n) v k = Some k2" "good False k k2" by (rule good_device [OF assms(2) step_device(2,3,4)])
  then show ?thesis using step_device by simp
qed

lemma ksteps_sync: "ksteps es k k' \<Longrightarrow> sync_inv k \<Longrightarrow> sync_inv k'"
  by (induction rule: ksteps.induct) (auto dest: kstep_good simp: good_def)

end
