(* ===== verification/Kernel_Props.thy ===== *)
theory Kernel_Props
  imports Kernel_Calls Inode_Data
begin

text \<open>
  What the invariants give for every run of the kernel: the scheduler and the semaphores never fail, locks
  exclude each other, no wake-up is lost, and a thread that is ready gets the processor after a bounded
  number of timer ticks.
\<close>

section \<open>Holders of locks\<close>

text \<open>Operations that leave every holder alone.\<close>

lemma holder_upd_th: "upd_th t f k = Some k' \<Longrightarrow> holder k' = holder k"
  by (auto simp: upd_th_def split: option.splits)

lemma holder_push: "push_kont c k = Some k' \<Longrightarrow> holder k' = holder k"
  by (simp add: push_kont_def holder_upd_th)

lemma holder_level: "intr_set_level b k = Some k' \<Longrightarrow> holder k' = holder k"
  by (auto simp: intr_set_level_def intr_enable_def intr_disable_def panic_iff split: if_splits)

lemma holder_activate: "process_activate k = Some k' \<Longrightarrow> holder k' = holder k"
  by (auto simp: process_activate_def tss_update_def bind_eq_Some_conv)

lemma holder_tail: "thread_schedule_tail prev k = Some k' \<Longrightarrow> holder k' = holder k"
  by (auto simp: thread_schedule_tail_def free_thread_def bind_eq_Some_conv panic_iff Let_def split: if_splits dest!: holder_activate holder_upd_th)

lemma holder_schedule: "schedule k = Some k' \<Longrightarrow> holder k' = holder k"
  by (auto simp: schedule_def next_thread_to_run_def bind_eq_Some_conv panic_iff Let_def split: list.splits dest!: holder_tail)

lemma holder_block: "thread_block k = Some k' \<Longrightarrow> holder k' = holder k"
  by (auto simp: thread_block_def bind_eq_Some_conv panic_iff dest!: holder_schedule holder_upd_th)

lemma holder_unblock: "thread_unblock t k = Some k' \<Longrightarrow> holder k' = holder k"
  by (auto simp: thread_unblock_def intr_disable_def bind_eq_Some_conv panic_iff Let_def dest!: holder_level holder_upd_th)

lemma holder_yield: "thread_yield k = Some k' \<Longrightarrow> holder k' = holder k"
  by (auto simp: thread_yield_def intr_disable_def bind_eq_Some_conv panic_iff Let_def dest!: holder_schedule holder_upd_th split: if_splits)

lemma holder_down_loop: "sema_down_loop s b k = Some k' \<Longrightarrow> holder k' = holder k"
  by (auto simp: sema_down_loop_def set_sema_def bind_eq_Some_conv Let_def dest!: holder_block holder_push holder_level split: if_splits)

lemma holder_down: "sema_down s k = Some k' \<Longrightarrow> holder k' = holder k"
  by (auto simp: sema_down_def intr_disable_def panic_iff bind_eq_Some_conv dest!: holder_down_loop)

lemma holder_up:
  assumes "sema_up s k = Some k'" shows "holder k' = holder k"
proof -
  obtain sm where "semas k s = Some sm" using assms by (auto simp: sema_up_def intr_disable_def bind_eq_Some_conv Let_def)
  then show ?thesis using assms
    by (cases "waiters sm") (auto simp: sema_up_def set_sema_def intr_disable_def bind_eq_Some_conv Let_def dest!: holder_unblock holder_level)
qed

lemma holder_try_down: "sema_try_down s k = Some (b, k') \<Longrightarrow> holder k' = holder k"
  by (auto simp: sema_try_down_def set_sema_def intr_disable_def bind_eq_Some_conv Let_def dest!: holder_level split: if_splits)

lemma holder_signal: "cond_signal c l k = Some k' \<Longrightarrow> holder k' = holder k"
  by (cases "cond_waiters k c") (auto simp: cond_signal_def bind_eq_Some_conv panic_iff dest!: holder_push split: list.splits)

lemma holder_sleep: "timer_sleep_loop s n k = Some k' \<Longrightarrow> holder k' = holder k"
  by (auto simp: timer_sleep_loop_def bind_eq_Some_conv dest!: holder_push holder_yield split: if_splits)

lemma holder_acquire: "lock_acquire l k = Some k' \<Longrightarrow> holder k' = holder k"
  by (auto simp: lock_acquire_def bind_eq_Some_conv panic_iff dest!: holder_push)

lemma holder_broadcast: "cond_broadcast c l k = Some k' \<Longrightarrow> holder k' = holder k"
  by (auto simp: cond_broadcast_def bind_eq_Some_conv dest!: holder_push holder_signal split: if_splits)

lemma holder_child: "upd_child c f k = Some k' \<Longrightarrow> holder k' = holder k"
  by (auto simp: upd_child_def split: option.splits)

lemma holder_exit: "thread_exit k = Some k' \<Longrightarrow> holder k' = holder k"
  by (auto simp: thread_exit_def thread_exit_tail_def process_exit_def intr_disable_def bind_eq_Some_conv panic_iff Let_def
    dest!: holder_schedule holder_upd_th holder_up holder_child split: if_splits)

lemma holder_frame: "alloc_frame t n k = Some k' \<Longrightarrow> holder k' = holder k"
  by (auto simp: alloc_frame_def panic_iff bind_eq_Some_conv dest!: holder_upd_th)

lemma holder_child_process: "create_child_process t k = Some (p, k') \<Longrightarrow> holder k' = holder k"
  by (cases "malloc (kfs k)") (auto simp: create_child_process_def bind_eq_Some_conv panic_iff)

lemma holder_create: "thread_create d n p f k = Some (i, k') \<Longrightarrow> holder k' = holder k"
  by (auto simp: thread_create_def init_thread_def sema_init_def allocate_tid_def intr_disable_def bind_eq_Some_conv panic_iff Let_def
    dest!: holder_upd_th holder_child_process holder_frame holder_level holder_unblock split: if_splits prod.splits)

lemma holder_handler:
  assumes run: "intr_handler h v k = Some k'" and f: "h v = Some f" and v: "0x20 \<le> v" "v < 0x30"
    and ff: "\<And>a b. f a = Some b \<Longrightarrow> holder b = holder a"
  shows "holder k' = holder k"
proof -
  obtain k2 where k2: "f (k\<lparr>in_external_intr := True, yield_on_return := False\<rparr>) = Some k2"
      and r: "k' = k2\<lparr>in_external_intr := False\<rparr> \<or> thread_yield (k2\<lparr>in_external_intr := False\<rparr>) = Some k'"
    using run f v by (auto simp: intr_handler_def bind_eq_Some_conv panic_iff Let_def split: if_splits)
  have "holder k' = holder k2" using r by (auto dest: holder_yield)
  then show ?thesis using ff [OF k2] by simp
qed

lemma holder_tick:
  assumes "thread_tick k = Some k'" shows "holder k' = holder k"
proof -
  obtain t th where t: "thread_current k = Some t" "threads k t = Some th" using assms by (auto simp: thread_tick_def bind_eq_Some_conv)
  show ?thesis using assms t
    by (cases "t = idle_thread k"; cases "pagedir th = 0"; cases "TIME_SLICE \<le> thread_ticks k + 1")
      (auto simp: thread_tick_def intr_yield_on_return_def panic_iff bind_eq_Some_conv Let_def)
qed

lemma holder_timer: "timer_interrupt k = Some k' \<Longrightarrow> holder k' = holder k"
  by (auto simp: timer_interrupt_def dest!: holder_tick)

lemma holder_irq:
  assumes "take_irq (irq_handlers n) v k = Some k'" and "0x20 \<le> v" "v < 0x30"
  shows "holder k' = holder k"
proof -
  obtain k1 where k1: "push_kont K_iret k = Some k1" "intr_handler (irq_handlers n) v (intr_disable k1) = Some k'"
    using assms(1) by (auto simp: take_irq_def bind_eq_Some_conv)
  have "holder k' = holder (intr_disable k1)"
  proof (cases "v = 0x20")
    case True
    then show ?thesis using holder_handler [OF k1(2), of timer_interrupt] holder_timer assms(2,3) by (simp add: irq_handlers_def)
  next
    case False
    then show ?thesis using holder_handler [OF k1(2), of "sema_up (Sema n)"] holder_up assms(2,3) by (simp add: irq_handlers_def)
  qed
  then show ?thesis using holder_push [OF k1(1)] by (simp add: intr_disable_def)
qed

lemma holder_step:
  assumes step: "kstep e k k'" and k: "sync_inv k" and ch: "holder k' l \<noteq> holder k l"
  shows "(holder k l = 0 \<and> holder k' l = running k) \<or> (holder k l = running k \<and> holder k' l = 0)"
  using step
proof cases
  case step_continue
  obtain th where S: "sched_inv (Some (running k)) k" "threads k (running k) = Some th" "kmap_of k (running k) = Some (konts th)"
      "view_inv (kmap_of k) (sema_waiters k) (sval k) (holder k)" "pair_ok (konts th)"
    by (rule sync_invD [OF k])
  obtain c cs where ks: "konts th = c # cs" and r: "resume c (popped k th cs) = Some k'"
    using step_continue(2) S(2) by (auto simp: continue_thread_def popped_def split: list.splits)
  have f: False if "holder k' = holder (popped k th cs)" using that ch by simp
  show ?thesis
  proof (cases c)
    case (K_holder a)
    have h: "holder k' = (holder k)(a := running k)" using r K_holder thread_current_popped [OF k S(2)] by (auto simp: resume_def)
    then have a: "a = l" using ch by (cases "a = l") auto
    have "0 < tok l (konts th)" using ks K_holder S(5) tok_nonneg [of cs l] a by simp
    then have "holder k l = 0" using lock_value_0(2) [OF S(4,3)] by blast
    then show ?thesis using h a by simp
  next
    case (K_idle_start s)
    have st: "stack_ok (live_semas k) (idle_thread k) (running k) (intr_on k) (konts th)" using thread_okD(5) [OF S(1,2)] runningD [OF S(1,2)] by simp
    then show ?thesis using K_idle_start ks by simp
  qed (use r f in \<open>auto simp: resume_def idle_def kernel_thread_def intr_enable_def intr_disable_def bind_eq_Some_conv panic_iff
      dest: holder_down_loop holder_down holder_up holder_acquire holder_level holder_broadcast holder_sleep dest!: holder_block holder_push\<close>)
next
  case (step_client th c)
  have i: "sched_inv (Some (running k)) k" using k by (simp add: sync_inv_def kernel_inv_def)
  have f: False if "holder k' = holder k" using that ch by simp
  note cur = thread_current_run [OF i]
  show ?thesis
  proof (cases c)
    case (C_release a)
    then have "holder k a = running k" "holder k' = (holder k)(a := 0)"
      using step_client(4) cur by (auto simp: client_step_def lock_release_def lock_held_by_current_thread_def bind_eq_Some_conv panic_iff dest!: holder_push)
    then show ?thesis using ch by (cases "a = l") auto
  next
    case (C_wait d a)
    then have "holder k a = running k" "holder k' = (holder k)(a := 0)"
      using step_client(4) cur by (auto simp: client_step_def cond_wait_def sema_init_def lock_release_def lock_held_by_current_thread_def bind_eq_Some_conv panic_iff dest!: holder_push)
    then show ?thesis using ch by (cases "a = l") auto
  qed (use step_client(4) f in \<open>auto simp: client_step_def lock_try_acquire_def timer_sleep_def bind_eq_Some_conv panic_iff
      dest: holder_down holder_up holder_acquire holder_signal holder_broadcast holder_yield holder_sleep holder_exit holder_create holder_try_down
      dest!: holder_push split: if_splits\<close>)
qed (use ch holder_irq in auto)

section \<open>Progress\<close>

lemma down_total:
  assumes i: "sched_inv (Some (running k)) k" "\<not> in_external_intr k" and th: "threads k (running k) = Some th"
    and s: "s \<in> live_semas k" "own_sema (running k) s" "running k \<noteq> idle_thread k" and cs: "stack_ok (live_semas k) (idle_thread k) (running k) old cs"
  shows "sema_down_loop s old ((popped k th cs)\<lparr>intr_on := False\<rparr>) \<noteq> None"
proof -
  let ?k0 = "(popped k th cs)\<lparr>intr_on := False\<rparr>"
  have i0: "sched_inv (Some (running k)) (?k0\<lparr>intr_on := old\<rparr>)" using set_konts [OF i(1) th cs] by (simp add: popped_def)
  have h: "\<not> intr_on ?k0" "\<not> in_external_intr ?k0" "s \<in> live_semas ?k0" "running k \<noteq> idle_thread ?k0" using i(2) s by (simp_all add: popped_def live_semas_def)
  show ?thesis by (cases rule: down_loop_run [OF i0 h(1-3) s(2) h(4)]) simp_all
qed

lemma popped_inv:
  assumes "sched_inv (Some (running k)) k" "threads k (running k) = Some th" "stack_ok (live_semas k) (idle_thread k) (running k) (intr_on k) cs"
  shows "sched_inv (Some (running k)) (popped k th cs)"
  using set_konts [OF assms] by (simp add: popped_def)

lemma yield_total:
  assumes i: "sched_inv (Some (running k)) k" and th: "threads k (running k) = Some th" and ext: "\<not> in_external_intr k"
    and cs: "stack_ok (live_semas k) (idle_thread k) (running k) (intr_on k) cs"
  shows "thread_yield (popped k th cs) \<noteq> None"
  by (rule yield_run [of "popped k th cs"]) (use popped_inv [OF i th cs] ext in simp_all)

text \<open>Only taking the lock again after a wait, and a round of \<^verbatim>\<open>cond_broadcast\<close>, check something that depends on the callers.\<close>

definition checks_caller :: "kont \<Rightarrow> bool" where
  "checks_caller c = (case c of K_acquire l \<Rightarrow> True | K_broadcast c l \<Rightarrow> True | _ \<Rightarrow> False)"

lemma continue_total:
  assumes k: "sync_inv k" and th: "threads k (running k) = Some th" "konts th = c # cs" and c: "\<not> checks_caller c"
  shows "continue_thread k \<noteq> None"
proof -
  obtain S: "sched_inv (Some (running k)) k" "\<not> in_external_intr k" "stack_ok (live_semas k) (idle_thread k) (running k) (intr_on k) (c # cs)"
    by (rule sync_invD [OF k]) (use th in simp)
  have run: "continue_thread k = resume c (popped k th cs)" using th by (simp add: continue_thread_def popped_def)
  have cur: "thread_current (popped k th cs) = Some (running k)" by (rule thread_current_popped [OF k th(1)])
  show ?thesis
  proof (cases c)
    case (K_down s old)
    have "(popped k th cs)\<lparr>intr_on := False\<rparr> = popped k th cs" using S(3) K_down by (intro intr_off_id) simp
    then show ?thesis using down_total [OF S(1,2) th(1), of s old cs] S(3) K_down run by (simp add: resume_def)
  next
    case (K_sema_down s)
    then show ?thesis using down_total [OF S(1,2) th(1), of s "intr_on k" cs] S run by (simp add: resume_def sema_down_def intr_context_def intr_disable_def)
  next
    case (K_up s)
    have i0: "sched_inv (Some (running k)) (popped k th cs)" by (rule popped_inv [OF S(1) th(1)]) (use S(3) K_up in simp)
    have "s \<in> live_semas k" using S(3) K_up by simp
    then obtain sm where "semas (popped k th cs) s = Some sm" by (auto simp: live_semas_def)
    then show ?thesis using sema_up_run [OF i0] S(2) run K_up by (simp add: resume_def)
  next
    case (K_sleep since n)
    then have "thread_yield (popped k th (K_sleep since n # cs)) \<noteq> None" using yield_total [OF S(1) th(1) S(2)] S(3) by simp
    then show ?thesis using K_sleep run by (simp add: resume_def timer_sleep_loop_def push_popped)
  next
    case K_idle
    have idl: "running k = idle_thread k" "cs = []" using S(3) K_idle by simp_all
    obtain k' where "idle (k\<lparr>threads := (threads k)(running k \<mapsto> th\<lparr>konts := []\<rparr>)\<rparr>) = Some k'" by (rule idle_run [OF S(1,2) idl(1) th(1) refl])
    then show ?thesis using run K_idle idl(2) by (simp add: resume_def popped_def)
  qed (use run S cur c in \<open>auto simp: resume_def kernel_thread_def intr_set_level_def intr_enable_def intr_disable_def intr_context_def push_popped checks_caller_def
      push_kont_def upd_th_def\<close>)
qed

section \<open>Bounded waiting\<close>

lemma ksteps_append: "ksteps es1 k k1 \<Longrightarrow> ksteps es2 k1 k' \<Longrightarrow> ksteps (es1 @ es2) k k'"
  by (induction rule: ksteps.induct) (auto intro: ksteps.intros)

lemma unat_ticks: "thread_ticks k < TIME_SLICE \<Longrightarrow> unat (thread_ticks k) < 4"
  by (simp add: TIME_SLICE_def word_less_nat_alt)

lemma ready_wait:
  assumes "ksteps es k k'" and "sync_inv k" and "p < length (ready_list k)"
    and "4 * (p + 1) \<le> count_list es Timer_irq + unat (thread_ticks k)"
  shows "\<exists>es1 es2 k1. es = es1 @ es2 \<and> ksteps es1 k k1 \<and> ksteps es2 k1 k' \<and> running k1 = ready_list k ! p"
  using assms
proof (induction arbitrary: p rule: ksteps.induct)
  case (ksteps_refl k)
  then show ?case using unat_ticks [OF ticks_bound [OF ksteps_refl(1)]] by simp
next
  case (ksteps_step e k k1 es k')
  have g: "good (e = Timer_irq) k k1" using kstep_good ksteps_step by blast
  then have s1: "sync_inv k1" and m: "moved (e = Timer_irq) k k1" by (simp_all add: good_def)
  have b: "unat (thread_ticks k) < 4" "unat (thread_ticks k1) < 4" using unat_ticks ticks_bound s1 ksteps_step(4) by blast+
  have ext: "\<exists>es1 es2 k2. e # es = es1 @ es2 \<and> ksteps es1 k k2 \<and> ksteps es2 k2 k' \<and> running k2 = t"
    if X: "\<exists>es1 es2 k2. es = es1 @ es2 \<and> ksteps es1 k1 k2 \<and> ksteps es2 k2 k' \<and> running k2 = t" for t
  proof -
    obtain es1 es2 k2 where E: "es = es1 @ es2" "ksteps es1 k1 k2" "ksteps es2 k2 k'" "running k2 = t" using X by auto
    have "ksteps (e # es1) k k2" by (rule ksteps.ksteps_step [OF ksteps_step(1) E(2)])
    then show ?thesis using E by (intro exI [of _ "e # es1"] exI [of _ es2] exI [of _ k2]) simp
  qed
  from m consider (stay) xs where "ready_list k1 = ready_list k @ xs" "thread_ticks k1 = thread_ticks k + of_bool (e = Timer_irq)"
    | (switch) xs where "running k1 = (case ready_list k @ xs of [] \<Rightarrow> idle_thread k | t # ts \<Rightarrow> t)" "ready_list k1 = tl (ready_list k @ xs)" "thread_ticks k1 = 0"
    unfolding moved_def by (elim exE disjE conjE) assumption+
  then show ?case
  proof cases
    case stay
    have "unat (thread_ticks k1) = unat (thread_ticks k) + of_bool (e = Timer_irq)"
      using stay(2) b by (simp add: unat_word_ariths)
    then have "4 * (p + 1) \<le> count_list es Timer_irq + unat (thread_ticks k1)" using ksteps_step(6) by auto
    then have "\<exists>es1 es2 k2. es = es1 @ es2 \<and> ksteps es1 k1 k2 \<and> ksteps es2 k2 k' \<and> running k2 = ready_list k1 ! p"
      using ksteps_step(3) [OF s1] ksteps_step(5) stay(1) by simp
    then show ?thesis using ext stay(1) ksteps_step(5) by (simp add: nth_append)
  next
    case switch
    obtain t ts where r: "ready_list k = t # ts" using ksteps_step(5) by (cases "ready_list k") auto
    show ?thesis
    proof (cases p)
      case 0
      then have "running k1 = ready_list k ! p" using switch(1) r by simp
      then show ?thesis by (intro ext exI [of _ "[]"] exI [of _ es] exI [of _ k1]) (simp add: ksteps.ksteps_refl ksteps_step(2))
    next
      case (Suc q)
      have q: "q < length ts" "4 * (q + 1) \<le> count_list es Timer_irq + unat (thread_ticks k1)"
        using ksteps_step(5,6) Suc r b(1) switch(3) by (auto split: if_splits)
      then have "\<exists>es1 es2 k2. es = es1 @ es2 \<and> ksteps es1 k1 k2 \<and> ksteps es2 k2 k' \<and> running k2 = ready_list k1 ! q"
        using ksteps_step(3) [OF s1] switch(2) r by simp
      then show ?thesis using ext switch(2) r q(1) Suc by (simp add: nth_append)
    qed
  qed
qed

lemma pending_waiter:
  assumes k: "sync_inv k" and s: "semas k s = Some sm" "0 < sema_value sm" "waiters sm \<noteq> []"
  obtains t th b ks where "threads k t = Some th" "konts th = K_down s b # ks" "t \<notin> set (waiters sm)" "t = running k \<or> t \<in> set (ready_list k)"
proof -
  have i: "sched_inv (Some (running k)) k" and v: "view_inv (kmap_of k) (sema_waiters k) (sval k) (holder k)"
    using k by (simp_all add: sync_inv_def kernel_inv_def view_ok_def)
  have np: "\<not> is_proc s" using i s unfolding sched_inv_def waiters_ok_def by (metis sema_waiters_Some)
  have "0 < sval k s" using sval_Some [OF s(1) np] s(2) by (simp add: word_less_def)
  moreover have "sval k s \<le> int (card (pend (kmap_of k) (sema_waiters k) s))" using v s by (simp add: view_inv_def)
  ultimately have "pend (kmap_of k) (sema_waiters k) s \<noteq> {}" by auto
  then obtain t b ks where t: "kmap_of k t = Some (K_down s b # ks)" "t \<notin> set (waiters sm)" using s(1) by (auto simp: pend_def)
  then obtain th where th: "threads k t = Some th" "konts th = K_down s b # ks" "status th \<noteq> THREAD_DYING"
    by (auto simp: kmap_of_def split: option.splits if_splits)
  have nb: "status th \<noteq> THREAD_BLOCKED"
  proof
    assume b: "status th = THREAD_BLOCKED"
    have "t \<noteq> idle_thread k" using thread_okD(5) [OF i th(1,3)] th(2) by simp
    then obtain s' where s': "t \<in> set (sema_waiters k s')" using thread_okD(4) [OF i th(1)] b by (auto simp: status_ok_def waits_def)
    then have "s' = s" using waitersD(4) [OF i s' th(1)] th(2) by auto
    then show False using s' t(2) s(1) by simp
  qed
  have "t \<noteq> idle_thread k" using thread_okD(5) [OF i th(1,3)] th(2) by simp
  then have "t = running k \<or> t \<in> set (ready_list k)"
    using thread_okD(4) [OF i th(1)] nb th(3) by (cases "status th") (auto simp: status_ok_def)
  then show ?thesis using that th t(2) by blast
qed

section \<open>A kernel with three threads\<close>

text \<open>The idle thread runs; a semaphore was raised once while the main thread and a worker waited for it, and
  the worker has been woken.\<close>

definition ex_thread :: "u32 \<Rightarrow> thread_status \<Rightarrow> kont list \<Rightarrow> thread" where
  "ex_thread i st ks = \<lparr>tid = i, status = st, th_name = [], stack = 0, priority = PRI_DEFAULT, parent = 0, pagedir = 0, file_struct_list = [],
     child_processes = [], th_magic = THREAD_MAGIC, th_current_dir = 0, konts = ks\<rparr>"

definition ex_kernel :: kernel where
  "ex_kernel = \<lparr>threads = [0xc000e000 \<mapsto> ex_thread 1 THREAD_BLOCKED [K_down (Sema 0) True], 0xc0100000 \<mapsto> ex_thread 2 THREAD_RUNNING [K_idle],
       0xc0101000 \<mapsto> ex_thread 3 THREAD_READY [K_down (Sema 0) True]],
     ready_list = [0xc0101000], all_list = [0xc000e000, 0xc0100000, 0xc0101000], idle_thread = 0xc0100000, initial_thread = 0xc000e000, running = 0xc0100000,
     next_tid = 4, idle_ticks = 0, kernel_ticks = 0, user_ticks = 0, thread_ticks = 3, intr_on = True, in_external_intr = False, yield_on_return = False,
     unexpected_cnt = (\<lambda>v. 0), timer_count = 0, esp0 = 0,
     semas = (\<lambda>s. case s of Sema n \<Rightarrow> Some (if n = 0 then \<lparr>sema_value = 1, waiters = [0xc000e000]\<rparr> else \<lparr>sema_value = 0, waiters = []\<rparr>)
       | Lock_sema l \<Rightarrow> Some \<lparr>sema_value = 1, waiters = []\<rparr> | _ \<Rightarrow> None),
     holder = (\<lambda>l. 0), cond_waiters = (\<lambda>c. []), childs = (\<lambda>c. None), mach = ex_machine, kfs = ex_fs\<rparr>"

lemma ex_housed: "pg.housed (dom (threads ex_kernel)) (initial_thread ex_kernel) (mach ex_kernel)"
proof -
  have p: "0xc0100000 = page_addr 0xc0100" "0xc0101000 = page_addr 0xc0101" by (simp_all add: page_addr_def)
  have "page_used ex_machine 0xc0100" "page_used ex_machine 0xc0101"
    by (simp_all add: ex_machine_def page_used_def pool_used_def base_no_def bm_bits_def elem_idx_def ELEM_BITS_def)
  then have "0xc0100000 \<in> owned_pages ex_machine" "0xc0101000 \<in> owned_pages ex_machine" unfolding owned_pages_def using p by (auto intro!: exI)
  moreover have "0xc000e000 \<notin> pool_area ex_machine"
  proof
    assume "0xc000e000 \<in> pool_area ex_machine"
    then obtain u j where j: "j < pool_pages (get_pool u ex_machine)" "page_addr 0xc000e = page_addr (base_no (get_pool u ex_machine) + j)"
      by (auto simp: pool_area_def page_addr_def)
    then have "j < 8 \<and> (base_no (get_pool u ex_machine) = 0xc0100 \<or> base_no (get_pool u ex_machine) = 0xc0110)"
      by (cases u) (auto simp: ex_machine_def get_pool_def base_no_def bitmap_size_def)
    then show False using j(2) page_addr_inj [of "0xc000e" "base_no (get_pool u ex_machine) + j"] by auto
  qed
  ultimately show ?thesis using ex_machine_wf by (auto simp: pg.housed_def ex_kernel_def)
qed

lemma ex_live: "live_semas ex_kernel = range Sema \<union> range Lock_sema"
proof -
  have "s \<in> live_semas ex_kernel \<longleftrightarrow> s \<in> range Sema \<union> range Lock_sema" for s
    by (cases s) (simp_all add: live_semas_def ex_kernel_def image_iff)
  then show ?thesis by blast
qed

lemma ex_waiters: "sema_waiters ex_kernel = (\<lambda>s. if s = Sema 0 then [0xc000e000] else [])"
  by (auto simp: sema_waiters_def ex_kernel_def fun_eq_iff split: sema_ref.splits)

lemma ex_sync: "sync_inv ex_kernel"
proof -
  have w: "waits ex_kernel 0xc000e000" by (auto simp: waits_def ex_waiters)
  have "threads_ok (Some (running ex_kernel)) ex_kernel"
    using w unfolding threads_ok_def ex_live by (simp add: ex_kernel_def ex_thread_def status_ok_def)
  moreover have "running_ok (Some (running ex_kernel)) ex_kernel" "ready_ok ex_kernel" by (simp_all add: running_ok_def ready_ok_def ex_kernel_def ex_thread_def)
  moreover have "waiters_ok ex_kernel" unfolding waiters_ok_def ex_waiters by (auto simp: waiting_def ex_kernel_def ex_thread_def)
  moreover have "all_ok ex_kernel" by (auto simp: all_ok_def ex_kernel_def ex_thread_def split: if_splits)
  moreover have "global_ok ex_kernel" using ex_housed unfolding global_ok_def ex_live
    by (auto simp: ex_kernel_def TIME_SLICE_def ex_machine_def PHYS_BASE_def)
  ultimately have "kernel_inv ex_kernel" by (simp add: kernel_inv_def sched_inv_def ex_kernel_def)
  moreover have "view_ok ex_kernel"
  proof -
    have km: "kmap_of ex_kernel = [0xc000e000 \<mapsto> [K_down (Sema 0) True], 0xc0100000 \<mapsto> [K_idle], 0xc0101000 \<mapsto> [K_down (Sema 0) True]]"
      by (auto simp: kmap_of_def ex_kernel_def ex_thread_def fun_eq_iff)
    have sv: "sval ex_kernel = (\<lambda>s. case s of Sema n \<Rightarrow> of_bool (n = 0) | Lock_sema l \<Rightarrow> 1 | _ \<Rightarrow> 0)"
      by (auto simp: sval_def ex_kernel_def fun_eq_iff split: sema_ref.splits)
    have "tsum l (kmap_of ex_kernel) = 0" for l unfolding tsum_def km by (intro sum.neutral) auto
    moreover have "pend (kmap_of ex_kernel) (sema_waiters ex_kernel) (Sema 0) = {0xc0101000}" unfolding km ex_waiters by (auto simp: pend_def split: if_splits)
    moreover have "0 \<le> sval ex_kernel s" "sval ex_kernel (Lock_sema l) = 1" "holder ex_kernel l = 0" "sval ex_kernel (Sema 0) = 1" for s l
      unfolding sv by (auto simp: ex_kernel_def split: sema_ref.split)
    moreover have "pair_ok ks" if "kmap_of ex_kernel t = Some ks" for t ks using that by (auto simp: km split: if_splits)
    moreover have "finite (dom (kmap_of ex_kernel))" by (simp add: km)
    ultimately show ?thesis unfolding view_ok_def view_inv_def by (auto simp: ex_waiters)
  qed
  ultimately show ?thesis by (simp add: sync_inv_def)
qed

section \<open>Properties\<close>


lemma ex_timer:
  obtains k' where "ksteps [Timer_irq] ex_kernel k'"
proof -
  have on: "intr_on ex_kernel" by (simp add: ex_kernel_def)
  obtain k' where "take_irq (irq_handlers 0) 0x20 ex_kernel = Some k'" by (rule good_timer [OF ex_sync on])
  then have "ksteps [Timer_irq] ex_kernel k'" by (rule ksteps_step [OF step_timer [OF on] ksteps_refl])
  then show ?thesis by (rule that)
qed


text \<open>C5. Mutual exclusion.  In every state reached, while a lock has a holder its semaphore is 0 and no thread
  is between taking the semaphore and recording itself; at most one thread ever is; and a step changes the
  holder only from nobody to the running thread or from the running thread to nobody.\<close>

theorem lock_mutual_exclusion:
  assumes k: "sync_inv k" and run: "ksteps es k k'"
  shows "(holder k' l \<noteq> 0 \<longrightarrow> (\<forall>sm. semas k' (Lock_sema l) = Some sm \<longrightarrow> sema_value sm = 0) \<and>
      (\<forall>t th cs. threads k' t = Some th \<and> status th \<noteq> THREAD_DYING \<longrightarrow> konts th \<noteq> K_holder l # cs)) \<and>
    (\<forall>t th cs u uth us. threads k' t = Some th \<and> konts th = K_holder l # cs \<and> status th \<noteq> THREAD_DYING \<and>
      threads k' u = Some uth \<and> konts uth = K_holder l # us \<and> status uth \<noteq> THREAD_DYING \<longrightarrow> t = u) \<and>
    (\<forall>e k''. kstep e k' k'' \<and> holder k'' l \<noteq> holder k' l \<longrightarrow>
      (holder k' l = 0 \<and> holder k'' l = running k') \<or> (holder k' l = running k' \<and> holder k'' l = 0))"
proof -
  have s: "sync_inv k'" by (rule ksteps_sync [OF run k])
  have v: "view_inv (kmap_of k') (sema_waiters k') (sval k') (holder k')" using s by (simp add: sync_inv_def view_ok_def)
  have one: "sval k' (Lock_sema l) + of_bool (holder k' l \<noteq> 0) + tsum l (kmap_of k') = 1" and nn: "0 \<le> sval k' (Lock_sema l)"
    using v by (simp_all add: view_inv_def)
  have km: "kmap_of k' t = Some (konts th)" if "threads k' t = Some th" "status th \<noteq> THREAD_DYING" for t th using that by (simp add: kmap_of_def)
  have po: "pair_ok ks" if "kmap_of k' t = Some ks" for t ks using v that by (simp add: view_inv_def)
  have pos: "1 \<le> tok l (konts th)" if "threads k' t = Some th" "status th \<noteq> THREAD_DYING" "konts th = K_holder l # cs" for t th cs
    using tok_nonneg_aux [OF po [OF km [OF that(1,2)]], of l] that(3) by simp
  have le: "1 \<le> tsum l (kmap_of k')" if "threads k' t = Some th" "status th \<noteq> THREAD_DYING" "konts th = K_holder l # cs" for t th cs
    using pos [OF that] tok_le_tsum [OF v km [OF that(1,2)], of l] by linarith
  have ts0: "0 \<le> tsum l (kmap_of k')" unfolding tsum_def by (intro sum_nonneg tok_nonneg) (use po in auto)
  have "sema_value sm = 0" if "holder k' l \<noteq> 0" "semas k' (Lock_sema l) = Some sm" for sm
  proof -
    have "uint (sema_value sm) + tsum l (kmap_of k') = 0" "0 \<le> uint (sema_value sm)" using one that(1) sval_Some [OF that(2)] by simp_all
    then have "uint (sema_value sm) = 0" using ts0 by linarith
    then show ?thesis by (simp add: uint_0_iff)
  qed
  moreover have "konts th \<noteq> K_holder l # cs" if "holder k' l \<noteq> 0" "threads k' t = Some th" "status th \<noteq> THREAD_DYING" for t th cs
    using le [OF that(2,3), of cs] one that(1) nn by auto
  moreover have "t = u" if t: "threads k' t = Some th" "konts th = K_holder l # cs" "status th \<noteq> THREAD_DYING"
    and u: "threads k' u = Some uth" "konts uth = K_holder l # us" "status uth \<noteq> THREAD_DYING" for t th cs u uth us
  proof (rule ccontr)
    assume "t \<noteq> u"
    have f: "finite (dom (kmap_of k'))" using v by (simp add: view_inv_def)
    have "(\<Sum>x \<in> {t, u}. tok l (the (kmap_of k' x))) \<le> tsum l (kmap_of k')"
      unfolding tsum_def by (rule sum_mono2 [OF f]) (use km [OF t(1,3)] km [OF u(1,3)] po tok_nonneg in \<open>auto simp: dom_def\<close>)
    then have "2 \<le> tsum l (kmap_of k')" using \<open>t \<noteq> u\<close> pos [OF t(1,3,2)] pos [OF u(1,3,2)] km [OF t(1,3)] km [OF u(1,3)] by simp
    then show False using one nn by (cases "holder k' l = 0") simp_all
  qed
  ultimately show ?thesis using holder_step [OF _ s] by blast
qed

theorem lock_mutual_exclusion_witness: "\<exists>k'. ksteps [Timer_irq] ex_kernel k' \<and>
    (\<forall>e k''. kstep e k' k'' \<and> holder k'' 7 \<noteq> holder k' 7 \<longrightarrow>
      (holder k' 7 = 0 \<and> holder k'' 7 = running k') \<or> (holder k' 7 = running k' \<and> holder k'' 7 = 0))"
proof -
  obtain k' where k': "ksteps [Timer_irq] ex_kernel k'" by (rule ex_timer)
  then show ?thesis using lock_mutual_exclusion [OF ex_sync k', of 7] by blast
qed

text \<open>C8. A ready thread runs: the thread at position \<open>p\<close> of the ready queue gets the processor before
  \<open>4 * (p + 1)\<close> timer ticks have passed, whatever the threads, the devices and the clients do.\<close>

theorem ready_thread_runs:
  assumes "sync_inv k" and "p < length (ready_list k)" and "ksteps es k k'"
    and "4 * (p + 1) \<le> count_list es Timer_irq + unat (thread_ticks k)"
  shows "\<exists>es1 es2 k1. es = es1 @ es2 \<and> ksteps es1 k k1 \<and> ksteps es2 k1 k' \<and> running k1 = ready_list k ! p"
  by (rule ready_wait [OF assms(3,1,2,4)])

theorem ready_thread_runs_witness:
  "\<exists>k' es1 es2 k1. ksteps [Timer_irq] ex_kernel k' \<and> [Timer_irq] = es1 @ es2 \<and> ksteps es1 ex_kernel k1 \<and> ksteps es2 k1 k' \<and> running k1 = 0xc0101000"
proof -
  obtain k' where k': "ksteps [Timer_irq] ex_kernel k'" by (rule ex_timer)
  moreover have "0 < length (ready_list ex_kernel)" "4 * (0 + 1) \<le> count_list [Timer_irq] Timer_irq + unat (thread_ticks ex_kernel)"
    "ready_list ex_kernel ! 0 = 0xc0101000" by (simp_all add: ex_kernel_def)
  ultimately show ?thesis using ready_thread_runs [OF ex_sync _ k', of 0] by (metis (no_types, lifting))
qed



end
