(* ===== verification/Wait_Laws.thy ===== *)
theory Wait_Laws
  imports Kernel_Props
begin

text \<open>
  Waiting for a process that has already ended: \<^verbatim>\<open>process_exit\<close> takes the structure of the child out of the
  list of its parent, so that the exit status recorded there cannot be found any more.
\<close>

text \<open>The structures of the children of a parent exist and have different process identifiers.\<close>

definition children_ok :: "ptr list \<Rightarrow> kernel \<Rightarrow> bool" where
  "children_ok cs k \<longleftrightarrow> distinct cs \<and> NULL \<notin> set cs \<and> (\<forall>c \<in> set cs. \<exists>ch. childs k c = Some ch) \<and>
     (\<forall>c \<in> set cs. \<forall>d \<in> set cs. map_option child_pid (childs k c) = map_option child_pid (childs k d) \<longrightarrow> c = d)"

lemma get_child_None:
  "\<forall>c \<in> set cs. \<exists>ch. childs k c = Some ch \<and> child_pid ch \<noteq> pid \<Longrightarrow> get_child pid cs k = Some NULL"
  by (induction cs) auto

lemma get_child_Some:
  "get_child pid cs k = Some c \<Longrightarrow> c \<noteq> NULL \<Longrightarrow> c \<in> set cs \<and> (\<exists>ch. childs k c = Some ch \<and> child_pid ch = pid)"
  by (induction cs) (auto simp: bind_eq_Some_conv split: if_splits)

lemma childs_unblock: "thread_unblock t k = Some k' \<Longrightarrow> childs k' = childs k \<and> (\<forall>u. map_option child_processes (threads k' u) = map_option child_processes (threads k u))"
  by (auto simp: thread_unblock_def intr_disable_def intr_set_level_def intr_enable_def upd_th_def bind_eq_Some_conv panic_iff Let_def split: if_splits option.splits)

lemma childs_up:
  assumes "sema_up s k = Some k'"
  shows "childs k' = childs k \<and> (\<forall>u. map_option child_processes (threads k' u) = map_option child_processes (threads k u))"
proof -
  obtain sm where sm: "semas k s = Some sm" using assms by (auto simp: sema_up_def intr_disable_def bind_eq_Some_conv Let_def)
  have lv: "childs b = childs a \<and> threads b = threads a" if "intr_set_level l a = Some b" for l a b
    using that by (auto simp: intr_set_level_def intr_enable_def intr_disable_def panic_iff split: if_splits)
  show ?thesis
  proof (cases "waiters sm")
    case Nil
    then show ?thesis using assms sm by (auto simp: sema_up_def set_sema_def intr_disable_def Let_def dest!: lv)
  next
    case (Cons w ws)
    then obtain k1 where "thread_unblock w (set_sema s (sm\<lparr>waiters := ws\<rparr>) (intr_disable k)) = Some k1"
        "childs k' = childs k1 \<and> threads k' = threads k1"
      using assms sm by (auto simp: sema_up_def set_sema_def intr_disable_def bind_eq_Some_conv Let_def dest!: lv)
    then show ?thesis using childs_unblock [of w] by (auto simp: set_sema_def intr_disable_def)
  qed
qed

lemma process_exit_forgets:
  assumes cur: "thread_current k = Some cur" "threads k cur = Some cth" and p: "parent cth \<noteq> 0" "threads k (parent cth) = Some pth"
    and ok: "children_ok (child_processes pth) k" and run: "process_exit k = Some k1"
  obtains pth1 where "threads k1 (parent cth) = Some pth1" "get_child (tid cth) (child_processes pth1) k1 = Some NULL"
proof -
  obtain c where c: "own_child k = Some c" "c \<noteq> NULL" using run cur p by (auto simp: process_exit_def bind_eq_Some_conv panic_iff)
  have "get_child (tid cth) (child_processes pth) k = Some c" using c cur p by (simp add: own_child_def)
  then obtain ch where ch: "c \<in> set (child_processes pth)" "childs k c = Some ch" "child_pid ch = tid cth" using get_child_Some c(2) by blast
  let ?f = "\<lambda>ch. if cur_status ch = CHILD_ALIVE then ch\<lparr>cur_status := CHILD_KILLED, exit_status := -1\<rparr> else ch"
  define k2 where "k2 = k\<lparr>threads := (threads k)(parent cth \<mapsto> pth\<lparr>child_processes := remove1 c (child_processes pth)\<rparr>), childs := (childs k)(c \<mapsto> ?f ch)\<rparr>"
  obtain k3 where k3: "sema_up (Proc_wait cur) k2 = Some k3" and k1: "childs k1 = childs k3" "\<forall>u. map_option child_processes (threads k1 u) = map_option child_processes (threads k3 u)"
    using run cur p c ch by (auto simp: process_exit_def upd_th_def upd_child_def k2_def bind_eq_Some_conv Let_def split: if_splits option.splits)
  note U = childs_up [OF k3]
  have "map_option child_processes (threads k1 (parent cth)) = Some (remove1 c (child_processes pth))" using k1(2) U by (simp add: k2_def)
  then obtain pth1 where pth1: "threads k1 (parent cth) = Some pth1" "child_processes pth1 = remove1 c (child_processes pth)" by auto
  have "get_child (tid cth) (remove1 c (child_processes pth)) k1 = Some NULL"
  proof (rule get_child_None, rule ballI)
    fix d assume "d \<in> set (remove1 c (child_processes pth))"
    then have d: "d \<noteq> c" "d \<in> set (child_processes pth)" using ok by (auto simp: children_ok_def)
    then obtain dh where dh: "childs k d = Some dh" "child_pid dh \<noteq> tid cth" using ok ch unfolding children_ok_def by fastforce
    then show "\<exists>ch. childs k1 d = Some ch \<and> child_pid ch \<noteq> tid cth" using k1(1) U d(1) by (simp add: k2_def)
  qed
  then show ?thesis using that pth1 by simp
qed

text \<open>C23. A parent that waits for a child after the child has exited gets -1 instead of the exit status: the
  exit has removed the child's structure from the parent's list.\<close>

theorem process_wait_after_exit:
  assumes cur: "thread_current k = Some cur" "threads k cur = Some cth" and p: "parent cth \<noteq> 0" "threads k (parent cth) = Some pth"
    and ok: "children_ok (child_processes pth) k" and run: "process_exit k = Some k1"
    and later: "thread_current k2 = Some (parent cth)" "childs k2 = childs k1"
      "map_option child_processes (threads k2 (parent cth)) = map_option child_processes (threads k1 (parent cth))"
  shows "process_wait (tid cth) k2 = Some (Inl (-1), k2)"
proof -
  obtain pth1 where P: "threads k1 (parent cth) = Some pth1" "get_child (tid cth) (child_processes pth1) k1 = Some NULL"
    by (rule process_exit_forgets [OF cur p ok run])
  then obtain pth2 where P2: "threads k2 (parent cth) = Some pth2" "child_processes pth2 = child_processes pth1" using later(3) by auto
  have "get_child pid cs k2 = get_child pid cs k1" for pid cs by (induction cs) (auto simp: later(2) split: Option.bind_split)
  then show ?thesis using P P2 later(1) by (simp add: process_wait_def)
qed

text \<open>A child with exit status 42 whose parent, the main thread, runs next.\<close>

definition ex_exit :: kernel where
  "ex_exit = ex_kernel\<lparr>threads := [0xc000e000 \<mapsto> (ex_thread 1 THREAD_READY [])\<lparr>child_processes := [16]\<rparr>,
       0xc0101000 \<mapsto> (ex_thread 3 THREAD_RUNNING [])\<lparr>parent := 0xc000e000\<rparr>], running := 0xc0101000,
     semas := (semas ex_kernel)(Proc_wait 0xc0101000 \<mapsto> \<lparr>sema_value = 0, waiters = []\<rparr>),
     childs := [16 \<mapsto> \<lparr>child_pid = 3, cur_status = CHILD_EXITED, is_awaited = False, is_loaded = True, exit_status = 42, child_proc_thread = 0xc0101000\<rparr>]\<rparr>"

theorem process_wait_after_exit_witness:
  "\<exists>k1. process_exit ex_exit = Some k1 \<and>
    process_wait 3 (k1\<lparr>running := 0xc000e000, threads := (threads k1)(0xc000e000 \<mapsto> ex_thread 1 THREAD_RUNNING [])\<rparr>) =
      Some (Inl (-1), k1\<lparr>running := 0xc000e000, threads := (threads k1)(0xc000e000 \<mapsto> ex_thread 1 THREAD_RUNNING [])\<rparr>)"
proof -
  let ?cth = "(ex_thread 3 THREAD_RUNNING [])\<lparr>parent := 0xc000e000\<rparr>" and ?pth = "(ex_thread 1 THREAD_READY [])\<lparr>child_processes := [16]\<rparr>"
  have cur: "thread_current ex_exit = Some 0xc0101000" "threads ex_exit 0xc0101000 = Some ?cth" "threads ex_exit (parent ?cth) = Some ?pth" "parent ?cth \<noteq> 0"
    by (simp_all add: ex_exit_def ex_thread_def thread_current_def running_thread_def is_thread_def)
  have ok: "children_ok (child_processes ?pth) ex_exit" by (simp add: children_ok_def ex_exit_def)
  obtain k1 where k1: "process_exit ex_exit = Some k1" "map_option child_processes (threads k1 0xc000e000) = Some []"
    using cur(1) by (simp add: process_exit_def own_child_def upd_th_def upd_child_def sema_up_def set_sema_def intr_disable_def intr_set_level_def intr_enable_def
      intr_context_def ex_exit_def ex_kernel_def ex_thread_def CHILD_EXITED_def CHILD_ALIVE_def)
  let ?k2 = "k1\<lparr>running := 0xc000e000, threads := (threads k1)(0xc000e000 \<mapsto> ex_thread 1 THREAD_RUNNING [])\<rparr>"
  have "process_wait (tid ?cth) ?k2 = Some (Inl (-1), ?k2)"
    by (rule process_wait_after_exit [OF cur(1,2,4,3) ok k1(1)])
      (use k1(2) in \<open>auto simp: thread_current_def running_thread_def is_thread_def ex_thread_def\<close>)
  then show ?thesis using k1(1) by (simp add: ex_thread_def)
qed

end
