(* ===== verification/Intq.thy ===== *)
theory Intq
  imports Kernel_Props
begin

text \<open>
  The interrupt queue of devices/intq.c: a circular buffer shared by kernel threads and interrupt handlers.
  A thread that has to wait records itself and blocks; the functions below that may wait say so in their
  result, and the thread then runs \<open>q_wait\<close> under the lock of the queue and starts again.
\<close>

section \<open>The queue\<close>

definition INTQ_BUFSIZE :: nat where
  "INTQ_BUFSIZE = 64"

record intq =
  q_lock :: nat
  not_full :: tptr
  not_empty :: tptr
  q_buf :: "u8 list"
  q_head :: nat
  q_tail :: nat

datatype qcond = Not_full | Not_empty

definition waiter_of :: "qcond \<Rightarrow> intq \<Rightarrow> tptr" where
  "waiter_of w q = (case w of Not_full \<Rightarrow> not_full q | Not_empty \<Rightarrow> not_empty q)"

definition set_waiter :: "qcond \<Rightarrow> tptr \<Rightarrow> intq \<Rightarrow> intq" where
  "set_waiter w t q = (case w of Not_full \<Rightarrow> q\<lparr>not_full := t\<rparr> | Not_empty \<Rightarrow> q\<lparr>not_empty := t\<rparr>)"

definition q_next :: "nat \<Rightarrow> nat" where
  "q_next pos = (pos + 1) mod INTQ_BUFSIZE"

definition intq_init :: "intq \<Rightarrow> kernel \<Rightarrow> intq \<times> kernel" where
  "intq_init q k = (q\<lparr>not_full := 0, not_empty := 0, q_head := 0, q_tail := 0\<rparr>, lock_init (q_lock q) k)"

definition intq_empty :: "intq \<Rightarrow> kernel \<Rightarrow> bool option" where
  "intq_empty q k = do { ASSERT (\<not> intr_on k); Some (q_head q = q_tail q) }"

definition intq_full :: "intq \<Rightarrow> kernel \<Rightarrow> bool option" where
  "intq_full q k = do { ASSERT (\<not> intr_on k); Some (q_next (q_head q) = q_tail q) }"

definition q_wait :: "qcond \<Rightarrow> intq \<Rightarrow> kernel \<Rightarrow> (intq \<times> kernel) option" where
  "q_wait w q k = do {
     ASSERT (\<not> intr_context k);
     ASSERT (\<not> intr_on k);
     e \<leftarrow> intq_empty q k;
     f \<leftarrow> intq_full q k;
     ASSERT (w = Not_empty \<and> e \<or> w = Not_full \<and> f);
     cur \<leftarrow> thread_current k;
     let q = set_waiter w cur q;
     k \<leftarrow> thread_block k;
     Some (q, k)
   }"

definition q_signal :: "qcond \<Rightarrow> intq \<Rightarrow> kernel \<Rightarrow> (intq \<times> kernel) option" where
  "q_signal w q k = do {
     ASSERT (\<not> intr_on k);
     e \<leftarrow> intq_empty q k;
     f \<leftarrow> intq_full q k;
     ASSERT (w = Not_empty \<and> \<not> e \<or> w = Not_full \<and> \<not> f);
     if waiter_of w q \<noteq> 0 then do {
       k \<leftarrow> thread_unblock (waiter_of w q) k;
       Some (set_waiter w 0 q, k)
     } else Some (q, k)
   }"

text \<open>The result is the byte, or nothing when the caller has to wait first.\<close>

definition intq_getc :: "intq \<Rightarrow> kernel \<Rightarrow> (u8 option \<times> intq \<times> kernel) option" where
  "intq_getc q k = do {
     ASSERT (\<not> intr_on k);
     e \<leftarrow> intq_empty q k;
     if e then do { ASSERT (\<not> intr_context k); Some (None, q, k) }
     else do {
       byte \<leftarrow> aread (q_buf q) (q_tail q);
       let q = q\<lparr>q_tail := q_next (q_tail q)\<rparr>;
       (q, k) \<leftarrow> q_signal Not_full q k;
       Some (Some byte, q, k)
     }
   }"

definition intq_putc :: "intq \<Rightarrow> u8 \<Rightarrow> kernel \<Rightarrow> (bool \<times> intq \<times> kernel) option" where
  "intq_putc q byte k = do {
     ASSERT (\<not> intr_on k);
     f \<leftarrow> intq_full q k;
     if f then do { ASSERT (\<not> intr_context k); Some (False, q, k) }
     else do {
       buf \<leftarrow> awrite (q_buf q) (q_head q) byte;
       let q = q\<lparr>q_buf := buf, q_head := q_next (q_head q)\<rparr>;
       (q, k) \<leftarrow> q_signal Not_empty q k;
       Some (True, q, k)
     }
   }"

section \<open>The queue as a sequence\<close>

definition intq_wf :: "intq \<Rightarrow> bool" where
  "intq_wf q \<longleftrightarrow> length (q_buf q) = INTQ_BUFSIZE \<and> q_head q < INTQ_BUFSIZE \<and> q_tail q < INTQ_BUFSIZE"

definition q_len :: "intq \<Rightarrow> nat" where
  "q_len q = (q_head q + INTQ_BUFSIZE - q_tail q) mod INTQ_BUFSIZE"

definition contents_of :: "intq \<Rightarrow> u8 list" where
  "contents_of q = map (\<lambda>i. q_buf q ! ((q_tail q + i) mod INTQ_BUFSIZE)) [0..<q_len q]"

definition wakeable :: "kernel \<Rightarrow> tptr \<Rightarrow> bool" where
  "wakeable k t \<longleftrightarrow> t = 0 \<or> (\<exists>th. threads k t = Some th \<and> th_magic th = THREAD_MAGIC \<and> status th = THREAD_BLOCKED)"

lemma length_contents_of [simp]: "length (contents_of q) = q_len q"
  by (simp add: contents_of_def)

lemma q_len_less: "q_len q < 64"
  by (simp add: q_len_def INTQ_BUFSIZE_def)

lemma q_len_cases: "intq_wf q \<Longrightarrow> q_len q = (if q_tail q \<le> q_head q then q_head q - q_tail q else q_head q + 64 - q_tail q)"
proof -
  assume w: "intq_wf q"
  show ?thesis
  proof (cases "q_tail q \<le> q_head q")
    case True
    then have "q_head q + 64 - q_tail q = (q_head q - q_tail q) + 64" by simp
    then have "q_len q = (q_head q - q_tail q) mod 64" by (simp only: q_len_def INTQ_BUFSIZE_def mod_add_self2)
    moreover have "q_head q - q_tail q < 64" using w by (auto simp: INTQ_BUFSIZE_def intq_wf_def)
    ultimately show ?thesis using True by simp
  next
    case False
    then show ?thesis using w by (simp add: q_len_def INTQ_BUFSIZE_def intq_wf_def)
  qed
qed

lemma q_next_eq: "pos < 64 \<Longrightarrow> q_next pos = (if pos = 63 then 0 else pos + 1)"
  by (simp add: q_next_def INTQ_BUFSIZE_def)

lemma q_empty_iff: "intq_wf q \<Longrightarrow> q_head q = q_tail q \<longleftrightarrow> contents_of q = []"
  using q_len_cases [of q] by (auto simp: intq_wf_def INTQ_BUFSIZE_def simp flip: length_0_conv split: if_splits)

lemma q_full_iff: "intq_wf q \<Longrightarrow> q_next (q_head q) = q_tail q \<longleftrightarrow> q_len q = 63"
  using q_len_cases [of q] by (auto simp: intq_wf_def INTQ_BUFSIZE_def q_next_eq split: if_splits)

lemma q_push:
  fixes b :: u8
  assumes w: "intq_wf q" and n: "q_len q \<noteq> 63"
  defines "q' \<equiv> q\<lparr>q_buf := (q_buf q)[q_head q := b], q_head := q_next (q_head q)\<rparr>"
  shows "intq_wf q'" "contents_of q' = contents_of q @ [b]"
proof -
  have W: "length (q_buf q) = 64" "q_head q < 64" "q_tail q < 64" using w by (simp_all add: intq_wf_def INTQ_BUFSIZE_def)
  show w': "intq_wf q'" using W by (simp add: q'_def intq_wf_def INTQ_BUFSIZE_def q_next_def)
  have l: "q_len q' = Suc (q_len q)"
    using q_len_cases [OF w] q_len_cases [OF w'] n W by (auto simp: q'_def q_next_eq split: if_splits)
  have h: "(q_tail q + q_len q) mod 64 = q_head q" using q_len_cases [OF w] W by (auto simp: mod_if split: if_splits)
  have ne: "q_head q \<noteq> (q_tail q + i) mod 64" if "i < q_len q" for i
    using that q_len_cases [OF w] q_len_less [of q] W by (auto simp: mod_if split: if_splits)
  show "contents_of q' = contents_of q @ [b]"
    unfolding contents_of_def l using h ne W by (auto simp: q'_def INTQ_BUFSIZE_def)
qed

lemma q_pop:
  assumes w: "intq_wf q" and c: "contents_of q = c # cs"
  defines "q' \<equiv> q\<lparr>q_tail := q_next (q_tail q)\<rparr>"
  shows "intq_wf q'" "contents_of q' = cs" "q_buf q ! q_tail q = c"
proof -
  have W: "length (q_buf q) = 64" "q_head q < 64" "q_tail q < 64" using w by (simp_all add: intq_wf_def INTQ_BUFSIZE_def)
  have n: "q_len q = Suc (length cs)" using c length_contents_of [of q] by simp
  show w': "intq_wf q'" using W by (simp add: q'_def intq_wf_def INTQ_BUFSIZE_def q_next_def)
  have l: "q_len q' = length cs"
    using q_len_cases [OF w] q_len_cases [OF w'] n W by (auto simp: q'_def q_next_eq split: if_splits)
  have i: "(q_next (q_tail q) + i) mod 64 = (q_tail q + Suc i) mod 64" for i by (simp add: q_next_def INTQ_BUFSIZE_def mod_simps)
  have "contents_of q = q_buf q ! q_tail q # map (\<lambda>i. q_buf q ! ((q_tail q + Suc i) mod 64)) [0..<length cs]"
    unfolding contents_of_def n using W by (simp add: map_upt_Suc INTQ_BUFSIZE_def del: upt_Suc)
  then show "q_buf q ! q_tail q = c" "contents_of q' = cs"
    using c l i unfolding contents_of_def by (simp_all add: q'_def INTQ_BUFSIZE_def)
qed

section \<open>The operations\<close>

lemma q_unblock:
  assumes "wakeable k t" and "t \<noteq> 0" and "\<not> intr_on k"
  obtains k' where "thread_unblock t k = Some k'" "ready_list k' = ready_list k @ [t]" "\<not> intr_on k'" "in_external_intr k' = in_external_intr k"
    "\<forall>u. u \<noteq> t \<longrightarrow> threads k' u = threads k u"
  using assms by (auto simp: wakeable_def thread_unblock_def is_thread_def upd_th_def intr_disable_def intr_set_level_def Let_def)

lemma q_signal_run:
  assumes w: "wakeable k (waiter_of c q)" and off: "\<not> intr_on k" and cond: "c = Not_empty \<and> q_head q \<noteq> q_tail q \<or> c = Not_full \<and> q_next (q_head q) \<noteq> q_tail q"
  obtains k' where "q_signal c q k = Some (set_waiter c 0 q, k')" "ready_list k' = ready_list k @ (if waiter_of c q = 0 then [] else [waiter_of c q])"
    "\<not> intr_on k'" "in_external_intr k' = in_external_intr k" "\<forall>u. u \<noteq> waiter_of c q \<longrightarrow> threads k' u = threads k u"
proof (cases "waiter_of c q = 0")
  case True
  then have "q_signal c q k = Some (set_waiter c 0 q, k)" using off cond
    by (cases c) (auto simp: q_signal_def intq_empty_def intq_full_def set_waiter_def waiter_of_def)
  then show ?thesis using that [of k] True off by simp
next
  case False
  obtain k' where "thread_unblock (waiter_of c q) k = Some k'" "ready_list k' = ready_list k @ [waiter_of c q]" "\<not> intr_on k'"
      "in_external_intr k' = in_external_intr k" "\<forall>u. u \<noteq> waiter_of c q \<longrightarrow> threads k' u = threads k u"
    by (rule q_unblock [OF w False off])
  then show ?thesis using that [of k'] False off cond by (simp add: q_signal_def intq_empty_def intq_full_def)
qed

lemma set_waiter_simps [simp]:
  "q_head (set_waiter c t q) = q_head q" "q_tail (set_waiter c t q) = q_tail q" "q_buf (set_waiter c t q) = q_buf q" "q_lock (set_waiter c t q) = q_lock q"
  "intq_wf (set_waiter c t q) = intq_wf q" "contents_of (set_waiter c t q) = contents_of q" "waiter_of c (set_waiter c t q) = t"
  by (cases c; simp add: set_waiter_def intq_wf_def contents_of_def q_len_def waiter_of_def)+

lemma set_waiter_waiters [simp]:
  "not_empty (set_waiter Not_empty t q) = t" "not_full (set_waiter Not_empty t q) = not_full q"
  "not_full (set_waiter Not_full t q) = t" "not_empty (set_waiter Not_full t q) = not_empty q"
  by (simp_all add: set_waiter_def)

lemma intq_putc_run:
  assumes w: "intq_wf q" and n: "q_len q \<noteq> 63" and off: "\<not> intr_on k" and wk: "wakeable k (not_empty q)"
  obtains q' k' where "intq_putc q b k = Some (True, q', k')" "intq_wf q'" "contents_of q' = contents_of q @ [b]" "not_empty q' = 0" "not_full q' = not_full q"
    "ready_list k' = ready_list k @ (if not_empty q = 0 then [] else [not_empty q])" "\<not> intr_on k'" "in_external_intr k' = in_external_intr k"
    "\<forall>u. u \<noteq> not_empty q \<longrightarrow> threads k' u = threads k u"
proof -
  let ?q = "q\<lparr>q_buf := (q_buf q)[q_head q := b], q_head := q_next (q_head q)\<rparr>"
  note P = q_push [OF w n, of b]
  have W: "waiter_of Not_empty ?q = not_empty q" by (simp add: waiter_of_def)
  have "q_head ?q \<noteq> q_tail ?q" using q_empty_iff [OF P(1)] P(2) by simp
  then obtain k' where k': "q_signal Not_empty ?q k = Some (set_waiter Not_empty 0 ?q, k')" "ready_list k' = ready_list k @ (if not_empty q = 0 then [] else [not_empty q])"
      "\<not> intr_on k'" "in_external_intr k' = in_external_intr k" "\<forall>u. u \<noteq> not_empty q \<longrightarrow> threads k' u = threads k u"
    using q_signal_run [of k Not_empty ?q] wk off unfolding W by metis
  have "q_head q < length (q_buf q)" using w by (simp add: intq_wf_def)
  then have "intq_putc q b k = Some (True, set_waiter Not_empty 0 ?q, k')"
    using off n k'(1) q_full_iff [OF w] by (simp add: intq_putc_def intq_full_def Let_def)
  then show ?thesis by (rule that) (use P k' in simp_all)
qed

lemma intq_getc_run:
  assumes w: "intq_wf q" and c: "contents_of q = c # cs" and off: "\<not> intr_on k" and wk: "wakeable k (not_full q)"
  obtains q' k' where "intq_getc q k = Some (Some c, q', k')" "intq_wf q'" "contents_of q' = cs" "not_full q' = 0" "not_empty q' = not_empty q"
    "ready_list k' = ready_list k @ (if not_full q = 0 then [] else [not_full q])" "\<not> intr_on k'" "in_external_intr k' = in_external_intr k"
    "\<forall>u. u \<noteq> not_full q \<longrightarrow> threads k' u = threads k u"
proof -
  let ?q = "q\<lparr>q_tail := q_next (q_tail q)\<rparr>"
  note P = q_pop [OF w c]
  have W: "waiter_of Not_full ?q = not_full q" by (simp add: waiter_of_def)
  have "q_len ?q \<noteq> 63" using P(2) c q_len_less [of q] length_contents_of [of ?q] length_contents_of [of q] by simp
  then have "q_next (q_head ?q) \<noteq> q_tail ?q" using q_full_iff [OF P(1)] by simp
  then obtain k' where k': "q_signal Not_full ?q k = Some (set_waiter Not_full 0 ?q, k')" "ready_list k' = ready_list k @ (if not_full q = 0 then [] else [not_full q])"
      "\<not> intr_on k'" "in_external_intr k' = in_external_intr k" "\<forall>u. u \<noteq> not_full q \<longrightarrow> threads k' u = threads k u"
    using q_signal_run [of k Not_full ?q] wk off unfolding W by metis
  have "q_head q \<noteq> q_tail q" "q_tail q < length (q_buf q)" using q_empty_iff [OF w] c w by (simp_all add: intq_wf_def)
  then have "intq_getc q k = Some (Some c, set_waiter Not_full 0 ?q, k')"
    using off k'(1) P(3) by (simp add: intq_getc_def intq_empty_def Let_def)
  then show ?thesis by (rule that) (use P k' in simp_all)
qed

text \<open>C28. The queue is a bounded FIFO of 63 bytes: the two tests say when it is empty or full, a byte that is put
  in comes last, the byte that is taken out is the first, and each operation wakes the thread that waits for
  it and forgets it.  A handler that would have to wait fails an assertion.\<close>

theorem intq_fifo:
  assumes w: "intq_wf q" and off: "\<not> intr_on k" and wk: "wakeable k (not_full q)" "wakeable k (not_empty q)"
  shows "intq_empty q k = Some (contents_of q = []) \<and> intq_full q k = Some (length (contents_of q) = 63) \<and> length (contents_of q) \<le> 63 \<and>
    (if length (contents_of q) = 63 then intq_putc q b k = (if intr_context k then None else Some (False, q, k))
     else \<exists>q' k'. intq_putc q b k = Some (True, q', k') \<and> intq_wf q' \<and> contents_of q' = contents_of q @ [b] \<and> not_empty q' = 0 \<and> not_full q' = not_full q \<and>
       ready_list k' = ready_list k @ (if not_empty q = 0 then [] else [not_empty q])) \<and>
    (case contents_of q of [] \<Rightarrow> intq_getc q k = (if intr_context k then None else Some (None, q, k))
     | c # cs \<Rightarrow> \<exists>q' k'. intq_getc q k = Some (Some c, q', k') \<and> intq_wf q' \<and> contents_of q' = cs \<and> not_full q' = 0 \<and> not_empty q' = not_empty q \<and>
       ready_list k' = ready_list k @ (if not_full q = 0 then [] else [not_full q]))"
proof (intro conjI)
  show "intq_empty q k = Some (contents_of q = [])" using q_empty_iff [OF w] off by (simp add: intq_empty_def)
  show f: "intq_full q k = Some (length (contents_of q) = 63)" using q_full_iff [OF w] off by (simp add: intq_full_def)
  show "length (contents_of q) \<le> 63" using q_len_less [of q] by simp
  show "if length (contents_of q) = 63 then intq_putc q b k = (if intr_context k then None else Some (False, q, k))
     else \<exists>q' k'. intq_putc q b k = Some (True, q', k') \<and> intq_wf q' \<and> contents_of q' = contents_of q @ [b] \<and> not_empty q' = 0 \<and> not_full q' = not_full q \<and>
       ready_list k' = ready_list k @ (if not_empty q = 0 then [] else [not_empty q])"
  proof (cases "length (contents_of q) = 63")
    case True
    then show ?thesis using f off by (simp add: intq_putc_def)
  next
    case False
    then have n: "q_len q \<noteq> 63" by simp
    show ?thesis unfolding if_not_P [OF False] by (rule intq_putc_run [OF w n off wk(2), of b]) blast
  qed
  show "case contents_of q of [] \<Rightarrow> intq_getc q k = (if intr_context k then None else Some (None, q, k))
     | c # cs \<Rightarrow> \<exists>q' k'. intq_getc q k = Some (Some c, q', k') \<and> intq_wf q' \<and> contents_of q' = cs \<and> not_full q' = 0 \<and> not_empty q' = not_empty q \<and>
       ready_list k' = ready_list k @ (if not_full q = 0 then [] else [not_full q])"
  proof (cases "contents_of q")
    case Nil
    then show ?thesis using q_empty_iff [OF w] off by (simp add: intq_getc_def intq_empty_def)
  next
    case (Cons c cs)
    then show ?thesis unfolding Cons list.case by (rule_tac intq_getc_run [OF w Cons off wk(1)]) blast
  qed
qed

definition ex_intq :: intq where
  "ex_intq = \<lparr>q_lock = 0, not_full = 0, not_empty = 0xc000e000, q_buf = replicate 64 5, q_head = 2, q_tail = 1\<rparr>"

theorem intq_fifo_witness:
  "(\<exists>q' k'. intq_putc ex_intq 7 (ex_kernel\<lparr>intr_on := False\<rparr>) = Some (True, q', k') \<and> contents_of q' = [5, 7] \<and> ready_list k' = [0xc0101000, 0xc000e000])"
proof -
  have c: "contents_of ex_intq = [5]" by (simp add: contents_of_def ex_intq_def q_len_def INTQ_BUFSIZE_def)
  have "intq_wf ex_intq" "\<not> intr_on (ex_kernel\<lparr>intr_on := False\<rparr>)" "wakeable (ex_kernel\<lparr>intr_on := False\<rparr>) (not_full ex_intq)"
      "wakeable (ex_kernel\<lparr>intr_on := False\<rparr>) (not_empty ex_intq)" "ready_list (ex_kernel\<lparr>intr_on := False\<rparr>) = [0xc0101000]" "not_empty ex_intq = 0xc000e000"
    by (simp_all add: ex_intq_def intq_wf_def INTQ_BUFSIZE_def wakeable_def ex_kernel_def ex_thread_def)
  then show ?thesis using intq_fifo [of ex_intq "ex_kernel\<lparr>intr_on := False\<rparr>" 7] unfolding c by auto
qed

end
