(* ===== verification/Ports.thy ===== *)
theory Ports
  imports Prelude
begin

text \<open>
  The input and output instructions of threads/io.h.  What a device answers is not code: it is the
  parameter \<open>dev_in\<close>, which gives the value of the n-th read for every port.  What is written is recorded
  in order.
\<close>

record ports =
  dev_in :: "nat \<Rightarrow> u16 \<Rightarrow> u8"
  reads :: nat
  writes :: "(u16 \<times> u8) list"

definition inb :: "u16 \<Rightarrow> ports \<Rightarrow> u8 \<times> ports" where
  "inb port io = (dev_in io (reads io) port, io\<lparr>reads := reads io + 1\<rparr>)"

definition outb :: "u16 \<Rightarrow> u8 \<Rightarrow> ports \<Rightarrow> ports" where
  "outb port data io = io\<lparr>writes := writes io @ [(port, data)]\<rparr>"

text \<open>The bytes written to a port.\<close>

definition sent :: "u16 \<Rightarrow> ports \<Rightarrow> u8 list" where
  "sent port io = map snd (filter (\<lambda>w. fst w = port) (writes io))"

lemma sent_outb [simp]: "sent p (outb q v io) = sent p io @ (if q = p then [v] else [])"
  by (simp add: sent_def outb_def)

lemma sent_inb [simp]: "sent p (snd (inb q io)) = sent p io"
  by (simp add: sent_def inb_def)

lemma sent_reads [simp]: "sent p (io\<lparr>reads := n\<rparr>) = sent p io"
  by (simp add: sent_def)

end
