(* ===== verification/Serial.thy ===== *)
theory Serial
  imports Intq Ports
begin

text \<open>
  The input buffer of devices/input.c and the serial port of devices/serial.c, on the queues of
  \<open>Intq\<close> and the ports of \<open>Ports\<close>.  A loop that polls the hardware has fuel: it may run for ever.
\<close>

unbundle bit_operations_syntax

section \<open>Registers and state\<close>

definition IO_BASE :: u16 where "IO_BASE = 0x3f8"

definition RBR_REG :: u16 where "RBR_REG = IO_BASE + 0"

definition THR_REG :: u16 where "THR_REG = IO_BASE + 0"

definition IER_REG :: u16 where "IER_REG = IO_BASE + 1"

definition LS_REG :: u16 where "LS_REG = IO_BASE + 0"

definition MS_REG :: u16 where "MS_REG = IO_BASE + 1"

definition IIR_REG :: u16 where "IIR_REG = IO_BASE + 2"

definition FCR_REG :: u16 where "FCR_REG = IO_BASE + 2"

definition LCR_REG :: u16 where "LCR_REG = IO_BASE + 3"

definition MCR_REG :: u16 where "MCR_REG = IO_BASE + 4"

definition LSR_REG :: u16 where "LSR_REG = IO_BASE + 5"

definition IER_RECV :: u8 where "IER_RECV = 0x01"

definition IER_XMIT :: u8 where "IER_XMIT = 0x02"

definition LCR_N81 :: u8 where "LCR_N81 = 0x03"

definition LCR_DLAB :: u8 where "LCR_DLAB = 0x80"

definition MCR_OUT2 :: u8 where "MCR_OUT2 = 0x08"

definition LSR_DR :: u8 where "LSR_DR = 0x01"

definition LSR_THRE :: u8 where "LSR_THRE = 0x20"

datatype serial_mode = UNINIT | POLL | QUEUE

text \<open>\<open>registered\<close> are the vectors that have a handler.\<close>

record sdev =
  krn :: kernel
  inbuf :: intq
  smode :: serial_mode
  txq :: intq
  io :: ports
  registered :: "nat set"

definition intr_register_ext :: "nat \<Rightarrow> sdev \<Rightarrow> sdev option" where
  "intr_register_ext vec s = do {
     ASSERT (0x20 \<le> vec \<and> vec \<le> 0x2f);
     ASSERT (vec \<notin> registered s);
     Some (s\<lparr>registered := insert vec (registered s)\<rparr>)
   }"

definition set_level_of :: "bool \<Rightarrow> sdev \<Rightarrow> sdev option" where
  "set_level_of b s = do { k \<leftarrow> intr_set_level b (krn s); Some (s\<lparr>krn := k\<rparr>) }"

section \<open>The serial port, and the input buffer\<close>

definition input_init :: "sdev \<Rightarrow> sdev" where
  "input_init s = (let (q, k) = intq_init (inbuf s) (krn s) in s\<lparr>inbuf := q, krn := k\<rparr>)"

definition input_full :: "sdev \<Rightarrow> bool option" where
  "input_full s = do { ASSERT (\<not> intr_on (krn s)); intq_full (inbuf s) (krn s) }"

definition write_ier :: "sdev \<Rightarrow> sdev option" where
  "write_ier s = do {
     ASSERT (\<not> intr_on (krn s));
     e \<leftarrow> intq_empty (txq s) (krn s);
     let ier = (if \<not> e then IER_XMIT else 0);
     f \<leftarrow> input_full s;
     let ier = (if \<not> f then ier OR IER_RECV else ier);
     Some (s\<lparr>io := outb IER_REG ier (io s)\<rparr>)
   }"

definition serial_notify :: "sdev \<Rightarrow> sdev option" where
  "serial_notify s = do { ASSERT (\<not> intr_on (krn s)); if smode s = QUEUE then write_ier s else Some s }"

definition input_putc :: "u8 \<Rightarrow> sdev \<Rightarrow> sdev option" where
  "input_putc key s = do {
     ASSERT (\<not> intr_on (krn s));
     f \<leftarrow> intq_full (inbuf s) (krn s);
     ASSERT (\<not> f);
     (ok, q, k) \<leftarrow> intq_putc (inbuf s) key (krn s);
     serial_notify (s\<lparr>inbuf := q, krn := k\<rparr>)
   }"

text \<open>No byte in the result means that the caller has to wait for one, with interrupts off.\<close>

definition input_getc :: "sdev \<Rightarrow> (u8 option \<times> sdev) option" where
  "input_getc s = do {
     let old_level = intr_on (krn s);
     let s = s\<lparr>krn := intr_disable (krn s)\<rparr>;
     (key, q, k) \<leftarrow> intq_getc (inbuf s) (krn s);
     let s = s\<lparr>inbuf := q, krn := k\<rparr>;
     (case key of
        None \<Rightarrow> Some (None, s)
      | Some c \<Rightarrow> do { s \<leftarrow> serial_notify s; s \<leftarrow> set_level_of old_level s; Some (Some c, s) })
   }"

definition set_serial :: "int \<Rightarrow> ports \<Rightarrow> ports option" where
  "set_serial bps p = do {
     let base_rate = 1843200 div 16;
     let divisor = (word_of_int (base_rate div bps) :: u16);
     ASSERT (300 \<le> bps \<and> bps \<le> 115200);
     let p = outb LCR_REG (LCR_N81 OR LCR_DLAB) p;
     let p = outb LS_REG (ucast (divisor AND 0xff)) p;
     let p = outb MS_REG (ucast (drop_bit 8 divisor)) p;
     Some (outb LCR_REG LCR_N81 p)
   }"

definition init_poll :: "sdev \<Rightarrow> sdev option" where
  "init_poll s = do {
     ASSERT (smode s = UNINIT);
     let p = outb FCR_REG 0 (outb IER_REG 0 (io s));
     p \<leftarrow> set_serial 9600 p;
     let p = outb MCR_REG MCR_OUT2 p;
     let (q, k) = intq_init (txq s) (krn s);
     Some (s\<lparr>io := p, txq := q, krn := k, smode := POLL\<rparr>)
   }"

definition serial_init_queue :: "sdev \<Rightarrow> sdev option" where
  "serial_init_queue s = do {
     s \<leftarrow> (if smode s = UNINIT then init_poll s else Some s);
     ASSERT (smode s = POLL);
     s \<leftarrow> intr_register_ext (0x20 + 4) s;
     let s = s\<lparr>smode := QUEUE\<rparr>;
     let old_level = intr_on (krn s);
     s \<leftarrow> write_ier (s\<lparr>krn := intr_disable (krn s)\<rparr>);
     set_level_of old_level s
   }"

text \<open>The busy loop of \<^verbatim>\<open>putc_poll\<close>.\<close>

primrec poll_thre :: "nat \<Rightarrow> ports \<Rightarrow> ports option" where
  "poll_thre 0 p = None"
| "poll_thre (Suc n) p = (let (v, p) = inb LSR_REG p in if v AND LSR_THRE = 0 then poll_thre n p else Some p)"

definition putc_poll :: "nat \<Rightarrow> u8 \<Rightarrow> sdev \<Rightarrow> sdev option" where
  "putc_poll fuel byte s = do {
     ASSERT (\<not> intr_on (krn s));
     p \<leftarrow> poll_thre fuel (io s);
     Some (s\<lparr>io := outb THR_REG byte p\<rparr>)
   }"

text \<open>A byte for the transmit queue; the flag says whether it was queued or the caller has to wait.\<close>

definition serial_putc :: "nat \<Rightarrow> u8 \<Rightarrow> sdev \<Rightarrow> (bool \<times> sdev) option" where
  "serial_putc fuel byte s = do {
     let old_level = intr_on (krn s);
     let s = s\<lparr>krn := intr_disable (krn s)\<rparr>;
     if smode s \<noteq> QUEUE then do {
       s \<leftarrow> (if smode s = UNINIT then init_poll s else Some s);
       s \<leftarrow> putc_poll fuel byte s;
       s \<leftarrow> set_level_of old_level s;
       Some (True, s)
     } else do {
       f \<leftarrow> intq_full (txq s) (krn s);
       s \<leftarrow> (if \<not> old_level \<and> f then do {
               (c, q, k) \<leftarrow> intq_getc (txq s) (krn s);
               c \<leftarrow> c;
               putc_poll fuel c (s\<lparr>txq := q, krn := k\<rparr>)
             } else Some s);
       (ok, q, k) \<leftarrow> intq_putc (txq s) byte (krn s);
       let s = s\<lparr>txq := q, krn := k\<rparr>;
       if \<not> ok then Some (False, s)
       else do { s \<leftarrow> write_ier s; s \<leftarrow> set_level_of old_level s; Some (True, s) }
     }
   }"

text \<open>The loop of \<^verbatim>\<open>serial_flush\<close>; \<open>n\<close> bounds its rounds and \<open>fuel\<close> each poll.\<close>

primrec flush_loop :: "nat \<Rightarrow> nat \<Rightarrow> sdev \<Rightarrow> sdev option" where
  "flush_loop fuel 0 s = None"
| "flush_loop fuel (Suc n) s = do {
     e \<leftarrow> intq_empty (txq s) (krn s);
     if e then Some s
     else do {
       (c, q, k) \<leftarrow> intq_getc (txq s) (krn s);
       c \<leftarrow> c;
       s \<leftarrow> putc_poll fuel c (s\<lparr>txq := q, krn := k\<rparr>);
       flush_loop fuel n s
     }
   }"

definition serial_flush :: "nat \<Rightarrow> sdev \<Rightarrow> sdev option" where
  "serial_flush fuel s = do {
     let old_level = intr_on (krn s);
     s \<leftarrow> flush_loop fuel INTQ_BUFSIZE (s\<lparr>krn := intr_disable (krn s)\<rparr>);
     set_level_of old_level s
   }"

text \<open>The two loops of the interrupt handler.\<close>

primrec recv_loop :: "nat \<Rightarrow> sdev \<Rightarrow> sdev option" where
  "recv_loop 0 s = None"
| "recv_loop (Suc n) s = do {
     f \<leftarrow> input_full s;
     if f then Some s
     else do {
       let (v, p) = inb LSR_REG (io s);
       if v AND LSR_DR = 0 then Some (s\<lparr>io := p\<rparr>)
       else do {
         let (c, p) = inb RBR_REG p;
         s \<leftarrow> input_putc c (s\<lparr>io := p\<rparr>);
         recv_loop n s
       }
     }
   }"

primrec xmit_loop :: "nat \<Rightarrow> sdev \<Rightarrow> sdev option" where
  "xmit_loop 0 s = None"
| "xmit_loop (Suc n) s = do {
     e \<leftarrow> intq_empty (txq s) (krn s);
     if e then Some s
     else do {
       let (v, p) = inb LSR_REG (io s);
       if v AND LSR_THRE = 0 then Some (s\<lparr>io := p\<rparr>)
       else do {
         (c, q, k) \<leftarrow> intq_getc (txq s) (krn s);
         c \<leftarrow> c;
         xmit_loop n (s\<lparr>txq := q, krn := k, io := outb THR_REG c p\<rparr>)
       }
     }
   }"

definition serial_interrupt :: "nat \<Rightarrow> sdev \<Rightarrow> sdev option" where
  "serial_interrupt fuel s = do {
     let (v, p) = inb IIR_REG (io s);
     s \<leftarrow> recv_loop fuel (s\<lparr>io := p\<rparr>);
     s \<leftarrow> xmit_loop fuel s;
     write_ier s
   }"

section \<open>The interrupt handler\<close>

definition sdev_ok :: "sdev \<Rightarrow> bool" where
  "sdev_ok s \<longleftrightarrow> intq_wf (inbuf s) \<and> intq_wf (txq s) \<and> \<not> intr_on (krn s) \<and> wakeable (krn s) (not_empty (inbuf s)) \<and>
     wakeable (krn s) (not_full (txq s)) \<and> (not_empty (inbuf s) = not_full (txq s) \<longrightarrow> not_full (txq s) = 0)"

definition xmitted :: "sdev \<Rightarrow> u8 list" where
  "xmitted s = sent THR_REG (io s)"

lemma sdev_ok_io [simp]: "sdev_ok (s\<lparr>io := p\<rparr>) = sdev_ok s"
  by (simp add: sdev_ok_def)

lemma write_ier_run:
  assumes "sdev_ok s"
  shows "write_ier s = Some (s\<lparr>io := outb IER_REG ((if contents_of (txq s) \<noteq> [] then IER_XMIT else 0) OR (if q_len (inbuf s) \<noteq> 63 then IER_RECV else 0)) (io s)\<rparr>)"
  using assms q_empty_iff [of "txq s"] q_full_iff [of "inbuf s"]
  by (auto simp: write_ier_def sdev_ok_def intq_empty_def input_full_def intq_full_def Let_def)

lemma xmitted_ier [simp]: "xmitted (s\<lparr>io := outb IER_REG v p\<rparr>) = sent THR_REG p"
  by (simp add: xmitted_def IER_REG_def THR_REG_def IO_BASE_def)

lemma input_putc_run:
  assumes ok: "sdev_ok s" and n: "q_len (inbuf s) \<noteq> 63"
  obtains s' where "input_putc c s = Some s'" "sdev_ok s'" "contents_of (inbuf s') = contents_of (inbuf s) @ [c]" "txq s' = txq s" "xmitted s' = xmitted s"
    "smode s' = smode s"
proof -
  have S: "intq_wf (inbuf s)" "\<not> intr_on (krn s)" "wakeable (krn s) (not_empty (inbuf s))" "wakeable (krn s) (not_full (txq s))"
    using ok by (simp_all add: sdev_ok_def)
  obtain q k where Q: "intq_putc (inbuf s) c (krn s) = Some (True, q, k)" "intq_wf q" "contents_of q = contents_of (inbuf s) @ [c]" "not_empty q = 0"
      "\<not> intr_on k" "\<forall>u. u \<noteq> not_empty (inbuf s) \<longrightarrow> threads k u = threads (krn s) u"
    by (rule intq_putc_run [OF S(1) n S(2,3), of c])
  let ?s = "s\<lparr>inbuf := q, krn := k\<rparr>"
  have "wakeable k (not_full (txq s))" using S(4) Q(6) ok by (auto simp: wakeable_def sdev_ok_def)
  then have ok': "sdev_ok ?s" using ok Q by (auto simp: sdev_ok_def wakeable_def)
  have "intq_full (inbuf s) (krn s) = Some False" using q_full_iff [OF S(1)] n S(2) by (simp add: intq_full_def)
  then have "input_putc c s = serial_notify ?s" using Q(1) S(2) by (simp add: input_putc_def)
  moreover have "\<exists>s'. serial_notify ?s = Some s' \<and> sdev_ok s' \<and> inbuf s' = q \<and> txq s' = txq s \<and> xmitted s' = xmitted s \<and> smode s' = smode s"
    using ok' Q(5) by (cases "smode s = QUEUE") (simp_all add: serial_notify_def write_ier_run, simp_all add: xmitted_def)
  ultimately show ?thesis using that Q(3) by auto
qed

lemma recv_loop_run:
  "sdev_ok s \<Longrightarrow> 63 < n + q_len (inbuf s) \<Longrightarrow>
   \<exists>s' rs. recv_loop n s = Some s' \<and> sdev_ok s' \<and> contents_of (inbuf s') = contents_of (inbuf s) @ rs \<and> txq s' = txq s \<and> xmitted s' = xmitted s"
proof (induction n arbitrary: s)
  case 0
  then show ?case using q_len_less [of "inbuf s"] by simp
next
  case (Suc n)
  have f: "input_full s = Some (q_len (inbuf s) = 63)" using Suc.prems(1) q_full_iff [of "inbuf s"] by (simp add: input_full_def intq_full_def sdev_ok_def)
  obtain v p where v: "inb LSR_REG (io s) = (v, p)" by fastforce
  obtain c p' where c: "inb RBR_REG p = (c, p')" by fastforce
  have x: "sent THR_REG p' = xmitted s" "sent THR_REG p = xmitted s" using sent_inb [of THR_REG LSR_REG "io s"] sent_inb [of THR_REG RBR_REG p] v c by (simp_all add: xmitted_def)
  show ?case
  proof (cases "q_len (inbuf s) = 63 \<or> v AND LSR_DR = 0")
    case True
    then show ?thesis using f v x Suc.prems(1) by (cases "q_len (inbuf s) = 63") (auto simp: xmitted_def)
  next
    case False
    obtain s1 where s1: "input_putc c (s\<lparr>io := p'\<rparr>) = Some s1" "sdev_ok s1" "contents_of (inbuf s1) = contents_of (inbuf s) @ [c]" "txq s1 = txq s" "xmitted s1 = xmitted s"
      by (rule input_putc_run [of "s\<lparr>io := p'\<rparr>" c]) (use Suc.prems(1) False x in \<open>auto simp: xmitted_def\<close>)
    have "63 < n + q_len (inbuf s1)" using Suc.prems(2) s1(3) length_contents_of [of "inbuf s1"] length_contents_of [of "inbuf s"] by simp
    from Suc.IH [OF s1(2) this] obtain s' rs where "recv_loop n s1 = Some s'" "sdev_ok s'" "contents_of (inbuf s') = contents_of (inbuf s1) @ rs" "txq s' = txq s1" "xmitted s' = xmitted s1"
      by blast
    moreover have "recv_loop (Suc n) s = recv_loop n s1" using False f v c s1(1) by simp
    ultimately show ?thesis using s1 by auto
  qed
qed

lemma xmit_getc:
  assumes ok: "sdev_ok s" and c: "contents_of (txq s) = c # cs"
  obtains q k where "intq_getc (txq s) (krn s) = Some (Some c, q, k)" "contents_of q = cs" "\<And>p. sdev_ok (s\<lparr>txq := q, krn := k, io := p\<rparr>)"
    "q_len q < q_len (txq s)"
proof -
  have S: "intq_wf (txq s)" "\<not> intr_on (krn s)" "wakeable (krn s) (not_full (txq s))" "wakeable (krn s) (not_empty (inbuf s))"
    using ok by (simp_all add: sdev_ok_def)
  obtain q k where Q: "intq_getc (txq s) (krn s) = Some (Some c, q, k)" "intq_wf q" "contents_of q = cs" "not_full q = 0"
      "\<not> intr_on k" "\<forall>u. u \<noteq> not_full (txq s) \<longrightarrow> threads k u = threads (krn s) u"
    by (rule intq_getc_run [OF S(1) c S(2,3)])
  have "wakeable k (not_empty (inbuf s))" using S(4) Q(6) ok by (auto simp: wakeable_def sdev_ok_def)
  then have "sdev_ok (s\<lparr>txq := q, krn := k\<rparr>)" using ok Q by (auto simp: sdev_ok_def wakeable_def)
  then have "sdev_ok (s\<lparr>txq := q, krn := k, io := p\<rparr>)" for p by simp
  moreover have "q_len q < q_len (txq s)" using Q(3) c length_contents_of [of q] length_contents_of [of "txq s"] by simp
  ultimately show ?thesis using that Q by blast
qed

lemma xmit_loop_run:
  "sdev_ok s \<Longrightarrow> q_len (txq s) < n \<Longrightarrow>
   \<exists>s' ts. xmit_loop n s = Some s' \<and> sdev_ok s' \<and> contents_of (txq s) = ts @ contents_of (txq s') \<and> xmitted s' = xmitted s @ ts \<and> inbuf s' = inbuf s"
proof (induction n arbitrary: s)
  case (Suc n)
  have e: "intq_empty (txq s) (krn s) = Some (contents_of (txq s) = [])" using Suc.prems(1) q_empty_iff [of "txq s"] by (simp add: intq_empty_def sdev_ok_def)
  obtain v p where v: "inb LSR_REG (io s) = (v, p)" by fastforce
  have x: "sent THR_REG p = xmitted s" using sent_inb [of THR_REG LSR_REG "io s"] v by (simp add: xmitted_def)
  show ?case
  proof (cases "contents_of (txq s) = [] \<or> v AND LSR_THRE = 0")
    case True
    then show ?thesis using e v x Suc.prems(1) by (cases "contents_of (txq s) = []") (auto simp: xmitted_def)
  next
    case False
    then obtain c cs where c: "contents_of (txq s) = c # cs" by (cases "contents_of (txq s)") auto
    obtain q k where Q: "intq_getc (txq s) (krn s) = Some (Some c, q, k)" "contents_of q = cs" "\<And>p. sdev_ok (s\<lparr>txq := q, krn := k, io := p\<rparr>)" "q_len q < q_len (txq s)"
      by (rule xmit_getc [OF Suc.prems(1) c]) blast
    let ?s = "s\<lparr>txq := q, krn := k, io := outb THR_REG c p\<rparr>"
    have "q_len (txq ?s) < n" using Q(4) Suc.prems(2) by simp
    from Suc.IH [OF Q(3) this] obtain s' ts where I: "xmit_loop n ?s = Some s'" "sdev_ok s'" "contents_of q = ts @ contents_of (txq s')" "xmitted s' = xmitted ?s @ ts" "inbuf s' = inbuf s"
      by auto
    have "xmit_loop (Suc n) s = xmit_loop n ?s" using False e v Q(1) by simp
    moreover have "xmitted ?s = xmitted s @ [c]" using x by (simp add: xmitted_def)
    ultimately show ?thesis using I c Q(2) by (intro exI [of _ s'] exI [of _ "c # ts"]) simp
  qed
qed simp


text \<open>A port that always has a byte and is always ready.\<close>

definition ex_sdev :: sdev where
  "ex_sdev = \<lparr>krn = ex_kernel\<lparr>intr_on := False\<rparr>, inbuf = ex_intq, smode = QUEUE, txq = ex_intq\<lparr>not_empty := 0\<rparr>,
     io = \<lparr>dev_in = (\<lambda>n p. 0x21), reads = 0, writes = []\<rparr>, registered = {}\<rparr>"


end
