(* ===== verification/Keyboard.thy ===== *)
theory Keyboard
  imports Serial Stdlib
begin

text \<open>
  The keyboard interrupt handler of devices/kbd.c: scan codes, the shift state, and the characters put into the
  input buffer.  \<^verbatim>\<open>shutdown_reboot\<close> does not return.
\<close>

section \<open>Keymaps\<close>

definition DATA_REG :: u16 where "DATA_REG = 0x60"

record keymap =
  first_scancode :: nat
  chars :: "u8 list"

definition str :: "string \<Rightarrow> u8 list" where
  "str s = map (\<lambda>c. of_nat (of_char c)) s"

definition km :: "nat \<Rightarrow> u8 list \<Rightarrow> keymap" where
  "km c s = \<lparr>first_scancode = c, chars = s\<rparr>"

text \<open>The tables end with an entry whose scan code is 0.\<close>

definition invariant_keymap :: "keymap list" where
  "invariant_keymap = [km 0x01 [27], km 0x0e [8], km 0x0f (9 # str ''QWERTYUIOP''), km 0x1c [13], km 0x1e (str ''ASDFGHJKL''),
     km 0x2c (str ''ZXCVBNM''), km 0x37 (str ''*''), km 0x39 (str '' ''), km 0x53 [127], km 0 []]"

definition unshifted_keymap :: "keymap list" where
  "unshifted_keymap = [km 0x02 (str ''1234567890-=''), km 0x1a (str ''[]''), km 0x27 [59, 39, 96], km 0x2b [92], km 0x33 (str '',./''), km 0 []]"

definition shifted_keymap :: "keymap list" where
  "shifted_keymap = [km 0x02 (str ''!@#$%^&*()_+''), km 0x1a (str ''{}''), km 0x27 [58, 34, 126], km 0x2b (str ''|''), km 0x33 (str ''<>?''), km 0 []]"

fun map_key :: "keymap list \<Rightarrow> nat \<Rightarrow> u8 option" where
  "map_key [] scancode = None"
| "map_key (k # ks) scancode = (
     if first_scancode k = 0 then None
     else if first_scancode k \<le> scancode \<and> scancode < first_scancode k + length (chars k) then Some (chars k ! (scancode - first_scancode k))
     else map_key ks scancode)"

section \<open>The handler\<close>

record kbd =
  left_shift :: bool
  right_shift :: bool
  left_alt :: bool
  right_alt :: bool
  left_ctrl :: bool
  right_ctrl :: bool
  caps_lock :: bool
  key_cnt :: u64

text \<open>The table of shift keys: the variable that each of them sets.\<close>

definition shift_key :: "nat \<Rightarrow> bool \<Rightarrow> kbd \<Rightarrow> kbd" where
  "shift_key code v b = (
     if code = 0x2a then b\<lparr>left_shift := v\<rparr> else if code = 0x36 then b\<lparr>right_shift := v\<rparr>
     else if code = 0x38 then b\<lparr>left_alt := v\<rparr> else if code = 0xe038 then b\<lparr>right_alt := v\<rparr>
     else if code = 0x1d then b\<lparr>left_ctrl := v\<rparr> else if code = 0xe01d then b\<lparr>right_ctrl := v\<rparr> else b)"

text \<open>The character for a key that is pressed, after Ctrl, Shift, Caps Lock and Alt.\<close>

definition key_char :: "bool \<Rightarrow> bool \<Rightarrow> bool \<Rightarrow> bool \<Rightarrow> u8 \<Rightarrow> u8" where
  "key_char shift ctrl alt caps c = (
     let c = (if ctrl \<and> 0x40 \<le> c \<and> c < 0x60 then c - 0x40
              else if shift = caps then word_of_int (tolower (uint c)) else c)
     in if alt then c + 0x80 else c)"

definition read_code :: "ports \<Rightarrow> u32 \<times> ports" where
  "read_code p = (let (v, p) = inb DATA_REG p; code = ucast v :: u32
     in if code = 0xe0 then (let (v, p) = inb DATA_REG p in (push_bit 8 code OR ucast v, p)) else (code, p))"

definition lookup_key :: "bool \<Rightarrow> nat \<Rightarrow> u8 option" where
  "lookup_key shift code = (case map_key invariant_keymap code of
       Some c \<Rightarrow> Some c
     | None \<Rightarrow> map_key (if shift then shifted_keymap else unshifted_keymap) code)"

definition keyboard_interrupt :: "kbd \<Rightarrow> sdev \<Rightarrow> (kbd \<times> sdev) option" where
  "keyboard_interrupt b s = do {
     let shift = (left_shift b \<or> right_shift b);
     let alt = (left_alt b \<or> right_alt b);
     let ctrl = (left_ctrl b \<or> right_ctrl b);
     let (code, p) = read_code (io s);
     let s = s\<lparr>io := p\<rparr>;
     let release = (code AND 0x80 \<noteq> 0);
     let code = unat (code AND NOT 0x80);
     if code = 0x3a then Some (if release then b else b\<lparr>caps_lock := \<not> caps_lock b\<rparr>, s)
     else case lookup_key shift code of
       Some c \<Rightarrow>
         if release then Some (b, s)
         else do {
           ASSERT (\<not> (c = 127 \<and> ctrl \<and> alt));
           let c = key_char shift ctrl alt (caps_lock b) c;
           f \<leftarrow> input_full s;
           if f then Some (b, s)
           else do { s \<leftarrow> input_putc c s; Some (b\<lparr>key_cnt := key_cnt b + 1\<rparr>, s) }
         }
     | None \<Rightarrow> Some (shift_key code (\<not> release) b, s)
   }"

text \<open>Whatever the keyboard sends, the handler returns unless it reboots, and it adds at most one character to the input
  buffer and only when there is room.\<close>

lemma keyboard_interrupt_run:
  assumes ok: "sdev_ok s" and nr: "\<not> ((left_alt b \<or> right_alt b) \<and> (left_ctrl b \<or> right_ctrl b))"
  shows "\<exists>b' s' cs. keyboard_interrupt b s = Some (b', s') \<and> sdev_ok s' \<and> contents_of (inbuf s') = contents_of (inbuf s) @ cs \<and> length cs \<le> 1 \<and>
    key_cnt b' = key_cnt b + of_nat (length cs)"
proof -
  obtain code p where c: "read_code (io s) = (code, p)" by fastforce
  let ?s = "s\<lparr>io := p\<rparr>" and ?shift = "left_shift b \<or> right_shift b" and ?n = "unat (code AND NOT 0x80)"
  have ok': "sdev_ok ?s" using ok by simp
  have f: "input_full ?s = Some (q_len (inbuf s) = 63)" using ok q_full_iff [of "inbuf s"] by (simp add: input_full_def intq_full_def sdev_ok_def)
  have sk: "key_cnt (shift_key n v b) = key_cnt b" for n v by (simp add: shift_key_def)
  show ?thesis
  proof (cases "lookup_key ?shift ?n")
    case None
    then show ?thesis using c ok' sk by (auto simp: keyboard_interrupt_def Let_def)
  next
    case (Some k)
    show ?thesis
    proof (cases "?n = 0x3a \<or> code AND 0x80 \<noteq> 0 \<or> q_len (inbuf s) = 63")
      case True
      then show ?thesis using c ok' Some f nr by (auto simp: keyboard_interrupt_def Let_def)
    next
      case False
      let ?c = "key_char ?shift (left_ctrl b \<or> right_ctrl b) (left_alt b \<or> right_alt b) (caps_lock b) k"
      obtain s' where "input_putc ?c ?s = Some s'" "sdev_ok s'" "contents_of (inbuf s') = contents_of (inbuf ?s) @ [?c]"
        by (rule input_putc_run [OF ok', of ?c]) (use False in auto)
      then show ?thesis using c Some f nr False by (intro exI [of _ "b\<lparr>key_cnt := key_cnt b + 1\<rparr>"] exI [of _ s'] exI [of _ "[?c]"]) (auto simp: keyboard_interrupt_def Let_def)
    qed
  qed
qed

end
