(* ===== verification/Malloc.thy ===== *)
theory Malloc
  imports Palloc
begin

text \<open>
  The block allocator of threads/malloc.c.  Free lists are sequences of block addresses and the headers of
  the arenas are kept by page address; the bytes of the blocks are in the memory of the machine.  The lock of a
  descriptor is held around its use.
\<close>

unbundle bit_operations_syntax

section \<open>Data\<close>

record desc =
  d_block_size :: nat
  blocks_per_arena :: nat
  free_list :: "u32 list"

text \<open>\<open>a_desc\<close> is the index of the owning descriptor, \<open>None\<close> the null pointer of a big block.\<close>

record arena =
  a_magic :: u32
  a_desc :: "nat option"
  free_cnt :: nat

record heap =
  descs :: "desc list"
  arenas :: "u32 \<Rightarrow> arena option"
  hmach :: machine

definition ARENA_MAGIC :: u32 where
  "ARENA_MAGIC = 0x9a548eed"

definition ARENA_SIZE :: nat where
  "ARENA_SIZE = 12"

section \<open>Operations\<close>

function malloc_init_loop :: "nat \<Rightarrow> desc list \<Rightarrow> desc list option" where
  "malloc_init_loop block_size ds = (
     if 0 < block_size \<and> block_size < PGSIZE div 2 then do {
       let ds = ds @ [\<lparr>d_block_size = block_size, blocks_per_arena = (PGSIZE - ARENA_SIZE) div block_size, free_list = []\<rparr>];
       ASSERT (length ds \<le> 10);
       malloc_init_loop (block_size * 2) ds
     } else Some ds)"
  by pat_completeness auto
termination
  by (relation "measure (\<lambda>(b, ds). 4096 - b)") auto

declare malloc_init_loop.simps [simp del]

definition malloc_init :: "heap \<Rightarrow> heap option" where
  "malloc_init h = do { ds \<leftarrow> malloc_init_loop 16 (descs h); Some (h\<lparr>descs := ds\<rparr>) }"

definition desc_at :: "heap \<Rightarrow> nat \<Rightarrow> desc option" where
  "desc_at h i = aread (descs h) i"

definition block_to_arena :: "u32 \<Rightarrow> heap \<Rightarrow> (u32 \<times> arena) option" where
  "block_to_arena b h = do {
     let a = pg_round_down b;
     ASSERT (a \<noteq> 0);
     ar \<leftarrow> arenas h a;
     ASSERT (a_magic ar = ARENA_MAGIC);
     (case a_desc ar of
        None \<Rightarrow> ASSERT (unat (pg_ofs b) = ARENA_SIZE)
      | Some i \<Rightarrow> do { d \<leftarrow> desc_at h i; ASSERT (unat (pg_ofs b - of_nat ARENA_SIZE) mod d_block_size d = 0) });
     Some (a, ar)
   }"

definition arena_to_block :: "u32 \<Rightarrow> nat \<Rightarrow> heap \<Rightarrow> u32 option" where
  "arena_to_block a idx h = do {
     ASSERT (a \<noteq> 0);
     ar \<leftarrow> arenas h a;
     ASSERT (a_magic ar = ARENA_MAGIC);
     i \<leftarrow> a_desc ar;
     d \<leftarrow> desc_at h i;
     ASSERT (idx < blocks_per_arena d);
     Some (a + of_nat ARENA_SIZE + of_nat (idx * d_block_size d))
   }"

definition set_free_list :: "nat \<Rightarrow> u32 list \<Rightarrow> heap \<Rightarrow> heap" where
  "set_free_list i l h = h\<lparr>descs := (descs h)[i := (descs h ! i)\<lparr>free_list := l\<rparr>]\<rparr>"

definition set_arena :: "u32 \<Rightarrow> arena \<Rightarrow> heap \<Rightarrow> heap" where
  "set_arena a ar h = h\<lparr>arenas := (arenas h)(a \<mapsto> ar)\<rparr>"

text \<open>The loop that adds the blocks of a new arena to the free list, from block \<open>i\<close> on; \<open>n\<close> rounds are left.\<close>

primrec add_blocks :: "u32 \<Rightarrow> nat \<Rightarrow> nat \<Rightarrow> nat \<Rightarrow> heap \<Rightarrow> heap option" where
  "add_blocks a di i 0 h = Some h"
| "add_blocks a di i (Suc n) h = do {
     b \<leftarrow> arena_to_block a i h;
     d \<leftarrow> desc_at h di;
     add_blocks a di (i + 1) n (set_free_list di (free_list d @ [b]) h)
   }"

text \<open>The first descriptor whose blocks are large enough.\<close>

definition find_desc :: "nat \<Rightarrow> heap \<Rightarrow> nat option" where
  "find_desc sz h = find_from (\<lambda>i. d_block_size (descs h ! i) \<ge> sz) 0 (length (descs h))"

definition malloc_big :: "nat \<Rightarrow> heap \<Rightarrow> (u32 \<times> heap) option" where
  "malloc_big sz h = do {
     let page_cnt = wrap32 (sz + ARENA_SIZE + PGSIZE - 1) div PGSIZE;
     (a, m) \<leftarrow> palloc_get_multiple 0 page_cnt (hmach h);
     let h = h\<lparr>hmach := m\<rparr>;
     if a = 0 then Some (0, h)
     else Some (a + of_nat ARENA_SIZE, set_arena a \<lparr>a_magic = ARENA_MAGIC, a_desc = None, free_cnt = page_cnt\<rparr> h)
   }"

text \<open>A new arena for descriptor \<open>i\<close> when its free list is empty; the flag is false when there is no page.\<close>

definition refill :: "nat \<Rightarrow> heap \<Rightarrow> (bool \<times> heap) option" where
  "refill i h = do {
     d \<leftarrow> desc_at h i;
     if free_list d = [] then do {
       (a, m) \<leftarrow> palloc_get_page 0 (hmach h);
       let h = h\<lparr>hmach := m\<rparr>;
       if a = 0 then Some (False, h)
       else do {
         h \<leftarrow> add_blocks a i 0 (blocks_per_arena d) (set_arena a \<lparr>a_magic = ARENA_MAGIC, a_desc = Some i, free_cnt = blocks_per_arena d\<rparr> h);
         Some (True, h)
       }
     } else Some (True, h)
   }"

text \<open>Taking the first block of the free list of descriptor \<open>i\<close>.\<close>

definition take_block :: "nat \<Rightarrow> heap \<Rightarrow> (u32 \<times> heap) option" where
  "take_block i h = do {
     d \<leftarrow> desc_at h i;
     (case free_list d of
        [] \<Rightarrow> None
      | b # bs \<Rightarrow> do {
          let h = set_free_list i bs h;
          (a, ar) \<leftarrow> block_to_arena b h;
          Some (b, set_arena a (ar\<lparr>free_cnt := wrap32 (free_cnt ar + 2 ^ 32 - 1)\<rparr>) h)
        })
   }"

definition kmalloc :: "nat \<Rightarrow> heap \<Rightarrow> (u32 \<times> heap) option" where
  "kmalloc sz h = (
     if sz = 0 then Some (0, h)
     else case find_desc sz h of
       None \<Rightarrow> malloc_big sz h
     | Some i \<Rightarrow> do {
         (ok, h) \<leftarrow> refill i h;
         if ok then take_block i h else Some (0, h)
       })"

definition calloc :: "nat \<Rightarrow> nat \<Rightarrow> heap \<Rightarrow> (u32 \<times> heap) option" where
  "calloc a b h = (
     let sz = wrap32 (a * b) in
     if sz < a \<or> sz < b then Some (0, h)
     else do {
       (p, h) \<leftarrow> kmalloc sz h;
       Some (p, if p \<noteq> 0 then h\<lparr>hmach := (hmach h)\<lparr>kmem := fill (kmem (hmach h)) p 0 sz\<rparr>\<rparr> else h)
     })"

definition block_size :: "u32 \<Rightarrow> heap \<Rightarrow> nat option" where
  "block_size b h = do {
     (a, ar) \<leftarrow> block_to_arena b h;
     (case a_desc ar of
        Some i \<Rightarrow> do { d \<leftarrow> desc_at h i; Some (d_block_size d) }
      | None \<Rightarrow> Some (wrap32 (PGSIZE * free_cnt ar + 2 ^ 32 - unat (pg_ofs b))))
   }"

text \<open>The loop that takes the blocks of an unused arena out of the free list.\<close>

primrec remove_blocks :: "u32 \<Rightarrow> nat \<Rightarrow> nat \<Rightarrow> nat \<Rightarrow> heap \<Rightarrow> heap option" where
  "remove_blocks a di i 0 h = Some h"
| "remove_blocks a di i (Suc n) h = do {
     b \<leftarrow> arena_to_block a i h;
     d \<leftarrow> desc_at h di;
     ASSERT (b \<in> set (free_list d));
     remove_blocks a di (i + 1) n (set_free_list di (remove1 b (free_list d)) h)
   }"

text \<open>Freeing the page of an arena destroys its header.\<close>

definition free_arena :: "u32 \<Rightarrow> nat \<Rightarrow> heap \<Rightarrow> heap option" where
  "free_arena a cnt h = do {
     m \<leftarrow> palloc_free_multiple a cnt (hmach h);
     Some (h\<lparr>hmach := m, arenas := (arenas h)(a := None)\<rparr>)
   }"

definition kfree :: "u32 \<Rightarrow> heap \<Rightarrow> heap option" where
  "kfree p h = (
     if p = 0 then Some h
     else do {
       (a, ar) \<leftarrow> block_to_arena p h;
       (case a_desc ar of
          Some i \<Rightarrow> do {
            d \<leftarrow> desc_at h i;
            let h = h\<lparr>hmach := (hmach h)\<lparr>kmem := fill (kmem (hmach h)) p 0xcc (d_block_size d)\<rparr>\<rparr>;
            let h = set_free_list i (p # free_list d) h;
            let cnt = wrap32 (free_cnt ar + 1);
            let h = set_arena a (ar\<lparr>free_cnt := cnt\<rparr>) h;
            if cnt \<ge> blocks_per_arena d then do {
              ASSERT (cnt = blocks_per_arena d);
              h \<leftarrow> remove_blocks a i 0 (blocks_per_arena d) h;
              free_arena a 1 h
            } else Some h
          }
        | None \<Rightarrow> free_arena a (free_cnt ar) h)
     })"

definition realloc :: "u32 \<Rightarrow> nat \<Rightarrow> heap \<Rightarrow> (u32 \<times> heap) option" where
  "realloc old_block new_size h = (
     if new_size = 0 then do { h \<leftarrow> kfree old_block h; Some (0, h) }
     else do {
       (new_block, h) \<leftarrow> kmalloc new_size h;
       if old_block \<noteq> 0 \<and> new_block \<noteq> 0 then do {
         old_size \<leftarrow> block_size old_block h;
         let min_size = (if new_size < old_size then new_size else old_size);
         h \<leftarrow> kfree old_block (h\<lparr>hmach := (hmach h)\<lparr>kmem := copy (kmem (hmach h)) new_block old_block min_size\<rparr>\<rparr>);
         Some (new_block, h)
       } else Some (new_block, h)
     })"

section \<open>Well-formed heaps\<close>

text \<open>The size and the number per arena of the blocks of descriptor \<open>i\<close>, and block \<open>j\<close> of an arena.\<close>

definition bsz :: "nat \<Rightarrow> nat" where "bsz i = 2 ^ (i + 4)"

definition bpa :: "nat \<Rightarrow> nat" where "bpa i = 4084 div bsz i"

definition blk :: "u32 \<Rightarrow> nat \<Rightarrow> nat \<Rightarrow> u32" where
  "blk a i j = a + of_nat ARENA_SIZE + of_nat (j * bsz i)"

definition fl :: "heap \<Rightarrow> nat \<Rightarrow> u32 list" where
  "fl h i = free_list (descs h ! i)"

definition npg :: "arena \<Rightarrow> nat" where
  "npg ar = (case a_desc ar of None \<Rightarrow> free_cnt ar | Some i \<Rightarrow> 1)"

definition pgs :: "u32 \<Rightarrow> arena \<Rightarrow> nat set" where
  "pgs a ar = {unat a div 4096..<unat a div 4096 + npg ar}"

definition run_of :: "machine \<Rightarrow> u32 \<Rightarrow> nat \<Rightarrow> bool" where
  "run_of m a cnt \<longleftrightarrow> 0 < cnt \<and> (\<exists>k. a = page_addr (base_no (get_pool False m) + k) \<and> k + cnt \<le> pool_pages (get_pool False m) \<and>
     (\<forall>j < cnt. pool_used (get_pool False m) (base_no (get_pool False m) + k + j)))"

definition descs_ok :: "heap \<Rightarrow> bool" where
  "descs_ok h \<longleftrightarrow> length (descs h) = 7 \<and> (\<forall>i < 7. d_block_size (descs h ! i) = bsz i \<and> blocks_per_arena (descs h ! i) = bpa i)"

definition pages_ok :: "heap \<Rightarrow> bool" where
  "pages_ok h \<longleftrightarrow> machine_wf (hmach h) \<and>
     (\<forall>a ar. arenas h a = Some ar \<longrightarrow> a_magic ar = ARENA_MAGIC \<and> run_of (hmach h) a (npg ar)) \<and>
     (\<forall>a ar b br. arenas h a = Some ar \<and> arenas h b = Some br \<and> a \<noteq> b \<longrightarrow> pgs a ar \<inter> pgs b br = {})"

definition free_idx :: "heap \<Rightarrow> u32 \<Rightarrow> nat \<Rightarrow> nat set" where
  "free_idx h a i = {j. j < bpa i \<and> blk a i j \<in> set (fl h i)}"

definition lists_ok :: "heap \<Rightarrow> bool" where
  "lists_ok h \<longleftrightarrow>
     (\<forall>i < 7. distinct (fl h i) \<and> (\<forall>b \<in> set (fl h i). \<exists>a ar j. arenas h a = Some ar \<and> a_desc ar = Some i \<and> j < bpa i \<and> b = blk a i j)) \<and>
     (\<forall>a ar i. arenas h a = Some ar \<and> a_desc ar = Some i \<longrightarrow> i < 7 \<and> free_cnt ar = card (free_idx h a i))"

definition heap_inv :: "heap \<Rightarrow> bool" where
  "heap_inv h \<longleftrightarrow> descs_ok h \<and> pages_ok h \<and> lists_ok h"

text \<open>The blocks that are handed out, with their sizes.\<close>

definition ablocks :: "heap \<Rightarrow> u32 \<Rightarrow> arena \<Rightarrow> (u32 \<times> nat) set" where
  "ablocks h a ar = (case a_desc ar of
       Some i \<Rightarrow> {(blk a i j, bsz i) | j. j < bpa i \<and> blk a i j \<notin> set (fl h i)}
     | None \<Rightarrow> {(a + of_nat ARENA_SIZE, 4096 * free_cnt ar - ARENA_SIZE)})"

definition live :: "heap \<Rightarrow> (u32 \<times> nat) set" where
  "live h = {b. \<exists>a ar. arenas h a = Some ar \<and> b \<in> ablocks h a ar}"

definition region :: "u32 \<times> nat \<Rightarrow> nat set" where
  "region b = {unat (fst b)..<unat (fst b) + snd b}"

lemma bpa_le: "j < bpa i \<Longrightarrow> 12 + (j + 1) * bsz i \<le> 4096"
proof -
  assume "j < bpa i"
  then have "(j + 1) * bsz i \<le> bpa i * bsz i" by (intro mult_right_mono) simp_all
  also have "\<dots> \<le> 4084" by (simp add: bpa_def)
  finally show ?thesis by simp
qed

lemma bsz_pos [simp]: "0 < bsz i"
  by (simp add: bsz_def)

lemma blk_ofs: "j < bpa i \<Longrightarrow> 12 + j * bsz i < 4096"
proof -
  assume "j < bpa i"
  then have "12 + (j * bsz i + bsz i) \<le> 4096" using bpa_le [of j i] by (simp add: add.commute)
  moreover have "0 < bsz i" by simp
  ultimately show ?thesis by linarith
qed

lemma bpa_pos: "i < 7 \<Longrightarrow> 0 < bpa i"
proof -
  assume "i < 7"
  then have "(2::nat) ^ (i + 4) \<le> 2 ^ 10" by (intro power_increasing) simp_all
  then show ?thesis by (simp add: bpa_def bsz_def div_greater_zero_iff)
qed

lemma bpa_bound: "bpa i \<le> 4084"
  by (simp add: bpa_def)

lemma run_ofD:
  assumes "machine_wf m" and "run_of m a cnt"
  obtains n where "a = page_addr n" "n + cnt \<le> 2 ^ 20" "0 < cnt" "786432 \<le> n" "unat a = 4096 * n"
proof -
  obtain k where k: "a = page_addr (base_no (get_pool False m) + k)" "k + cnt \<le> pool_pages (get_pool False m)" "0 < cnt"
    using assms(2) by (auto simp: run_of_def)
  note pw = machine_wf_pool [OF assms(1), of False]
  have "base_no (get_pool False m) + k + cnt \<le> 2 ^ 20" using pool_wf_bound [OF pw k(2)] by simp
  moreover have "786432 \<le> base_no (get_pool False m) + k" using base_no_pos [OF pw] by simp
  ultimately show ?thesis using that [of "base_no (get_pool False m) + k"] k unat_page_addr [of "base_no (get_pool False m) + k"] by simp
qed

lemma unat_add_ofs: "n < 2 ^ 20 \<Longrightarrow> x < 4096 \<Longrightarrow> unat (page_addr n + of_nat x) = 4096 * n + x"
proof -
  assume n: "n < 2 ^ 20" and x: "x < 4096"
  have "page_addr n + of_nat x = (of_nat (4096 * n + x) :: u32)" by (simp add: page_addr_def)
  moreover have "4096 * n + x < 2 ^ 32" using n x by simp
  ultimately show ?thesis using unat_of_nat32 by metis
qed

lemma blk_eq: "blk a i j = a + of_nat (12 + j * bsz i)"
  by (simp add: blk_def ARENA_SIZE_def)

lemma unat_blk:
  assumes "n < 2 ^ 20" and "j < bpa i"
  shows "unat (blk (page_addr n) i j) = 4096 * n + (12 + j * bsz i)"
  unfolding blk_eq by (intro unat_add_ofs assms(1) blk_ofs assms(2))

lemma page_of: "n < 2 ^ 20 \<Longrightarrow> x < 4096 \<Longrightarrow> pg_round_down (page_addr n + of_nat x) = page_addr n \<and> pg_ofs (page_addr n + of_nat x) = of_nat x"
proof -
  assume n: "n < 2 ^ 20" and x: "x < 4096"
  let ?b = "page_addr n + of_nat x"
  have u: "unat ?b = 4096 * n + x" using unat_add_ofs [OF n x] .
  have o: "pg_ofs ?b = of_nat x"
    using u x unat_pg_ofs [of ?b] by (intro word_unat_eq_iff [THEN iffD2]) (simp add: unat_of_nat32)
  have "(?b AND NOT PGMASK) + (?b AND PGMASK) = (?b AND NOT PGMASK) OR (?b AND PGMASK)"
    by (rule disjunctive_add_eq_or) (simp add: bit_eq_iff bit_simps)
  also have "\<dots> = ?b" by (simp add: bit_eq_iff bit_simps) blast
  finally have "pg_round_down ?b = ?b - pg_ofs ?b" unfolding pg_round_down_def pg_ofs_def by (simp add: eq_diff_eq)
  then show ?thesis using o by simp
qed

lemma blk_inj:
  assumes "n < 2 ^ 20" "n' < 2 ^ 20" "j < bpa i" "j' < bpa i"
  shows "blk (page_addr n) i j = blk (page_addr n') i j' \<longleftrightarrow> n = n' \<and> j = j'"
proof
  assume e: "blk (page_addr n) i j = blk (page_addr n') i j'"
  have x: "12 + j * bsz i < 4096" "12 + j' * bsz i < 4096" using blk_ofs assms(3,4) by simp_all
  have "page_addr n = page_addr n'" using page_of [OF assms(1) x(1)] page_of [OF assms(2) x(2)] e unfolding blk_eq by metis
  then have n: "n = n'" using page_addr_inj assms(1,2) by blast
  have "4096 * n + (12 + j * bsz i) = 4096 * n' + (12 + j' * bsz i)" using e unat_blk [OF assms(1,3)] unat_blk [OF assms(2,4)] by argo
  then have "j * bsz i = j' * bsz i" using n by linarith
  moreover have "bsz i \<noteq> 0" using bsz_pos [of i] by linarith
  ultimately show "n = n' \<and> j = j'" using n by simp
qed simp

section \<open>Blocks and arenas\<close>

lemma arenaD:
  assumes "pages_ok h" and "arenas h a = Some ar"
  obtains n where "a = page_addr n" "n + npg ar \<le> 2 ^ 20" "0 < npg ar" "786432 \<le> n" "unat a = 4096 * n" "n < 2 ^ 20" "a \<noteq> 0" "pgs a ar = {n..<n + npg ar}"
    "a_magic ar = ARENA_MAGIC" "run_of (hmach h) a (npg ar)"
proof -
  have m: "machine_wf (hmach h)" "run_of (hmach h) a (npg ar)" "a_magic ar = ARENA_MAGIC" using assms by (simp_all add: pages_ok_def)
  obtain n where n: "a = page_addr n" "n + npg ar \<le> 2 ^ 20" "0 < npg ar" "786432 \<le> n" "unat a = 4096 * n" by (rule run_ofD [OF m(1,2)])
  then have "a \<noteq> 0" by auto
  then show ?thesis using that n m by (simp add: pgs_def)
qed

lemma fl_blocks:
  assumes "heap_inv h" and "i < 7" and "b \<in> set (fl h i)"
  obtains a ar j where "arenas h a = Some ar" "a_desc ar = Some i" "j < bpa i" "b = blk a i j"
  using assms unfolding heap_inv_def lists_ok_def by metis

lemma desc_at_ok: "descs_ok h \<Longrightarrow> i < 7 \<Longrightarrow> desc_at h i = Some (descs h ! i) \<and> d_block_size (descs h ! i) = bsz i \<and> blocks_per_arena (descs h ! i) = bpa i"
  by (simp add: descs_ok_def desc_at_def)

lemma block_to_arena_small:
  assumes d: "descs_ok h" and p: "pages_ok h" and a: "arenas h a = Some ar" "a_desc ar = Some i" "j < bpa i" "i < 7"
  shows "block_to_arena (blk a i j) h = Some (a, ar)"
proof -
  obtain n where n: "a = page_addr n" "n < 2 ^ 20" "a \<noteq> 0" "a_magic ar = ARENA_MAGIC" by (rule arenaD [OF p a(1)])
  have x: "12 + j * bsz i < 4096" by (rule blk_ofs [OF a(3)])
  have q: "pg_round_down (blk a i j) = a" "pg_ofs (blk a i j) = of_nat (12 + j * bsz i)" using page_of [OF n(2) x] unfolding blk_eq n(1) by simp_all
  have "pg_ofs (blk a i j) - of_nat ARENA_SIZE = of_nat (j * bsz i)" unfolding q(2) by (simp add: ARENA_SIZE_def)
  moreover have "unat (of_nat (j * bsz i) :: u32) = j * bsz i" using x by (intro unat_of_nat32) simp
  ultimately have "unat (pg_ofs (blk a i j) - of_nat ARENA_SIZE) mod bsz i = 0" by simp
  then show ?thesis using q(1) n a desc_at_ok [OF d a(4)] by (simp add: block_to_arena_def)
qed

lemma block_to_arena_big:
  assumes p: "pages_ok h" and a: "arenas h a = Some ar" "a_desc ar = None"
  shows "block_to_arena (a + of_nat ARENA_SIZE) h = Some (a, ar)"
proof -
  obtain n where n: "a = page_addr n" "n < 2 ^ 20" "a \<noteq> 0" "a_magic ar = ARENA_MAGIC" by (rule arenaD [OF p a(1)])
  have "pg_round_down (a + of_nat 12) = a" "pg_ofs (a + of_nat 12) = of_nat 12" using page_of [OF n(2), of 12] unfolding n(1) by simp_all
  then show ?thesis using n a by (simp add: block_to_arena_def ARENA_SIZE_def)
qed

text \<open>A block lies in the pages of its arena.\<close>

lemma block_in_pages:
  assumes po: "pages_ok h" and a: "arenas h a = Some ar" and b: "b \<in> ablocks h a ar"
  obtains n where "unat a = 4096 * n" "pgs a ar = {n..<n + npg ar}" "0 < npg ar" "4096 * n \<le> unat (fst b)" "unat (fst b) + snd b \<le> 4096 * (n + npg ar)"
proof -
  obtain n where n: "a = page_addr n" "n < 2 ^ 20" "unat a = 4096 * n" "pgs a ar = {n..<n + npg ar}" "0 < npg ar" by (rule arenaD [OF po a])
  show ?thesis
  proof (cases "a_desc ar")
    case None
    then have "unat (fst b) = 4096 * n + 12" "snd b = 4096 * npg ar - 12"
      using b unat_add_ofs [OF n(2), of 12] n(1) by (simp_all add: ablocks_def npg_def ARENA_SIZE_def)
    then show ?thesis using that [OF n(3-5)] n(5) by simp
  next
    case (Some i)
    then obtain j where j: "j < bpa i" "b = (blk a i j, bsz i)" using b by (auto simp: ablocks_def)
    have "npg ar = 1" using Some by (simp add: npg_def)
    then show ?thesis using that [OF n(3-5)] unat_blk [OF n(2) j(1)] bpa_le [OF j(1)] j(2) n(1) by simp
  qed
qed

lemma small_disjoint:
  assumes "n < 2 ^ 20" "j < bpa i" "j' < bpa i" "j \<noteq> j'"
  shows "region (blk (page_addr n) i j, bsz i) \<inter> region (blk (page_addr n) i j', bsz i) = {}"
proof -
  have "(j + 1) * bsz i \<le> j' * bsz i \<or> (j' + 1) * bsz i \<le> j * bsz i"
    using assms(4) by (cases "j < j'") (auto intro!: mult_right_mono simp del: mult_Suc)
  then have "j * bsz i + bsz i \<le> j' * bsz i \<or> j' * bsz i + bsz i \<le> j * bsz i" by (simp add: add.commute)
  then show ?thesis using unat_blk [OF assms(1,2)] unat_blk [OF assms(1,3)] by (auto simp: region_def)
qed

lemma live_disjoint:
  assumes po: "pages_ok h" and b: "b \<in> live h" "b' \<in> live h" "b \<noteq> b'"
  shows "region b \<inter> region b' = {}"
proof -
  obtain a ar where a: "arenas h a = Some ar" "b \<in> ablocks h a ar" using b(1) by (auto simp: live_def)
  obtain a' ar' where a': "arenas h a' = Some ar'" "b' \<in> ablocks h a' ar'" using b(2) by (auto simp: live_def)
  show ?thesis
  proof (cases "a = a'")
    case False
    obtain n where A: "pgs a ar = {n..<n + npg ar}" "0 < npg ar" "4096 * n \<le> unat (fst b)" "unat (fst b) + snd b \<le> 4096 * (n + npg ar)"
      by (rule block_in_pages [OF po a])
    obtain n' where A': "pgs a' ar' = {n'..<n' + npg ar'}" "0 < npg ar'" "4096 * n' \<le> unat (fst b')" "unat (fst b') + snd b' \<le> 4096 * (n' + npg ar')"
      by (rule block_in_pages [OF po a'])
    have d: "{n..<n + npg ar} \<inter> {n'..<n' + npg ar'} = {}" using po a(1) a'(1) False A(1) A'(1) unfolding pages_ok_def by metis
    have "n + npg ar \<le> n' \<or> n' + npg ar' \<le> n"
    proof (rule ccontr)
      assume "\<not> ?thesis"
      then have "max n n' \<in> {n..<n + npg ar} \<inter> {n'..<n' + npg ar'}" using A(2) A'(2) by auto
      then show False using d by blast
    qed
    then have "4096 * (n + npg ar) \<le> 4096 * n' \<or> 4096 * (n' + npg ar') \<le> 4096 * n" by auto
    then show ?thesis using A(3,4) A'(3,4) by (auto simp: region_def)
  next
    case True
    then have ar: "ar' = ar" using a(1) a'(1) by simp
    obtain n where n: "a = page_addr n" "n < 2 ^ 20" by (rule arenaD [OF po a(1)])
    show ?thesis
    proof (cases "a_desc ar")
      case None
      then show ?thesis using a(2) a'(2) True ar b(3) by (simp add: ablocks_def)
    next
      case (Some i)
      then obtain j j' where "j < bpa i" "b = (blk a i j, bsz i)" "j' < bpa i" "b' = (blk a i j', bsz i)"
        using a(2) a'(2) True ar by (auto simp: ablocks_def)
      then show ?thesis using small_disjoint [OF n(2)] b(3) n(1) by (cases "j = j'") simp_all
    qed
  qed
qed

lemma ablocks_unique:
  assumes po: "pages_ok h" and a: "arenas h a = Some ar" "b \<in> ablocks h a ar" and a': "arenas h a' = Some ar'" "b \<in> ablocks h a' ar'"
  shows "a = a'"
proof (rule ccontr)
  assume ne: "a \<noteq> a'"
  obtain n where A: "pgs a ar = {n..<n + npg ar}" "0 < npg ar" "4096 * n \<le> unat (fst b)" "unat (fst b) + snd b \<le> 4096 * (n + npg ar)"
    by (rule block_in_pages [OF po a])
  obtain n' where A': "pgs a' ar' = {n'..<n' + npg ar'}" "4096 * n' \<le> unat (fst b)" "unat (fst b) + snd b \<le> 4096 * (n' + npg ar')"
    by (rule block_in_pages [OF po a'])
  have "0 < snd b"
  proof (cases "a_desc ar")
    case None
    then show ?thesis using a(2) A(2) by (simp add: ablocks_def npg_def ARENA_SIZE_def)
  next
    case (Some i)
    then show ?thesis using a(2) by (auto simp: ablocks_def)
  qed
  then have "unat (fst b) div 4096 \<in> pgs a ar \<inter> pgs a' ar'"
    unfolding A(1) A'(1) using A(3,4) A'(2,3) by (simp add: div_less_iff_less_mult less_eq_div_iff_mult_less_eq mult.commute)
  then show False using po a(1) a'(1) ne unfolding pages_ok_def by blast
qed

lemma live_nonnull: "pages_ok h \<Longrightarrow> (p, s) \<in> live h \<Longrightarrow> p \<noteq> 0"
proof -
  assume po: "pages_ok h" and "(p, s) \<in> live h"
  then obtain a ar where a: "arenas h a = Some ar" "(p, s) \<in> ablocks h a ar" by (auto simp: live_def)
  obtain m where "786432 \<le> m" "unat a = 4096 * m" by (rule arenaD [OF po a(1)])
  moreover obtain n where "unat a = 4096 * n" "4096 * n \<le> unat p" using block_in_pages [OF po a] by auto
  ultimately have "unat p \<noteq> 0" by linarith
  then show ?thesis by auto
qed

lemma fl_mach [simp]: "fl (h\<lparr>hmach := m\<rparr>) = fl h"
  by (simp add: fl_def fun_eq_iff)

lemma ablocks_fl: "fl h' = fl h \<Longrightarrow> ablocks h' a ar = ablocks h a ar"
  by (simp add: ablocks_def split: option.split)

lemma heap_fill [simp]:
  "heap_inv (h\<lparr>hmach := (hmach h)\<lparr>kmem := x\<rparr>\<rparr>) = heap_inv h" "live (h\<lparr>hmach := (hmach h)\<lparr>kmem := x\<rparr>\<rparr>) = live h"
  by (simp_all add: heap_inv_def descs_ok_def pages_ok_def lists_ok_def free_idx_def run_of_def live_def ablocks_fl [of "h\<lparr>hmach := (hmach h)\<lparr>kmem := x\<rparr>\<rparr>" h])

lemma fl_set [simp]: "descs_ok h \<Longrightarrow> i < 7 \<Longrightarrow> fl (set_free_list i l h) i' = (if i' = i then l else fl h i')"
  by (simp add: fl_def set_free_list_def descs_ok_def)

lemma set_frames [simp]:
  "descs (set_arena a ar h) = descs h" "hmach (set_arena a ar h) = hmach h" "arenas (set_arena a ar h) = (arenas h)(a \<mapsto> ar)"
  "arenas (set_free_list i l h) = arenas h" "hmach (set_free_list i l h) = hmach h" "fl (set_arena a ar h) = fl h" "length (descs (set_free_list i l h)) = length (descs h)"
  by (simp_all add: set_arena_def set_free_list_def fl_def fun_eq_iff)

lemma descs_ok_set [simp]: "i < 7 \<Longrightarrow> descs_ok (set_free_list i l h) = descs_ok h" "descs_ok (set_arena a ar h) = descs_ok h"
proof -
  have f: "d_block_size (descs (set_free_list i l h) ! k) = d_block_size (descs h ! k) \<and> blocks_per_arena (descs (set_free_list i l h) ! k) = blocks_per_arena (descs h ! k)" for k
    by (cases "k = i \<and> i < length (descs h)") (auto simp: set_free_list_def list_update_beyond)
  show "descs_ok (set_free_list i l h) = descs_ok h" by (simp add: descs_ok_def f)
qed (simp add: descs_ok_def)

text \<open>One block of one arena enters (\<open>put\<close>) or leaves the free list.\<close>

lemma relist:
  assumes inv: "heap_inv h" and a: "arenas h a = Some ar" "a_desc ar = Some i" and j: "j < bpa i"
    and L: "distinct l" "set l = (if put then insert (blk a i j) (set (fl h i)) else set (fl h i) - {blk a i j})"
    and c: "c = card (if put then insert j (free_idx h a i) else free_idx h a i - {j})"
    and h': "h' = set_arena a (ar\<lparr>free_cnt := c\<rparr>) (set_free_list i l h)"
  shows "heap_inv h'"
    and "ablocks h' a (ar\<lparr>free_cnt := c\<rparr>) = (if put then ablocks h a ar - {(blk a i j, bsz i)} else insert (blk a i j, bsz i) (ablocks h a ar))"
    and "\<And>a' ar'. a' \<noteq> a \<Longrightarrow> arenas h a' = Some ar' \<Longrightarrow> ablocks h' a' ar' = ablocks h a' ar'"
proof -
  have D: "descs_ok h" "pages_ok h" "lists_ok h" using inv by (simp_all add: heap_inv_def)
  have i: "i < 7" using D(3) a by (simp add: lists_ok_def)
  obtain n where n: "a = page_addr n" "n < 2 ^ 20" by (rule arenaD [OF D(2) a(1)])
  have fl': "fl h' i' = (if i' = i then l else fl h i')" for i' using D(1) i by (simp add: h')
  have inj: "blk a i j' = blk a i j \<longleftrightarrow> j' = j" if "j' < bpa i" for j' using blk_inj [OF n(2,2) that j] n(1) by simp
  have other: "blk a' i j' \<noteq> blk a i j" if o: "arenas h a' = Some ar'" "a' \<noteq> a" "j' < bpa i" for a' ar' j'
  proof -
    obtain n' where "a' = page_addr n'" "n' < 2 ^ 20" by (rule arenaD [OF D(2) o(1)])
    then show ?thesis using blk_inj [OF _ n(2) o(3) j] o(2) n(1) by auto
  qed
  have mem: "blk a i j' \<in> set l \<longleftrightarrow> (if put then j' = j \<or> blk a i j' \<in> set (fl h i) else j' \<noteq> j \<and> blk a i j' \<in> set (fl h i))" if "j' < bpa i" for j'
    using inj [OF that] L(2) by auto
  have mem': "blk a' i j' \<in> set l \<longleftrightarrow> blk a' i j' \<in> set (fl h i)" if "arenas h a' = Some ar'" "a' \<noteq> a" "j' < bpa i" for a' ar' j'
    using other [OF that] L(2) by auto
  have fi: "free_idx h' a i = (if put then insert j (free_idx h a i) else free_idx h a i - {j})"
    using mem j by (auto simp: free_idx_def fl')
  have fi': "free_idx h' a' i' = free_idx h a' i'" if "arenas h a' = Some ar'" "a' \<noteq> a" for a' ar' i'
    using mem' [OF that] by (auto simp: free_idx_def fl')
  have pg: "npg (ar\<lparr>free_cnt := c\<rparr>) = npg ar" "pgs a (ar\<lparr>free_cnt := c\<rparr>) = pgs a ar" using a(2) by (simp_all add: npg_def pgs_def)
  have "pages_ok h'"
    unfolding pages_ok_def
  proof (intro conjI allI impI)
    show "machine_wf (hmach h')" using D(2) by (simp add: pages_ok_def h')
    fix b br assume "arenas h' b = Some br"
    then show "a_magic br = ARENA_MAGIC" "run_of (hmach h') b (npg br)" using D(2) a(1) pg(1) by (auto simp: h' pages_ok_def split: if_splits)
  next
    fix b br b' br' assume "arenas h' b = Some br \<and> arenas h' b' = Some br' \<and> b \<noteq> b'"
    then show "pgs b br \<inter> pgs b' br' = {}" using D(2) a(1) pg(2) unfolding pages_ok_def h' by (auto split: if_splits)
  qed
  moreover have "lists_ok h'"
    unfolding lists_ok_def
  proof (intro conjI allI impI ballI)
    fix i' :: nat assume i': "i' < 7"
    show "distinct (fl h' i')" using D(3) i' L(1) by (simp add: fl' lists_ok_def)
    fix b assume b: "b \<in> set (fl h' i')"
    show "\<exists>a' ar' j'. arenas h' a' = Some ar' \<and> a_desc ar' = Some i' \<and> j' < bpa i' \<and> b = blk a' i' j'"
    proof (cases "b \<in> set (fl h i')")
      case True
      obtain a' ar' j' where "arenas h a' = Some ar'" "a_desc ar' = Some i'" "j' < bpa i'" "b = blk a' i' j'" by (rule fl_blocks [OF inv i' True])
      then show ?thesis using a by (cases "a' = a") (auto simp: h')
    next
      case False
      then have "i' = i" "b = blk a i j" using b L(2) by (auto simp: fl' split: if_splits)
      then show ?thesis using a j by (auto simp: h')
    qed
  next
    fix a' ar' i' assume x: "arenas h' a' = Some ar' \<and> a_desc ar' = Some i'"
    show "i' < 7" "free_cnt ar' = card (free_idx h' a' i')"
      using x D(3) a fi fi' c by (cases "a' = a"; auto simp: h' lists_ok_def)+
  qed
  ultimately show "heap_inv h'" using D(1) i by (simp add: heap_inv_def h')
  show "ablocks h' a (ar\<lparr>free_cnt := c\<rparr>) = (if put then ablocks h a ar - {(blk a i j, bsz i)} else insert (blk a i j, bsz i) (ablocks h a ar))"
    using mem inj j a(2) by (auto simp: ablocks_def fl')
  show "ablocks h' a' ar' = ablocks h a' ar'" if "a' \<noteq> a" "arenas h a' = Some ar'" for a' ar'
    using mem' [OF that(2,1)] by (cases "a_desc ar'") (auto simp: ablocks_def fl')
qed

section \<open>Taking and returning blocks\<close>

lemma live_other:
  assumes "arenas h' = (arenas h)(a \<mapsto> ar')" and "\<And>b br. b \<noteq> a \<Longrightarrow> arenas h b = Some br \<Longrightarrow> ablocks h' b br = ablocks h b br"
  shows "live h' = ablocks h' a ar' \<union> {x. \<exists>b br. b \<noteq> a \<and> arenas h b = Some br \<and> x \<in> ablocks h b br}"
  using assms by (auto simp: live_def split: if_splits)

lemma live_split: "arenas h a = Some ar \<Longrightarrow> live h = ablocks h a ar \<union> {x. \<exists>b br. b \<noteq> a \<and> arenas h b = Some br \<and> x \<in> ablocks h b br}"
  by (rule live_other) (simp_all add: fun_upd_idem)

lemma live_new:
  assumes "arenas h a = None" and "arenas h' = (arenas h)(a \<mapsto> ar')" and "\<And>b br. b \<noteq> a \<Longrightarrow> arenas h b = Some br \<Longrightarrow> ablocks h' b br = ablocks h b br"
  shows "live h' = ablocks h' a ar' \<union> live h"
proof -
  have "b \<noteq> a" if "arenas h b = Some br" for b br using that assms(1) by auto
  then have "{x. \<exists>b br. b \<noteq> a \<and> arenas h b = Some br \<and> x \<in> ablocks h b br} = live h"
    unfolding live_def by (intro Collect_cong ex_cong1) blast
  then show ?thesis using live_other [OF assms(2,3)] by simp
qed

lemma wrap_pred: "0 < x \<Longrightarrow> x < 2 ^ 32 \<Longrightarrow> wrap32 (x + 2 ^ 32 - 1) = x - 1"
proof -
  assume x: "0 < x" "x < 2 ^ 32"
  then have "x + 2 ^ 32 - 1 = (x - 1) + 2 ^ 32" by simp
  then show ?thesis using x by (simp only: wrap32_def mod_add_self2) simp
qed

lemma take_block_run:
  assumes inv: "heap_inv h" and i: "i < 7" and f: "fl h i = b # bs"
  obtains h' where "take_block i h = Some (b, h')" "heap_inv h'" "live h' = insert (b, bsz i) (live h)" "(b, bsz i) \<notin> live h" "hmach h' = hmach h"
proof -
  have D: "descs_ok h" "pages_ok h" "lists_ok h" using inv by (simp_all add: heap_inv_def)
  have ds: "distinct (fl h i)" using D(3) i by (simp add: lists_ok_def)
  obtain a ar j where a: "arenas h a = Some ar" "a_desc ar = Some i" "j < bpa i" "b = blk a i j" by (rule fl_blocks [OF inv i, of b]) (use f in simp)
  have j: "j \<in> free_idx h a i" using a f by (simp add: free_idx_def)
  have fin: "finite (free_idx h a i)" by (simp add: free_idx_def)
  have c: "free_cnt ar = card (free_idx h a i)" using D(3) a by (simp add: lists_ok_def)
  have "card (free_idx h a i) \<le> card {..<bpa i}" by (rule card_mono) (auto simp: free_idx_def)
  then have "0 < free_cnt ar" "free_cnt ar < 2 ^ 32" using j fin bpa_bound [of i] by (auto simp: c card_gt_0_iff)
  then have wr: "wrap32 (free_cnt ar + 2 ^ 32 - 1) = card (free_idx h a i - {j})"
    using j fin wrap_pred [of "free_cnt ar"] by (simp add: c card_Diff_singleton)
  define h' where "h' = set_arena a (ar\<lparr>free_cnt := card (free_idx h a i - {j})\<rparr>) (set_free_list i bs h)"
  have "distinct bs" "set bs = set (fl h i) - {blk a i j}" using ds f a(4) by auto
  note R = relist [OF inv a(1,2,3), of bs False, simplified, OF this refl h'_def]
  have d: "desc_at h i = Some (descs h ! i)" "free_list (descs h ! i) = b # bs" using desc_at_ok [OF D(1) i] f by (simp_all add: fl_def)
  have "pages_ok (set_free_list i bs h)" using D(2) by (simp add: pages_ok_def)
  then have "block_to_arena b (set_free_list i bs h) = Some (a, ar)"
    unfolding a(4) by (intro block_to_arena_small) (use D(1) a i in simp_all)
  then have run: "take_block i h = Some (b, h')" using d wr by (simp add: take_block_def h'_def)
  have L: "live h' = ablocks h' a (ar\<lparr>free_cnt := card (free_idx h a i - {j})\<rparr>) \<union> {x. \<exists>b br. b \<noteq> a \<and> arenas h b = Some br \<and> x \<in> ablocks h b br}"
    by (rule live_other) (use R(3) in \<open>simp_all add: h'_def\<close>)
  then have lv: "live h' = insert (b, bsz i) (live h)" using live_split [OF a(1)] R(2) a(4) by simp
  have "(b, bsz i) \<notin> live h"
  proof
    assume "(b, bsz i) \<in> live h"
    then obtain a' ar' where a': "arenas h a' = Some ar'" "(b, bsz i) \<in> ablocks h a' ar'" by (auto simp: live_def)
    have "a' \<noteq> a"
    proof
      assume "a' = a"
      then have "(b, bsz i) \<in> ablocks h a ar" using a' a(1) by simp
      then show False using a f by (auto simp: ablocks_def)
    qed
    moreover have "a = a'"
      by (rule ablocks_unique [of h' a "ar\<lparr>free_cnt := card (free_idx h a i - {j})\<rparr>" "(b, bsz i)" a' ar'])
        (use R a a' calculation in \<open>simp_all add: heap_inv_def h'_def\<close>)
    ultimately show False by simp
  qed
  then show ?thesis using that [OF run R(1) lv] by (simp add: h'_def)
qed

section \<open>Pages of arenas\<close>

lemma run_pages:
  assumes "machine_wf m" and "run_of m a cnt" and "unat a div 4096 \<le> x" and "x < unat a div 4096 + cnt"
  shows "pool_used (get_pool False m) x"
proof -
  let ?b = "base_no (get_pool False m)"
  obtain k where k: "a = page_addr (?b + k)" "k + cnt \<le> pool_pages (get_pool False m)" "0 < cnt" "\<forall>j < cnt. pool_used (get_pool False m) (?b + k + j)"
    using assms(2) by (auto simp: run_of_def)
  have "?b + k < 2 ^ 20" using pool_wf_bound [OF machine_wf_pool [OF assms(1)] k(2)] k(3) by simp
  then have "unat a div 4096 = ?b + k" using k(1) by (simp add: unat_page_addr)
  then show ?thesis using k(4) [rule_format, of "x - (?b + k)"] assms(3,4) by simp
qed

lemma run_of_keep:
  assumes m: "machine_wf m" and r: "run_of m a cnt" and p: "get_pool False m' = p'" "base_no p' = base_no (get_pool False m)" "pool_pages p' = pool_pages (get_pool False m)"
    and u: "\<And>x. unat a div 4096 \<le> x \<Longrightarrow> x < unat a div 4096 + cnt \<Longrightarrow> pool_used (get_pool False m) x \<Longrightarrow> pool_used p' x"
  shows "run_of m' a cnt"
proof -
  let ?b = "base_no (get_pool False m)"
  obtain k where k: "a = page_addr (?b + k)" "k + cnt \<le> pool_pages (get_pool False m)" "0 < cnt" "\<forall>j < cnt. pool_used (get_pool False m) (?b + k + j)"
    using r by (auto simp: run_of_def)
  have "?b + k < 2 ^ 20" using pool_wf_bound [OF machine_wf_pool [OF m] k(2)] k(3) by simp
  then have "unat a div 4096 = ?b + k" using k(1) by (simp add: unat_page_addr)
  then have "\<forall>j < cnt. pool_used p' (?b + k + j)" using u k(4) by simp
  then show ?thesis using k p by (auto simp: run_of_def)
qed

text \<open>A run of pages from the allocator is not part of any arena.\<close>

lemma new_run:
  assumes po: "pages_ok h" and cnt: "0 < cnt"
  obtains (none) "palloc_get_multiple 0 cnt (hmach h) = Some (0, hmach h)"
    | (some) a m where "palloc_get_multiple 0 cnt (hmach h) = Some (a, m)" "a \<noteq> 0" "arenas h a = None"
        "\<forall>ar. a_magic ar = ARENA_MAGIC \<and> npg ar = cnt \<longrightarrow> pages_ok (set_arena a ar (h\<lparr>hmach := m\<rparr>))" "kmem m = kmem (hmach h)"
proof (cases rule: palloc_get_cases [OF _ cnt, of "hmach h" 0 False])
  show "machine_wf (hmach h)" using po by (simp add: pages_ok_def)
next
  case 4
  then show ?thesis using none by simp
next
  case (5 k p')
  let ?p = "get_pool False (hmach h)"
  let ?m = "set_pool False p' (hmach h)"
  define a where "a = page_addr (base_no ?p + k)"
  have mw: "machine_wf (hmach h)" using po by (simp add: pages_ok_def)
  note pw = machine_wf_pool [OF mw, of False]
  have bd: "base_no ?p + k + cnt \<le> 2 ^ 20" using pool_wf_bound [OF pw 5(2)] by simp
  then have ua: "unat a = 4096 * (base_no ?p + k)" using cnt by (simp add: a_def unat_page_addr)
  have run: "palloc_get_multiple 0 cnt (hmach h) = Some (a, ?m)" using 5(1) by (simp add: a_def set_pool_def get_pool_def)
  have used: "pool_used p' x = (base_no ?p + k \<le> x \<and> x < base_no ?p + k + cnt \<or> pool_used ?p x)" for x
    using marked_used [OF 5(3,2), of x] by auto
  have pb: "base_no p' = base_no ?p" "pool_pages p' = pool_pages ?p" using marked_wf [OF pw 5(3)] 5(3) by (simp_all add: marked_def)
  have keep: "run_of ?m b c" if "run_of (hmach h) b c" for b c
    by (rule run_of_keep [OF mw that, where p' = p']) (use used pb in simp_all)
  have newrun: "run_of ?m a cnt" using cnt 5(2) used pb by (auto simp: run_of_def a_def intro!: exI [of _ k])
  have fresh: "{unat a div 4096..<unat a div 4096 + cnt} \<inter> pgs b br = {}" if b: "arenas h b = Some br" for b br
  proof (rule ccontr)
    assume "\<not> ?thesis"
    then obtain x where x: "base_no ?p + k \<le> x" "x < base_no ?p + k + cnt" "x \<in> pgs b br" using ua by auto
    have "run_of (hmach h) b (npg br)" using po b by (simp add: pages_ok_def)
    then have "pool_used ?p x" using run_pages [OF mw] x(3) by (simp add: pgs_def)
    moreover have "x - (base_no ?p + k) < cnt" using x(1,2) by linarith
    ultimately show False using 5(4) [of "x - (base_no ?p + k)"] x(1) by simp
  qed
  have "arenas h a = None"
  proof (rule ccontr)
    assume "arenas h a \<noteq> None"
    then obtain br where br: "arenas h a = Some br" by auto
    have "0 < npg br" by (rule arenaD [OF po br])
    then show False using fresh [OF br] cnt by (auto simp: pgs_def)
  qed
  moreover have "pages_ok (set_arena a ar (h\<lparr>hmach := ?m\<rparr>))" if ar: "a_magic ar = ARENA_MAGIC" "npg ar = cnt" for ar
    unfolding pages_ok_def
  proof (intro conjI allI impI)
    show "machine_wf (hmach (set_arena a ar (h\<lparr>hmach := ?m\<rparr>)))" using machine_wf_marked [OF mw 5(3)] by simp
    fix b br assume b: "arenas (set_arena a ar (h\<lparr>hmach := ?m\<rparr>)) b = Some br"
    show "a_magic br = ARENA_MAGIC" "run_of (hmach (set_arena a ar (h\<lparr>hmach := ?m\<rparr>))) b (npg br)"
      using b ar newrun keep po by (auto simp: pages_ok_def split: if_splits)
  next
    fix b br b' br'
    assume x: "arenas (set_arena a ar (h\<lparr>hmach := ?m\<rparr>)) b = Some br \<and> arenas (set_arena a ar (h\<lparr>hmach := ?m\<rparr>)) b' = Some br' \<and> b \<noteq> b'"
    have "pgs a ar = {unat a div 4096..<unat a div 4096 + cnt}" using ar by (simp add: pgs_def)
    moreover have "pgs b br \<inter> pgs b' br' = {}" if "arenas h b = Some br" "arenas h b' = Some br'" "b \<noteq> b'" using that po unfolding pages_ok_def by blast
    ultimately show "pgs b br \<inter> pgs b' br' = {}" using x fresh [of b br] fresh [of b' br'] by (auto split: if_splits)
  qed
  moreover have "a \<noteq> 0" using ua base_no_pos [OF pw] by auto
  ultimately show ?thesis using some [OF run] by simp
qed simp_all


lemma set_free_list_again [simp]: "i < length (descs h) \<Longrightarrow> set_free_list i l (set_free_list i l' h) = set_free_list i l h"
  by (simp add: set_free_list_def)

lemma set_free_list_same [simp]: "set_free_list i (fl h i) h = h"
  by (simp add: set_free_list_def fl_def)

lemma arena_to_block_run:
  assumes "descs_ok h" and "di < 7" and "arenas h a = Some ar" "a_magic ar = ARENA_MAGIC" "a_desc ar = Some di" "a \<noteq> 0" and "j < bpa di"
  shows "arena_to_block a j h = Some (blk a di j)" "desc_at h di = Some (descs h ! di)" "free_list (descs h ! di) = fl h di"
  using assms desc_at_ok [of h di] by (simp_all add: arena_to_block_def blk_def fl_def)

lemma add_blocks_run:
  assumes "descs_ok h" and "di < 7" and "arenas h a = Some ar" "a_magic ar = ARENA_MAGIC" "a_desc ar = Some di" "a \<noteq> 0" and "j + n \<le> bpa di"
  shows "add_blocks a di j n h = Some (set_free_list di (fl h di @ map (blk a di) [j..<j + n]) h)"
  using assms
proof (induction n arbitrary: j h)
  case (Suc n)
  have "j < bpa di" using Suc.prems(7) by simp
  note A = arena_to_block_run [OF Suc.prems(1-6) this]
  have "add_blocks a di (j + 1) n (set_free_list di (fl h di @ [blk a di j]) h) =
      Some (set_free_list di ((fl h di @ [blk a di j]) @ map (blk a di) [j + 1..<j + 1 + n]) (set_free_list di (fl h di @ [blk a di j]) h))"
    by (subst Suc.IH) (use Suc.prems in simp_all)
  moreover have "[j..<j + Suc n] = j # [j + 1..<j + 1 + n]" by (simp add: upt_rec)
  moreover have "di < length (descs h)" using Suc.prems by (simp add: descs_ok_def)
  ultimately show ?case using A by simp
qed simp

lemma remove_blocks_run:
  assumes "descs_ok h" and "di < 7" and "arenas h a = Some ar" "a_magic ar = ARENA_MAGIC" "a_desc ar = Some di" "a \<noteq> 0" and "j + n \<le> bpa di"
    and "distinct (fl h di)" and "\<And>k. j \<le> k \<Longrightarrow> k < j + n \<Longrightarrow> blk a di k \<in> set (fl h di)" and inj: "inj_on (blk a di) {..<bpa di}"
  shows "remove_blocks a di j n h = Some (set_free_list di (filter (\<lambda>b. b \<notin> blk a di ` {j..<j + n}) (fl h di)) h)"
  using assms(1-9)
proof (induction n arbitrary: j h)
  case (Suc n)
  have j: "j < bpa di" using Suc.prems(7) by simp
  note A = arena_to_block_run [OF Suc.prems(1-6) this]
  define l where "l = filter (\<lambda>b. b \<noteq> blk a di j) (fl h di)"
  have l: "remove1 (blk a di j) (fl h di) = l"
    using Suc.prems(8) by (simp add: l_def distinct_remove1_removeAll removeAll_filter_not_eq) (rule filter_cong, auto)
  have mem: "blk a di k \<in> set l" if "j + 1 \<le> k" "k < j + 1 + n" for k
    using that Suc.prems(7,9) inj_onD [OF inj, of k j] j by (auto simp: l_def)
  have "remove_blocks a di (j + 1) n (set_free_list di l h) =
      Some (set_free_list di (filter (\<lambda>b. b \<notin> blk a di ` {j + 1..<j + 1 + n}) l) (set_free_list di l h))"
    by (subst Suc.IH) (use Suc.prems mem in \<open>simp_all add: l_def\<close>)
  moreover have "di < length (descs h)" using Suc.prems by (simp add: descs_ok_def)
  moreover have "{j..<j + Suc n} = insert j {j + 1..<j + 1 + n}" by auto
  ultimately show ?case using A l Suc.prems(9) [of j] by (simp add: l_def conj_commute)
qed simp

section \<open>Big blocks and new arenas\<close>

lemma big_arena:
  assumes inv: "heap_inv h" and new: "arenas h a = None" and ar: "a_desc ar = None"
    and po: "pages_ok (set_arena a ar (h\<lparr>hmach := m\<rparr>))"
  shows "heap_inv (set_arena a ar (h\<lparr>hmach := m\<rparr>))"
    and "live (set_arena a ar (h\<lparr>hmach := m\<rparr>)) = insert (a + of_nat ARENA_SIZE, 4096 * free_cnt ar - ARENA_SIZE) (live h)"
proof -
  let ?h = "set_arena a ar (h\<lparr>hmach := m\<rparr>)"
  have D: "descs_ok h" "lists_ok h" using inv by (simp_all add: heap_inv_def)
  have fi: "free_idx ?h b i = free_idx h b i" for b i by (simp add: free_idx_def)
  have "lists_ok ?h"
    unfolding lists_ok_def
  proof (intro conjI allI impI ballI)
    fix i :: nat assume i: "i < 7"
    show "distinct (fl ?h i)" using D(2) i by (simp add: lists_ok_def)
    fix b assume "b \<in> set (fl ?h i)"
    then have b: "b \<in> set (fl h i)" by simp
    obtain a' ar' j where "arenas h a' = Some ar'" "a_desc ar' = Some i" "j < bpa i" "b = blk a' i j" by (rule fl_blocks [OF inv i b])
    then show "\<exists>a' ar' j. arenas ?h a' = Some ar' \<and> a_desc ar' = Some i \<and> j < bpa i \<and> b = blk a' i j"
      using new by (intro exI [of _ a'] exI [of _ ar'] exI [of _ j]) auto
  next
    fix b br i assume "arenas ?h b = Some br \<and> a_desc br = Some i"
    then have "arenas h b = Some br \<and> a_desc br = Some i" using ar by (auto split: if_splits)
    then show "i < 7" "free_cnt br = card (free_idx ?h b i)" using D(2) fi by (simp_all add: lists_ok_def)
  qed
  then show "heap_inv ?h" using D(1) po by (simp add: heap_inv_def descs_ok_def)
  have bl: "ablocks ?h b br = ablocks h b br" for b br by (rule ablocks_fl) simp
  have "live ?h = ablocks ?h a ar \<union> live h" by (rule live_new) (simp_all add: bl new)
  then show "live ?h = insert (a + of_nat ARENA_SIZE, 4096 * free_cnt ar - ARENA_SIZE) (live h)"
    using ar by (simp add: ablocks_def)
qed

lemma blk_inj_on: "n < 2 ^ 20 \<Longrightarrow> inj_on (blk (page_addr n) i) {..<bpa i}"
  by (auto simp: inj_on_def blk_inj)

lemma small_arena:
  assumes inv: "heap_inv h" and new: "arenas h a = None" and i: "i < 7" and f: "fl h i = []"
    and ar: "a_desc ar = Some i" "free_cnt ar = bpa i" and po: "pages_ok (set_arena a ar (h\<lparr>hmach := m\<rparr>))"
  shows "heap_inv (set_free_list i (map (blk a i) [0..<bpa i]) (set_arena a ar (h\<lparr>hmach := m\<rparr>)))" (is "heap_inv ?h")
    and "live (set_free_list i (map (blk a i) [0..<bpa i]) (set_arena a ar (h\<lparr>hmach := m\<rparr>))) = live h"
proof -
  have D: "descs_ok h" "lists_ok h" using inv by (simp_all add: heap_inv_def)
  have dh: "descs_ok (h\<lparr>hmach := m\<rparr>)" using D(1) by (simp add: descs_ok_def)
  then have fl': "fl ?h i' = (if i' = i then map (blk a i) [0..<bpa i] else fl h i')" for i' using i by simp
  obtain n where n: "a = page_addr n" "n < 2 ^ 20" by (rule arenaD [OF po, of a ar]) simp_all
  have none: "blk b i j \<notin> set (fl ?h i)" if b: "arenas h b = Some br" "j < bpa i" for b br j
  proof
    assume "blk b i j \<in> set (fl ?h i)"
    then obtain j' where j': "j' < bpa i" "blk b i j = blk a i j'" by (auto simp: fl')
    have "b \<noteq> a" using b(1) new by auto
    obtain n' where "b = page_addr n'" "n' < 2 ^ 20" by (rule arenaD [of h b br]) (use inv b(1) in \<open>simp_all add: heap_inv_def\<close>)
    then show False using blk_inj [OF _ n(2) b(2) j'(1)] j'(2) n(1) \<open>b \<noteq> a\<close> by auto
  qed
  have fi: "free_idx ?h b i' = free_idx h b i'" if "arenas h b = Some br" for b br i'
    using none [OF that] f by (auto simp: free_idx_def fl')
  have fa: "free_idx ?h a i = {..<bpa i}" by (auto simp: free_idx_def fl')
  have "lists_ok ?h"
    unfolding lists_ok_def
  proof (intro conjI allI impI ballI)
    fix i' :: nat assume i': "i' < 7"
    have "inj_on (blk a i) {..<bpa i}" using blk_inj_on [OF n(2), of i] n(1) by simp
    then show "distinct (fl ?h i')" using D(2) i' by (simp add: lists_ok_def fl' distinct_map atLeast0LessThan)
    fix b assume b: "b \<in> set (fl ?h i')"
    show "\<exists>a' ar' j. arenas ?h a' = Some ar' \<and> a_desc ar' = Some i' \<and> j < bpa i' \<and> b = blk a' i' j"
    proof (cases "i' = i")
      case True
      then obtain j where "j < bpa i" "b = blk a i j" using b by (auto simp: fl')
      then show ?thesis using True ar(1) by (intro exI [of _ a] exI [of _ ar] exI [of _ j]) simp
    next
      case False
      then have b': "b \<in> set (fl h i')" using b by (simp add: fl')
      obtain a' ar' j where "arenas h a' = Some ar'" "a_desc ar' = Some i'" "j < bpa i'" "b = blk a' i' j" by (rule fl_blocks [OF inv i' b'])
      then show ?thesis using new by (intro exI [of _ a'] exI [of _ ar'] exI [of _ j]) auto
    qed
  next
    fix b br i' assume b: "arenas ?h b = Some br \<and> a_desc br = Some i'"
    show "i' < 7" "free_cnt br = card (free_idx ?h b i')"
      using b ar fi fa i D(2) by (cases "b = a"; auto simp: lists_ok_def)+
  qed
  moreover have "pages_ok ?h" using po by (simp add: pages_ok_def)
  ultimately show "heap_inv ?h" using i dh by (simp add: heap_inv_def)
  have bl: "ablocks ?h b br = ablocks h b br" if "arenas h b = Some br" for b br
    using none [OF that] f by (cases "a_desc br") (auto simp: ablocks_def fl')
  have "live ?h = ablocks ?h a ar \<union> live h" by (rule live_new) (simp_all add: bl new)
  then show "live ?h = live h" using ar by (auto simp: ablocks_def fl')
qed

lemma refill_run:
  assumes inv: "heap_inv h" and i: "i < 7"
  obtains (none) "refill i h = Some (False, h)"
    | (some) h' where "refill i h = Some (True, h')" "heap_inv h'" "live h' = live h" "fl h' i \<noteq> []" "kmem (hmach h') = kmem (hmach h)"
proof (cases "fl h i = []")
  case False
  then show ?thesis using some [of h] inv desc_at_ok [of h i] i by (simp add: refill_def heap_inv_def fl_def)
next
  case True
  have D: "descs_ok h" "pages_ok h" using inv by (simp_all add: heap_inv_def)
  note d = desc_at_ok [OF D(1) i]
  have b0: "0 < bpa i" using bpa_pos [OF i] .
  show ?thesis
  proof (cases rule: new_run [OF D(2) zero_less_one])
    case 1
    then show ?thesis using none d True by (simp add: refill_def palloc_get_page_def fl_def)
  next
    case (2 a m)
    define ar where "ar = \<lparr>a_magic = ARENA_MAGIC, a_desc = Some i, free_cnt = bpa i\<rparr>"
    let ?h = "set_arena a ar (h\<lparr>hmach := m\<rparr>)"
    have "pages_ok ?h" using 2(4) by (simp add: ar_def npg_def)
    note S = small_arena [OF inv 2(3) i True _ _ this]
    have "descs_ok ?h" using D(1) by (simp add: descs_ok_def)
    then have "add_blocks a i 0 (bpa i) ?h = Some (set_free_list i (fl ?h i @ map (blk a i) [0..<0 + bpa i]) ?h)"
      by (intro add_blocks_run [of _ _ _ ar] i) (simp_all add: ar_def 2(2))
    then have "refill i h = Some (True, set_free_list i (map (blk a i) [0..<bpa i]) ?h)"
      using 2(1,2) d True by (simp add: refill_def palloc_get_page_def fl_def ar_def)
    moreover have "fl (set_free_list i (map (blk a i) [0..<bpa i]) ?h) i \<noteq> []" using \<open>descs_ok ?h\<close> i b0 by simp
    ultimately show ?thesis using some S 2(5) by (simp add: ar_def)
  qed
qed


lemma find_desc_Some:
  assumes "descs_ok h" and "find_desc sz h = Some i"
  shows "i < 7 \<and> sz \<le> bsz i"
  using assms find_from_Some [of _ 0 _ i] unfolding find_desc_def descs_ok_def by fastforce

lemma malloc_big_run:
  assumes inv: "heap_inv h" and sz: "0 < sz" "sz + ARENA_SIZE + PGSIZE - 1 < 2 ^ 32"
  obtains (none) "malloc_big sz h = Some (0, h)"
    | (some) p s h' where "malloc_big sz h = Some (p, h')" "heap_inv h'" "p \<noteq> 0" "sz \<le> s" "live h' = insert (p, s) (live h)" "(p, s) \<notin> live h"
      "kmem (hmach h') = kmem (hmach h)"
proof -
  have po: "pages_ok h" using inv by (simp add: heap_inv_def)
  define cnt where "cnt = (sz + ARENA_SIZE + PGSIZE - 1) div PGSIZE"
  have c: "wrap32 (sz + ARENA_SIZE + PGSIZE - 1) div PGSIZE = cnt" using sz by (simp add: cnt_def wrap32_def)
  have c0: "sz + 12 \<le> 4096 * cnt" "0 < cnt" using sz(1) by (simp_all add: cnt_def ARENA_SIZE_def)
  show ?thesis
  proof (cases rule: new_run [OF po c0(2)])
    case 1
    then show ?thesis using none c by (simp add: malloc_big_def)
  next
    case (2 a m)
    define ar where "ar = \<lparr>a_magic = ARENA_MAGIC, a_desc = None, free_cnt = cnt\<rparr>"
    let ?h = "set_arena a ar (h\<lparr>hmach := m\<rparr>)" and ?b = "(a + of_nat ARENA_SIZE, 4096 * cnt - ARENA_SIZE)"
    have P: "pages_ok ?h" using 2(4) by (simp add: ar_def npg_def)
    have B: "heap_inv ?h" "live ?h = insert ?b (live h)" using big_arena [OF inv 2(3) _ P] by (simp_all add: ar_def)
    obtain n where n: "a = page_addr n" "n < 2 ^ 20" by (rule arenaD [OF P, of a ar]) simp_all
    have nz: "a + of_nat ARENA_SIZE \<noteq> 0" using unat_add_ofs [OF n(2), of 12] n(1) by (auto simp: ARENA_SIZE_def)
    have "?b \<notin> live h"
    proof
      assume "?b \<in> live h"
      then obtain a' ar' where a': "arenas h a' = Some ar'" "?b \<in> ablocks h a' ar'" by (auto simp: live_def)
      then have ne: "a' \<noteq> a" using 2(3) by auto
      have "?b \<in> ablocks ?h a' ar'" using a'(2) ablocks_fl [of ?h h] by simp
      moreover have "?b \<in> ablocks ?h a ar" by (simp add: ablocks_def ar_def)
      ultimately show False using ablocks_unique [OF P, of a' ar' ?b a ar] a'(1) ne by simp
    qed
    moreover have "malloc_big sz h = Some (a + of_nat ARENA_SIZE, ?h)" using 2(1,2) c by (simp add: malloc_big_def ar_def)
    ultimately show ?thesis using some [of "a + of_nat ARENA_SIZE" ?h "4096 * cnt - ARENA_SIZE"] B nz c0(1) 2(5) by (simp add: ARENA_SIZE_def)
  qed
qed

lemma kmalloc_run:
  assumes inv: "heap_inv h" and sz: "0 < sz" "sz + ARENA_SIZE + PGSIZE - 1 < 2 ^ 32"
  obtains (none) h' where "kmalloc sz h = Some (0, h')" "heap_inv h'" "live h' = live h" "kmem (hmach h') = kmem (hmach h)"
    | (some) p s h' where "kmalloc sz h = Some (p, h')" "heap_inv h'" "p \<noteq> 0" "sz \<le> s" "live h' = insert (p, s) (live h)" "(p, s) \<notin> live h"
      "kmem (hmach h') = kmem (hmach h)"
proof (cases "find_desc sz h")
  case None
  then have e: "kmalloc sz h = malloc_big sz h" using sz by (simp add: kmalloc_def)
  show ?thesis
  proof (cases rule: malloc_big_run [OF inv sz])
    case 1
    then show ?thesis using none e inv by simp
  next
    case (2 p s h')
    then show ?thesis using some e by simp
  qed
next
  case (Some i)
  have i: "i < 7" "sz \<le> bsz i" using find_desc_Some [OF _ Some] inv by (simp_all add: heap_inv_def)
  show ?thesis
  proof (cases rule: refill_run [OF inv i(1)])
    case 1
    then show ?thesis using none inv Some sz(1) by (simp add: kmalloc_def)
  next
    case (2 h1)
    then obtain b bs where b: "fl h1 i = b # bs" by (cases "fl h1 i") auto
    obtain h' where h': "take_block i h1 = Some (b, h')" "heap_inv h'" "live h' = insert (b, bsz i) (live h1)" "(b, bsz i) \<notin> live h1" "hmach h' = hmach h1"
      by (rule take_block_run [OF 2(2) i(1) b])
    have "pages_ok h'" "(b, bsz i) \<in> live h'" using h' by (simp_all add: heap_inv_def)
    then have "b \<noteq> 0" using live_nonnull by blast
    then show ?thesis using some [of b h' "bsz i"] h' i(2) 2(1,3,5) Some sz(1) by (simp add: kmalloc_def)
  qed
qed


section \<open>Releasing blocks\<close>

lemma drop_run:
  assumes po: "pages_ok h" and a: "arenas h a = Some ar"
  obtains m where "palloc_free_multiple a (npg ar) (hmach h) = Some m" "pages_ok (h\<lparr>hmach := m, arenas := (arenas h)(a := None)\<rparr>)"
    "\<forall>x. unat x div 4096 \<notin> pgs a ar \<longrightarrow> kmem m x = kmem (hmach h) x"
proof -
  let ?p = "get_pool False (hmach h)"
  have mw: "machine_wf (hmach h)" and run: "run_of (hmach h) a (npg ar)" using po a by (simp_all add: pages_ok_def)
  obtain k where k: "a = page_addr (base_no ?p + k)" "k + npg ar \<le> pool_pages ?p" "0 < npg ar" "\<forall>j < npg ar. pool_used ?p (base_no ?p + k + j)"
    using run by (auto simp: run_of_def)
  note pw = machine_wf_pool [OF mw, of False]
  have bd: "base_no ?p + k < 2 ^ 20" "base_no ?p + k + npg ar \<le> 2 ^ 20" using pool_wf_bound [OF pw k(2)] k(3) by simp_all
  then have pa: "pgs a ar = {base_no ?p + k..<base_no ?p + k + npg ar}" using k(1) by (simp add: pgs_def unat_page_addr)
  obtain p' where P: "palloc_free_multiple (page_addr (base_no ?p + k)) (npg ar) (hmach h) =
      Some ((set_pool False p' (hmach h))\<lparr>kmem := fill (kmem (hmach h)) (page_addr (base_no ?p + k)) 0xcc (4096 * npg ar)\<rparr>)"
    "marked ?p k (npg ar) False p'"
    by (rule palloc_free_ok [OF mw k(2,3)]) (use k(4) in auto)
  define m where "m = (set_pool False p' (hmach h))\<lparr>kmem := fill (kmem (hmach h)) (page_addr (base_no ?p + k)) 0xcc (4096 * npg ar)\<rparr>"
  have pb: "base_no p' = base_no ?p" "pool_pages p' = pool_pages ?p" using marked_wf [OF pw P(2)] P(2) by (simp_all add: marked_def)
  have keep: "run_of m b (npg br)" if b: "arenas h b = Some br" "b \<noteq> a" for b br
  proof (rule run_of_keep [OF mw, where p' = p'])
    show "run_of (hmach h) b (npg br)" using po b(1) by (simp add: pages_ok_def)
    fix x assume x: "unat b div 4096 \<le> x" "x < unat b div 4096 + npg br" "pool_used ?p x"
    then have "x \<in> pgs b br" by (simp add: pgs_def)
    moreover have "pgs b br \<inter> pgs a ar = {}" using po a b unfolding pages_ok_def by blast
    ultimately have "x \<notin> pgs a ar" by blast
    then show "pool_used p' x" using marked_used [OF P(2) k(2), of x] x(3) pa by auto
  qed (use pb in \<open>simp_all add: m_def\<close>)
  have "machine_wf m" using machine_wf_marked [OF mw P(2)] by (simp add: m_def)
  then have "pages_ok (h\<lparr>hmach := m, arenas := (arenas h)(a := None)\<rparr>)"
    using po keep unfolding pages_ok_def by auto
  moreover have "\<forall>x. unat x div 4096 \<notin> pgs a ar \<longrightarrow> kmem m x = kmem (hmach h) x"
    unfolding pa using in_pages [OF bd(2,1)] by (auto simp: m_def fill_def)
  ultimately show ?thesis using that [of m] P(1) k(1) by (simp add: m_def)
qed

text \<open>An arena goes away together with its blocks on the free list of its descriptor.\<close>

lemma drop_arena:
  assumes inv: "heap_inv h" and a: "arenas h a = Some ar" and h': "arenas h' = (arenas h)(a := None)" "descs_ok h'" "pages_ok h'"
    and fl': "\<And>i. i < 7 \<Longrightarrow> fl h' i = (if a_desc ar = Some i then filter (\<lambda>b. b \<notin> blk a i ` {..<bpa i}) (fl h i) else fl h i)"
  shows "heap_inv h'" "live h' = live h - ablocks h a ar"
proof -
  have po: "pages_ok h" and lo: "lists_ok h" using inv by (simp_all add: heap_inv_def)
  obtain n where n: "a = page_addr n" "n < 2 ^ 20" by (rule arenaD [OF po a])
  have keep: "blk b i j \<in> set (fl h' i) \<longleftrightarrow> blk b i j \<in> set (fl h i)"
    if b: "arenas h b = Some br" "b \<noteq> a" "i < 7" "j < bpa i" for b br i j
  proof -
    obtain n' where n': "b = page_addr n'" "n' < 2 ^ 20" by (rule arenaD [OF po b(1)])
    have "blk b i j \<noteq> blk a i j'" if "j' < bpa i" for j' using blk_inj [OF n'(2) n(2) b(4) that] b(2) n(1) n'(1) by auto
    then have "blk b i j \<notin> blk a i ` {..<bpa i}" by blast
    then show ?thesis by (simp add: fl' [OF b(3)])
  qed
  have i7: "i < 7" if "arenas h b = Some br" "a_desc br = Some i" for b br i using lo that by (simp add: lists_ok_def)
  have "lists_ok h'"
    unfolding lists_ok_def
  proof (intro conjI allI impI ballI)
    fix i :: nat assume i: "i < 7"
    show "distinct (fl h' i)" using lo i by (simp add: lists_ok_def fl')
    fix b assume b: "b \<in> set (fl h' i)"
    then have "b \<in> set (fl h i)" using i by (auto simp: fl' split: if_splits)
    then obtain a' ar' j where x: "arenas h a' = Some ar'" "a_desc ar' = Some i" "j < bpa i" "b = blk a' i j" by (rule fl_blocks [OF inv i])
    then have "a' \<noteq> a" using b a by (auto simp: fl' [OF i])
    then show "\<exists>a' ar' j. arenas h' a' = Some ar' \<and> a_desc ar' = Some i \<and> j < bpa i \<and> b = blk a' i j"
      using x h'(1) by (intro exI [of _ a'] exI [of _ ar'] exI [of _ j]) simp
  next
    fix b br i assume "arenas h' b = Some br \<and> a_desc br = Some i"
    then have b: "arenas h b = Some br" "b \<noteq> a" "a_desc br = Some i" using h'(1) by (auto split: if_splits)
    have "free_idx h' b i = free_idx h b i" using keep [OF b(1,2) i7 [OF b(1,3)]] by (auto simp: free_idx_def)
    then show "i < 7" "free_cnt br = card (free_idx h' b i)" using lo b by (simp_all add: lists_ok_def)
  qed
  then show "heap_inv h'" using h' by (simp add: heap_inv_def)
  have bl: "ablocks h' b br = ablocks h b br" if b: "arenas h b = Some br" "b \<noteq> a" for b br
    using keep [OF b i7 [OF b(1)]] by (cases "a_desc br") (auto simp: ablocks_def)
  let ?o = "{x. \<exists>b br. b \<noteq> a \<and> arenas h b = Some br \<and> x \<in> ablocks h b br}"
  have "live h' = ?o" using bl h'(1) by (auto simp: live_def split: if_splits)
  moreover have "?o \<inter> ablocks h a ar = {}" using ablocks_unique [OF po _ _ a] by fastforce
  ultimately show "live h' = live h - ablocks h a ar" using live_split [OF a] by auto
qed

lemma region_pages:
  assumes "pages_ok h" "arenas h b = Some br" "q \<in> ablocks h b br" "y \<in> region q"
  shows "y div 4096 \<in> pgs b br"
proof -
  obtain n where "pgs b br = {n..<n + npg br}" "4096 * n \<le> unat (fst q)" "unat (fst q) + snd q \<le> 4096 * (n + npg br)"
    by (rule block_in_pages [OF assms(1-3)])
  then show ?thesis using assms(4) by (simp add: region_def div_less_iff_less_mult less_eq_div_iff_mult_less_eq mult.commute)
qed

lemma drop_frame:
  assumes po: "pages_ok h" and a: "arenas h a = Some ar" and q: "q \<in> live h" "q \<notin> ablocks h a ar" "y \<in> region q"
  shows "y div 4096 \<notin> pgs a ar"
proof -
  obtain b br where b: "arenas h b = Some br" "q \<in> ablocks h b br" using q(1) by (auto simp: live_def)
  then have "b \<noteq> a" using a q(2) by auto
  then have "pgs b br \<inter> pgs a ar = {}" using po a b(1) unfolding pages_ok_def by blast
  then show ?thesis using region_pages [OF po b q(3)] by blast
qed

lemma in_region:
  assumes "pages_ok h" and "(p, s) \<in> live h"
  shows "unat (x - p) < s \<longleftrightarrow> unat x \<in> region (p, s)"
proof -
  obtain a ar where a: "arenas h a = Some ar" "(p, s) \<in> ablocks h a ar" using assms(2) by (auto simp: live_def)
  obtain m where m: "unat a = 4096 * m" "m + npg ar \<le> 2 ^ 20" by (rule arenaD [OF assms(1) a(1)])
  obtain n where n: "unat a = 4096 * n" "unat p + s \<le> 4096 * (n + npg ar)" using block_in_pages [OF assms(1) a] by auto
  have b: "unat p + s \<le> 2 ^ 32" using n m by simp
  have lt: "unat x < 2 ^ 32" using unsigned_less [of x, where ?'a = nat] by simp
  show ?thesis
  proof (cases "p \<le> x")
    case True
    then show ?thesis by (auto simp: region_def unat_sub word_le_nat_alt)
  next
    case False
    then have "unat (x - p) = 2 ^ 32 + unat x - unat p" by (simp add: unat_sub_if' word_le_nat_alt)
    then show ?thesis using False b by (simp add: region_def word_le_nat_alt)
  qed
qed

lemma put_block:
  assumes inv: "heap_inv h" and a: "arenas h a = Some ar" "a_desc ar = Some i" and j: "j < bpa i" "blk a i j \<notin> set (fl h i)"
    and cnt: "cnt = card (insert j (free_idx h a i))"
  shows "heap_inv (set_arena a (ar\<lparr>free_cnt := cnt\<rparr>) (set_free_list i (blk a i j # fl h i) h))"
    and "live (set_arena a (ar\<lparr>free_cnt := cnt\<rparr>) (set_free_list i (blk a i j # fl h i) h)) = live h - {(blk a i j, bsz i)}"
proof -
  let ?h = "set_arena a (ar\<lparr>free_cnt := cnt\<rparr>) (set_free_list i (blk a i j # fl h i) h)"
  have D: "pages_ok h" "lists_ok h" using inv by (simp_all add: heap_inv_def)
  have i: "i < 7" using D(2) a by (simp add: lists_ok_def)
  have "distinct (blk a i j # fl h i)" using D(2) i j(2) by (simp add: lists_ok_def)
  note R = relist [OF inv a j(1) this, of True, simplified, OF cnt refl]
  show "heap_inv ?h" by (rule R(1))
  have x: "(blk a i j, bsz i) \<in> ablocks h a ar" using a(2) j by (auto simp: ablocks_def)
  let ?o = "{x. \<exists>b br. b \<noteq> a \<and> arenas h b = Some br \<and> x \<in> ablocks h b br}"
  have "live ?h = ablocks ?h a (ar\<lparr>free_cnt := cnt\<rparr>) \<union> ?o"
    by (rule live_other) (use R(3) in simp_all)
  moreover have "(blk a i j, bsz i) \<notin> ?o" using ablocks_unique [OF D(1) a(1) x] by blast
  ultimately show "live ?h = live h - {(blk a i j, bsz i)}" using R(2) live_split [OF a(1)] by auto
qed

text \<open>An arena whose blocks are all free is released.\<close>

lemma free_whole:
  assumes inv: "heap_inv h" and a: "arenas h a = Some ar" "a_desc ar = Some i" and full: "free_cnt ar = bpa i"
  obtains h' h'' where "remove_blocks a i 0 (bpa i) h = Some h''" "free_arena a 1 h'' = Some h'" "heap_inv h'" "live h' = live h"
    "\<forall>q \<in> live h. \<forall>x. unat x \<in> region q \<longrightarrow> kmem (hmach h') x = kmem (hmach h) x"
proof -
  have D: "descs_ok h" "pages_ok h" "lists_ok h" using inv by (simp_all add: heap_inv_def)
  have i: "i < 7" and c: "card (free_idx h a i) = bpa i" "distinct (fl h i)" using D(3) a full by (auto simp: lists_ok_def)
  obtain n where n: "a = page_addr n" "n < 2 ^ 20" "a \<noteq> 0" "a_magic ar = ARENA_MAGIC" by (rule arenaD [OF D(2) a(1)])
  have "free_idx h a i = {..<bpa i}" using c(1) by (intro card_subset_eq) (auto simp: free_idx_def)
  then have all: "blk a i j \<in> set (fl h i)" if "j < bpa i" for j using that by (auto simp: free_idx_def)
  define h'' where "h'' = set_free_list i (filter (\<lambda>b. b \<notin> blk a i ` {0..<0 + bpa i}) (fl h i)) h"
  have "inj_on (blk a i) {..<bpa i}" using blk_inj_on [OF n(2)] n(1) by simp
  then have rb: "remove_blocks a i 0 (bpa i) h = Some h''"
    unfolding h''_def by (intro remove_blocks_run [OF D(1) i a(1) n(4) a(2) n(3) _ c(2)]) (simp_all add: all)
  have np: "npg ar = 1" using a(2) by (simp add: npg_def)
  have po: "pages_ok h''" using D(2) by (simp add: pages_ok_def h''_def)
  have a'': "arenas h'' a = Some ar" using a(1) by (simp add: h''_def)
  obtain m where m: "palloc_free_multiple a (npg ar) (hmach h'') = Some m" "pages_ok (h''\<lparr>hmach := m, arenas := (arenas h'')(a := None)\<rparr>)"
    "\<forall>x. unat x div 4096 \<notin> pgs a ar \<longrightarrow> kmem m x = kmem (hmach h'') x"
    by (rule drop_run [OF po a''])
  let ?h = "h''\<lparr>hmach := m, arenas := (arenas h'')(a := None)\<rparr>"
  have fl': "fl ?h k = (if a_desc ar = Some k then filter (\<lambda>b. b \<notin> blk a k ` {..<bpa k}) (fl h k) else fl h k)" if "k < 7" for k
    using D(1) i a(2) fl_set [OF D(1) i] by (simp add: h''_def fl_def atLeast0LessThan)
  have "descs_ok ?h" using D(1) i by (simp add: h''_def descs_ok_def set_free_list_def nth_list_update)
  note R = drop_arena [OF inv a(1) _ this m(2) fl']
  have none: "ablocks h a ar = {}" using all a(2) by (simp add: ablocks_def)
  then have L: "heap_inv ?h" "live ?h = live h" using R by (simp_all add: h''_def)
  have "\<forall>q \<in> live h. \<forall>x. unat x \<in> region q \<longrightarrow> kmem (hmach ?h) x = kmem (hmach h) x"
    using drop_frame [OF D(2) a(1)] none m(3) by (simp add: h''_def)
  moreover have "free_arena a 1 h'' = Some ?h" using m(1) np by (simp add: free_arena_def)
  ultimately show ?thesis using that [OF rb _ L] by blast
qed

lemma kfree_small:
  assumes inv: "heap_inv h" and a: "arenas h a = Some ar" "a_desc ar = Some i" and j: "j < bpa i" "blk a i j \<notin> set (fl h i)"
  obtains h' where "kfree (blk a i j) h = Some h'" "heap_inv h'" "live h' = live h - {(blk a i j, bsz i)}"
    "\<forall>q \<in> live h'. \<forall>x. unat x \<in> region q \<longrightarrow> kmem (hmach h') x = kmem (hmach h) x"
proof -
  have D: "descs_ok h" "pages_ok h" "lists_ok h" using inv by (simp_all add: heap_inv_def)
  have i: "i < 7" and c: "free_cnt ar = card (free_idx h a i)" using D(3) a by (simp_all add: lists_ok_def)
  define hf where "hf = h\<lparr>hmach := (hmach h)\<lparr>kmem := fill (kmem (hmach h)) (blk a i j) 0xcc (bsz i)\<rparr>\<rparr>"
  define cnt where "cnt = card (insert j (free_idx hf a i))"
  have hf: "heap_inv hf" "live hf = live h" "arenas hf = arenas h" "fl hf = fl h" "free_idx hf a i = free_idx h a i"
    using inv by (simp_all add: hf_def free_idx_def)
  have sub: "insert j (free_idx h a i) \<subseteq> {..<bpa i}" using j(1) by (auto simp: free_idx_def)
  then have le: "cnt \<le> bpa i" using card_mono [OF _ sub] by (simp add: cnt_def hf(5))
  have "j \<notin> free_idx h a i" "finite (free_idx h a i)" using j by (simp_all add: free_idx_def)
  then have cn: "wrap32 (free_cnt ar + 1) = cnt" using le bpa_bound [of i] by (simp add: c cnt_def hf(5) wrap32_def)
  define h1 where "h1 = set_arena a (ar\<lparr>free_cnt := cnt\<rparr>) (set_free_list i (blk a i j # fl h i) hf)"
  have P: "heap_inv h1" "live h1 = live h - {(blk a i j, bsz i)}"
    using put_block [OF hf(1), of a ar i j] a j by (simp_all add: hf h1_def cnt_def)
  have lv: "(blk a i j, bsz i) \<in> live h" using a j by (force simp: live_def ablocks_def)
  have fr: "kmem (hmach h1) x = kmem (hmach h) x" if q: "q \<in> live h1" "unat x \<in> region q" for q x
  proof -
    have "region q \<inter> region (blk a i j, bsz i) = {}" by (rule live_disjoint [OF D(2)]) (use q(1) P(2) lv in auto)
    then have "unat x \<notin> region (blk a i j, bsz i)" using q(2) by blast
    then show ?thesis using in_region [OF D(2) lv, of x] by (simp add: h1_def hf_def fill_def)
  qed
  from lv have nz: "blk a i j \<noteq> 0" using live_nonnull [OF D(2)] by blast
  have run: "kfree (blk a i j) h = (if bpa i \<le> cnt then do { ASSERT (cnt = bpa i); h \<leftarrow> remove_blocks a i 0 (bpa i) h1; free_arena a 1 h } else Some h1)"
    using nz block_to_arena_small [OF D(1,2) a j(1) i] desc_at_ok [OF D(1) i] a(2) cn by (simp add: kfree_def h1_def hf_def fl_def Let_def)
  show ?thesis
  proof (cases "bpa i \<le> cnt")
    case True
    then have e: "cnt = bpa i" using le by simp
    have "arenas h1 a = Some (ar\<lparr>free_cnt := cnt\<rparr>)" by (simp add: h1_def)
    then obtain h' h'' where "remove_blocks a i 0 (bpa i) h1 = Some h''" "free_arena a 1 h'' = Some h'" "heap_inv h'" "live h' = live h1"
        "\<forall>q \<in> live h1. \<forall>x. unat x \<in> region q \<longrightarrow> kmem (hmach h') x = kmem (hmach h1) x"
      by (rule free_whole [OF P(1)]) (use a(2) e in simp_all)
    then show ?thesis using that [of h'] run e P(2) fr by simp
  next
    case False
    then show ?thesis using that [of h1] run P fr by simp
  qed
qed

lemma kfree_run:
  assumes inv: "heap_inv h" and p: "(p, s) \<in> live h"
  obtains h' where "kfree p h = Some h'" "heap_inv h'" "live h' = live h - {(p, s)}"
    "\<forall>q \<in> live h'. \<forall>x. unat x \<in> region q \<longrightarrow> kmem (hmach h') x = kmem (hmach h) x"
proof -
  have D: "descs_ok h" "pages_ok h" using inv by (simp_all add: heap_inv_def)
  obtain a ar where a: "arenas h a = Some ar" "(p, s) \<in> ablocks h a ar" using p by (auto simp: live_def)
  show ?thesis
  proof (cases "a_desc ar")
    case (Some i)
    then obtain j where j: "j < bpa i" "blk a i j \<notin> set (fl h i)" "p = blk a i j" "s = bsz i" using a(2) by (auto simp: ablocks_def)
    show ?thesis by (rule kfree_small [OF inv a(1) Some j(1,2)]) (use that j in simp)
  next
    case None
    then have e: "ablocks h a ar = {(p, s)}" "p = a + of_nat ARENA_SIZE" "npg ar = free_cnt ar" using a(2) by (simp_all add: ablocks_def npg_def)
    obtain m where m: "palloc_free_multiple a (npg ar) (hmach h) = Some m" "pages_ok (h\<lparr>hmach := m, arenas := (arenas h)(a := None)\<rparr>)"
      "\<forall>x. unat x div 4096 \<notin> pgs a ar \<longrightarrow> kmem m x = kmem (hmach h) x"
      by (rule drop_run [OF D(2) a(1)])
    let ?h = "h\<lparr>hmach := m, arenas := (arenas h)(a := None)\<rparr>"
    have "fl ?h = fl h" "descs_ok ?h" using D(1) by (simp_all add: fl_def fun_eq_iff descs_ok_def)
    then have L: "heap_inv ?h" "live ?h = live h - {(p, s)}" using drop_arena [OF inv a(1), of ?h] m(2) None e(1) by simp_all
    have "kfree p h = Some ?h"
      using block_to_arena_big [OF D(2) a(1) None] live_nonnull [OF D(2) p] m(1) None e by (simp add: kfree_def free_arena_def)
    moreover have "\<forall>q \<in> live ?h. \<forall>x. unat x \<in> region q \<longrightarrow> kmem (hmach ?h) x = kmem (hmach h) x"
      using drop_frame [OF D(2) a(1)] m(3) L(2) e(1) by auto
    ultimately show ?thesis using that L by blast
  qed
qed


lemma block_size_run:
  assumes inv: "heap_inv h" and p: "(p, s) \<in> live h"
  shows "block_size p h = Some s"
proof -
  have D: "descs_ok h" "pages_ok h" "lists_ok h" using inv by (simp_all add: heap_inv_def)
  obtain a ar where a: "arenas h a = Some ar" "(p, s) \<in> ablocks h a ar" using p by (auto simp: live_def)
  show ?thesis
  proof (cases "a_desc ar")
    case (Some i)
    then obtain j where j: "j < bpa i" "p = blk a i j" "s = bsz i" using a(2) by (auto simp: ablocks_def)
    have "i < 7" using D(3) a(1) Some by (simp add: lists_ok_def)
    then show ?thesis using block_to_arena_small [OF D(1,2) a(1) Some j(1)] desc_at_ok [OF D(1)] j Some by (simp add: block_size_def)
  next
    case None
    then have e: "p = a + of_nat ARENA_SIZE" "s = 4096 * free_cnt ar - ARENA_SIZE" "npg ar = free_cnt ar" using a(2) by (simp_all add: ablocks_def npg_def)
    obtain n where n: "a = page_addr n" "n < 2 ^ 20" "n + npg ar \<le> 2 ^ 20" "786432 \<le> n" "0 < npg ar" by (rule arenaD [OF D(2) a(1)])
    have "unat (pg_ofs p) = 12" using page_of [OF n(2), of 12] e(1) n(1) by (simp add: ARENA_SIZE_def)
    moreover have "wrap32 (4096 * free_cnt ar + 2 ^ 32 - 12) = 4096 * free_cnt ar - 12"
    proof -
      have "4096 * free_cnt ar + 2 ^ 32 - 12 = (4096 * free_cnt ar - 12) + 2 ^ 32" using n(5) e(3) by simp
      moreover have "4096 * free_cnt ar - 12 < 2 ^ 32" using n(3,4) e(3) by simp
      ultimately show ?thesis by (simp only: wrap32_def mod_add_self2 mod_less)
    qed
    ultimately show ?thesis using block_to_arena_big [OF D(2) a(1) None] e None by (simp add: block_size_def ARENA_SIZE_def)
  qed
qed

section \<open>The allocator\<close>

lemma malloc_init_run:
  assumes "descs h = []"
  shows "malloc_init h = Some (h\<lparr>descs := map (\<lambda>i. \<lparr>d_block_size = bsz i, blocks_per_arena = bpa i, free_list = []\<rparr>) [0..<7]\<rparr>)"
  using assms by (simp add: malloc_init_def malloc_init_loop.simps bsz_def bpa_def ARENA_SIZE_def upt_rec)

lemma malloc_init_inv:
  assumes "descs h = []" "arenas h = (\<lambda>a. None)" "machine_wf (hmach h)"
  obtains h' where "malloc_init h = Some h'" "heap_inv h'" "live h' = {}"
proof -
  let ?h = "h\<lparr>descs := map (\<lambda>i. \<lparr>d_block_size = bsz i, blocks_per_arena = bpa i, free_list = []\<rparr>) [0..<7]\<rparr>"
  have "heap_inv ?h" using assms by (simp add: heap_inv_def descs_ok_def pages_ok_def lists_ok_def fl_def)
  moreover have "live ?h = {}" using assms by (simp add: live_def)
  ultimately show ?thesis using that malloc_init_run [OF assms(1)] by blast
qed

text \<open>A heap just after initialisation, on the small machine.\<close>

definition ex_heap :: heap where
  "ex_heap = \<lparr>descs = map (\<lambda>i. \<lparr>d_block_size = bsz i, blocks_per_arena = bpa i, free_list = []\<rparr>) [0..<7],
     arenas = (\<lambda>a. None), hmach = ex_machine\<rparr>"

lemma ex_heap_inv: "heap_inv ex_heap" "live ex_heap = {}"
  by (simp_all add: ex_heap_def heap_inv_def descs_ok_def pages_ok_def lists_ok_def fl_def ex_machine_wf live_def)

text \<open>The same heap with one block of a page in use.\<close>

definition ex_used :: heap where
  "ex_used = ex_heap\<lparr>arenas := [0xc0101000 \<mapsto> \<lparr>a_magic = ARENA_MAGIC, a_desc = None, free_cnt = 1\<rparr>]\<rparr>"

lemma ex_used_inv: "heap_inv ex_used" "live ex_used = {(0xc010100c, 4084)}"
proof -
  have "run_of ex_machine 0xc0101000 1"
    by (auto simp: run_of_def ex_machine_def get_pool_def base_no_def page_addr_def pool_used_def bm_bits_def elem_idx_def ELEM_BITS_def
      intro!: exI [of _ 1])
  then show "heap_inv ex_used"
    by (auto simp: ex_used_def ex_heap_def heap_inv_def descs_ok_def pages_ok_def lists_ok_def fl_def ex_machine_wf npg_def split: if_splits)
  show "live ex_used = {(0xc010100c, 4084)}"
    by (auto simp: ex_used_def ex_heap_def live_def ablocks_def ARENA_SIZE_def)
qed

text \<open>The request for the largest size is served with a single page, since the size of the arena wraps around.\<close>

lemma malloc_wraps:
  assumes "descs_ok h"
  shows "kmalloc (2 ^ 32 - 1) h = kmalloc 4084 h"
proof -
  have "find_desc sz h = None" if "4084 \<le> sz" for sz
  proof -
    have "bsz j < sz" if "j < 7" for j
    proof -
      have "(2::nat) ^ (j + 4) \<le> 2 ^ 10" using that by (intro power_increasing) simp_all
      then show ?thesis using \<open>4084 \<le> sz\<close> by (simp add: bsz_def)
    qed
    then show ?thesis using assms by (auto simp: find_desc_def find_from_None descs_ok_def not_le)
  qed
  then show ?thesis by (simp add: kmalloc_def malloc_big_def ARENA_SIZE_def wrap32_def)
qed

text \<open>The check of \<^verbatim>\<open>calloc\<close> misses products that overflow: it serves 65537 times 65537 bytes with 131073.\<close>

lemma calloc_overflow: "calloc 65537 65537 h = calloc 1 131073 h"
  by (simp add: calloc_def wrap32_def)



text \<open>C21. Releasing a block that is handed out succeeds: exactly this block leaves the blocks in use, the
  invariant is kept, whether the block's arena goes back to the page allocator or not, and no byte of
  another block in use changes.\<close>

theorem free_releases:
  assumes "heap_inv h" and "(p, s) \<in> live h"
  shows "\<exists>h'. kfree p h = Some h' \<and> heap_inv h' \<and> live h' = live h - {(p, s)} \<and>
    (\<forall>b \<in> live h'. \<forall>x. unat x \<in> region b \<longrightarrow> kmem (hmach h') x = kmem (hmach h) x)"
  by (rule kfree_run [OF assms]) blast

theorem free_releases_witness:
  "\<exists>h'. kfree 0xc010100c ex_used = Some h' \<and> heap_inv h' \<and> live h' = {}"
  using free_releases [OF ex_used_inv(1), of "0xc010100c" 4084] by (auto simp: ex_used_inv(2))

text \<open>C22. Resizing a block either fails and changes nothing, or moves it: the old block is released, the new
  one is in use and begins with the bytes of the old one up to the smaller of the two sizes, and the other
  blocks in use keep their bytes.\<close>

theorem realloc_moves:
  assumes "heap_inv h" and "(p, s) \<in> live h" and "0 < n" and "n + ARENA_SIZE + PGSIZE - 1 < 2 ^ 32"
  shows "\<exists>q h'. realloc p n h = Some (q, h') \<and> heap_inv h' \<and>
    (q = 0 \<and> live h' = live h \<and> kmem (hmach h') = kmem (hmach h) \<or>
     (\<exists>t. q \<noteq> 0 \<and> n \<le> t \<and> live h' = insert (q, t) (live h - {(p, s)}) \<and>
       (\<forall>k < min n s. kmem (hmach h') (q + of_nat k) = kmem (hmach h) (p + of_nat k)) \<and>
       (\<forall>b \<in> live h - {(p, s)}. \<forall>x. unat x \<in> region b \<longrightarrow> kmem (hmach h') x = kmem (hmach h) x)))"
proof (cases rule: kmalloc_run [OF assms(1,3,4)])
  case (1 h')
  then show ?thesis using assms(3) by (intro exI [of _ 0] exI [of _ h']) (simp add: realloc_def)
next
  case (2 q t h1)
  define h2 where "h2 = h1\<lparr>hmach := (hmach h1)\<lparr>kmem := copy (kmem (hmach h1)) q p (min n s)\<rparr>\<rparr>"
  have h2: "heap_inv h2" "live h2 = live h1" "(p, s) \<in> live h2" using 2 assms(2) by (simp_all add: h2_def)
  obtain h3 where h3: "kfree p h2 = Some h3" "heap_inv h3" "live h3 = live h2 - {(p, s)}"
    "\<forall>b \<in> live h3. \<forall>x. unat x \<in> region b \<longrightarrow> kmem (hmach h3) x = kmem (hmach h2) x" by (rule kfree_run [OF h2(1,3)])
  have ne: "(q, t) \<noteq> (p, s)" using 2(6) assms(2) by auto
  have po: "pages_ok h1" "pages_ok h" and q: "(q, t) \<in> live h1" using 2 assms(1) by (simp_all add: heap_inv_def)
  have "p \<noteq> 0" using live_nonnull [OF po(2) assms(2)] .
  moreover have "block_size p h1 = Some s" using block_size_run [OF 2(2)] 2(5) assms(2) by simp
  moreover have "(if n < s then n else s) = min n s" by simp
  ultimately have run: "realloc p n h = Some (q, h3)" using 2(1,3) assms(3) h3(1) by (simp add: realloc_def h2_def Let_def)
  have L: "live h3 = insert (q, t) (live h - {(p, s)})" using h3(3) h2(2) 2(5) ne by auto
  have "kmem (hmach h3) (q + of_nat k) = kmem (hmach h) (p + of_nat k)" if k: "k < min n s" for k
  proof -
    have u: "unat (of_nat k :: u32) = k" using k assms(4) by (intro unat_of_nat32) (simp add: ARENA_SIZE_def)
    then have "unat (q + of_nat k) \<in> region (q, t)" using in_region [OF po(1) q, of "q + of_nat k"] k 2(4) by simp
    then have "kmem (hmach h3) (q + of_nat k) = kmem (hmach h2) (q + of_nat k)" using h3(4) L by blast
    then show ?thesis using u k 2(7) by (simp add: h2_def copy_def)
  qed
  moreover have "kmem (hmach h3) x = kmem (hmach h) x" if b: "b \<in> live h - {(p, s)}" "unat x \<in> region b" for b x
  proof -
    have "region b \<inter> region (q, t) = {}" by (rule live_disjoint [OF po(1)]) (use b(1) 2(5,6) in auto)
    then have "\<not> unat (x - q) < t" using in_region [OF po(1) q, of x] b(2) by blast
    moreover have "kmem (hmach h3) x = kmem (hmach h2) x" using h3(4) L b by blast
    ultimately show ?thesis using 2(4,7) by (simp add: h2_def copy_def)
  qed
  ultimately show ?thesis using run h3(2) L 2(3,4) by blast
qed


theorem realloc_moves_witness:
  "\<exists>q h'. realloc 0xc010100c 8000 ex_used = Some (q, h') \<and> heap_inv h'"
  using realloc_moves [OF ex_used_inv(1), of "0xc010100c" 4084 8000] by (auto simp: ex_used_inv(2) ARENA_SIZE_def)

end
