(* ===== verification/User_Mem.thy ===== *)
theory User_Mem
  imports Pagedir Kstring
begin

text \<open>
  Accesses of the kernel to the memory of a user program through its page directory.  A byte that is not
  mapped is a page fault in the kernel, which panics.
\<close>

unbundle bit_operations_syntax

section \<open>Accesses\<close>

definition uread :: "u32 \<Rightarrow> u32 \<Rightarrow> machine \<Rightarrow> u8 option" where
  "uread pd va m = do { a \<leftarrow> pagedir_get_page pd va m; ASSERT (a \<noteq> 0); Some (kmem m a) }"

definition uwrite :: "u32 \<Rightarrow> u32 \<Rightarrow> u8 \<Rightarrow> machine \<Rightarrow> machine option" where
  "uwrite pd va v m = do { a \<leftarrow> pagedir_get_page pd va m; ASSERT (a \<noteq> 0); Some (m\<lparr>kmem := (kmem m)(a := v)\<rparr>) }"

primrec uread_bytes :: "u32 \<Rightarrow> u32 \<Rightarrow> nat \<Rightarrow> machine \<Rightarrow> u8 list option" where
  "uread_bytes pd va 0 m = Some []"
| "uread_bytes pd va (Suc n) m = do { x \<leftarrow> uread pd va m; xs \<leftarrow> uread_bytes pd (va + 1) n m; Some (x # xs) }"

primrec uwrite_bytes :: "u32 \<Rightarrow> u32 \<Rightarrow> u8 list \<Rightarrow> machine \<Rightarrow> machine option" where
  "uwrite_bytes pd va [] m = Some m"
| "uwrite_bytes pd va (x # xs) m = do { m \<leftarrow> uwrite pd va x m; uwrite_bytes pd (va + 1) xs m }"

definition uread32 :: "u32 \<Rightarrow> u32 \<Rightarrow> machine \<Rightarrow> u32 option" where
  "uread32 pd va m = do { bs \<leftarrow> uread_bytes pd va 4 m; Some (bytes_u32 bs) }"

definition uwrite32 :: "u32 \<Rightarrow> u32 \<Rightarrow> u32 \<Rightarrow> machine \<Rightarrow> machine option" where
  "uwrite32 pd va w m = uwrite_bytes pd va (u32_bytes w) m"

text \<open>\<^verbatim>\<open>strlen\<close> of a string in user memory, which runs until it finds a terminator or faults.\<close>

partial_function (option) ustrlen :: "u32 \<Rightarrow> u32 \<Rightarrow> nat \<Rightarrow> machine \<Rightarrow> nat option" where
  "ustrlen pd va n m = do { x \<leftarrow> uread pd (va + of_nat n) m; if x = 0 then Some n else ustrlen pd va (n + 1) m }"

section \<open>Memory outside the page tables\<close>

lemma data_page_store:
  assumes wf: "pd_wf m P" and n: "data_page m P n" and mem: "\<forall>a. unat a div 4096 \<noteq> n \<longrightarrow> kmem m' a = kmem m a"
    and pu: "\<forall>k. page_used m k \<longrightarrow> page_used m' k"
  shows "pd_wf m' P" "data_page m P k \<Longrightarrow> data_page m' P k" "is_user_vaddr up \<Longrightarrow> pagedir_get_page (page_addr P) up m' = pagedir_get_page (page_addr P) up m"
    "i < 768 \<Longrightarrow> j < 1024 \<Longrightarrow> pte_val m' P i j = pte_val m P i j"
proof -
  have P: "P < 2 ^ 20" "P \<noteq> n" using wf n by (auto simp: pd_wf_def data_page_def)
  have d: "pde_val m' P i = pde_val m P i" if "i < 768" for i
    by (rule rd32_cong) (use P that mem in auto)
  then have pt: "pt_page m' P i = pt_page m P i" if "i < 768" for i using that by (simp add: pt_page_def)
  have e: "rd32 (kmem m') (ent (pt_page m P i) j) = rd32 (kmem m) (ent (pt_page m P i) j)" if "i < 768" "pde_val m P i \<noteq> 0" "j < 1024" for i j
    by (rule rd32_cong) (use pd_wfD(2) [OF wf that(1,2)] that n mem in \<open>auto simp: data_page_def\<close>)
  show wf': "pd_wf m' P" using wf d pt e pu unfolding pd_wf_def by simp
  show "data_page m P k \<Longrightarrow> data_page m' P k" using d pt by (simp add: data_page_def)
  show v: "pte_val m' P i j = pte_val m P i j" if "i < 768" "j < 1024" for i j using that d pt e by (simp add: pte_val_def)
  show "pagedir_get_page (page_addr P) up m' = pagedir_get_page (page_addr P) up m" if "is_user_vaddr up"
    using that pagedir_get_page_eq [OF wf' that] pagedir_get_page_eq [OF wf that] v [OF _ pt_no_less] pd_no_user [of up] by simp
qed

text \<open>Machine \<open>m'\<close> is \<open>m\<close> after stores to page \<open>n\<close>.\<close>

definition stores :: "nat \<Rightarrow> machine \<Rightarrow> machine \<Rightarrow> bool" where
  "stores n m m' \<longleftrightarrow> (\<exists>x. m' = m\<lparr>kmem := x\<rparr>) \<and> (\<forall>a. unat a div 4096 \<noteq> n \<longrightarrow> kmem m' a = kmem m a)"

lemma stores_refl [simp]: "stores n m m"
proof -
  have "m = m\<lparr>kmem := kmem m\<rparr>" by simp
  then show ?thesis unfolding stores_def by blast
qed

lemma stores_trans: "stores n m m' \<Longrightarrow> stores n m' m'' \<Longrightarrow> stores n m m''"
  by (auto simp: stores_def)

text \<open>One page of user memory at address \<open>up\<close>, backed by page \<open>n\<close>, with contents \<open>bs\<close>.\<close>

definition user_page :: "nat \<Rightarrow> u32 \<Rightarrow> nat \<Rightarrow> machine \<Rightarrow> u8 list \<Rightarrow> bool" where
  "user_page P up n m bs \<longleftrightarrow> pd_wf m P \<and> data_page m P n \<and> n \<noteq> 0 \<and> is_user_vaddr up \<and> pg_ofs up = 0 \<and> length bs = 4096 \<and>
     pagedir_get_page (page_addr P) up m = Some (page_addr n) \<and> (\<forall>j < 4096. kmem m (page_addr n + of_nat j) = bs ! j)"

lemma unat_page_ofs: "n < 2 ^ 20 \<Longrightarrow> j < 4096 \<Longrightarrow> unat (page_addr n + of_nat j) = 4096 * n + j"
  using unat_add_small [of "page_addr n" j] by (simp add: unat_page_addr)

lemma user_addr_page:
  assumes "is_user_vaddr up" and "pg_ofs up = 0" and "j < 4096"
  shows "is_user_vaddr (up + of_nat j)" "pg_no (up + of_nat j) = pg_no up" "pg_ofs (up + of_nat j) = of_nat j"
proof -
  let ?n = "unat (pg_no up)"
  have e: "up = page_addr ?n" using page_addr_pg_no [OF assms(2)] .
  have u: "unat up = 4096 * ?n" using assms(2) by (auto simp: unat_pg_no pg_ofs_0)
  have lt: "unat up < 3221225472" using assms(1) by (simp add: is_user_vaddr_def PHYS_BASE_def word_less_nat_alt)
  then have n: "?n < 786432" using u by simp
  have j: "unat (up + of_nat j) = 4096 * ?n + j" using unat_page_ofs [of ?n j] n assms(3) e by simp
  show "is_user_vaddr (up + of_nat j)" using j n assms(3) by (simp add: is_user_vaddr_def PHYS_BASE_def word_less_nat_alt)
  have "unat (pg_no (up + of_nat j)) = ?n" using j assms(3) by (simp add: unat_pg_no)
  then show "pg_no (up + of_nat j) = pg_no up" by (simp add: word_unat_eq_iff)
  have "unat (pg_ofs (up + of_nat j)) = j" using j assms(3) by (simp add: unat_pg_ofs)
  then show "pg_ofs (up + of_nat j) = of_nat j" using assms(3) by (simp add: word_unat_eq_iff unat_of_nat32)
qed

lemma user_page_translate:
  assumes u: "user_page P up n m bs" and j: "j < 4096"
  shows "pagedir_get_page (page_addr P) (up + of_nat j) m = Some (page_addr n + of_nat j)" "page_addr n + of_nat j \<noteq> 0"
proof -
  have a: "pd_wf m P" "is_user_vaddr up" "pg_ofs up = 0" "n < 2 ^ 20" "n \<noteq> 0" "pagedir_get_page (page_addr P) up m = Some (page_addr n)"
    using u by (simp_all add: user_page_def data_page_def)
  note q = user_addr_page [OF a(2,3) j]
  have nz: "page_addr n \<noteq> 0" using unat_page_addr [OF a(4)] a(5) by auto
  have s: "unat (pd_no (up + of_nat j)) = unat (pd_no up)" "unat (pt_no (up + of_nat j)) = unat (pt_no up)"
    using q(2) by (simp_all add: same_page_entry)
  let ?e = "pte_val m P (unat (pd_no up)) (unat (pt_no up))"
  have "?e AND PTE_P \<noteq> 0" "page_addr (unat ?e div 4096 + 786432) = page_addr n"
    using a(6) nz pagedir_get_page_eq [OF a(1,2)] a(3) by (auto simp: Let_def split: if_splits)
  then show "pagedir_get_page (page_addr P) (up + of_nat j) m = Some (page_addr n + of_nat j)"
    using pagedir_get_page_eq [OF a(1) q(1)] s q(3) by (simp add: Let_def)
  show "page_addr n + of_nat j \<noteq> 0" using unat_page_ofs [OF a(4) j] a(5) by auto
qed

lemma uread_user_page: "user_page P up n m bs \<Longrightarrow> j < 4096 \<Longrightarrow> uread (page_addr P) (up + of_nat j) m = Some (bs ! j)"
  using user_page_translate [of P up n m bs j] by (simp add: uread_def user_page_def)

lemma page_ofs_inj: "n < 2 ^ 20 \<Longrightarrow> i < 4096 \<Longrightarrow> j < 4096 \<Longrightarrow> page_addr n + of_nat i = page_addr n + of_nat j \<longleftrightarrow> i = j"
  by (metis add_left_cancel unat_page_ofs)

lemma uwrite_user_page:
  assumes u: "user_page P up n m bs" and j: "j < 4096"
  obtains m' where "uwrite (page_addr P) (up + of_nat j) v m = Some m'" "user_page P up n m' (bs[j := v])" "stores n m m'"
proof -
  let ?a = "page_addr n + of_nat j" and ?m = "m\<lparr>kmem := (kmem m)(page_addr n + of_nat j := v)\<rparr>"
  have a: "pd_wf m P" "data_page m P n" "n < 2 ^ 20" "is_user_vaddr up" using u by (simp_all add: user_page_def data_page_def)
  have fr: "\<forall>x. unat x div 4096 \<noteq> n \<longrightarrow> kmem ?m x = kmem m x" using unat_page_ofs [OF a(3) j] j by auto
  have "\<forall>k. page_used m k \<longrightarrow> page_used ?m k" by simp
  note S = data_page_store [OF a(1,2) fr this]
  have "user_page P up n ?m (bs[j := v])"
    using u S(1) S(2) [OF a(2)] S(3) [OF a(4)] page_ofs_inj [OF a(3) _ j] by (auto simp: user_page_def nth_list_update)
  moreover have "uwrite (page_addr P) (up + of_nat j) v m = Some ?m" using user_page_translate [OF u j] by (simp add: uwrite_def)
  moreover have "stores n m ?m" using fr unfolding stores_def by blast
  ultimately show ?thesis using that by blast
qed

lemma uwrite_bytes_user_page:
  assumes "user_page P up n m bs" and "j + length xs \<le> 4096"
  shows "\<exists>m'. uwrite_bytes (page_addr P) (up + of_nat j) xs m = Some m' \<and> user_page P up n m' (overwrite bs j xs) \<and> stores n m m'"
  using assms
proof (induction xs arbitrary: j m bs)
  case Nil
  then show ?case by (simp add: overwrite_def)
next
  case (Cons x xs)
  have j: "j < 4096" "length bs = 4096" using Cons.prems by (simp_all add: user_page_def)
  obtain m1 where m1: "uwrite (page_addr P) (up + of_nat j) x m = Some m1" "user_page P up n m1 (bs[j := x])" "stores n m m1" by (rule uwrite_user_page [OF Cons.prems(1) j(1)])
  obtain m' where m': "uwrite_bytes (page_addr P) (up + of_nat (j + 1)) xs m1 = Some m'" "user_page P up n m' (overwrite (bs[j := x]) (j + 1) xs)"
    "stores n m1 m'"
    using Cons.IH [OF m1(2), of "j + 1"] Cons.prems(2) by auto
  have "overwrite (bs[j := x]) (j + 1) xs = overwrite bs j (x # xs)"
    using Cons.prems(2) j by (intro nth_equalityI) (auto simp: nth_overwrite nth_list_update nth_Cons')
  moreover have "stores n m m'" using stores_trans m1(3) m'(3) .
  moreover have va: "up + of_nat j + 1 = up + of_nat (j + 1)" by simp
  ultimately show ?case unfolding uwrite_bytes.simps va using m1 m' by simp
qed

lemma uread_bytes_user_page:
  "user_page P up n m bs \<Longrightarrow> j + k \<le> 4096 \<Longrightarrow> uread_bytes (page_addr P) (up + of_nat j) k m = Some (take k (drop j bs))"
proof (induction k arbitrary: j)
  case (Suc k)
  have j: "j < length bs" "j < 4096" using Suc.prems by (simp_all add: user_page_def)
  have "uread_bytes (page_addr P) (up + of_nat (j + 1)) k m = Some (take k (drop (j + 1) bs))" by (rule Suc.IH) (use Suc.prems in simp_all)
  moreover have va: "up + of_nat j + 1 = up + of_nat (j + 1)" by simp
  ultimately show ?case unfolding uread_bytes.simps va using uread_user_page [OF Suc.prems(1) j(2)] j(1) by (simp flip: Cons_nth_drop_Suc)
qed simp

lemma uread32_user_page: "user_page P up n m bs \<Longrightarrow> j + 4 \<le> 4096 \<Longrightarrow> uread32 (page_addr P) (up + of_nat j) m = Some (bytes_u32 (take 4 (drop j bs)))"
  by (simp add: uread32_def uread_bytes_user_page)

lemma ustrlen_user_page:
  assumes "user_page P up n m bs" and "cstr bs j s"
  shows "ustrlen (page_addr P) (up + of_nat j) 0 m = Some (length s)"
proof -
  have "ustrlen (page_addr P) (up + of_nat j) i m = Some (length s)" if "cstr bs (j + i) (drop i s)" "i \<le> length s" for i
    using that
  proof (induction "length s - i" arbitrary: i)
    case 0
    then have "aread bs (j + i) = Some 0" by simp
    then show ?case using 0 uread_user_page [OF assms(1), of "j + i"] assms(1) by (subst ustrlen.simps) (simp add: user_page_def panic_iff add.assoc)
  next
    case (Suc k)
    then have d: "drop i s = s ! i # drop (Suc i) s" by (simp add: Cons_nth_drop_Suc)
    then have "aread bs (j + i) = Some (s ! i)" "s ! i \<noteq> 0" "cstr bs (j + Suc i) (drop (Suc i) s)" using Suc.prems(1) by simp_all
    then show ?case using Suc uread_user_page [OF assms(1), of "j + i"] assms(1) by (subst ustrlen.simps) (simp add: user_page_def panic_iff add.assoc)
  qed
  from this [of 0] show ?thesis using assms(2) by simp
qed

end
