(* ===== verification/Load.thy ===== *)
theory Load
  imports User_Mem Process Filesys
begin

text \<open>
  Loading of user programs, the second half of userprog/process.c: the ELF headers, the segments of a program,
  its stack with the arguments of the command line.
\<close>

unbundle bit_operations_syntax

section \<open>Headers\<close>

record Elf32_Ehdr =
  e_ident :: "u8 list"
  e_type :: u16
  e_machine :: u16
  e_version :: u32
  e_entry :: u32
  e_phoff :: u32
  e_phentsize :: u16
  e_phnum :: u16

record Elf32_Phdr =
  p_type :: u32
  p_offset :: u32
  p_vaddr :: u32
  p_filesz :: u32
  p_memsz :: u32
  p_flags :: u32

definition EHDR_SIZE :: nat where
  "EHDR_SIZE = 52"

definition PHDR_SIZE :: nat where
  "PHDR_SIZE = 32"

definition bytes_u16 :: "u8 list \<Rightarrow> u16" where
  "bytes_u16 bs = ucast (bs ! 0) OR push_bit 8 (ucast (bs ! 1))"

definition word_at :: "u8 list \<Rightarrow> nat \<Rightarrow> u32" where
  "word_at bs i = bytes_u32 (take 4 (drop i bs))"

definition half_at :: "u8 list \<Rightarrow> nat \<Rightarrow> u16" where
  "half_at bs i = bytes_u16 (take 2 (drop i bs))"

text \<open>The fields that are used; the others are skipped.\<close>

definition dec_ehdr :: "u8 list \<Rightarrow> Elf32_Ehdr" where
  "dec_ehdr bs = \<lparr>e_ident = take 16 bs, e_type = half_at bs 16, e_machine = half_at bs 18, e_version = word_at bs 20,
     e_entry = word_at bs 24, e_phoff = word_at bs 28, e_phentsize = half_at bs 42, e_phnum = half_at bs 44\<rparr>"

definition dec_phdr :: "u8 list \<Rightarrow> Elf32_Phdr" where
  "dec_phdr bs = \<lparr>p_type = word_at bs 0, p_offset = word_at bs 4, p_vaddr = word_at bs 8, p_filesz = word_at bs 16,
     p_memsz = word_at bs 20, p_flags = word_at bs 24\<rparr>"

definition PT_LOAD :: u32 where "PT_LOAD = 1"

definition PT_DYNAMIC :: u32 where "PT_DYNAMIC = 2"

definition PT_INTERP :: u32 where "PT_INTERP = 3"

definition PT_SHLIB :: u32 where "PT_SHLIB = 5"

definition PF_W :: u32 where "PF_W = 2"

section \<open>Segments\<close>

definition install_page :: "u32 \<Rightarrow> u32 \<Rightarrow> u32 \<Rightarrow> bool \<Rightarrow> machine \<Rightarrow> (bool \<times> machine) option" where
  "install_page pd upage kpage writable m = do {
     p \<leftarrow> pagedir_get_page pd upage m;
     if p = 0 then pagedir_set_page pd upage kpage writable m else Some (False, m)
   }"

definition setup_stack :: "u32 \<Rightarrow> machine \<Rightarrow> (bool \<times> machine) option" where
  "setup_stack pd m = do {
     (kpage, m) \<leftarrow> palloc_get_page (PAL_USER OR PAL_ZERO) m;
     if kpage \<noteq> 0 then do {
       (success, m) \<leftarrow> install_page pd (PHYS_BASE - of_nat PGSIZE) kpage True m;
       if success then Some (True, m)
       else do { m \<leftarrow> palloc_free_page kpage m; Some (False, m) }
     } else Some (False, m)
   }"

text \<open>Bytes read from a file to an address.\<close>

definition put_bytes :: "kmemory \<Rightarrow> u32 \<Rightarrow> u8 list \<Rightarrow> kmemory" where
  "put_bytes m p bs = (\<lambda>a. if unat (a - p) < length bs then bs ! unat (a - p) else m a)"

text \<open>The loop of \<^verbatim>\<open>load_segment\<close>.  The subtractions do not wrap since the sum of the two counts is a
  multiple of the page size.\<close>

function segment_loop :: "ptr \<Rightarrow> u32 \<Rightarrow> u32 \<Rightarrow> nat \<Rightarrow> nat \<Rightarrow> bool \<Rightarrow> fs \<Rightarrow> machine \<Rightarrow> (bool \<times> fs \<times> machine) option" where
  "segment_loop file pd upage read_bytes zero_bytes writable fs m = (
     if read_bytes > 0 \<or> zero_bytes > 0 then do {
       let page_read_bytes = (if read_bytes < PGSIZE then read_bytes else PGSIZE);
       let page_zero_bytes = PGSIZE - page_read_bytes;
       (kpage, m) \<leftarrow> palloc_get_page PAL_USER m;
       if kpage = 0 then Some (False, fs, m)
       else do {
         (bs, fs) \<leftarrow> file_read file (int page_read_bytes) fs;
         let m = m\<lparr>kmem := put_bytes (kmem m) kpage bs\<rparr>;
         if length bs \<noteq> page_read_bytes then do { m \<leftarrow> palloc_free_page kpage m; Some (False, fs, m) }
         else do {
           let m = m\<lparr>kmem := fill (kmem m) (kpage + of_nat page_read_bytes) 0 page_zero_bytes\<rparr>;
           (ok, m) \<leftarrow> install_page pd upage kpage writable m;
           if \<not> ok then do { m \<leftarrow> palloc_free_page kpage m; Some (False, fs, m) }
           else segment_loop file pd (upage + of_nat PGSIZE) (read_bytes - page_read_bytes) (zero_bytes - page_zero_bytes) writable fs m
         }
       }
     } else Some (True, fs, m))"
  by pat_completeness auto
termination
  by (relation "measure (\<lambda>(file, pd, upage, r, z, w, fs, m). r + z)") (auto simp: PGSIZE_def)

declare segment_loop.simps [simp del]

definition load_segment :: "ptr \<Rightarrow> int \<Rightarrow> u32 \<Rightarrow> u32 \<Rightarrow> u32 \<Rightarrow> u32 \<Rightarrow> bool \<Rightarrow> fs \<Rightarrow> machine \<Rightarrow> (bool \<times> fs \<times> machine) option" where
  "load_segment file ofs pd upage read_bytes zero_bytes writable fs m = do {
     ASSERT ((read_bytes + zero_bytes) mod of_nat PGSIZE = 0);
     ASSERT (pg_ofs upage = 0);
     ASSERT (ofs mod int PGSIZE = 0);
     fs \<leftarrow> file_seek file ofs fs;
     segment_loop file pd upage (unat read_bytes) (unat zero_bytes) writable fs m
   }"

definition validate_segment :: "Elf32_Phdr \<Rightarrow> int \<Rightarrow> bool" where
  "validate_segment ph len \<longleftrightarrow>
     p_offset ph AND PGMASK = p_vaddr ph AND PGMASK \<and>
     p_offset ph \<le> word_of_int len \<and>
     p_memsz ph \<ge> p_filesz ph \<and>
     p_memsz ph \<noteq> 0 \<and>
     is_user_vaddr (p_vaddr ph) \<and>
     is_user_vaddr (p_vaddr ph + p_memsz ph) \<and>
     p_vaddr ph + p_memsz ph \<ge> p_vaddr ph \<and>
     p_vaddr ph \<ge> of_nat PGSIZE"

text \<open>\<^verbatim>\<open>ROUND_UP\<close> to whole pages on 32-bit values.\<close>

definition round_up32 :: "u32 \<Rightarrow> u32" where
  "round_up32 x = (x + of_nat PGSIZE - 1) div of_nat PGSIZE * of_nat PGSIZE"

definition read_zero_bytes :: "Elf32_Phdr \<Rightarrow> u32 \<times> u32" where
  "read_zero_bytes ph = (
     let page_offset = p_vaddr ph AND PGMASK in
     if p_filesz ph > 0 then
       let read_bytes = page_offset + p_filesz ph in
       (read_bytes, round_up32 (page_offset + p_memsz ph) - read_bytes)
     else (0, round_up32 (page_offset + p_memsz ph)))"

definition load_phdr :: "ptr \<Rightarrow> u32 \<Rightarrow> Elf32_Phdr \<Rightarrow> fs \<Rightarrow> machine \<Rightarrow> (bool \<times> fs \<times> machine) option" where
  "load_phdr file pd ph fs m = (
     if p_type ph = PT_DYNAMIC \<or> p_type ph = PT_INTERP \<or> p_type ph = PT_SHLIB then Some (False, fs, m)
     else if p_type ph = PT_LOAD then do {
       len \<leftarrow> file_length fs file;
       if validate_segment ph len then
         load_segment file (sint (p_offset ph AND NOT PGMASK)) pd (p_vaddr ph AND NOT PGMASK)
           (fst (read_zero_bytes ph)) (snd (read_zero_bytes ph)) (p_flags ph AND PF_W \<noteq> 0) fs m
       else Some (False, fs, m)
     } else Some (True, fs, m))"

text \<open>The loop over the program headers; \<open>n\<close> of them are left.\<close>

primrec load_phdrs :: "nat \<Rightarrow> ptr \<Rightarrow> u32 \<Rightarrow> int \<Rightarrow> fs \<Rightarrow> machine \<Rightarrow> (bool \<times> fs \<times> machine) option" where
  "load_phdrs 0 file pd file_ofs fs m = Some (True, fs, m)"
| "load_phdrs (Suc n) file pd file_ofs fs m = do {
     len \<leftarrow> file_length fs file;
     if file_ofs < 0 \<or> file_ofs > len then Some (False, fs, m)
     else do {
       fs \<leftarrow> file_seek file file_ofs fs;
       (bs, fs) \<leftarrow> file_read file (int PHDR_SIZE) fs;
       if length bs \<noteq> PHDR_SIZE then Some (False, fs, m)
       else do {
         ASSERT (file_ofs + int PHDR_SIZE < 2 ^ 31);
         (ok, fs, m) \<leftarrow> load_phdr file pd (dec_phdr bs) fs m;
         if ok then load_phdrs n file pd (file_ofs + int PHDR_SIZE) fs m else Some (False, fs, m)
       }
     }
   }"

section \<open>The arguments\<close>

abbreviation space_str :: memory where
  "space_str \<equiv> [0, 32, 0]"

text \<open>The words of the command line are copied to the stack, the first one at the top.\<close>

partial_function (option) push_words :: "u32 \<Rightarrow> memory \<Rightarrow> addr \<Rightarrow> addr \<Rightarrow> u32 \<Rightarrow> nat \<Rightarrow> machine \<Rightarrow> (u32 \<times> nat \<times> machine) option" where
  "push_words pd s token save_ptr sp argc m = (
     if token \<noteq> 0 then do {
       arg_length \<leftarrow> strlen s token;
       let sp = sp - of_nat (arg_length + 1);
       m \<leftarrow> uwrite_bytes pd sp (take arg_length (drop token s)) m;
       (token, save_ptr, s) \<leftarrow> strtok_r s 0 space_str 1 save_ptr;
       push_words pd s token save_ptr sp (argc + 1) m
     } else Some (sp, argc, m))"

primrec push_pointers :: "nat \<Rightarrow> u32 \<Rightarrow> u32 \<Rightarrow> u32 \<Rightarrow> machine \<Rightarrow> (u32 \<times> machine) option" where
  "push_pointers 0 pd args_pointer sp m = Some (sp, m)"
| "push_pointers (Suc n) pd args_pointer sp m = do {
     let sp = sp - 4;
     m \<leftarrow> uwrite32 pd sp args_pointer m;
     len \<leftarrow> ustrlen pd args_pointer 0 m;
     push_pointers n pd (args_pointer + of_nat (len + 1)) sp m
   }"

definition push_arguments :: "u32 \<Rightarrow> memory \<Rightarrow> addr \<Rightarrow> addr \<Rightarrow> u32 \<Rightarrow> machine \<Rightarrow> (u32 \<times> machine) option" where
  "push_arguments pd s token save_ptr esp m = do {
     (sp, argc, m) \<leftarrow> push_words pd s token save_ptr esp 0 m;
     let args_pointer = sp;
     let sp = sp - 4;
     m \<leftarrow> uwrite_bytes pd sp [0] m;
     (sp, m) \<leftarrow> push_pointers argc pd args_pointer sp m;
     let sp = sp - 4;
     m \<leftarrow> uwrite32 pd sp (sp + 4) m;
     let sp = sp - 4;
     m \<leftarrow> uwrite32 pd sp (of_nat argc) m;
     let sp = sp - 4;
     m \<leftarrow> uwrite32 pd sp 0 m;
     Some (sp, m)
   }"

section \<open>Loading a program\<close>

definition bad_ehdr :: "u8 list \<Rightarrow> bool" where
  "bad_ehdr bs \<longleftrightarrow> (let h = dec_ehdr bs in
     length bs \<noteq> EHDR_SIZE \<or> take 7 (e_ident h) \<noteq> [0x7f, 69, 76, 70, 1, 1, 1] \<or> e_type h \<noteq> 2 \<or> e_machine h \<noteq> 3 \<or>
     e_version h \<noteq> 1 \<or> e_phentsize h \<noteq> of_nat PHDR_SIZE \<or> e_phnum h > 1024)"

text \<open>The part after the file was opened: whether the program was loaded, its entry and its stack pointer.
  Releasing the copy of the command line fails when it begins with a space, since its first word is not the
  start of the block.\<close>

definition load_file :: "ptr \<Rightarrow> u32 \<Rightarrow> u8 list \<Rightarrow> memory \<Rightarrow> addr \<Rightarrow> addr \<Rightarrow> fs \<Rightarrow> machine \<Rightarrow> (bool \<times> u32 \<times> u32 \<times> fs \<times> machine) option" where
  "load_file file pd cmd s token save_ptr fs m = do {
     (bs, fs) \<leftarrow> file_read file (int EHDR_SIZE) fs;
     if bad_ehdr bs then Some (False, 0, 0, fs, m)
     else do {
       (ok, fs, m) \<leftarrow> load_phdrs (unat (e_phnum (dec_ehdr bs))) file pd (sint (e_phoff (dec_ehdr bs))) fs m;
       if \<not> ok then Some (False, 0, 0, fs, m)
       else do {
         (ok, m) \<leftarrow> setup_stack pd m;
         if \<not> ok then Some (False, 0, 0, fs, m)
         else do {
           (sp, m) \<leftarrow> push_arguments pd s token save_ptr PHYS_BASE m;
           ASSERT (hd cmd \<noteq> 32);
           fs \<leftarrow> file_deny_write file fs;
           Some (True, e_entry (dec_ehdr bs), sp, fs, m)
         }
       }
     }
   }"

definition load :: "nat \<Rightarrow> u8 list \<Rightarrow> kernel \<Rightarrow> (bool \<times> u32 \<times> u32 \<times> kernel) option" where
  "load depth cmd k = do {
     t \<leftarrow> thread_current k;
     (pd, m) \<leftarrow> pagedir_create (mach k);
     k \<leftarrow> upd_th t (\<lambda>th. th\<lparr>pagedir := pd\<rparr>) (k\<lparr>mach := m\<rparr>);
     if pd = 0 then Some (False, 0, 0, k)
     else do {
       k \<leftarrow> process_activate k;
       let (p, f) = malloc (kfs k);
       ASSERT (p \<noteq> NULL);
       (token, save_ptr, s) \<leftarrow> strtok_r (path_copy cmd) 1 space_str 1 0;
       ASSERT (token \<noteq> 0);
       (file, f) \<leftarrow> filesys_open depth (str_at s token) f;
       if file = NULL then Some (False, 0, 0, k\<lparr>kfs := f\<rparr>)
       else do {
         (ok, eip, esp, f, m) \<leftarrow> load_file file pd cmd s token save_ptr f (mach k);
         f \<leftarrow> file_close (free_map_release depth) file f;
         Some (ok, eip, esp, k\<lparr>kfs := f, mach := m\<rparr>)
       }
     }
   }"

section \<open>The image of the stack\<close>

text \<open>The stack page, at the top of user memory.\<close>

definition STACK_PAGE :: u32 where
  "STACK_PAGE = 0xbffff000"

text \<open>The stack pointer is at offset \<open>k\<close> of its page, whose bytes below are still zero.\<close>

definition stack_at :: "nat \<Rightarrow> nat \<Rightarrow> machine \<Rightarrow> nat \<Rightarrow> u8 list \<Rightarrow> bool" where
  "stack_at P n m k tail \<longleftrightarrow> user_page P STACK_PAGE n m (replicate k 0 @ tail)"

lemma stack_at_len: "stack_at P n m k tail \<Longrightarrow> k + length tail = 4096"
  by (simp add: stack_at_def user_page_def)

lemma sp_minus: "j \<le> k \<Longrightarrow> STACK_PAGE + of_nat k - of_nat j = STACK_PAGE + of_nat (k - j)"
  by (simp add: of_nat_diff)

lemma stack_push:
  assumes s: "stack_at P n m k tail" and x: "length xs + z \<le> k"
  obtains m' where "uwrite_bytes (page_addr P) (STACK_PAGE + of_nat (k - (length xs + z))) xs m = Some m'"
    "stack_at P n m' (k - (length xs + z)) (xs @ replicate z 0 @ tail)" "stores n m m'"
proof -
  let ?k = "k - (length xs + z)"
  have "?k + length xs \<le> 4096" using x stack_at_len [OF s] by simp
  from uwrite_bytes_user_page [OF s [unfolded stack_at_def] this]
  obtain m' where m': "uwrite_bytes (page_addr P) (STACK_PAGE + of_nat ?k) xs m = Some m'"
    "user_page P STACK_PAGE n m' (overwrite (replicate k 0 @ tail) ?k xs)" "stores n m m'"
    by blast
  have "overwrite (replicate k 0 @ tail) ?k xs = replicate ?k 0 @ xs @ replicate z 0 @ tail"
    using x by (simp add: overwrite_def)
  then show ?thesis using that m' by (simp add: stack_at_def)
qed

lemma stack_push32:
  assumes s: "stack_at P n m k tail" and k: "4 \<le> k"
  obtains m' where "uwrite32 (page_addr P) (STACK_PAGE + of_nat k - 4) v m = Some m'" "stack_at P n m' (k - 4) (u32_bytes v @ tail)"
    "stores n m m'"
proof -
  have e: "STACK_PAGE + of_nat k - 4 = STACK_PAGE + of_nat (k - 4)" using sp_minus [OF k] by simp
  have "length (u32_bytes v) + 0 \<le> k" using k by simp
  from stack_push [OF s this] obtain m' where "uwrite_bytes (page_addr P) (STACK_PAGE + of_nat (k - 4)) (u32_bytes v) m = Some m'"
    "stack_at P n m' (k - 4) (u32_bytes v @ tail)" "stores n m m'" by (metis add_0_right append_Nil length_u32_bytes replicate_0)
  then show ?thesis using that [of m'] unfolding uwrite32_def e by blast
qed

definition zstr :: "u8 list \<Rightarrow> u8 list" where
  "zstr w = w @ [0]"

lemma length_zstr [simp]: "length (zstr w) = length w + 1"
  by (simp add: zstr_def)

abbreviation strs :: "u8 list list \<Rightarrow> u8 list" where
  "strs ws \<equiv> concat (map zstr ws)"

text \<open>One call of \<^verbatim>\<open>strtok_r\<close> and the words that are left.\<close>

definition scan :: "memory \<Rightarrow> addr \<Rightarrow> addr \<Rightarrow> u8 list list \<Rightarrow> bool" where
  "scan s token save ws \<longleftrightarrow> (case ws of
       [] \<Rightarrow> token = 0
     | w # ws' \<Rightarrow> token \<noteq> 0 \<and> cstr s token w \<and> (\<exists>rest. save \<noteq> 0 \<and> cstr s save rest \<and> tokens {32} rest = ws'))"

lemma space_cstr: "cstr space_str 1 [32]"
  by (simp add: aread_def)

lemma strtok_scan:
  assumes "cstr s p str" and "p \<noteq> 0"
  obtains token save s' where "strtok_r s p space_str 1 q = Some (token, save, s')" "scan s' token save (tokens {32} str)"
proof -
  let ?t = "dropWhile (\<lambda>c. c \<in> {32}) str"
  note step = strtok_r_cstr [OF assms space_cstr, of q]
  show ?thesis
  proof (cases "?t = []")
    case True
    then show ?thesis using that step(1) by (simp add: scan_def tokens.simps [of _ str])
  next
    case False
    then obtain tok save s' rest where st: "strtok_r s p space_str 1 q = Some (tok, save, s')" "p \<le> tok" "cstr s' tok (takeWhile (\<lambda>c. c \<notin> {32}) ?t)"
      "tok + length (takeWhile (\<lambda>c. c \<notin> {32}) ?t) \<le> save" "cstr s' save rest" "tokens {32} rest = tokens {32} (dropWhile (\<lambda>c. c \<notin> {32}) ?t)"
      using step(2) by auto
    then have "scan s' tok save (tokens {32} str)"
      using False assms(2) by (auto simp: scan_def tokens.simps [of _ str] Let_def)
    then show ?thesis using that st(1) by blast
  qed
qed

lemma push_words_run:
  assumes "scan s token save ws" and "stack_at P n m k tail" and "length (strs ws) \<le> k"
  shows "\<exists>m'. push_words (page_addr P) s token save (STACK_PAGE + of_nat k) argc m =
      Some (STACK_PAGE + of_nat (k - length (strs ws)), argc + length ws, m') \<and>
    stack_at P n m' (k - length (strs ws)) (strs (rev ws) @ tail) \<and> stores n m m'"
  using assms
proof (induction ws arbitrary: s token save m k tail argc)
  case Nil
  then show ?case by (subst push_words.simps) (simp add: scan_def)
next
  case (Cons w ws)
  obtain rest where r: "token \<noteq> 0" "cstr s token w" "save \<noteq> 0" "cstr s save rest" "tokens {32} rest = ws"
    using Cons.prems(1) by (auto simp: scan_def)
  have k: "length w + 1 \<le> k" using Cons.prems(3) by simp
  have len: "strlen s token = Some (length w)" using strlen_cstr [OF r(2,1)] .
  have w: "take (length w) (drop token s) = w" using r(2) by (simp add: cstr_iff)
  obtain m1 where m1: "uwrite_bytes (page_addr P) (STACK_PAGE + of_nat (k - (length w + 1))) w m = Some m1"
    "stack_at P n m1 (k - (length w + 1)) (w @ replicate 1 0 @ tail)" "stores n m m1"
    by (rule stack_push [OF Cons.prems(2) k])
  obtain token' save' s' where st: "strtok_r s save space_str 1 0 = Some (token', save', s')" "scan s' token' save' ws"
    using strtok_scan [OF r(4,3), of 0] r(5) by metis
  have st': "strtok_r s 0 space_str 1 save = Some (token', save', s')" using st(1) strtok_r_continue [OF r(3), of s space_str 1 0] by simp
  have "stack_at P n m1 (k - (length w + 1)) (zstr w @ tail)" using m1(2) by (simp add: zstr_def)
  moreover have "length (strs ws) \<le> k - (length w + 1)" using Cons.prems(3) by simp
  ultimately obtain m' where m': "push_words (page_addr P) s' token' save' (STACK_PAGE + of_nat (k - (length w + 1))) (argc + 1) m1 =
      Some (STACK_PAGE + of_nat (k - (length w + 1) - length (strs ws)), argc + 1 + length ws, m')"
    "stack_at P n m' (k - (length w + 1) - length (strs ws)) (strs (rev ws) @ zstr w @ tail)" "stores n m1 m'"
    using Cons.IH [OF st(2)] by blast
  have e: "k - (length w + 1) - length (strs ws) = k - length (strs (w # ws))" by simp
  have "stores n m m'" using stores_trans m1(3) m'(3) .
  moreover have "push_words (page_addr P) s token save (STACK_PAGE + of_nat k) argc m =
      Some (STACK_PAGE + of_nat (k - length (strs (w # ws))), argc + length (w # ws), m')"
    using r(1) by (subst push_words.simps) (simp only: if_True simp_thms len w sp_minus [OF k] Let_def m1(1) st' m'(1) e Option.bind.simps prod.case, simp)
  ultimately show ?case using m'(2) unfolding e by simp
qed

text \<open>The addresses of consecutive strings that begin at offset \<open>q\<close>.\<close>

fun ptrs :: "nat \<Rightarrow> u8 list list \<Rightarrow> u32 list" where
  "ptrs q [] = []"
| "ptrs q (r # rs) = (STACK_PAGE + of_nat q) # ptrs (q + length r + 1) rs"

lemma enc_words_append [simp]: "enc_words (xs @ ys) = enc_words xs @ enc_words ys"
  by (induction xs) simp_all

lemma push_pointers_run:
  assumes "stack_at P n m k (pre @ strs rs @ post)" and "\<forall>r \<in> set rs. 0 \<notin> set r" and "4 * length rs \<le> k"
  shows "\<exists>m'. push_pointers (length rs) (page_addr P) (STACK_PAGE + of_nat (k + length pre)) (STACK_PAGE + of_nat k) m =
      Some (STACK_PAGE + of_nat (k - 4 * length rs), m') \<and>
    stack_at P n m' (k - 4 * length rs) (enc_words (rev (ptrs (k + length pre) rs)) @ pre @ strs rs @ post) \<and> stores n m m'"
  using assms
proof (induction rs arbitrary: m k pre)
  case (Cons r rs)
  let ?q = "k + length pre" and ?pre = "u32_bytes (STACK_PAGE + of_nat (k + length pre)) @ pre @ zstr r"
  have k: "4 \<le> k" using Cons.prems(3) by simp
  obtain m1 where m1: "uwrite32 (page_addr P) (STACK_PAGE + of_nat k - 4) (STACK_PAGE + of_nat ?q) m = Some m1"
    "stack_at P n m1 (k - 4) (u32_bytes (STACK_PAGE + of_nat ?q) @ pre @ strs (r # rs) @ post)" "stores n m m1"
    by (rule stack_push32 [OF Cons.prems(1) k])
  have "cstr (replicate (k - 4) 0 @ u32_bytes (STACK_PAGE + of_nat ?q) @ pre @ strs (r # rs) @ post) ?q r"
    using k Cons.prems(2) by (auto simp: cstr_iff zstr_def nth_append)
  then have len: "ustrlen (page_addr P) (STACK_PAGE + of_nat ?q) 0 m1 = Some (length r)"
    using ustrlen_user_page m1(2) unfolding stack_at_def by blast
  have e: "k - 4 + length ?pre = ?q + length r + 1" "k - 4 - 4 * length rs = k - 4 * length (r # rs)" using k by simp_all
  have "stack_at P n m1 (k - 4) (?pre @ strs rs @ post)" "\<forall>r \<in> set rs. 0 \<notin> set r" "4 * length rs \<le> k - 4" using m1(2) Cons.prems(2,3) by simp_all
  from Cons.IH [OF this, unfolded e] obtain m' where
    m': "push_pointers (length rs) (page_addr P) (STACK_PAGE + of_nat (?q + length r + 1)) (STACK_PAGE + of_nat (k - 4)) m1 =
        Some (STACK_PAGE + of_nat (k - 4 * length (r # rs)), m')"
      "stack_at P n m' (k - 4 * length (r # rs)) (enc_words (rev (ptrs (?q + length r + 1) rs)) @ ?pre @ strs rs @ post)" "stores n m1 m'" by blast
  have a: "STACK_PAGE + of_nat ?q + of_nat (length r + 1) = STACK_PAGE + of_nat (?q + length r + 1)" by simp
  have b: "STACK_PAGE + of_nat k - 4 = STACK_PAGE + of_nat (k - 4)" using sp_minus [OF k] by simp
  have "push_pointers (length (r # rs)) (page_addr P) (STACK_PAGE + of_nat ?q) (STACK_PAGE + of_nat k) m =
      Some (STACK_PAGE + of_nat (k - 4 * length (r # rs)), m')"
    by (simp only: length_Cons push_pointers.simps Let_def m1(1) [unfolded b] b len a Option.bind.simps m'(1))
  then show ?case using m'(2) stores_trans [OF m1(3) m'(3)] by auto
qed simp

lemma push_arguments_run:
  assumes sc: "scan s token save ws" and st: "stack_at P n m 4096 []" and nz: "\<forall>w \<in> set ws. 0 \<notin> set w"
    and fit: "length (strs ws) + 4 * length ws + 16 \<le> 4096"
  defines "q \<equiv> 4096 - length (strs ws)" and "e \<equiv> 4096 - (length (strs ws) + 4 * length ws + 16)"
  shows "\<exists>m'. push_arguments (page_addr P) s token save PHYS_BASE m = Some (STACK_PAGE + of_nat e, m') \<and>
    stack_at P n m' e (enc_words ([0, of_nat (length ws), STACK_PAGE + of_nat (e + 12)] @ rev (ptrs q (rev ws)) @ [0]) @ strs (rev ws)) \<and> stores n m m'"
proof -
  have top: "PHYS_BASE = STACK_PAGE + of_nat 4096" by (simp add: PHYS_BASE_def STACK_PAGE_def)
  have "length (strs ws) \<le> 4096" using fit by simp
  from push_words_run [OF sc st this, of 0] obtain m1 where
    m1: "push_words (page_addr P) s token save PHYS_BASE 0 m = Some (STACK_PAGE + of_nat q, length ws, m1)" "stack_at P n m1 q (strs (rev ws))" "stores n m m1"
    unfolding top q_def by auto
  have q: "4 \<le> q" "length [0 :: u8] + 3 \<le> q" "4 * length (rev ws) \<le> q - 4" using fit by (simp_all add: q_def)
  have b: "STACK_PAGE + of_nat q - 4 = STACK_PAGE + of_nat (q - 4)" using sp_minus [OF q(1)] by simp
  obtain m2 where "uwrite_bytes (page_addr P) (STACK_PAGE + of_nat (q - (length [0 :: u8] + 3))) [0] m1 = Some m2"
    "stack_at P n m2 (q - (length [0 :: u8] + 3)) ([0] @ replicate 3 0 @ strs (rev ws))" "stores n m1 m2" by (rule stack_push [OF m1(2) q(2)])
  moreover have "u32_bytes 0 = [0] @ replicate 3 0" by (simp add: u32_bytes_def numeral_eq_Suc)
  ultimately have m2: "uwrite_bytes (page_addr P) (STACK_PAGE + of_nat (q - 4)) [0] m1 = Some m2" "stack_at P n m2 (q - 4) (u32_bytes 0 @ strs (rev ws) @ [])"
    "stores n m1 m2" by simp_all
  have qq: "q - 4 + length (u32_bytes 0) = q" using q(1) by simp
  have "\<forall>r \<in> set (rev ws). 0 \<notin> set r" using nz by simp
  from push_pointers_run [OF m2(2) this q(3), unfolded qq length_rev] obtain m3 where
    m3: "push_pointers (length ws) (page_addr P) (STACK_PAGE + of_nat q) (STACK_PAGE + of_nat (q - 4)) m2 = Some (STACK_PAGE + of_nat (q - 4 - 4 * length ws), m3)"
      "stack_at P n m3 (q - 4 - 4 * length ws) (enc_words (rev (ptrs q (rev ws))) @ u32_bytes 0 @ strs (rev ws) @ [])" "stores n m2 m3" by auto
  define k where "k = q - 4 - 4 * length ws"
  have k: "k = e + 12" "4 \<le> k" "4 \<le> k - 4" "4 \<le> k - 4 - 4" using fit by (simp_all add: k_def q_def e_def)
  obtain m4 where m4: "uwrite32 (page_addr P) (STACK_PAGE + of_nat k - 4) (STACK_PAGE + of_nat k) m3 = Some m4"
    "stack_at P n m4 (k - 4) (u32_bytes (STACK_PAGE + of_nat k) @ enc_words (rev (ptrs q (rev ws))) @ u32_bytes 0 @ strs (rev ws) @ [])" "stores n m3 m4"
    by (rule stack_push32 [OF m3(2) [folded k_def] k(2)])
  obtain m5 where m5: "uwrite32 (page_addr P) (STACK_PAGE + of_nat (k - 4) - 4) (of_nat (length ws)) m4 = Some m5"
    "stack_at P n m5 (k - 4 - 4) (u32_bytes (of_nat (length ws)) @ u32_bytes (STACK_PAGE + of_nat k) @ enc_words (rev (ptrs q (rev ws))) @ u32_bytes 0 @ strs (rev ws) @ [])"
    "stores n m4 m5" by (rule stack_push32 [OF m4(2) k(3)])
  obtain m6 where m6: "uwrite32 (page_addr P) (STACK_PAGE + of_nat (k - 4 - 4) - 4) 0 m5 = Some m6"
    "stack_at P n m6 (k - 4 - 4 - 4) (u32_bytes 0 @ u32_bytes (of_nat (length ws)) @ u32_bytes (STACK_PAGE + of_nat k) @ enc_words (rev (ptrs q (rev ws))) @ u32_bytes 0 @ strs (rev ws) @ [])"
    "stores n m5 m6" by (rule stack_push32 [OF m5(2) k(4)])
  have c: "STACK_PAGE + of_nat k - 4 = STACK_PAGE + of_nat (k - 4)" "STACK_PAGE + of_nat (k - 4) - 4 = STACK_PAGE + of_nat (k - 4 - 4)"
    "STACK_PAGE + of_nat (k - 4 - 4) - 4 = STACK_PAGE + of_nat (k - 4 - 4 - 4)" "STACK_PAGE + of_nat (k - 4) + 4 = STACK_PAGE + of_nat k" "k - 4 - 4 - 4 = e"
    using sp_minus [OF k(2)] sp_minus [OF k(3)] sp_minus [OF k(4)] k by (simp_all add: of_nat_diff)
  have "push_arguments (page_addr P) s token save PHYS_BASE m = Some (STACK_PAGE + of_nat e, m6)"
    unfolding push_arguments_def
    by (simp only: m1(1) b m2(1) m3(1) k_def [symmetric] c m4(1) [unfolded c] m5(1) [unfolded c] m6(1) [unfolded c] Let_def Option.bind.simps prod.case)
  moreover have "stores n m m6" using m1(3) m2(3) m3(3) m4(3) m5(3) m6(3) stores_trans by meson
  ultimately show ?thesis using m6(2) unfolding c k(1) by auto
qed

section \<open>The stack of a new process\<close>

lemma STACK_PAGE_user: "is_user_vaddr STACK_PAGE" "pg_ofs STACK_PAGE = 0" "PHYS_BASE - of_nat PGSIZE = STACK_PAGE"
  by (simp_all add: is_user_vaddr_def PHYS_BASE_def STACK_PAGE_def pg_ofs_def PGMASK_def BITMASK_def PGSIZE_def PGBITS_def)

text \<open>With a free page in either pool, \<^verbatim>\<open>setup_stack\<close> succeeds and the stack page is empty.\<close>

lemma setup_stack_run:
  assumes wf: "machine_wf m" "pd_wf m P" and ipd: "page_addr P \<noteq> init_page_dir m"
    and new: "pagedir_get_page (page_addr P) STACK_PAGE m = Some 0"
    and ram: "\<forall>k < pool_pages (user_pool m). of_nat (base_no (user_pool m) + k - 786432) < init_ram_pages m"
    and fu: "ku < pool_pages (user_pool m)" "\<not> page_used m (base_no (user_pool m) + ku)"
    and fk: "kk < pool_pages (kernel_pool m)" "\<not> page_used m (base_no (kernel_pool m) + kk)"
  obtains n m' where "setup_stack (page_addr P) m = Some (True, m')" "stack_at P n m' 4096 []"
proof -
  have fl: "(PAL_USER OR PAL_ZERO) AND PAL_ASSERT = 0" "((PAL_USER OR PAL_ZERO) AND PAL_USER \<noteq> 0) = True" "(PAL_USER OR PAL_ZERO) AND PAL_ZERO \<noteq> 0"
    by (simp_all add: PAL_ZERO_def PAL_ASSERT_def PAL_USER_def)
  have gp: "get_pool True m = user_pool m" by (simp add: get_pool_def)
  show ?thesis
  proof (cases rule: palloc_get_some [OF wf(1) zero_less_one fl(1) fl(2) [symmetric]])
    case 1
    then show ?thesis using fu by (auto simp: gp Suc_le_eq)
  next
    case (2 n k m1)
    have n: "n < 2 ^ 20" "\<not> page_used m n" "n \<noteq> 0" using 2(4,7,12) by auto
    have mem: "kmem m1 a = (if unat a div 4096 = n then 0 else kmem m a)" for a using 2(9) fl(3) by auto
    have us: "page_used m1 j \<longleftrightarrow> page_used m j \<or> j = n" for j using 2(8) by auto
    have "data_page m P n" using wf(2) n(1,2) by (auto simp: data_page_def pd_wf_def)
    from data_page_store [OF wf(2) this, of m1] mem us this
    have S: "pd_wf m1 P" "data_page m1 P n" "pagedir_get_page (page_addr P) STACK_PAGE m1 = Some 0"
      using STACK_PAGE_user(1) new by auto
    have kp: "kernel_pool m1 = kernel_pool m" using 2(16) by (simp add: get_pool_def)
    have "base_no (kernel_pool m) + kk \<noteq> n"
      using wf(1) fk(1) 2(2,3) by (auto simp: machine_wf_def disjoint_iff gp)
    then have free: "kk < bitmap_size (used_map (kernel_pool m1))" "\<not> page_used m1 (base_no (kernel_pool m1) + kk)"
      using fk us by (simp_all add: kp bitmap_size_def)
    have rn: "of_nat (n - 786432) < init_ram_pages m1" "page_addr P \<noteq> init_page_dir m1" using ram ipd 2(2,3,13,15) by (simp_all add: gp)
    show ?thesis
    proof (cases rule: set_page_cases [OF 2(5) S(1) STACK_PAGE_user(1,2) 2(12) n(1) rn S(3), of True])
      case 1
      then show ?thesis using free by blast
    next
      case m': (2 m')
      have "data_page m' P n" "\<forall>a. unat a div 4096 = n \<longrightarrow> kmem m' a = 0"
        using m'(5) S(2) us mem unfolding data_kept_def by auto
      then have "stack_at P n m' 4096 []"
        using m'(3,4) n STACK_PAGE_user unat_page_ofs [OF n(1)] by (simp add: stack_at_def user_page_def)
      moreover have "setup_stack (page_addr P) m = Some (True, m')"
        using 2(1,6) S(3) m'(1) STACK_PAGE_user(3) by (simp add: setup_stack_def palloc_get_page_def install_page_def)
      ultimately show ?thesis using that by blast
    qed
  qed
qed

text \<open>Reading words and strings back from the stack page.\<close>

lemma stack_word:
  assumes "stack_at P n m e (enc_words ws @ r)" and "i < length ws"
  shows "uread32 (page_addr P) (STACK_PAGE + of_nat e + 4 * of_nat i) m = Some (ws ! i)"
proof -
  have a: "STACK_PAGE + of_nat e + 4 * of_nat i = STACK_PAGE + of_nat (e + 4 * i)" by simp
  have "e + 4 * i + 4 \<le> 4096" using stack_at_len [OF assms(1)] assms(2) by (simp add: length_enc_words)
  then have "uread32 (page_addr P) (STACK_PAGE + of_nat (e + 4 * i)) m = Some (bytes_u32 (take 4 (drop (e + 4 * i) (replicate e 0 @ enc_words ws @ r))))"
    using uread32_user_page assms(1) unfolding stack_at_def by blast
  then show ?thesis using dec_words_nth [OF assms(2), of "enc_words ws @ r"] dec_enc_words [of ws r] unfolding a by simp
qed

lemma ptrs_nth: "i < length rs \<Longrightarrow> ptrs q rs ! i = STACK_PAGE + of_nat (q + length (strs (take i rs)))"
proof (induction rs arbitrary: q i)
  case (Cons r rs)
  then show ?case by (cases i) (simp_all add: ac_simps)
qed simp

lemma length_ptrs [simp]: "length (ptrs q rs) = length rs"
  by (induction rs arbitrary: q) simp_all

lemma stack_string:
  assumes st: "stack_at P n m k (pre @ strs rs)" and i: "i < length rs" and q: "q = k + length pre"
  shows "uread_bytes (page_addr P) (ptrs q rs ! i) (length (rs ! i) + 1) m = Some (rs ! i @ [0])"
proof -
  let ?o = "q + length (strs (take i rs))"
  have s: "strs rs = strs (take i rs) @ zstr (rs ! i) @ strs (drop (Suc i) rs)"
    using arg_cong [OF id_take_nth_drop [OF i], of strs] by simp
  have "k + length pre + length (strs rs) = 4096" using stack_at_len [OF st] by simp
  then have "?o + (length (rs ! i) + 1) \<le> 4096" using arg_cong [OF s, of length] q by simp
  then have "uread_bytes (page_addr P) (STACK_PAGE + of_nat ?o) (length (rs ! i) + 1) m =
      Some (take (length (rs ! i) + 1) (drop ?o (replicate k 0 @ pre @ strs rs)))"
    using uread_bytes_user_page st unfolding stack_at_def by blast
  moreover have "drop ?o (replicate k 0 @ pre @ strs rs) = zstr (rs ! i) @ strs (drop (Suc i) rs)" by (subst s) (simp add: q)
  moreover have "take (length (rs ! i) + 1) (zstr (rs ! i) @ strs (drop (Suc i) rs)) = rs ! i @ [0]" by (simp add: zstr_def)
  ultimately show ?thesis unfolding ptrs_nth [OF i] by (simp only:)
qed

text \<open>C15. The initial stack of a process: for a well-formed page directory without a stack page, and memory for it,
  \<^verbatim>\<open>setup_stack\<close> succeeds, and when the words of the command line fit in the stack page with their pointers,
  the code of \<^verbatim>\<open>load\<close> that pushes the arguments succeeds. The process then finds, from its stack pointer up, a null
  return address, \<^verbatim>\<open>argc\<close>, a pointer \<^verbatim>\<open>argv\<close> to the next word, the pointers \<^verbatim>\<open>argv[0]\<close> to
  \<^verbatim>\<open>argv[argc-1]\<close>, each to a null-terminated copy of its word in user memory, and a null \<^verbatim>\<open>argv[argc]\<close>.\<close>

theorem process_arguments:
  assumes "machine_wf m" and "pd_wf m P" and "page_addr P \<noteq> init_page_dir m"
    and "pagedir_get_page (page_addr P) STACK_PAGE m = Some 0"
    and "\<forall>k < bitmap_size (used_map (user_pool m)). of_nat (base_no (user_pool m) + k - 786432) < init_ram_pages m"
    and "ku < bitmap_size (used_map (user_pool m))" and "\<not> page_used m (base_no (user_pool m) + ku)"
    and "kk < bitmap_size (used_map (kernel_pool m))" and "\<not> page_used m (base_no (kernel_pool m) + kk)"
    and "cstr s p cmd" and "p \<noteq> 0" and "ws = tokens {32} cmd"
    and "length (concat (map (\<lambda>w. w @ [0]) ws)) + 4 * length ws + 16 \<le> 4096"
  shows "\<exists>token save s' m1 esp m2. strtok_r s p space_str 1 0 = Some (token, save, s') \<and> setup_stack (page_addr P) m = Some (True, m1) \<and>
    push_arguments (page_addr P) s' token save PHYS_BASE m1 = Some (esp, m2) \<and>
    uread32 (page_addr P) esp m2 = Some 0 \<and> uread32 (page_addr P) (esp + 4) m2 = Some (of_nat (length ws)) \<and>
    uread32 (page_addr P) (esp + 8) m2 = Some (esp + 12) \<and>
    (\<forall>j < length ws. \<exists>a. uread32 (page_addr P) (esp + 12 + 4 * of_nat j) m2 = Some a \<and>
      uread_bytes (page_addr P) a (length (ws ! j) + 1) m2 = Some (ws ! j @ [0])) \<and>
    uread32 (page_addr P) (esp + 12 + 4 * of_nat (length ws)) m2 = Some 0"
proof -
  obtain token save s' where tk: "strtok_r s p space_str 1 0 = Some (token, save, s')" "scan s' token save ws"
    using strtok_scan [OF assms(10,11), of 0] assms(12) by blast
  obtain n m1 where m1: "setup_stack (page_addr P) m = Some (True, m1)" "stack_at P n m1 4096 []"
    by (rule setup_stack_run [OF assms(1-4)]) (use assms(5-9) in \<open>simp_all add: bitmap_size_def\<close>)
  have z: "zstr = (\<lambda>w. w @ [0])" by (simp add: fun_eq_iff zstr_def)
  have fit: "length (strs ws) + 4 * length ws + 16 \<le> 4096" using assms(13) by (simp add: z)
  have nz: "\<forall>w \<in> set ws. 0 \<notin> set w"
  proof -
    have "set (concat ws) \<subseteq> set cmd" using tokens_concat [of "{32}" cmd] assms(12) by auto
    then show ?thesis using assms(10) by (auto simp: cstr_iff)
  qed
  define q e where "q = 4096 - length (strs ws)" and "e = 4096 - (length (strs ws) + 4 * length ws + 16)"
  let ?W = "[0, of_nat (length ws), STACK_PAGE + of_nat (e + 12)] @ rev (ptrs q (rev ws)) @ [0]"
  obtain m2 where m2: "push_arguments (page_addr P) s' token save PHYS_BASE m1 = Some (STACK_PAGE + of_nat e, m2)"
    "stack_at P n m2 e (enc_words ?W @ strs (rev ws))"
    using push_arguments_run [OF tk(2) m1(2) nz fit] unfolding q_def e_def by blast
  have q: "q = e + length (enc_words ?W)" using fit by (simp add: q_def e_def length_enc_words)
  let ?sp = "STACK_PAGE + of_nat e"
  note W = stack_word [OF m2(2)]
  have r: "uread32 (page_addr P) ?sp m2 = Some 0" "uread32 (page_addr P) (?sp + 4) m2 = Some (of_nat (length ws))"
    "uread32 (page_addr P) (?sp + 8) m2 = Some (?sp + 12)" "uread32 (page_addr P) (?sp + 12 + 4 * of_nat (length ws)) m2 = Some 0"
    using W [of 0] W [of 1] W [of 2] W [of "3 + length ws"] by (simp_all add: nth_append add.assoc add.commute [of 12])
  have argv: "\<exists>a. uread32 (page_addr P) (?sp + 12 + 4 * of_nat j) m2 = Some a \<and> uread_bytes (page_addr P) a (length (ws ! j) + 1) m2 = Some (ws ! j @ [0])"
    if j: "j < length ws" for j
  proof -
    have i: "length ws - Suc j < length (rev ws)" "rev ws ! (length ws - Suc j) = ws ! j" using j by (simp_all add: rev_nth)
    have "uread32 (page_addr P) (?sp + 12 + 4 * of_nat j) m2 = Some (ptrs q (rev ws) ! (length ws - Suc j))"
      using W [of "3 + j"] j by (simp add: nth_append rev_nth add.assoc)
    then show ?thesis using stack_string [OF m2(2) i(1) q] unfolding i(2) by blast
  qed
  show ?thesis using tk(1) m1(1) m2(1) r argv by blast
qed

definition ex_cmd :: memory where
  "ex_cmd = [0, 108, 115, 32, 45, 108, 0]"

lemma ex_cmd_tokens: "tokens {32} [108, 115, 32, 45, 108] = [[108, 115], [45, 108 :: u8]]"
  by (simp add: tokens.simps)

lemma ex_pools: "bitmap_size (used_map (user_pool ex_machine)) = 4" "bitmap_size (used_map (kernel_pool ex_machine)) = 8"
  "base_no (user_pool ex_machine) = 0xc0110" "\<not> page_used ex_machine 0xc0110"
  by (simp_all add: ex_machine_def bitmap_size_def base_no_def page_used_def pool_used_def bm_bits_def elem_idx_def ELEM_BITS_def)

lemma ex_ram: "\<forall>k < bitmap_size (used_map (user_pool ex_machine)). of_nat (base_no (user_pool ex_machine) + k - 786432) < init_ram_pages ex_machine"
proof -
  have "of_nat (base_no (user_pool ex_machine) + k - 786432) < init_ram_pages ex_machine" if "k < 4" for k
  proof -
    have "k = 0 \<or> k = 1 \<or> k = 2 \<or> k = 3" using that by auto
    then show ?thesis by (elim disjE) (simp_all add: base_no_def ex_machine_def)
  qed
  then show ?thesis
    by (simp only: ex_pools) blast
qed

theorem process_arguments_witness:
  "\<exists>token save s' m1 esp m2 a. strtok_r ex_cmd 1 space_str 1 0 = Some (token, save, s') \<and> setup_stack (page_addr ex_pd) ex_machine = Some (True, m1) \<and>
    push_arguments (page_addr ex_pd) s' token save PHYS_BASE m1 = Some (esp, m2) \<and> uread32 (page_addr ex_pd) (esp + 4) m2 = Some 2 \<and>
    uread32 (page_addr ex_pd) (esp + 16) m2 = Some a \<and> uread_bytes (page_addr ex_pd) a 3 m2 = Some [45, 108, 0]"
proof -
  let ?ws = "[[108, 115], [45, 108]] :: u8 list list"
  have a: "pagedir_get_page (page_addr ex_pd) STACK_PAGE ex_machine = Some 0"
    by (simp add: pagedir_get_page_def lookup_page_def rd32_ex is_user_vaddr_def PHYS_BASE_def STACK_PAGE_def ex_pd_def page_addr_def Let_def)
  have a': "page_addr ex_pd \<noteq> init_page_dir ex_machine" by (simp add: ex_machine_def ex_pd_def page_addr_def)
  have c: "0 < bitmap_size (used_map (user_pool ex_machine))" "\<not> page_used ex_machine (base_no (user_pool ex_machine) + 0)"
    "2 < bitmap_size (used_map (kernel_pool ex_machine))" "cstr ex_cmd 1 [108, 115, 32, 45, 108]" "(1 :: nat) \<noteq> 0" "?ws = tokens {32} [108, 115, 32, 45, 108]"
    "length (concat (map (\<lambda>w. w @ [0]) ?ws)) + 4 * length ?ws + 16 \<le> 4096"
    by (simp_all add: ex_pools ex_cmd_tokens ex_cmd_def aread_def)
  note T = process_arguments [OF ex_machine_wf ex_pd_wf a' a ex_ram c(1-3) ex_free_page c(4-7)]
  obtain token save s' m1 esp m2 where t: "strtok_r ex_cmd 1 space_str 1 0 = Some (token, save, s')" "setup_stack (page_addr ex_pd) ex_machine = Some (True, m1)"
    "push_arguments (page_addr ex_pd) s' token save PHYS_BASE m1 = Some (esp, m2)" "uread32 (page_addr ex_pd) (esp + 4) m2 = Some (of_nat (length ?ws))"
    "\<forall>j < length ?ws. \<exists>a. uread32 (page_addr ex_pd) (esp + 12 + 4 * of_nat j) m2 = Some a \<and>
      uread_bytes (page_addr ex_pd) a (length (?ws ! j) + 1) m2 = Some (?ws ! j @ [0])"
    using T by blast
  have "\<exists>a. uread32 (page_addr ex_pd) (esp + 16) m2 = Some a \<and> uread_bytes (page_addr ex_pd) a 3 m2 = Some [45, 108, 0]"
    using t(5) [rule_format, of 1] by (simp add: numeral_3_eq_3 add.commute [of esp])
  then show ?thesis using t(1-4) by auto
qed

end
