(* ===== verification/Stdio.thy ===== *)
theory Stdio
  imports Stdlib
begin

text \<open>
  Formatted output, lib/stdio.c.  The format and the string arguments lie in one memory; the variable
  arguments are the 32-bit slots of the stack, so that a 64-bit argument takes two of them.  Characters go to
  an output function of the caller with its auxiliary data, which may fail.
\<close>

unbundle bit_operations_syntax

section \<open>Variable arguments\<close>

type_synonym va_list = "u32 list"

type_synonym 's outfn = "u8 \<Rightarrow> 's \<Rightarrow> 's option"

fun va_int :: "va_list \<Rightarrow> (u32 \<times> va_list) option" where
  "va_int (x # args) = Some (x, args)"
| "va_int [] = None"

fun va_llong :: "va_list \<Rightarrow> (u64 \<times> va_list) option" where
  "va_llong (x # y # args) = Some (ucast x OR push_bit 32 (ucast y), args)"
| "va_llong args = None"

section \<open>Conversions\<close>

datatype conv_type = CHAR_T | SHORT_T | INT_T | INTMAX_T | LONG_T | LONGLONG_T | PTRDIFFT_T | SIZET_T

record printf_conversion =
  flags :: u32
  width :: int
  precision :: int
  ctype :: conv_type

record integer_base =
  ib_base :: nat
  ib_digits :: "u8 list"
  ib_x :: u8
  ib_group :: nat

definition MINUS :: u32 where "MINUS = 1"

definition PLUS :: u32 where "PLUS = 2"

definition SPACE :: u32 where "SPACE = 4"

definition POUND :: u32 where "POUND = 8"

definition ZERO :: u32 where "ZERO = 16"

definition GROUP :: u32 where "GROUP = 32"

text \<open>The characters of a string literal, without and with the terminator.\<close>

definition chars :: "string \<Rightarrow> u8 list" where
  "chars s = map (\<lambda>c. of_nat (of_char c)) s"

definition lit :: "string \<Rightarrow> memory" where
  "lit s = chars s @ [0]"

definition base_d :: integer_base where
  "base_d = \<lparr>ib_base = 10, ib_digits = chars ''0123456789'', ib_x = 0, ib_group = 3\<rparr>"

definition base_o :: integer_base where
  "base_o = \<lparr>ib_base = 8, ib_digits = chars ''01234567'', ib_x = 0, ib_group = 3\<rparr>"

definition base_x :: integer_base where
  "base_x = \<lparr>ib_base = 16, ib_digits = chars ''0123456789abcdef'', ib_x = 120, ib_group = 4\<rparr>"

definition base_X :: integer_base where
  "base_X = \<lparr>ib_base = 16, ib_digits = chars ''0123456789ABCDEF'', ib_x = 88, ib_group = 4\<rparr>"

definition INT_LIMIT :: int where
  "INT_LIMIT = 2 ^ 31 - 1"

section \<open>Parsing a conversion\<close>

definition flag_of :: "u8 \<Rightarrow> u32 option" where
  "flag_of ch = (
     if ch = 45 then Some MINUS else if ch = 43 then Some PLUS else if ch = 32 then Some SPACE
     else if ch = 35 then Some POUND else if ch = 48 then Some ZERO else if ch = 39 then Some GROUP else None)"

function parse_flags :: "memory \<Rightarrow> addr \<Rightarrow> u32 \<Rightarrow> (addr \<times> u32) option" where
  "parse_flags m p fl = do {
     ch \<leftarrow> aread m p;
     (case flag_of ch of
        Some f \<Rightarrow> parse_flags m (p + 1) (fl OR f)
      | None \<Rightarrow> Some (p, fl))
   }"
  by pat_completeness auto
termination
  by (relation "measure (\<lambda>(m, p, fl). length m - p)") (auto simp: panic_iff)

text \<open>Digits of a width or a precision; leaving the range of \<^verbatim>\<open>int\<close> is undefined.\<close>

function parse_number :: "memory \<Rightarrow> addr \<Rightarrow> int \<Rightarrow> (addr \<times> int) option" where
  "parse_number m p v = do {
     ch \<leftarrow> aread m p;
     if isdigit (sint ch) then do {
       ASSERT (v * 10 + sint ch \<le> INT_LIMIT);
       parse_number m (p + 1) (v * 10 + sint ch - 48)
     } else Some (p, v)
   }"
  by pat_completeness auto
termination
  by (relation "measure (\<lambda>(m, p, v). length m - p)") (auto simp: panic_iff)

definition parse_width :: "memory \<Rightarrow> addr \<Rightarrow> u32 \<Rightarrow> va_list \<Rightarrow> (addr \<times> u32 \<times> int \<times> va_list) option" where
  "parse_width m p fl args = do {
     ch \<leftarrow> aread m p;
     (p, w, args) \<leftarrow> (if ch = 42 then do { (x, args) \<leftarrow> va_int args; Some (p + 1, sint x, args) }
                        else do { (p, w) \<leftarrow> parse_number m p 0; Some (p, w, args) });
     if w < 0 then do {
       ASSERT (- w \<le> INT_LIMIT);
       Some (p, fl OR MINUS, - w, args)
     } else Some (p, fl, w, args)
   }"

definition parse_precision :: "memory \<Rightarrow> addr \<Rightarrow> va_list \<Rightarrow> (addr \<times> int \<times> va_list) option" where
  "parse_precision m p args = do {
     ch \<leftarrow> aread m p;
     if ch = 46 then do {
       ch \<leftarrow> aread m (p + 1);
       (p, v, args) \<leftarrow> (if ch = 42 then do { (x, args) \<leftarrow> va_int args; Some (p + 2, sint x, args) }
                          else do { (p, v) \<leftarrow> parse_number m (p + 1) 0; Some (p, v, args) });
       Some (p, if v < 0 then -1 else v, args)
     } else Some (p, -1, args)
   }"

definition parse_type :: "memory \<Rightarrow> addr \<Rightarrow> (addr \<times> conv_type) option" where
  "parse_type m p = do {
     ch \<leftarrow> aread m p;
     if ch = 104 then do {
       ch \<leftarrow> aread m (p + 1);
       Some (if ch = 104 then (p + 2, CHAR_T) else (p + 1, SHORT_T))
     } else if ch = 106 then Some (p + 1, INTMAX_T)
     else if ch = 108 then do {
       ch \<leftarrow> aread m (p + 1);
       Some (if ch = 108 then (p + 2, LONGLONG_T) else (p + 1, LONG_T))
     } else if ch = 116 then Some (p + 1, PTRDIFFT_T)
     else if ch = 122 then Some (p + 1, SIZET_T)
     else Some (p, INT_T)
   }"

definition parse_conversion :: "memory \<Rightarrow> addr \<Rightarrow> va_list \<Rightarrow> (addr \<times> printf_conversion \<times> va_list) option" where
  "parse_conversion m p args = do {
     (p, fl) \<leftarrow> parse_flags m p 0;
     let fl = (if fl AND MINUS \<noteq> 0 then fl AND NOT ZERO else fl);
     let fl = (if fl AND PLUS \<noteq> 0 then fl AND NOT SPACE else fl);
     (p, fl, w, args) \<leftarrow> parse_width m p fl args;
     (p, v, args) \<leftarrow> parse_precision m p args;
     let fl = (if v \<ge> 0 then fl AND NOT ZERO else fl);
     (p, ty) \<leftarrow> parse_type m p;
     Some (p, \<lparr>flags = fl, width = w, precision = v, ctype = ty\<rparr>, args)
   }"

section \<open>Output\<close>

primrec output_dup :: "u8 \<Rightarrow> nat \<Rightarrow> 's outfn \<Rightarrow> 's \<Rightarrow> 's option" where
  "output_dup ch 0 output aux = Some aux"
| "output_dup ch (Suc cnt) output aux = do { aux \<leftarrow> output ch aux; output_dup ch cnt output aux }"

text \<open>Output of the characters of a string one after the other.\<close>

primrec output_all :: "u8 list \<Rightarrow> 's outfn \<Rightarrow> 's \<Rightarrow> 's option" where
  "output_all [] output aux = Some aux"
| "output_all (ch # s) output aux = do { aux \<leftarrow> output ch aux; output_all s output aux }"

primrec string_loop :: "memory \<Rightarrow> addr \<Rightarrow> nat \<Rightarrow> 's outfn \<Rightarrow> 's \<Rightarrow> 's option" where
  "string_loop m p 0 output aux = Some aux"
| "string_loop m p (Suc n) output aux = do { ch \<leftarrow> aread m p; aux \<leftarrow> output ch aux; string_loop m (p + 1) n output aux }"

definition format_string :: "memory \<Rightarrow> addr \<Rightarrow> int \<Rightarrow> printf_conversion \<Rightarrow> 's outfn \<Rightarrow> 's \<Rightarrow> 's option" where
  "format_string m p len c output aux = do {
     aux \<leftarrow> (if width c > len \<and> flags c AND MINUS = 0 then output_dup 32 (nat (width c - len)) output aux else Some aux);
     aux \<leftarrow> string_loop m p (nat len) output aux;
     if width c > len \<and> flags c AND MINUS \<noteq> 0 then output_dup 32 (nat (width c - len)) output aux else Some aux
   }"

text \<open>Appending a character to the buffer of 64 characters.\<close>

definition buf_put :: "u8 list \<Rightarrow> u8 \<Rightarrow> u8 list option" where
  "buf_put buf ch = (if length buf < 64 then Some (buf @ [ch]) else None)"

function digit_loop :: "integer_base \<Rightarrow> u32 \<Rightarrow> nat \<Rightarrow> nat \<Rightarrow> u8 list \<Rightarrow> u8 list option" where
  "digit_loop b fl value digit_cnt buf = (
     if value > 0 \<and> ib_base b > 1 then do {
       buf \<leftarrow> (if fl AND GROUP \<noteq> 0 \<and> digit_cnt > 0 \<and> digit_cnt mod ib_group b = 0 then buf_put buf 44 else Some buf);
       d \<leftarrow> aread (ib_digits b) (value mod ib_base b);
       buf \<leftarrow> buf_put buf d;
       digit_loop b fl (value div ib_base b) (digit_cnt + 1) buf
     } else Some buf)"
  by pat_completeness auto
termination
  by (relation "measure (\<lambda>(b, fl, value, cnt, buf). value)") auto

function zero_loop :: "int \<Rightarrow> u8 list \<Rightarrow> u8 list" where
  "zero_loop prec buf = (if int (length buf) < prec \<and> length buf < 63 then zero_loop prec (buf @ [48]) else buf)"
  by pat_completeness auto
termination
  by (relation "measure (\<lambda>(prec, buf). 63 - length buf)") auto

definition sign_char :: "bool \<Rightarrow> bool \<Rightarrow> u32 \<Rightarrow> u8" where
  "sign_char is_signed negative fl = (
     if is_signed then
       if fl AND PLUS \<noteq> 0 then (if negative then 45 else 43)
       else if fl AND SPACE \<noteq> 0 then (if negative then 45 else 32)
       else if negative then 45 else 0
     else 0)"

definition format_integer :: "nat \<Rightarrow> bool \<Rightarrow> bool \<Rightarrow> integer_base \<Rightarrow> printf_conversion \<Rightarrow> 's outfn \<Rightarrow> 's \<Rightarrow> 's option" where
  "format_integer value is_signed negative b c output aux = do {
     let sign = sign_char is_signed negative (flags c);
     let x = (if flags c AND POUND \<noteq> 0 \<and> value \<noteq> 0 then ib_x b else 0);
     buf \<leftarrow> digit_loop b (flags c) value 0 [];
     let prec = (if precision c < 0 then 1 else precision c);
     let buf = zero_loop prec buf;
     buf \<leftarrow> (if flags c AND POUND \<noteq> 0 \<and> ib_base b = 8 \<and> (buf = [] \<or> last buf \<noteq> 48) then buf_put buf 48 else Some buf);
     let pad_cnt = width c - int (length buf) - (if x \<noteq> 0 then 2 else 0) - (if sign \<noteq> 0 then 1 else 0);
     let pad_cnt = (if pad_cnt < 0 then 0 else pad_cnt);
     aux \<leftarrow> (if flags c AND (MINUS OR ZERO) = 0 then output_dup 32 (nat pad_cnt) output aux else Some aux);
     aux \<leftarrow> (if sign \<noteq> 0 then output sign aux else Some aux);
     aux \<leftarrow> (if x \<noteq> 0 then do { aux \<leftarrow> output 48 aux; output x aux } else Some aux);
     aux \<leftarrow> (if flags c AND ZERO \<noteq> 0 then output_dup 48 (nat pad_cnt) output aux else Some aux);
     aux \<leftarrow> output_all (rev buf) output aux;
     if flags c AND MINUS \<noteq> 0 then output_dup 32 (nat pad_cnt) output aux else Some aux
   }"

section \<open>The conversions\<close>

definition signed_arg :: "conv_type \<Rightarrow> va_list \<Rightarrow> (int \<times> va_list) option" where
  "signed_arg ty args = (
     if ty = INTMAX_T \<or> ty = LONGLONG_T then do { (v, args) \<leftarrow> va_llong args; Some (sint v, args) }
     else do {
       (v, args) \<leftarrow> va_int args;
       Some (case ty of
           CHAR_T \<Rightarrow> sint (ucast v :: u8)
         | SHORT_T \<Rightarrow> sint (ucast v :: u16)
         | SIZET_T \<Rightarrow> (if uint v > int (SIZE_MAX div 2) then uint v - int SIZE_MAX - 1 else uint v)
         | _ \<Rightarrow> sint v, args)
     })"

definition unsigned_arg :: "conv_type \<Rightarrow> va_list \<Rightarrow> (nat \<times> va_list) option" where
  "unsigned_arg ty args = (
     if ty = INTMAX_T \<or> ty = LONGLONG_T then do { (v, args) \<leftarrow> va_llong args; Some (unat v, args) }
     else do {
       (v, args) \<leftarrow> va_int args;
       Some (case ty of
           CHAR_T \<Rightarrow> unat (ucast v :: u8)
         | SHORT_T \<Rightarrow> unat (ucast v :: u16)
         | PTRDIFFT_T \<Rightarrow> unat ((scast v :: u64) AND 0xffffffff)
         | _ \<Rightarrow> unat v, args)
     })"

definition base_of :: "u8 \<Rightarrow> integer_base" where
  "base_of ch = (if ch = 111 then base_o else if ch = 117 then base_d else if ch = 120 then base_x else base_X)"

definition is_conversion :: "u8 \<Rightarrow> bool" where
  "is_conversion ch \<longleftrightarrow> ch \<in> {100, 105, 111, 117, 120, 88, 99, 115, 112}"

definition do_conversion :: "memory \<Rightarrow> u8 \<Rightarrow> printf_conversion \<Rightarrow> va_list \<Rightarrow> 's outfn \<Rightarrow> 's \<Rightarrow> (va_list \<times> 's) option" where
  "do_conversion m ch c args output aux = (
     if ch = 100 \<or> ch = 105 then do {
       (value, args) \<leftarrow> signed_arg (ctype c) args;
       ASSERT (value \<noteq> - (2 ^ 63));
       aux \<leftarrow> format_integer (nat \<bar>value\<bar>) True (value < 0) base_d c output aux;
       Some (args, aux)
     } else if ch = 99 then do {
       (x, args) \<leftarrow> va_int args;
       aux \<leftarrow> format_string [ucast x] 0 1 c output aux;
       Some (args, aux)
     } else if ch = 115 then do {
       (s, args) \<leftarrow> va_int args;
       let (ms, p) = (if s = 0 then (lit ''(null)'', 0) else (m, unat s));
       len \<leftarrow> strnlen ms p (unat (word_of_int (precision c) :: u32));
       aux \<leftarrow> format_string ms p (sint (of_nat len :: u32)) c output aux;
       Some (args, aux)
     } else if ch = 112 then do {
       (p, args) \<leftarrow> va_int args;
       aux \<leftarrow> format_integer (unat p) False False base_x (c\<lparr>flags := POUND\<rparr>) output aux;
       Some (args, aux)
     } else do {
       (value, args) \<leftarrow> unsigned_arg (ctype c) args;
       aux \<leftarrow> format_integer value False False (base_of ch) c output aux;
       Some (args, aux)
     })"

text \<open>The message for a conversion that is not supported.\<close>

definition no_conversion :: "u8 \<Rightarrow> memory" where
  "no_conversion ch = lit (if ch \<in> {102, 101, 69, 103, 71, 110} then ''<<no %%%c in kernel>>'' else ''<<no %%%c conversion>>'')"

declare parse_flags.simps [simp del] parse_number.simps [simp del] digit_loop.simps [simp del] zero_loop.simps [simp del]

lemma parse_flags_le: "parse_flags m p fl = Some (q, g) \<Longrightarrow> p \<le> q"
proof (induction m p fl rule: parse_flags.induct)
  case (1 m p fl)
  show ?case
  proof (cases "aread m p")
    case None
    then show ?thesis using 1(2) by (subst (asm) parse_flags.simps) simp
  next
    case (Some ch)
    then show ?thesis using 1(2) 1(1) [OF Some] by (subst (asm) parse_flags.simps) (force split: option.splits)
  qed
qed

lemma parse_number_le: "parse_number m p v = Some (q, w) \<Longrightarrow> p \<le> q"
proof (induction m p v rule: parse_number.induct)
  case (1 m p v)
  show ?case using 1(2) 1(1) by (subst (asm) parse_number.simps) (force simp: panic_iff split: if_splits)
qed

lemma parse_width_le: "parse_width m p fl args = Some (q, r) \<Longrightarrow> p \<le> q"
  by (auto simp: parse_width_def panic_iff split: if_splits dest: parse_number_le)

lemma parse_precision_le: "parse_precision m p args = Some (q, r) \<Longrightarrow> p \<le> q"
  by (auto simp: parse_precision_def panic_iff split: if_splits dest: parse_number_le)

lemma parse_type_le: "parse_type m p = Some (q, r) \<Longrightarrow> p \<le> q"
  by (auto simp: parse_type_def panic_iff split: if_splits)

lemma parse_conversion_le: "parse_conversion m p args = Some (q, c, args') \<Longrightarrow> p \<le> q"
  by (auto simp: parse_conversion_def bind_eq_Some_conv Let_def dest!: parse_flags_le parse_width_le parse_precision_le parse_type_le)

text \<open>The loop over the format.  The message for an unsupported conversion is printed by a call of the
  function itself, one level down; its own conversions are supported.\<close>

function vprintf_loop :: "nat \<Rightarrow> memory \<Rightarrow> addr \<Rightarrow> va_list \<Rightarrow> 's outfn \<Rightarrow> 's \<Rightarrow> 's option" where
  "vprintf_loop level m p args output aux = do {
     ch \<leftarrow> aread m p;
     if ch = 0 then Some aux
     else if ch \<noteq> 37 then do {
       aux \<leftarrow> output ch aux;
       vprintf_loop level m (p + 1) args output aux
     } else do {
       ch \<leftarrow> aread m (p + 1);
       if ch = 37 then do {
         aux \<leftarrow> output 37 aux;
         vprintf_loop level m (p + 2) args output aux
       } else do {
         (p', c, args) \<leftarrow> parse_conversion m (p + 1) args;
         ch \<leftarrow> aread m p';
         (args, aux) \<leftarrow> (if is_conversion ch then do_conversion m ch c args output aux
           else case level of
             0 \<Rightarrow> None
           | Suc l \<Rightarrow> do { aux \<leftarrow> vprintf_loop l (no_conversion ch) 0 [ucast ch] output aux; Some (args, aux) });
         vprintf_loop level m (p' + 1) args output aux
       }
     }
   }"
  by pat_completeness auto
termination
proof (relation "measures [\<lambda>(l, m, p, args, output, aux). l, \<lambda>(l, m, p, args, output, aux). length m - p]")
qed (auto simp: panic_iff dest: parse_conversion_le)

declare vprintf_loop.simps [simp del]

definition vprintf_main :: "memory \<Rightarrow> addr \<Rightarrow> va_list \<Rightarrow> 's outfn \<Rightarrow> 's \<Rightarrow> 's option" where
  "vprintf_main m format args output aux = vprintf_loop 1 m format args output aux"

definition printf_out :: "string \<Rightarrow> va_list \<Rightarrow> 's outfn \<Rightarrow> 's \<Rightarrow> 's option" where
  "printf_out format args output aux = vprintf_main (lit format) 0 args output aux"

section \<open>Output to a buffer\<close>

record vsnprintf_aux =
  vbuf :: "u8 list"
  vpos :: nat
  vlength :: int
  max_length :: int

definition vsnprintf_helper :: "vsnprintf_aux outfn" where
  "vsnprintf_helper ch aux = do {
     ASSERT (vlength aux < INT_LIMIT);
     let aux' = aux\<lparr>vlength := vlength aux + 1\<rparr>;
     if vlength aux < max_length aux then do {
       b \<leftarrow> awrite (vbuf aux) (vpos aux) ch;
       Some (aux'\<lparr>vbuf := b, vpos := vpos aux + 1\<rparr>)
     } else Some aux'
   }"

definition vsnprintf :: "u8 list \<Rightarrow> nat \<Rightarrow> memory \<Rightarrow> addr \<Rightarrow> va_list \<Rightarrow> (int \<times> u8 list) option" where
  "vsnprintf buffer buf_size m format args = do {
     let aux = \<lparr>vbuf = buffer, vpos = 0, vlength = 0, max_length = (if buf_size > 0 then sint (of_nat (buf_size - 1) :: u32) else 0)\<rparr>;
     aux \<leftarrow> vprintf_main m format args vsnprintf_helper aux;
     b \<leftarrow> (if buf_size > 0 then awrite (vbuf aux) (vpos aux) 0 else Some (vbuf aux));
     Some (vlength aux, b)
   }"

text \<open>The variable arguments of a call are the slots of its stack frame.\<close>

definition snprintf :: "u8 list \<Rightarrow> nat \<Rightarrow> memory \<Rightarrow> addr \<Rightarrow> va_list \<Rightarrow> (int \<times> u8 list) option" where
  "snprintf buffer buf_size m format args = vsnprintf buffer buf_size m format args"

section \<open>Dumps and sizes\<close>

primrec print_times :: "string \<Rightarrow> nat \<Rightarrow> 's outfn \<Rightarrow> 's \<Rightarrow> 's option" where
  "print_times s 0 output aux = Some aux"
| "print_times s (Suc n) output aux = do { aux \<leftarrow> printf_out s [] output aux; print_times s n output aux }"

text \<open>The loops over the bytes of a line, from byte \<open>k\<close> of \<open>buf\<close> in column \<open>i\<close> on; \<open>n\<close> bytes are left.\<close>

primrec hex_loop :: "u8 list \<Rightarrow> nat \<Rightarrow> nat \<Rightarrow> nat \<Rightarrow> 's outfn \<Rightarrow> 's \<Rightarrow> 's option" where
  "hex_loop buf k i 0 output aux = Some aux"
| "hex_loop buf k i (Suc n) output aux = do {
     x \<leftarrow> aread buf k;
     aux \<leftarrow> printf_out ''%02hhx%c'' [ucast x, if i = 16 div 2 - 1 then 45 else 32] output aux;
     hex_loop buf (k + 1) (i + 1) n output aux
   }"

primrec ascii_loop :: "u8 list \<Rightarrow> nat \<Rightarrow> nat \<Rightarrow> 's outfn \<Rightarrow> 's \<Rightarrow> 's option" where
  "ascii_loop buf k 0 output aux = Some aux"
| "ascii_loop buf k (Suc n) output aux = do {
     x \<leftarrow> aread buf k;
     aux \<leftarrow> printf_out ''%c'' [if isprint (uint x) then ucast x else 46] output aux;
     ascii_loop buf (k + 1) n output aux
   }"

definition dump_line :: "u32 \<Rightarrow> u8 list \<Rightarrow> nat \<Rightarrow> nat \<Rightarrow> bool \<Rightarrow> 's outfn \<Rightarrow> 's \<Rightarrow> 's option" where
  "dump_line ofs buf left fin ascii output aux = do {
     aux \<leftarrow> printf_out ''%08jx  '' [of_nat (ROUND_DOWN (unat ofs) 16), 0] output aux;
     aux \<leftarrow> print_times ''   '' left output aux;
     aux \<leftarrow> hex_loop buf 0 left (fin - left) output aux;
     aux \<leftarrow> (if ascii then do {
         aux \<leftarrow> print_times ''   '' (16 - fin) output aux;
         aux \<leftarrow> printf_out ''|'' [] output aux;
         aux \<leftarrow> print_times '' '' left output aux;
         aux \<leftarrow> ascii_loop buf 0 (fin - left) output aux;
         aux \<leftarrow> print_times '' '' (16 - fin) output aux;
         printf_out ''|'' [] output aux
       } else Some aux);
     printf_out [CHR 0x0A] [] output aux
   }"

function hex_dump :: "u32 \<Rightarrow> u8 list \<Rightarrow> nat \<Rightarrow> bool \<Rightarrow> 's outfn \<Rightarrow> 's \<Rightarrow> 's option" where
  "hex_dump ofs buf sz ascii output aux = (
     if sz > 0 then do {
       let left = unat ofs mod 16;
       let fin = (if 16 - left > sz then left + sz else 16);
       let n = fin - left;
       aux \<leftarrow> dump_line ofs buf left fin ascii output aux;
       hex_dump (ofs + of_nat n) (drop n buf) (sz - n) ascii output aux
     } else Some aux)"
  by pat_completeness auto
termination
proof (relation "measure (\<lambda>(ofs, buf, sz, r). sz)")
qed (auto simp: Let_def)

declare hex_dump.simps [simp del]

text \<open>The list of units, without the null pointer at its end.\<close>

fun scale_size :: "nat \<Rightarrow> string list \<Rightarrow> nat \<times> string" where
  "scale_size sz (f # g # fs) = (if sz \<ge> 1024 then scale_size (sz div 1024) (g # fs) else (sz, f))"
| "scale_size sz [f] = (sz, f)"
| "scale_size sz [] = (sz, [])"

definition print_human_readable_size :: "u64 \<Rightarrow> 's outfn \<Rightarrow> 's \<Rightarrow> 's option" where
  "print_human_readable_size sz output aux = (
     if sz = 1 then printf_out ''1 byte'' [] output aux
     else
       let (n, f) = scale_size (unat sz) [''bytes'', ''kB'', ''MB'', ''GB'', ''TB''];
           format = lit ''%llu %s'' in
       vprintf_main (format @ lit f) 0 [of_nat n, of_nat (n div 2 ^ 32), of_nat (length format)] output aux)"

section \<open>Output functions that simulate one another\<close>

definition osim :: "('s \<Rightarrow> 't \<Rightarrow> bool) \<Rightarrow> 's option \<Rightarrow> 't option \<Rightarrow> bool" where
  "osim Q x y \<longleftrightarrow> (\<forall>s. x = Some s \<longrightarrow> (\<exists>t. y = Some t \<and> Q s t))"

lemma osim_Some: "Q s t \<Longrightarrow> osim Q (Some s) (Some t)"
  by (simp add: osim_def)

lemma osim_None: "osim Q None y"
  by (simp add: osim_def)

lemma osim_bind: "osim Q x y \<Longrightarrow> (\<And>s t. Q s t \<Longrightarrow> osim P (f s) (g t)) \<Longrightarrow> osim P (x \<bind> f) (y \<bind> g)"
  by (cases x; cases y) (auto simp: osim_def)

lemma osim_same: "(\<And>a. x = Some a \<Longrightarrow> osim Q (f a) (g a)) \<Longrightarrow> osim Q (x \<bind> f) (x \<bind> g)"
  by (cases x) (simp_all add: osim_None)

lemma osim_same2: "(\<And>a b. x = Some (a, b) \<Longrightarrow> osim Q (f a b) (g a b)) \<Longrightarrow> osim Q (x \<bind> (\<lambda>(a, b). f a b)) (x \<bind> (\<lambda>(a, b). g a b))"
  by (cases x) (auto simp: osim_None)

lemma osim_if: "(P \<Longrightarrow> osim Q a b) \<Longrightarrow> (\<not> P \<Longrightarrow> osim Q c d) \<Longrightarrow> osim Q (if P then a else c) (if P then b else d)"
  by simp

text \<open>The interface of an output function, as formatted output uses it: every character that one accepts
  the other accepts too, and they stay related.\<close>

locale outfn_sim =
  fixes out1 :: "'s outfn" and out2 :: "'t outfn" and R :: "'s \<Rightarrow> 't \<Rightarrow> bool"
  assumes step: "R s t \<Longrightarrow> osim R (out1 ch s) (out2 ch t)"
begin

lemma dup_sim: "R s t \<Longrightarrow> osim R (output_dup ch n out1 s) (output_dup ch n out2 t)"
  by (induction n arbitrary: s t) (simp_all add: osim_Some osim_bind [OF step])

lemma all_sim: "R s t \<Longrightarrow> osim R (output_all cs out1 s) (output_all cs out2 t)"
  by (induction cs arbitrary: s t) (simp_all add: osim_Some osim_bind [OF step])

lemma string_sim: "R s t \<Longrightarrow> osim R (string_loop m p n out1 s) (string_loop m p n out2 t)"
  by (induction n arbitrary: s t p) (simp_all add: osim_Some osim_same osim_bind [OF step])

lemmas sims = osim_Some step dup_sim all_sim string_sim

lemma format_string_sim: "R s t \<Longrightarrow> osim R (format_string m p len c out1 s) (format_string m p len c out2 t)"
  unfolding format_string_def by (intro osim_bind [where Q = R] osim_if sims)

lemma format_integer_sim: "R s t \<Longrightarrow> osim R (format_integer v sg ng b c out1 s) (format_integer v sg ng b c out2 t)"
  unfolding format_integer_def Let_def
  by (intro osim_same) (intro osim_bind [where Q = R] osim_if sims; assumption)


definition Rargs :: "va_list \<times> 's \<Rightarrow> va_list \<times> 't \<Rightarrow> bool" where
  "Rargs x y \<longleftrightarrow> fst x = fst y \<and> R (snd x) (snd y)"

lemma Rargs_return: "osim R x y \<Longrightarrow> osim Rargs (x \<bind> (\<lambda>s. Some (args, s))) (y \<bind> (\<lambda>t. Some (args, t)))"
  by (erule osim_bind) (simp add: osim_Some Rargs_def)

lemma do_conversion_sim: "R s t \<Longrightarrow> osim Rargs (do_conversion m ch c args out1 s) (do_conversion m ch c args out2 t)"
  unfolding do_conversion_def Let_def
  by (cases "hd args = 0") (auto intro!: osim_if osim_same2 osim_same Rargs_return format_integer_sim format_string_sim split: prod.split)

lemma vprintf_step_sim:
  assumes low: "\<And>l m p args s t. level = Suc l \<Longrightarrow> R s t \<Longrightarrow> osim R (vprintf_loop l m p args out1 s) (vprintf_loop l m p args out2 t)"
    and "R s t"
  shows "osim R (vprintf_loop level m p args out1 s) (vprintf_loop level m p args out2 t)"
  using \<open>R s t\<close>
proof (induction "length m - p" arbitrary: p args s t rule: less_induct)
  case less
  have later: "osim R (vprintf_loop level m q args' out1 s') (vprintf_loop level m q args' out2 t')"
    if "p < q" "aread m p \<noteq> None" "R s' t'" for q args' s' t'
    by (rule less.hyps) (use that in \<open>auto simp: aread_eq_Some\<close>)
  have msg: "osim Rargs
      (case level of 0 \<Rightarrow> None | Suc l \<Rightarrow> vprintf_loop l (no_conversion ch) 0 [ucast ch] out1 s \<bind> (\<lambda>aux. Some (args', aux)))
      (case level of 0 \<Rightarrow> None | Suc l \<Rightarrow> vprintf_loop l (no_conversion ch) 0 [ucast ch] out2 t \<bind> (\<lambda>aux. Some (args', aux)))" for ch args'
    using low [OF _ less.prems] by (cases level) (auto intro!: osim_None Rargs_return)
  note conv = osim_bind [OF do_conversion_sim [OF less.prems]] osim_bind [OF msg]
  show ?case
    by (subst (1 2) vprintf_loop.simps)
      (auto intro!: osim_same osim_Some [where Q = R] less.prems osim_bind [OF step [OF less.prems]] later conv
        simp: Rargs_def dest!: parse_conversion_le)
qed

lemma vprintf_sim: "R s t \<Longrightarrow> osim R (vprintf_loop level m p args out1 s) (vprintf_loop level m p args out2 t)"
  by (induction level arbitrary: m p args s t) (rule vprintf_step_sim; simp)+

end

section \<open>The text that is printed\<close>

text \<open>Collecting the output, as far as an \<^verbatim>\<open>int\<close> can count it.\<close>

definition collect :: "u8 list outfn" where
  "collect ch acc = (if int (length acc) < INT_LIMIT then Some (acc @ [ch]) else None)"

definition buffered :: "u8 list \<Rightarrow> nat \<Rightarrow> u8 list \<Rightarrow> vsnprintf_aux \<Rightarrow> bool" where
  "buffered buffer k acc aux \<longleftrightarrow> k < length buffer \<and>
     aux = \<lparr>vbuf = overwrite buffer 0 (take k acc), vpos = min k (length acc), vlength = int (length acc), max_length = int k\<rparr>"

lemma sint_of_nat32: "n < 2 ^ 31 \<Longrightarrow> sint (of_nat n :: u32) = int n"
  by (simp add: signed_of_nat signed_take_bit_int_eq_self)

lemma overwrite_snoc: "length xs < length buffer \<Longrightarrow> (overwrite buffer 0 xs)[length xs := ch] = overwrite buffer 0 (xs @ [ch])"
  by (intro nth_equalityI) (auto simp: nth_overwrite nth_list_update nth_append)

lemma buffered_step: "buffered buffer k acc aux \<Longrightarrow> osim (buffered buffer k) (collect ch acc) (vsnprintf_helper ch aux)"
proof -
  assume b: "buffered buffer k acc aux"
  show ?thesis
  proof (cases "length acc < k")
    case True
    then have "length acc < length (overwrite buffer 0 acc)" "(overwrite buffer 0 acc)[length acc := ch] = overwrite buffer 0 (acc @ [ch])"
      using b overwrite_snoc [of acc buffer ch] by (simp_all add: buffered_def)
    then show ?thesis using b True by (simp add: osim_def collect_def vsnprintf_helper_def buffered_def)
  next
    case False
    then show ?thesis using b by (simp add: osim_def collect_def vsnprintf_helper_def buffered_def)
  qed
qed

interpretation snp: outfn_sim collect vsnprintf_helper "buffered buffer k" for buffer k
  by unfold_locales (rule buffered_step)

lemma vsnprintf_run:
  assumes "vprintf_main m format args collect [] = Some txt" and "0 < sz" and "sz \<le> length buffer" and "sz \<le> 2 ^ 31"
  shows "vsnprintf buffer sz m format args = Some (int (length txt), overwrite buffer 0 (take (sz - 1) txt @ [0]))"
proof -
  let ?k = "sz - 1"
  let ?aux = "\<lparr>vbuf = buffer, vpos = 0, vlength = 0, max_length = int ?k\<rparr>"
  have "buffered buffer ?k [] ?aux" using assms(2,3) by (simp add: buffered_def overwrite_def)
  from snp.vprintf_sim [OF this] obtain aux where a: "vprintf_main m format args vsnprintf_helper ?aux = Some aux" "buffered buffer ?k txt aux"
    using assms(1) unfolding osim_def vprintf_main_def by blast
  have mx: "sint (of_nat ?k :: u32) = int ?k" by (rule sint_of_nat32) (use assms(2,4) in simp)
  let ?b = "overwrite buffer 0 (take ?k txt)"
  have len: "length (take ?k txt) < length buffer" using assms(2,3) by simp
  have "awrite ?b (min ?k (length txt)) 0 = Some (overwrite buffer 0 (take ?k txt @ [0]))"
    using overwrite_snoc [OF len, of 0] len by (simp add: min.commute)
  then show ?thesis using a mx assms(2) by (simp add: vsnprintf_def buffered_def)
qed

section \<open>Decimal numbers\<close>

fun digs :: "nat \<Rightarrow> nat list" where
  "digs n = (if n = 0 then [] else n mod 10 # digs (n div 10))"

declare digs.simps [simp del]

definition digit_char :: "nat \<Rightarrow> u8" where
  "digit_char d = 48 + of_nat d"

definition decimal :: "nat \<Rightarrow> u8 list" where
  "decimal n = (if n = 0 then [48] else map digit_char (rev (digs n)))"

lemma digs_less: "d \<in> set (digs n) \<Longrightarrow> d < 10"
  by (induction n rule: digs.induct) (subst (asm) (2) digs.simps, auto split: if_splits)

lemma length_digs: "n < 10 ^ k \<Longrightarrow> length (digs n) \<le> k"
proof (induction k arbitrary: n)
  case 0
  then show ?case by (simp add: digs.simps)
next
  case (Suc k)
  have "length (digs (n div 10)) \<le> k" by (rule Suc.IH) (use Suc.prems in \<open>simp add: div_less_iff_less_mult mult.commute\<close>)
  then show ?case by (subst digs.simps) simp
qed

lemma digit_of: "d < 10 \<Longrightarrow> aread (ib_digits base_d) d = Some (digit_char d)"
proof -
  have "\<forall>d \<in> set [0..<10]. aread (ib_digits base_d) d = Some (digit_char d)" by code_simp
  then show "d < 10 \<Longrightarrow> ?thesis" by simp
qed

lemma digit_loop_digs:
  "fl AND GROUP = 0 \<Longrightarrow> length buf + length (digs n) \<le> 64 \<Longrightarrow> digit_loop base_d fl n cnt buf = Some (buf @ map digit_char (digs n))"
proof (induction n arbitrary: buf cnt rule: digs.induct)
  case (1 n)
  have b: "ib_base base_d = 10" by (simp add: base_d_def)
  show ?case
  proof (cases "n = 0")
    case True
    then show ?thesis by (simp add: digit_loop.simps digs.simps)
  next
    case False
    then have e: "digs n = n mod 10 # digs (n div 10)" by (simp add: digs.simps)
    have "digit_loop base_d fl (n div 10) (cnt + 1) (buf @ [digit_char (n mod 10)]) =
        Some ((buf @ [digit_char (n mod 10)]) @ map digit_char (digs (n div 10)))"
      by (rule 1(1)) (use False 1(2,3) e in simp_all)
    then show ?thesis
      using False 1(2,3) e digit_of [of "n mod 10"] by (subst digit_loop.simps) (simp add: b buf_put_def)
  qed
qed

lemma collect_all: "length acc + length cs < 2 ^ 31 \<Longrightarrow> output_all cs collect acc = Some (acc @ cs)"
  by (induction cs arbitrary: acc) (auto simp: collect_def INT_LIMIT_def)

lemma format_decimal:
  assumes "n < 10 ^ 20"
  shows "format_integer n True neg base_d \<lparr>flags = 0, width = 0, precision = -1, ctype = ty\<rparr> collect [] =
    Some ((if neg then [45] else []) @ decimal n)"
proof -
  have l: "length (digs n) \<le> 20" using length_digs [OF assms] .
  have d: "digit_loop base_d 0 n 0 [] = Some (map digit_char (digs n))" using digit_loop_digs [of 0 "[]" n] l by simp
  have "n \<noteq> 0 \<Longrightarrow> digs n \<noteq> []" "digs 0 = []" by (simp_all add: digs.simps)
  then have z: "rev (zero_loop 1 (map digit_char (digs n))) = decimal n"
    by (cases "n = 0") (simp_all add: decimal_def zero_loop.simps rev_map)
  have "length (decimal n) \<le> 20" using l by (simp add: decimal_def)
  then have "output_all (decimal n) collect (if neg then [45] else []) = Some ((if neg then [45] else []) @ decimal n)"
    by (intro collect_all) simp
  moreover have "length (zero_loop 1 (map digit_char (digs n))) > 0" using arg_cong [OF z, of length] by (auto simp: decimal_def digs.simps)
  ultimately show ?thesis
    using d z by (cases neg) (simp_all add: format_integer_def sign_char_def Let_def collect_def INT_LIMIT_def base_d_def)
qed

lemma printf_d: "vprintf_main (lit ''%d'') 0 [v] collect [] = Some ((if sint v < 0 then [45] else []) @ decimal (nat \<bar>sint v\<bar>))"
proof -
  have m: "lit ''%d'' = [37, 100, 0]" by (simp add: lit_def chars_def)
  have p: "parse_conversion [37, 100, 0] (Suc 0) args = Some (Suc 0, \<lparr>flags = 0, width = 0, precision = -1, ctype = INT_T\<rparr>, args)" for args
    by (simp add: parse_conversion_def parse_flags.simps flag_of_def parse_width_def parse_number.simps isdigit_def parse_precision_def parse_type_def)
  have b: "sint v \<noteq> - (2 ^ 63)" "nat \<bar>sint v\<bar> < 10 ^ 20" using sint_ge [of v] sint_lt [of v] by auto
  have e: "vprintf_loop (Suc 0) [37, 100, 0] (Suc (Suc 0)) args collect s = Some s" for args s by (subst vprintf_loop.simps) simp
  show ?thesis
    unfolding vprintf_main_def m
    by (subst vprintf_loop.simps)
      (use b(1) p e in \<open>simp add: is_conversion_def do_conversion_def signed_arg_def format_decimal [OF b(2)]\<close>)
qed

lemma atoi_digits_run:
  assumes "\<forall>d \<in> set ds. d < 10" and "\<not> isdigit (sint c)" and "value \<le> 0" and "- (2 ^ 31) \<le> foldl (\<lambda>v d. v * 10 - int d) value ds"
  shows "atoi_digits (pre @ map digit_char ds @ c # post) (length pre) value = Some (foldl (\<lambda>v d. v * 10 - int d) value ds)"
  using assms
proof (induction ds arbitrary: pre "value")
  case Nil
  then show ?case by (simp add: atoi_digits.simps)
next
  case (Cons d ds)
  have mono: "foldl (\<lambda>v d. v * 10 - int d) w ds \<le> w" if "w \<le> 0" for w ds using that
    by (induction ds arbitrary: w) (simp_all, smt (verit) of_nat_0_le_iff)
  have d: "d < 10" using Cons.prems(1) by simp
  have "\<forall>d \<in> set [0..<10]. sint (digit_char d) = 48 + int d" by code_simp
  then have s: "sint (digit_char d) = 48 + int d" using d by simp
  have "- (2 ^ 31) \<le> value * 10 - int d" using mono [of "value * 10 - int d" ds] Cons.prems(3,4) by simp
  moreover have "atoi_digits ((pre @ [digit_char d]) @ map digit_char ds @ c # post) (length (pre @ [digit_char d])) (value * 10 - int d) =
      Some (foldl (\<lambda>v d. v * 10 - int d) (value * 10 - int d) ds)"
    by (rule Cons.IH) (use Cons.prems in simp_all)
  ultimately show ?case using s d by (subst atoi_digits.simps) (simp add: isdigit_def)
qed

lemma foldl_digs: "foldl (\<lambda>v d. v * 10 - int d) a (rev (digs n)) = a * 10 ^ length (digs n) - int n"
proof (induction n rule: digs.induct)
  case (1 n)
  show ?case
  proof (cases "n = 0")
    case False
    then have e: "digs n = n mod 10 # digs (n div 10)" by (simp add: digs.simps)
    have "int n = int (n div 10) * 10 + int (n mod 10)" by (simp add: zdiv_int zmod_int)
    then show ?thesis using 1 [OF False] e by (simp add: algebra_simps)
  qed (simp add: digs.simps)
qed

lemma atoi_decimal:
  assumes "n < 2 ^ 31 \<or> neg \<and> n = 2 ^ 31" and "0 < n \<or> \<not> neg"
  shows "atoi (0 # ((if neg then [45] else []) @ decimal n) @ 0 # post) 1 = Some (if neg then - int n else int n)"
proof -
  define ds where "ds = (if n = 0 then [0] else rev (digs n))"
  have dec: "decimal n = map digit_char ds" by (simp add: ds_def decimal_def digit_char_def)
  have lt: "\<forall>d \<in> set ds. d < 10" using digs_less [of _ n] by (auto simp: ds_def)
  have val: "foldl (\<lambda>v d. v * 10 - int d) 0 ds = - int n" using foldl_digs [of 0 n] by (simp add: ds_def)
  have ne: "n \<noteq> 0 \<Longrightarrow> digs n \<noteq> []" by (simp add: digs.simps)
  then obtain d ds' where d: "ds = d # ds'" "d < 10" using lt by (cases ds) (auto simp: ds_def split: if_splits)
  have run: "atoi_digits (pre @ map digit_char ds @ 0 # post) (length pre) 0 = Some (- int n)" for pre
    using atoi_digits_run [OF lt, of 0 0 pre post] val assms(1) by (auto simp: isdigit_def)
  have "\<forall>d \<in> set [0..<10]. \<not> isspace (uint (digit_char d)) \<and> digit_char d \<noteq> 43 \<and> digit_char d \<noteq> 45" by code_simp
  then have c: "\<not> isspace (uint (digit_char d))" "digit_char d \<noteq> 43" "digit_char d \<noteq> 45" using d(2) by simp_all
  show ?thesis
  proof (cases neg)
    case True
    have "skip_space (0 # 45 # map digit_char ds @ 0 # post) 1 = Some 1" by (simp add: skip_space.simps isspace_def)
    then show ?thesis using run [of "[0, 45]"] True by (simp add: atoi_def dec)
  next
    case False
    have "skip_space (0 # map digit_char ds @ 0 # post) 1 = Some 1" using d c by (simp add: skip_space.simps)
    then show ?thesis using run [of "[0]"] False assms(1) d c by (simp add: atoi_def dec)
  qed
qed

section \<open>The buffer of an integer conversion\<close>

text \<open>The four bases.\<close>

definition good_base :: "integer_base \<Rightarrow> bool" where
  "good_base b \<longleftrightarrow> 8 \<le> ib_base b \<and> ib_base b \<le> length (ib_digits b)"

lemma bases_good: "good_base base_d" "good_base base_o" "good_base base_x" "good_base base_X" "good_base (base_of ch)"
  by (simp_all add: good_base_def base_d_def base_o_def base_x_def base_X_def base_of_def chars_def)

lemma digit_loop_fits:
  "good_base b \<Longrightarrow> n < 8 ^ k \<Longrightarrow> length buf + 2 * k \<le> 64 \<Longrightarrow> \<exists>buf'. digit_loop b fl n cnt buf = Some buf' \<and> length buf' \<le> length buf + 2 * k"
proof (induction k arbitrary: n cnt buf)
  case 0
  then show ?case by (simp add: digit_loop.simps)
next
  case (Suc k)
  show ?case
  proof (cases "n = 0")
    case True
    then show ?thesis by (simp add: digit_loop.simps)
  next
    case False
    let ?b = "ib_base b"
    have b: "8 \<le> ?b" "?b \<le> length (ib_digits b)" using Suc.prems(1) by (simp_all add: good_base_def)
    then have m: "n mod ?b < length (ib_digits b)" using mod_less_divisor [of ?b n] by linarith
    let ?g = "fl AND GROUP \<noteq> 0 \<and> cnt > 0 \<and> cnt mod ib_group b = 0"
    let ?buf = "(if ?g then buf @ [44] else buf) @ [ib_digits b ! (n mod ?b)]"
    have "n div ?b \<le> n div 8" using b(1) by (intro div_le_mono2) simp_all
    then have "n div ?b < 8 ^ k" using Suc.prems(2) by (simp add: div_less_iff_less_mult mult.commute)
    moreover have "length ?buf + 2 * k \<le> 64" using Suc.prems(3) by simp
    ultimately obtain buf' where "digit_loop b fl (n div ?b) (cnt + 1) ?buf = Some buf'" "length buf' \<le> length ?buf + 2 * k"
      using Suc.IH [OF Suc.prems(1)] by blast
    moreover have "digit_loop b fl n cnt buf = digit_loop b fl (n div ?b) (cnt + 1) ?buf"
      using False b(1) m Suc.prems(3) by (subst digit_loop.simps) (simp add: buf_put_def)
    moreover have "length ?buf \<le> length buf + 2" by simp
    ultimately show ?thesis by (intro exI [of _ buf']) simp
  qed
qed

lemma length_zero_loop: "length (zero_loop prec buf) \<le> max 63 (length buf)"
  by (induction prec buf rule: zero_loop.induct) (subst zero_loop.simps, auto)

text \<open>An integer conversion stays within its buffer of 64 characters, whatever the flags, the precision and
  the width: it fails only when the output does.\<close>

lemma format_integer_fits:
  fixes f :: "u8 \<Rightarrow> 's \<Rightarrow> 's"
  assumes "good_base b" and "v < 2 ^ 64"
  shows "format_integer v sg ng b c (\<lambda>ch s. Some (f ch s)) s \<noteq> None"
proof -
  have bind: "x \<bind> g \<noteq> None" if "x \<noteq> None" "\<And>a. g a \<noteq> None" for x :: "'s option" and g :: "'s \<Rightarrow> 's option" using that by (cases x) auto
  have branch: "(if P then x else y) \<noteq> None" if "x \<noteq> None" "y \<noteq> None" for P and x y :: "'s option" using that by simp
  have tot: "output_dup ch n (\<lambda>ch s. Some (f ch s)) s \<noteq> None" "output_all cs (\<lambda>ch s. Some (f ch s)) s \<noteq> None" for ch n cs s
    by (induction n arbitrary: s; simp) (induction cs arbitrary: s; simp)
  have "v < 8 ^ 22" using assms(2) by simp
  then obtain buf where buf: "digit_loop b (flags c) v 0 [] = Some buf" "length buf \<le> 44"
    using digit_loop_fits [OF assms(1), of v 22 "[]"] by auto
  have "length (zero_loop p buf) < 64" for p using length_zero_loop [of p buf] buf(2) by (simp add: max_def split: if_splits)
  then have put: "(if P then buf_put (zero_loop p buf) 48 else Some (zero_loop p buf)) =
      Some (if P then zero_loop p buf @ [48] else zero_loop p buf)" for P p by (simp add: buf_put_def)
  show ?thesis
    unfolding format_integer_def Let_def buf(1) Option.bind.simps put by (intro bind branch tot) simp_all
qed

text \<open>C26. Printing and parsing are inverse: the decimal text that formatted output writes for a 32-bit
  integer into a buffer of at least twelve characters is read back by \<^verbatim>\<open>atoi\<close> as the same number,
  the smallest integer included.\<close>

theorem printf_atoi:
  assumes "12 \<le> length buffer" and "length buffer \<le> 2 ^ 31"
  shows "\<exists>len buffer'. vsnprintf buffer (length buffer) (lit ''%d'') 0 [v] = Some (len, buffer') \<and> atoi (0 # buffer') 1 = Some (sint v)"
proof -
  define n where "n = nat \<bar>sint v\<bar>"
  let ?neg = "sint v < 0"
  let ?txt = "(if ?neg then [45] else []) @ decimal n"
  have b: "- (2 ^ 31) \<le> sint v" "sint v < 2 ^ 31" using sint_ge [of v] sint_lt [of v] by simp_all
  then have "length (digs n) \<le> 10" by (intro length_digs) (simp add: n_def)
  then have len: "length ?txt \<le> 11" by (simp add: decimal_def)
  have "0 < length buffer" using assms(1) by linarith
  from vsnprintf_run [OF printf_d this order.refl assms(2), of v, folded n_def]
  have "vsnprintf buffer (length buffer) (lit ''%d'') 0 [v] = Some (int (length ?txt), ?txt @ 0 # drop (length ?txt + 1) buffer)"
    using len assms(1) by (simp add: overwrite_def)
  moreover have "atoi (0 # ?txt @ 0 # drop (length ?txt + 1) buffer) 1 = Some (if ?neg then - int n else int n)"
    by (rule atoi_decimal) (use b in \<open>auto simp: n_def\<close>)
  moreover have "(if ?neg then - int n else int n) = sint v" by (simp add: n_def)
  ultimately show ?thesis by auto
qed

theorem printf_atoi_witness:
  "\<exists>len buffer'. vsnprintf (replicate 12 0) 12 (lit ''%d'') 0 [0x80000000] = Some (len, buffer') \<and> atoi (0 # buffer') 1 = Some (- (2 ^ 31))"
  using printf_atoi [of "replicate 12 0" "0x80000000"] by simp

text \<open>C25. Formatting into a buffer gives the text that is printed: its first \<^verbatim>\<open>buf_size - 1\<close> characters and
  a terminator are stored at the beginning of the buffer, nothing else of the buffer changes, and the result
  is the length of the whole text.\<close>

theorem vsnprintf_text:
  assumes "vprintf_main m format args collect [] = Some txt" and "0 < sz" and "sz \<le> length buffer" and "sz \<le> 2 ^ 31"
  shows "vsnprintf buffer sz m format args = Some (int (length txt), overwrite buffer 0 (take (sz - 1) txt @ [0]))"
  by (rule vsnprintf_run [OF assms])

theorem vsnprintf_text_witness: "vsnprintf [7, 7, 7] 2 (lit ''%d'') 0 [42] = Some (2, [52, 0, 7])"
  using vsnprintf_text [OF printf_d, of 2 "[7, 7, 7]" 42] by (simp add: decimal_def digs.simps digit_char_def overwrite_def)

text \<open>A format that ends within a conversion: the terminator is taken for the conversion character, and the
  loop goes on behind the end of the string.\<close>

lemma vprintf_runs_past_end:
  "vprintf_main (lit ''%'' @ lit ''A'') 0 [] collect [] = Some (chars ''<<no %'' @ [0] @ chars '' conversion>>A'')"
  by code_simp

end
