(* ===== verification/Syscall.thy ===== *)
theory Syscall
  imports Load Stdio
begin

text \<open>
  System calls (userprog/syscall.c): the checks of user pointers, the table of open files of a process, the calls
  on files and directories, and the dispatcher.  A call either returns a value to the process, ends it, halts the
  machine or leaves it waiting; a failed assertion or a page fault in the kernel is \<^term>\<open>None\<close>.
\<close>

unbundle bit_operations_syntax

section \<open>State\<close>

text \<open>\<^verbatim>\<open>file_lock\<close> is the holder of the lock around the file system, null when it is free.  A call that finds it
  held waits in \<^verbatim>\<open>lock_acquire\<close> (modelled with the other locks in \<^verbatim>\<open>Synch\<close>); here the calls are followed
  from the point where they get it.\<close>

record sys =
  kern :: kernel
  file_lock :: tptr
  console :: "u8 list"
  stdin :: "u8 list"

datatype 'a outcome = Ret 'a | Exited | Halted | Wait_load ptr u32 | Wait_exit ptr

definition cur_thread :: "sys \<Rightarrow> thread option" where
  "cur_thread s = do { t \<leftarrow> thread_current (kern s); threads (kern s) t }"

definition set_fds :: "file_struct list \<Rightarrow> sys \<Rightarrow> sys option" where
  "set_fds l s = do {
     t \<leftarrow> thread_current (kern s);
     k \<leftarrow> upd_th t (\<lambda>th. th\<lparr>file_struct_list := l\<rparr>) (kern s);
     Some (s\<lparr>kern := k\<rparr>)
   }"

definition set_kfs :: "fs \<Rightarrow> sys \<Rightarrow> sys" where
  "set_kfs f s = s\<lparr>kern := (kern s)\<lparr>kfs := f\<rparr>\<rparr>"

definition set_mach :: "machine \<Rightarrow> sys \<Rightarrow> sys" where
  "set_mach m s = s\<lparr>kern := (kern s)\<lparr>mach := m\<rparr>\<rparr>"

definition flock_acquire :: "sys \<Rightarrow> sys option" where
  "flock_acquire s = do {
     t \<leftarrow> thread_current (kern s);
     ASSERT (file_lock s \<noteq> t);
     if file_lock s = 0 then Some (s\<lparr>file_lock := t\<rparr>) else None
   }"

definition flock_release :: "sys \<Rightarrow> sys option" where
  "flock_release s = do { t \<leftarrow> thread_current (kern s); ASSERT (file_lock s = t); Some (s\<lparr>file_lock := 0\<rparr>) }"

definition syscall_init :: "sys \<Rightarrow> sys" where
  "syscall_init s = s\<lparr>file_lock := 0\<rparr>"

section \<open>Memory as the kernel sees it\<close>

text \<open>The kernel reaches user memory through the page directory of the running process and its own memory
  directly; a store to a page mapped read-only faults.\<close>

definition in_ram :: "machine \<Rightarrow> u32 \<Rightarrow> bool" where
  "in_ram m va \<longleftrightarrow> unat va < unat PHYS_BASE + 4096 * unat (init_ram_pages m)"

definition vread :: "u32 \<Rightarrow> u32 \<Rightarrow> machine \<Rightarrow> u8 option" where
  "vread pd va m = (if is_user_vaddr va then uread pd va m else do { ASSERT (in_ram m va); Some (kmem m va) })"

definition vwrite :: "u32 \<Rightarrow> u32 \<Rightarrow> u8 \<Rightarrow> machine \<Rightarrow> machine option" where
  "vwrite pd va v m = (
     if is_user_vaddr va then do { w \<leftarrow> pte_bit PTE_W pd va m; ASSERT w; uwrite pd va v m }
     else do { ASSERT (in_ram m va); Some (m\<lparr>kmem := (kmem m)(va := v)\<rparr>) })"

primrec vread_bytes :: "u32 \<Rightarrow> u32 \<Rightarrow> nat \<Rightarrow> machine \<Rightarrow> u8 list option" where
  "vread_bytes pd va 0 m = Some []"
| "vread_bytes pd va (Suc n) m = do { x \<leftarrow> vread pd va m; xs \<leftarrow> vread_bytes pd (va + 1) n m; Some (x # xs) }"

primrec vwrite_bytes :: "u32 \<Rightarrow> u32 \<Rightarrow> u8 list \<Rightarrow> machine \<Rightarrow> machine option" where
  "vwrite_bytes pd va [] m = Some m"
| "vwrite_bytes pd va (x # xs) m = do { m \<leftarrow> vwrite pd va x m; vwrite_bytes pd (va + 1) xs m }"

definition vread32 :: "u32 \<Rightarrow> u32 \<Rightarrow> machine \<Rightarrow> u32 option" where
  "vread32 pd va m = do { bs \<leftarrow> vread_bytes pd va 4 m; Some (bytes_u32 bs) }"

text \<open>A null-terminated string.\<close>

partial_function (option) vstr :: "u32 \<Rightarrow> u32 \<Rightarrow> machine \<Rightarrow> u8 list option" where
  "vstr pd va m = do { x \<leftarrow> vread pd va m; if x = 0 then Some [] else do { xs \<leftarrow> vstr pd (va + 1) m; Some (x # xs) } }"

section \<open>Checks of pointers\<close>

definition is_mapped :: "sys \<Rightarrow> u32 \<Rightarrow> bool option" where
  "is_mapped s a = (
     if is_user_vaddr a then do {
       th \<leftarrow> cur_thread s;
       p \<leftarrow> pagedir_get_page (pagedir th) a (mach (kern s));
       Some (p \<noteq> 0)
     } else Some False)"

definition is_valid_ptr :: "sys \<Rightarrow> u32 \<Rightarrow> bool option" where
  "is_valid_ptr s p = (if p = 0 then Some False else is_mapped s p)"

text \<open>The loop counter \<^verbatim>\<open>i\<close> is an \<^verbatim>\<open>int\<close>; \<open>n\<close> bytes are left.\<close>

primrec full_valid_loop :: "sys \<Rightarrow> u32 \<Rightarrow> nat \<Rightarrow> nat \<Rightarrow> bool option" where
  "full_valid_loop s p i 0 = Some True"
| "full_valid_loop s p i (Suc n) = do {
     ASSERT (i < 2 ^ 31);
     v \<leftarrow> is_valid_ptr s (p + of_nat i);
     if \<not> v then Some False else full_valid_loop s p (i + 1) n
   }"

definition is_full_valid_ptr :: "sys \<Rightarrow> u32 \<Rightarrow> u32 \<Rightarrow> bool option" where
  "is_full_valid_ptr s p sz = full_valid_loop s p 0 (unat sz)"

definition MIN_FILENAME_LENGTH :: nat where
  "MIN_FILENAME_LENGTH = 1"

definition MAX_FILENAME_LENGTH :: nat where
  "MAX_FILENAME_LENGTH = 14"

text \<open>For an empty name the function ends without a \<^verbatim>\<open>return\<close>: its value is undefined.\<close>

function filename_loop :: "sys \<Rightarrow> u32 \<Rightarrow> nat \<Rightarrow> int option" where
  "filename_loop s file len = do {
     v \<leftarrow> is_mapped s (file + of_nat len);
     if \<not> v then Some (-1)
     else do {
       th \<leftarrow> cur_thread s;
       c \<leftarrow> uread (pagedir th) (file + of_nat len) (mach (kern s));
       if c = 0 then (if MIN_FILENAME_LENGTH \<le> len \<and> len \<le> MAX_FILENAME_LENGTH then Some (int len) else None)
       else if len + 1 > MAX_FILENAME_LENGTH then Some (-2)
       else filename_loop s file (len + 1)
     }
   }"
  by pat_completeness auto
termination
  by (relation "measure (\<lambda>(s, file, len). 15 - len)") (auto simp: MAX_FILENAME_LENGTH_def)

declare filename_loop.simps [simp del]

definition is_valid_filename :: "sys \<Rightarrow> u32 \<Rightarrow> int option" where
  "is_valid_filename s file = filename_loop s file 0"

text \<open>The bytes of a name or a buffer of the running process.\<close>

definition user_bytes :: "sys \<Rightarrow> u32 \<Rightarrow> nat \<Rightarrow> u8 list option" where
  "user_bytes s a n = do { th \<leftarrow> cur_thread s; vread_bytes (pagedir th) a n (mach (kern s)) }"

definition user_string :: "sys \<Rightarrow> u32 \<Rightarrow> u8 list option" where
  "user_string s a = do { th \<leftarrow> cur_thread s; vstr (pagedir th) a (mach (kern s)) }"

definition store_bytes :: "u32 \<Rightarrow> u8 list \<Rightarrow> sys \<Rightarrow> sys option" where
  "store_bytes a bs s = do { th \<leftarrow> cur_thread s; m \<leftarrow> vwrite_bytes (pagedir th) a bs (mach (kern s)); Some (set_mach m s) }"

section \<open>Files\<close>

text \<open>An operation of the file system on behalf of the running process, with its current directory.\<close>

definition run_fs :: "(fs \<Rightarrow> ('a \<times> fs) option) \<Rightarrow> sys \<Rightarrow> ('a \<times> sys) option" where
  "run_fs op s = do {
     t \<leftarrow> thread_current (kern s);
     th \<leftarrow> threads (kern s) t;
     (x, f) \<leftarrow> op ((kfs (kern s))\<lparr>current_dir := th_current_dir th\<rparr>);
     k \<leftarrow> upd_th t (\<lambda>th. th\<lparr>th_current_dir := current_dir f\<rparr>) (kern s);
     Some (x, set_kfs f (s\<lparr>kern := k\<rparr>))
   }"

text \<open>\<^verbatim>\<open>filesys_open\<close> returns a \<^verbatim>\<open>struct dir\<close> cast to a \<^verbatim>\<open>struct file\<close> for the root and for \<^verbatim>\<open>.\<close>; both
  begin with an inode and a position.\<close>

definition as_file :: "ptr \<Rightarrow> (fs \<Rightarrow> ('a \<times> fs) option) \<Rightarrow> fs \<Rightarrow> ('a \<times> fs) option" where
  "as_file p op f = (case dirs f p of
       None \<Rightarrow> op f
     | Some d \<Rightarrow> do {
         (x, f) \<leftarrow> op (f\<lparr>files := (files f)(p \<mapsto> \<lparr>f_inode = d_inode d, f_pos = d_pos d, deny_write = False\<rparr>)\<rparr>);
         fl \<leftarrow> files f p;
         Some (x, f\<lparr>files := (files f)(p := None), dirs := (dirs f)(p \<mapsto> \<lparr>d_inode = f_inode fl, d_pos = f_pos fl\<rparr>)\<rparr>)
       })"

definition as_dir :: "ptr \<Rightarrow> (fs \<Rightarrow> ('a \<times> fs) option) \<Rightarrow> fs \<Rightarrow> ('a \<times> fs) option" where
  "as_dir p op f = (case files f p of
       None \<Rightarrow> op f
     | Some fl \<Rightarrow> do {
         (x, f) \<leftarrow> op (f\<lparr>dirs := (dirs f)(p \<mapsto> \<lparr>d_inode = f_inode fl, d_pos = f_pos fl\<rparr>)\<rparr>);
         d \<leftarrow> dirs f p;
         Some (x, f\<lparr>dirs := (dirs f)(p := None), files := (files f)(p \<mapsto> fl\<lparr>f_inode := d_inode d, f_pos := d_pos d\<rparr>)\<rparr>)
       })"

text \<open>The inode of an open file or directory.\<close>

definition object_inode :: "fs \<Rightarrow> ptr \<Rightarrow> ptr option" where
  "object_inode f p = (case files f p of Some fl \<Rightarrow> Some (f_inode fl) | None \<Rightarrow> map_option d_inode (dirs f p))"

definition get_file_struct_for_fd :: "int \<Rightarrow> sys \<Rightarrow> file_struct option option" where
  "get_file_struct_for_fd n s = do { th \<leftarrow> cur_thread s; Some (find (\<lambda>e. fd e = n) (file_struct_list th)) }"

definition allocate_fd :: "sys \<Rightarrow> int option" where
  "allocate_fd s = do {
     th \<leftarrow> cur_thread s;
     if file_struct_list th = [] then Some 2
     else do { ASSERT (fd (last (file_struct_list th)) < INT_LIMIT); Some (fd (last (file_struct_list th)) + 1) }
   }"

definition exit_message :: "u8 list \<Rightarrow> int \<Rightarrow> u8 list" where
  "exit_message name st = name @ chars '': exit('' @ (if st < 0 then chars ''-'' else []) @ decimal (nat \<bar>st\<bar>) @ chars '')'' @ [10]"

definition sys_exit :: "int \<Rightarrow> sys \<Rightarrow> ('a outcome \<times> sys) option" where
  "sys_exit st s = do {
     th \<leftarrow> cur_thread s;
     let s = s\<lparr>console := console s @ exit_message (th_name th) st\<rparr>;
     k \<leftarrow> exit_process st (kern s);
     Some (Exited, s\<lparr>kern := k\<rparr>)
   }"

definition of_bool_int :: "bool \<Rightarrow> int" where
  "of_bool_int b = (if b then 1 else 0)"

definition k_create :: "nat \<Rightarrow> u32 \<Rightarrow> u32 \<Rightarrow> sys \<Rightarrow> (int outcome \<times> sys) option" where
  "k_create depth file_name initial_size s = do {
     v \<leftarrow> is_valid_filename s file_name;
     if v = -2 then Some (Ret 0, s)
     else if v \<le> 0 then sys_exit (-1) s
     else do {
       s \<leftarrow> flock_acquire s;
       name \<leftarrow> user_bytes s file_name (nat v);
       (status, s) \<leftarrow> run_fs (filesys_create depth name (sint initial_size) False) s;
       s \<leftarrow> flock_release s;
       Some (Ret (of_bool_int status), s)
     }
   }"

definition k_remove :: "nat \<Rightarrow> u32 \<Rightarrow> sys \<Rightarrow> (int outcome \<times> sys) option" where
  "k_remove depth file_name s = do {
     v \<leftarrow> is_valid_filename s file_name;
     if v \<le> 0 then Some (Ret 0, s)
     else do {
       s \<leftarrow> flock_acquire s;
       name \<leftarrow> user_bytes s file_name (nat v);
       (status, s) \<leftarrow> run_fs (filesys_remove depth name) s;
       s \<leftarrow> flock_release s;
       Some (Ret (of_bool_int status), s)
     }
   }"

definition k_open :: "nat \<Rightarrow> u32 \<Rightarrow> sys \<Rightarrow> (int outcome \<times> sys) option" where
  "k_open depth file_name s = do {
     v \<leftarrow> is_valid_filename s file_name;
     if v \<le> 0 then Some (Ret (-1), s)
     else do {
       s \<leftarrow> flock_acquire s;
       name \<leftarrow> user_bytes s file_name (nat v);
       (p, s) \<leftarrow> run_fs (filesys_open depth name) s;
       if p = NULL then do { s \<leftarrow> flock_release s; Some (Ret (-1), s) }
       else do {
         (q, s) \<leftarrow> run_fs (\<lambda>f. Some (malloc f)) s;
         ASSERT (q \<noteq> NULL);
         n \<leftarrow> allocate_fd s;
         th \<leftarrow> cur_thread s;
         s \<leftarrow> set_fds (file_struct_list th @ [\<lparr>fd = n, fs_file = p\<rparr>]) s;
         s \<leftarrow> flock_release s;
         Some (Ret n, s)
       }
     }
   }"

definition k_filesize :: "int \<Rightarrow> sys \<Rightarrow> (int outcome \<times> sys) option" where
  "k_filesize n s = do {
     s \<leftarrow> flock_acquire s;
     e \<leftarrow> get_file_struct_for_fd n s;
     e \<leftarrow> e;
     if fs_file e = NULL then do { s \<leftarrow> flock_release s; Some (Ret (-1), s) }
     else do {
       (len, s) \<leftarrow> run_fs (as_file (fs_file e) (\<lambda>f. map_option (\<lambda>l. (l, f)) (file_length f (fs_file e)))) s;
       s \<leftarrow> flock_release s;
       Some (Ret len, s)
     }
   }"

definition k_write :: "nat \<Rightarrow> int \<Rightarrow> u32 \<Rightarrow> u32 \<Rightarrow> sys \<Rightarrow> (int outcome \<times> sys) option" where
  "k_write depth n buffer sz s = (
     if n \<le> 0 then Some (Ret 0, s)
     else do {
       v \<leftarrow> is_full_valid_ptr s buffer sz;
       if \<not> v then sys_exit (-1) s
       else do {
         s \<leftarrow> flock_acquire s;
         if n = 1 then do {
           bs \<leftarrow> user_bytes s buffer (unat sz);
           s \<leftarrow> flock_release (s\<lparr>console := console s @ bs\<rparr>);
           Some (Ret (sint sz), s)
         } else do {
           e \<leftarrow> get_file_struct_for_fd n s;
           case e of
             None \<Rightarrow> do { s \<leftarrow> flock_release s; Some (Ret 0, s) }
           | Some e \<Rightarrow> do {
               inode \<leftarrow> object_inode (kfs (kern s)) (fs_file e);
               if inode = NULL then do { s \<leftarrow> flock_release s; Some (Ret (-1), s) }
               else do {
                 isd \<leftarrow> inode_is_dir (kfs (kern s)) inode;
                 if isd then do { s \<leftarrow> flock_release s; Some (Ret (-1), s) }
                 else do {
                   bs \<leftarrow> user_bytes s buffer (nat (sint sz));
                   (status, s) \<leftarrow> run_fs (as_file (fs_file e) (file_write (free_map_allocate depth) (fs_file e) bs (sint sz))) s;
                   s \<leftarrow> flock_release s;
                   Some (Ret status, s)
                 }
               }
             }
         }
       }
     })"

text \<open>Reading from the keyboard; a process for which nothing was typed waits.\<close>

primrec read_keys :: "u32 \<Rightarrow> nat \<Rightarrow> sys \<Rightarrow> sys option" where
  "read_keys a 0 s = Some s"
| "read_keys a (Suc n) s = (case stdin s of [] \<Rightarrow> None | c # cs \<Rightarrow> do { s \<leftarrow> store_bytes a [c] (s\<lparr>stdin := cs\<rparr>); read_keys (a + 1) n s })"

definition k_read :: "int \<Rightarrow> u32 \<Rightarrow> u32 \<Rightarrow> sys \<Rightarrow> (int outcome \<times> sys) option" where
  "k_read n buffer sz s = (
     if n = 1 \<or> n < 0 then sys_exit (-1) s
     else do {
       v \<leftarrow> is_full_valid_ptr s buffer sz;
       if \<not> v then sys_exit (-1) s
       else if n = 0 then do { s \<leftarrow> read_keys buffer (unat sz) s; Some (Ret (sint sz), s) }
       else do {
         e \<leftarrow> get_file_struct_for_fd n s;
         case e of
           None \<Rightarrow> Some (Ret (-1), s)
         | Some e \<Rightarrow>
             if buffer = 0 \<or> fs_file e = NULL then Some (Ret (-1), s)
             else do {
               s \<leftarrow> flock_acquire s;
               (bs, s) \<leftarrow> run_fs (as_file (fs_file e) (file_read (fs_file e) (sint sz))) s;
               s \<leftarrow> store_bytes buffer bs s;
               s \<leftarrow> flock_release s;
               Some (Ret (int (length bs)), s)
             }
       }
     })"

definition k_seek :: "int \<Rightarrow> u32 \<Rightarrow> sys \<Rightarrow> (unit outcome \<times> sys) option" where
  "k_seek n pos s = do {
     s \<leftarrow> flock_acquire s;
     e \<leftarrow> get_file_struct_for_fd n s;
     e \<leftarrow> e;
     if fs_file e = NULL then do { s \<leftarrow> flock_release s; Some (Ret (), s) }
     else do {
       (x, s) \<leftarrow> run_fs (as_file (fs_file e) (\<lambda>f. map_option (Pair ()) (file_seek (fs_file e) (sint pos) f))) s;
       s \<leftarrow> flock_release s;
       Some (Ret (), s)
     }
   }"

definition k_tell :: "int \<Rightarrow> sys \<Rightarrow> (int outcome \<times> sys) option" where
  "k_tell n s = do {
     s \<leftarrow> flock_acquire s;
     e \<leftarrow> get_file_struct_for_fd n s;
     case e of
       None \<Rightarrow> do { s \<leftarrow> flock_release s; Some (Ret (-1), s) }
     | Some e \<Rightarrow> do {
         (pos, s) \<leftarrow> run_fs (as_file (fs_file e) (\<lambda>f. map_option (\<lambda>p. (p, f)) (file_tell f (fs_file e)))) s;
         s \<leftarrow> flock_release s;
         Some (Ret pos, s)
       }
   }"

text \<open>Closing a directory reads the member \<^verbatim>\<open>deny_write\<close>, which a \<^verbatim>\<open>struct dir\<close> does not have.\<close>

definition k_close :: "nat \<Rightarrow> int \<Rightarrow> sys \<Rightarrow> (unit outcome \<times> sys) option" where
  "k_close depth n s = do {
     e \<leftarrow> get_file_struct_for_fd n s;
     case e of
       None \<Rightarrow> Some (Ret (), s)
     | Some e \<Rightarrow> do {
         s \<leftarrow> flock_acquire s;
         (x, s) \<leftarrow> run_fs (\<lambda>f. map_option (Pair ()) (file_close (free_map_release depth) (fs_file e) f)) s;
         th \<leftarrow> cur_thread s;
         s \<leftarrow> set_fds (remove1 e (file_struct_list th)) s;
         s \<leftarrow> flock_release s;
         Some (Ret (), s)
       }
   }"

section \<open>Directories\<close>

text \<open>The paths of these calls are not checked.\<close>

definition k_chdir :: "nat \<Rightarrow> u32 \<Rightarrow> sys \<Rightarrow> (int outcome \<times> sys) option" where
  "k_chdir depth path s = do {
     name \<leftarrow> user_string s path;
     (ok, s) \<leftarrow> run_fs (filesys_chdir depth name) s;
     Some (Ret (of_bool_int ok), s)
   }"

definition k_mkdir :: "nat \<Rightarrow> u32 \<Rightarrow> sys \<Rightarrow> (int outcome \<times> sys) option" where
  "k_mkdir depth path s = do {
     s \<leftarrow> flock_acquire s;
     name \<leftarrow> user_string s path;
     (ok, s) \<leftarrow> run_fs (filesys_create depth name 0 True) s;
     s \<leftarrow> flock_release s;
     Some (Ret (of_bool_int ok), s)
   }"

text \<open>The open file of a descriptor when it is a directory.\<close>

definition dir_of_fd :: "int \<Rightarrow> sys \<Rightarrow> ptr option option" where
  "dir_of_fd n s = do {
     e \<leftarrow> get_file_struct_for_fd n s;
     case e of
       None \<Rightarrow> Some None
     | Some e \<Rightarrow>
         if fs_file e = NULL then Some None
         else do {
           inode \<leftarrow> object_inode (kfs (kern s)) (fs_file e);
           if inode = NULL then Some None
           else do {
             isd \<leftarrow> inode_is_dir (kfs (kern s)) inode;
             Some (if isd then Some (fs_file e) else None)
           }
         }
   }"

definition k_readdir :: "int \<Rightarrow> u32 \<Rightarrow> sys \<Rightarrow> (int outcome \<times> sys) option" where
  "k_readdir n path s = do {
     d \<leftarrow> dir_of_fd n s;
     case d of
       None \<Rightarrow> Some (Ret 0, s)
     | Some p \<Rightarrow> do {
         (name, s) \<leftarrow> run_fs (as_dir p (dir_readdir p)) s;
         case name of
           None \<Rightarrow> Some (Ret 0, s)
         | Some name \<Rightarrow> do { s \<leftarrow> store_bytes path (name @ [0]) s; Some (Ret 1, s) }
       }
   }"

definition k_isdir :: "int \<Rightarrow> sys \<Rightarrow> (int outcome \<times> sys) option" where
  "k_isdir n s = do { d \<leftarrow> dir_of_fd n s; Some (Ret (of_bool_int (d \<noteq> None)), s) }"

definition k_inumber :: "int \<Rightarrow> sys \<Rightarrow> (int outcome \<times> sys) option" where
  "k_inumber n s = do {
     e \<leftarrow> get_file_struct_for_fd n s;
     case e of
       None \<Rightarrow> Some (Ret (-1), s)
     | Some e \<Rightarrow>
         if fs_file e = NULL then Some (Ret (-1), s)
         else do {
           inode \<leftarrow> object_inode (kfs (kern s)) (fs_file e);
           if inode = NULL then Some (Ret (-1), s)
           else do {
             sector \<leftarrow> inode_get_inumber (kfs (kern s)) inode;
             Some (Ret (sint sector), s)
           }
         }
   }"

section \<open>The dispatcher\<close>

definition SYS_HALT :: u32 where "SYS_HALT = 0"

definition SYS_EXIT :: u32 where "SYS_EXIT = 1"

definition SYS_EXEC :: u32 where "SYS_EXEC = 2"

definition SYS_WAIT :: u32 where "SYS_WAIT = 3"

definition SYS_CREATE :: u32 where "SYS_CREATE = 4"

definition SYS_REMOVE :: u32 where "SYS_REMOVE = 5"

definition SYS_OPEN :: u32 where "SYS_OPEN = 6"

definition SYS_FILESIZE :: u32 where "SYS_FILESIZE = 7"

definition SYS_READ :: u32 where "SYS_READ = 8"

definition SYS_WRITE :: u32 where "SYS_WRITE = 9"

definition SYS_SEEK :: u32 where "SYS_SEEK = 10"

definition SYS_TELL :: u32 where "SYS_TELL = 11"

definition SYS_CLOSE :: u32 where "SYS_CLOSE = 12"

definition SYS_CHDIR :: u32 where "SYS_CHDIR = 15"

definition SYS_MKDIR :: u32 where "SYS_MKDIR = 16"

definition SYS_READDIR :: u32 where "SYS_READDIR = 17"

definition SYS_ISDIR :: u32 where "SYS_ISDIR = 18"

definition SYS_INUMBER :: u32 where "SYS_INUMBER = 19"

text \<open>The word at index \<open>i\<close> of the user stack, of which no byte is checked here.\<close>

definition stack_arg :: "u32 \<Rightarrow> nat \<Rightarrow> sys \<Rightarrow> u32 option" where
  "stack_arg esp i s = do { th \<leftarrow> cur_thread s; vread32 (pagedir th) (esp + 4 * of_nat i) (mach (kern s)) }"

text \<open>The value left in \<^verbatim>\<open>eax\<close>; \<^term>\<open>None\<close> when it is not changed.\<close>

definition sets_eax :: "(int outcome \<times> sys) \<Rightarrow> u32 option outcome \<times> sys" where
  "sets_eax r = (case r of (Ret v, s) \<Rightarrow> (Ret (Some (word_of_int v)), s) | (Exited, s) \<Rightarrow> (Exited, s) | (Halted, s) \<Rightarrow> (Halted, s)
     | (Wait_load c p, s) \<Rightarrow> (Wait_load c p, s) | (Wait_exit c, s) \<Rightarrow> (Wait_exit c, s))"

definition keeps_eax :: "(unit outcome \<times> sys) \<Rightarrow> u32 option outcome \<times> sys" where
  "keeps_eax r = (case r of (Ret _, s) \<Rightarrow> (Ret None, s) | (Exited, s) \<Rightarrow> (Exited, s) | (Halted, s) \<Rightarrow> (Halted, s)
     | (Wait_load c p, s) \<Rightarrow> (Wait_load c p, s) | (Wait_exit c, s) \<Rightarrow> (Wait_exit c, s))"

definition sys_exec :: "nat \<Rightarrow> u32 \<Rightarrow> sys \<Rightarrow> (u32 option outcome \<times> sys) option" where
  "sys_exec depth cmd_line s = do {
     cmd \<leftarrow> user_string s cmd_line;
     (r, k) \<leftarrow> exec depth cmd (kern s);
     Some ((case r of None \<Rightarrow> Exited | Some (c, pid) \<Rightarrow> Wait_load c pid), s\<lparr>kern := k\<rparr>)
   }"

definition sys_wait :: "u32 \<Rightarrow> sys \<Rightarrow> (u32 option outcome \<times> sys) option" where
  "sys_wait child_tid s = do {
     (r, k) \<leftarrow> process_wait child_tid (kern s);
     Some ((case r of Inl v \<Rightarrow> Ret (Some (word_of_int v)) | Inr c \<Rightarrow> Wait_exit c), s\<lparr>kern := k\<rparr>)
   }"

text \<open>The arguments of \<^verbatim>\<open>read\<close> and \<^verbatim>\<open>write\<close>; \<^term>\<open>None\<close> inside when an address is not valid.\<close>

definition create_args :: "u32 \<Rightarrow> sys \<Rightarrow> (u32 \<times> u32 \<times> u32) option option" where
  "create_args esp s = do {
     n \<leftarrow> stack_arg esp 1 s;
     buffer \<leftarrow> stack_arg esp 2 s;
     sz \<leftarrow> stack_arg esp 3 s;
     v \<leftarrow> is_mapped s buffer;
     if \<not> v then Some None
     else do { w \<leftarrow> is_mapped s (buffer + sz); Some (if w then Some (n, buffer, sz) else None) }
   }"

definition with_args :: "u32 \<Rightarrow> (int \<Rightarrow> u32 \<Rightarrow> u32 \<Rightarrow> sys \<Rightarrow> (int outcome \<times> sys) option) \<Rightarrow> sys \<Rightarrow> (u32 option outcome \<times> sys) option" where
  "with_args esp call s = do {
     a \<leftarrow> create_args esp s;
     case a of None \<Rightarrow> sys_exit (-1) s | Some (n, buffer, sz) \<Rightarrow> map_option sets_eax (call (sint n) buffer sz s)
   }"

definition with_name :: "u32 \<Rightarrow> (u32 \<Rightarrow> sys \<Rightarrow> (u32 option outcome \<times> sys) option) \<Rightarrow> sys \<Rightarrow> (u32 option outcome \<times> sys) option" where
  "with_name a call s = do { v \<leftarrow> is_mapped s a; if v then call a s else sys_exit (-1) s }"

definition dispatch :: "nat \<Rightarrow> u32 \<Rightarrow> u32 \<Rightarrow> sys \<Rightarrow> (u32 option outcome \<times> sys) option" where
  "dispatch depth esp nr s = (
     let a1 = stack_arg esp 1 s; a2 = stack_arg esp 2 s in
     if nr = SYS_CHDIR then do { path \<leftarrow> a1; map_option sets_eax (k_chdir depth path s) }
     else if nr = SYS_MKDIR then do { path \<leftarrow> a1; map_option sets_eax (k_mkdir depth path s) }
     else if nr = SYS_READDIR then do { n \<leftarrow> a1; path \<leftarrow> a2; map_option sets_eax (k_readdir (sint n) path s) }
     else if nr = SYS_ISDIR then do { n \<leftarrow> a1; map_option sets_eax (k_isdir (sint n) s) }
     else if nr = SYS_INUMBER then do { n \<leftarrow> a1; map_option sets_eax (k_inumber (sint n) s) }
     else if nr = SYS_EXEC then do { exec_buffer \<leftarrow> a1; with_name exec_buffer (sys_exec depth) s }
     else if nr = SYS_EXIT then do { exit_status \<leftarrow> a1; sys_exit (sint exit_status) s }
     else if nr = SYS_WAIT then do { child_tid \<leftarrow> a1; sys_wait child_tid s }
     else if nr = SYS_OPEN then do { open_name \<leftarrow> a1; with_name open_name (\<lambda>a s. map_option sets_eax (k_open depth a s)) s }
     else if nr = SYS_READ then with_args esp k_read s
     else if nr = SYS_WRITE then with_args esp (k_write depth) s
     else if nr = SYS_CREATE then do { create_name \<leftarrow> a1; sz \<leftarrow> a2; map_option sets_eax (k_create depth create_name sz s) }
     else if nr = SYS_SEEK then do { seek_fd \<leftarrow> a1; position \<leftarrow> a2; map_option keeps_eax (k_seek (sint seek_fd) position s) }
     else if nr = SYS_REMOVE then do { name \<leftarrow> a1; map_option sets_eax (k_remove depth name s) }
     else if nr = SYS_HALT then Some (Halted, s)
     else if nr = SYS_TELL then do { n \<leftarrow> a1; map_option sets_eax (k_tell (sint n) s) }
     else if nr = SYS_CLOSE then do { n \<leftarrow> a1; map_option keeps_eax (k_close depth (sint n) s) }
     else if nr = SYS_FILESIZE then do { n \<leftarrow> a1; map_option sets_eax (k_filesize (sint n) s) }
     else do { k \<leftarrow> thread_exit (kern s); Some (Exited, s\<lparr>kern := k\<rparr>) })"

text \<open>One byte of the number and of the first argument is checked before they are read.\<close>

definition syscall_handler :: "nat \<Rightarrow> u32 \<Rightarrow> sys \<Rightarrow> (u32 option outcome \<times> sys) option" where
  "syscall_handler depth esp s = do {
     v0 \<leftarrow> is_mapped s esp;
     if \<not> v0 then sys_exit (-1) s
     else do {
       v1 \<leftarrow> is_mapped s (esp + 4);
       if \<not> v1 then sys_exit (-1) s
       else do { nr \<leftarrow> stack_arg esp 0 s; dispatch depth esp nr s }
     }
   }"

end
