(* ===== verification/Load_Laws.thy ===== *)
theory Load_Laws
  imports Load Inode_Data
begin

text \<open>
  Segments of user programs: what \<^verbatim>\<open>load_segment\<close> leaves in the memory of the process, from the contents of the
  executable file, and that the segments accepted by \<^verbatim>\<open>validate_segment\<close> lie in user memory.
\<close>

unbundle bit_operations_syntax

section \<open>Pages of a process\<close>

definition mapped :: "nat \<Rightarrow> u32 \<Rightarrow> nat \<Rightarrow> machine \<Rightarrow> u8 list \<Rightarrow> bool" where
  "mapped P up n m bs \<longleftrightarrow> user_page P up n m bs \<and> page_used m n"

lemma mapped_kept:
  assumes "mapped P up n m bs" and "data_kept m m' P" and "pd_wf m' P"
    and "pagedir_get_page (page_addr P) up m' = pagedir_get_page (page_addr P) up m"
  shows "mapped P up n m' bs"
proof -
  have n: "data_page m P n" "page_used m n" "n < 2 ^ 20" using assms(1) by (auto simp: mapped_def user_page_def data_page_def)
  then have "data_page m' P n" "page_used m' n" "\<forall>a. unat a div 4096 = n \<longrightarrow> kmem m' a = kmem m a"
    using assms(2) by (auto simp: data_kept_def)
  then show ?thesis using assms unat_page_ofs [OF n(3)] by (simp add: mapped_def user_page_def)
qed

text \<open>A page is allocated, filled and mapped.\<close>

lemma fresh_page:
  assumes wf: "pd_wf m P" and n: "n < 2 ^ 20" "\<not> page_used m n" and us: "\<forall>j. page_used m1 j \<longleftrightarrow> page_used m j \<or> j = n"
    and mem: "\<forall>a. unat a div 4096 \<noteq> n \<longrightarrow> kmem m1 a = kmem m a"
  shows "pd_wf m1 P" "data_page m1 P n" "is_user_vaddr up \<Longrightarrow> pagedir_get_page (page_addr P) up m1 = pagedir_get_page (page_addr P) up m"
    "data_kept m m1 P"
proof -
  have d: "data_page m P n" using wf n by (auto simp: data_page_def pd_wf_def)
  have "\<forall>k. page_used m k \<longrightarrow> page_used m1 k" using us by blast
  note S = data_page_store [OF wf d mem this]
  show "pd_wf m1 P" "data_page m1 P n" "is_user_vaddr up \<Longrightarrow> pagedir_get_page (page_addr P) up m1 = pagedir_get_page (page_addr P) up m"
    using S(1) S(2) [OF d] S(3) by blast+
  show "data_kept m m1 P" using S(2) us mem n(2) unfolding data_kept_def by metis
qed

definition ram_ok :: "machine \<Rightarrow> bool" where
  "ram_ok m \<longleftrightarrow> (\<forall>k < pool_pages (user_pool m). of_nat (base_no (user_pool m) + k - 786432) < init_ram_pages m)"

lemma ram_ok_cfg:
  assumes "same_cfg m m'"
  shows "ram_ok m' = ram_ok m" "init_page_dir m' = init_page_dir m"
proof -
  have "base_no (get_pool True m') = base_no (get_pool True m)" "pool_pages (get_pool True m') = pool_pages (get_pool True m)"
    "init_ram_pages m' = init_ram_pages m" using assms unfolding same_cfg_def by blast+
  then show "ram_ok m' = ram_ok m" by (simp add: get_pool_def ram_ok_def)
  show "init_page_dir m' = init_page_dir m" using assms by (simp add: same_cfg_def)
qed

text \<open>The bytes of a page.\<close>

definition page_image :: "kmemory \<Rightarrow> nat \<Rightarrow> u8 list" where
  "page_image x n = map (\<lambda>j. x (page_addr n + of_nat j)) [0..<PGSIZE]"

lemma length_page_image [simp]: "length (page_image x n) = 4096"
  by (simp add: page_image_def PGSIZE_def)

lemma page_image_nth [simp]: "j < 4096 \<Longrightarrow> page_image x n ! j = x (page_addr n + of_nat j)"
  by (simp add: page_image_def PGSIZE_def)

lemma install_page_cases:
  assumes wf: "machine_wf m" "pd_wf m P" and ipd: "page_addr P \<noteq> init_page_dir m" and up: "is_user_vaddr up" "pg_ofs up = 0"
    and n: "786432 \<le> n" "n < 2 ^ 20" "of_nat (n - 786432) < init_ram_pages m" "data_page m P n" "page_used m n"
  shows "install_page (page_addr P) up (page_addr n) w m = Some (False, m) \<or>
    (\<exists>m'. install_page (page_addr P) up (page_addr n) w m = Some (True, m') \<and> machine_wf m' \<and> pd_wf m' P \<and> same_cfg m m' \<and>
      mapped P up n m' (page_image (kmem m) n) \<and> (\<forall>u k bs. mapped P u k m bs \<and> u \<noteq> up \<longrightarrow> mapped P u k m' bs))"
proof (cases "pagedir_get_page (page_addr P) up m = Some 0")
  case False
  moreover obtain p where "pagedir_get_page (page_addr P) up m = Some p"
    using pagedir_get_page_eq [OF wf(2) up(1)] by (simp add: Let_def split: if_splits)
  ultimately show ?thesis by (simp add: install_page_def)
next
  case True
  show ?thesis
  proof (cases rule: set_page_cases [OF wf up n(1-3) ipd True, of w])
    case 1
    then show ?thesis using True by (simp add: install_page_def)
  next
    case m': (2 m')
    have "data_page m' P n" "page_used m' n" "\<forall>a. unat a div 4096 = n \<longrightarrow> kmem m' a = kmem m a"
      using m'(5) n(4,5) unfolding data_kept_def by auto
    then have "mapped P up n m' (page_image (kmem m) n)"
      using m'(3,4) n(1) up unat_page_ofs [OF n(2)] by (simp add: mapped_def user_page_def)
    moreover have "mapped P u k m' bs" if "mapped P u k m bs" "u \<noteq> up" for u k bs
    proof -
      have u: "is_user_vaddr u" "pg_ofs u = 0" using that(1) by (simp_all add: mapped_def user_page_def)
      have "pg_no u \<noteq> pg_no up" using page_addr_pg_no [OF u(2)] page_addr_pg_no [OF up(2)] that(2) by metis
      then show ?thesis using mapped_kept [OF that(1) m'(5,3)] m'(4) u(1) by simp
    qed
    ultimately show ?thesis using True m'(1-3,6) by (auto simp: install_page_def)
  qed
qed

text \<open>One page of a segment.\<close>

lemma map_page_cases:
  assumes wf: "machine_wf m" "pd_wf m P" and ipd: "page_addr P \<noteq> init_page_dir m" and ram: "ram_ok m"
    and up: "is_user_vaddr up" "pg_ofs up = 0"
  obtains (none) "palloc_get_page PAL_USER m = Some (0, m)"
    | (page) n m1 where "palloc_get_page PAL_USER m = Some (page_addr n, m1)" "page_addr n \<noteq> 0" "n < 2 ^ 20" "machine_wf m1" "page_used m1 n"
      "\<forall>x. (\<forall>a. unat a div 4096 \<noteq> n \<longrightarrow> x a = kmem m1 a) \<longrightarrow>
        install_page (page_addr P) up (page_addr n) w (m1\<lparr>kmem := x\<rparr>) = Some (False, m1\<lparr>kmem := x\<rparr>) \<or>
        (\<exists>m'. install_page (page_addr P) up (page_addr n) w (m1\<lparr>kmem := x\<rparr>) = Some (True, m') \<and> machine_wf m' \<and> pd_wf m' P \<and> same_cfg m m' \<and>
          mapped P up n m' (page_image x n) \<and> (\<forall>u k bs. mapped P u k m bs \<and> u \<noteq> up \<longrightarrow> mapped P u k m' bs))"
proof -
  have fl: "PAL_USER AND PAL_ASSERT = 0" "(PAL_USER AND PAL_USER \<noteq> 0) = True" "PAL_USER AND PAL_ZERO = 0"
    by (simp_all add: PAL_ZERO_def PAL_ASSERT_def PAL_USER_def)
  show ?thesis
  proof (cases rule: palloc_get_some [OF wf(1) zero_less_one fl(1) fl(2) [symmetric]])
    case 1
    then show ?thesis using none by (simp add: palloc_get_page_def)
  next
    case (2 n k m1)
    have n: "n < 2 ^ 20" "\<not> page_used m n" "page_used m1 n" using 2(4,7,8) by auto
    have us: "\<forall>j. page_used m1 j \<longleftrightarrow> page_used m j \<or> j = n" using 2(8) by auto
    have rn: "of_nat (n - 786432) < init_ram_pages m1" "page_addr P \<noteq> init_page_dir m1"
      using ram ipd 2(2,3,13,15) by (simp_all add: ram_ok_def get_pool_def)
    have g: "palloc_get_page PAL_USER m = Some (page_addr n, m1)" using 2(1) by (simp add: palloc_get_page_def)
    have "install_page (page_addr P) up (page_addr n) w (m1\<lparr>kmem := x\<rparr>) = Some (False, m1\<lparr>kmem := x\<rparr>) \<or>
        (\<exists>m'. install_page (page_addr P) up (page_addr n) w (m1\<lparr>kmem := x\<rparr>) = Some (True, m') \<and> machine_wf m' \<and> pd_wf m' P \<and> same_cfg m m' \<and>
          mapped P up n m' (page_image x n) \<and> (\<forall>u k bs. mapped P u k m bs \<and> u \<noteq> up \<longrightarrow> mapped P u k m' bs))"
      if x: "\<forall>a. unat a div 4096 \<noteq> n \<longrightarrow> x a = kmem m1 a" for x
    proof -
      let ?m = "m1\<lparr>kmem := x\<rparr>"
      have "\<forall>j. page_used ?m j \<longleftrightarrow> page_used m j \<or> j = n" "\<forall>a. unat a div 4096 \<noteq> n \<longrightarrow> kmem ?m a = kmem m a"
        using us x 2(9) fl(3) by simp_all
      note F = fresh_page [OF wf(2) n(1,2) this]
      have "mapped P u k ?m bs" if "mapped P u k m bs" for u k bs
        using mapped_kept [OF that F(4,1)] F(3) that by (simp add: mapped_def user_page_def)
      moreover have c: "machine_wf ?m" "of_nat (n - 786432) < init_ram_pages ?m" "page_addr P \<noteq> init_page_dir ?m" "page_used ?m n" "same_cfg m ?m"
        using 2(5,17) rn n(3) by simp_all
      ultimately show ?thesis
        using install_page_cases [OF c(1) F(1) c(3) up 2(12) n(1) c(2) F(2) c(4), of w] same_cfg_trans [OF c(5)] by simp metis
    qed
    then show ?thesis using page [OF g 2(6) n(1) 2(5) n(3)] by blast
  qed
qed

lemma offset_rest: "r \<le> 4096 \<Longrightarrow> unat (a - of_nat r) < 4096 - r \<longleftrightarrow> r \<le> unat a \<and> unat a < 4096" for a :: u32
  using unat_of_nat32 [of r] unsigned_less [of a, where ?'a = nat] by (auto simp: unat_sub_if')

lemma load_page_image:
  assumes n: "n < 2 ^ 20" and r: "length bs = r" "r \<le> 4096"
    and x: "x = fill (put_bytes mem (page_addr n) bs) (page_addr n + of_nat r) 0 (4096 - r)"
  shows "page_image x n = bs @ replicate (4096 - r) 0" and "\<forall>a. unat a div 4096 \<noteq> n \<longrightarrow> x a = mem a"
proof -
  have xa: "x a = (if unat (a - page_addr n) < r then bs ! unat (a - page_addr n) else if unat (a - page_addr n) < 4096 then 0 else mem a)" for a
    using offset_rest [OF r(2), of "a - page_addr n"] by (auto simp: x fill_def put_bytes_def r(1) diff_diff_eq)
  have "x a = mem a" if "unat a div 4096 \<noteq> n" for a
  proof -
    have "\<not> unat (a - page_addr n) < 4096" using in_pages [of n 1 a] n that by auto
    then show ?thesis using r(2) by (simp add: xa)
  qed
  then show "\<forall>a. unat a div 4096 \<noteq> n \<longrightarrow> x a = mem a" by blast
  have "unat (of_nat j :: u32) = j" if "j < 4096" for j using that by (simp add: unat_of_nat32)
  then show "page_image x n = bs @ replicate (4096 - r) 0"
    using r by (intro nth_equalityI) (auto simp: xa nth_append)
qed

text \<open>The executable file at a position.\<close>

definition file_at :: "fs \<Rightarrow> ptr \<Rightarrow> inode_disk \<Rightarrow> block_sector_t list \<Rightarrow> nat \<Rightarrow> bool" where
  "file_at fs f d secs pos \<longleftrightarrow> cache_wf (cch fs) \<and> file_map (cch fs) d secs \<and>
     (\<exists>fl. files fs f = Some fl \<and> idata fs (f_inode fl) = Some d \<and> f_pos fl = int pos)"

lemma file_read_at_pos:
  assumes f: "file_at fs f d secs pos" and rr: "round_robin_idx (cch fs) + int k \<le> INT_MAX"
  defines "bs \<equiv> take k (drop pos (contents (cch fs) d secs))"
  obtains fs' where "file_read f (int k) fs = Some (bs, fs')" "file_at fs' f d secs (pos + length bs)"
    "contents (cch fs') d secs = contents (cch fs) d secs" "round_robin_idx (cch fs') \<le> round_robin_idx (cch fs) + int k"
proof -
  obtain fl where fl: "cache_wf (cch fs)" "file_map (cch fs) d secs" "files fs f = Some fl" "idata fs (f_inode fl) = Some d" "f_pos fl = int pos"
    using f by (auto simp: file_at_def)
  have "round_robin_idx (cch fs) + max 0 (int k) \<le> INT_MAX" using rr by simp
  from inode_read_at_ok [OF fl(1,2,4) this, of pos] obtain c' where
    c': "inode_read_at (f_inode fl) (int k) (int pos) fs = Some (bs, fs\<lparr>cch := c'\<rparr>)" "cache_wf c'" "round_robin_idx c' \<le> round_robin_idx (cch fs) + int k"
      "file_map c' d secs" "contents c' d secs = contents (cch fs) d secs"
    unfolding bs_def by (metis max_def nat_int of_nat_0_le_iff)
  show ?thesis
    by (rule that [of "fs\<lparr>cch := c', files := (files fs)(f \<mapsto> fl\<lparr>f_pos := int pos + int (length bs)\<rparr>)\<rparr>"]) (use fl c' in \<open>auto simp: file_read_def file_at_def\<close>)
qed

lemma unat_add_pages: "unat up + 4096 * k \<le> unat PHYS_BASE \<Longrightarrow> j \<le> k \<Longrightarrow> unat (up + of_nat (4096 * j)) = unat up + 4096 * j" for up :: u32
  by (rule unat_add_small) (simp add: PHYS_BASE_def)

text \<open>The loop over the pages of a segment: it always returns; when it reports success it has read all bytes that it
  should and every page has its part of the file, followed by zeros.\<close>

definition segment_bytes :: "u8 list \<Rightarrow> nat \<Rightarrow> nat \<Rightarrow> nat \<Rightarrow> u8 list" where
  "segment_bytes C pos r z = take r (drop pos C) @ replicate z 0"

lemma segment_bytes_step:
  assumes "pr = (if r < 4096 then r else 4096)" and "4096 - pr \<le> z" and "length (take pr (drop pos C)) = pr"
  shows "take 4096 (segment_bytes C pos r z) = take pr (drop pos C) @ replicate (4096 - pr) 0"
    "drop 4096 (segment_bytes C pos r z) = segment_bytes C (pos + pr) (r - pr) (z - (4096 - pr))"
  using assms by (auto simp: segment_bytes_def min_def drop_take add.commute split: if_splits)

lemma free_page_ok: "machine_wf m \<Longrightarrow> page_used m n \<Longrightarrow> n < 2 ^ 20 \<Longrightarrow> \<exists>m'. palloc_free_page (page_addr n) m = Some m' \<and> machine_wf m'"
  using pg.put_law [of m "page_addr n"] by (auto simp: owned_pages_def)

definition segment_mapped :: "nat \<Rightarrow> u32 \<Rightarrow> nat \<Rightarrow> machine \<Rightarrow> u8 list \<Rightarrow> bool" where
  "segment_mapped P up k m bs \<longleftrightarrow> (\<forall>j < k. \<exists>n. mapped P (up + of_nat (4096 * j)) n m (take 4096 (drop (4096 * j) bs)))"

definition others_kept :: "nat \<Rightarrow> u32 \<Rightarrow> nat \<Rightarrow> machine \<Rightarrow> machine \<Rightarrow> bool" where
  "others_kept P up k m m' \<longleftrightarrow> (\<forall>u n bs. mapped P u n m bs \<and> (\<forall>j < k. u \<noteq> up + of_nat (4096 * j)) \<longrightarrow> mapped P u n m' bs)"

lemma segment_compose:
  assumes bound: "unat up + 4096 * Suc k \<le> unat PHYS_BASE"
    and first: "mapped P up n m2 (take 4096 bs)" "\<forall>u k bs. mapped P u k m bs \<and> u \<noteq> up \<longrightarrow> mapped P u k m2 bs"
    and rest: "segment_mapped P (up + 4096) k m' (drop 4096 bs)" "others_kept P (up + 4096) k m2 m'"
  shows "segment_mapped P up (Suc k) m' bs" "others_kept P up (Suc k) m m'"
proof -
  have next_up: "up + 4096 + of_nat (4096 * j) = up + of_nat (4096 * Suc j)" for j by simp
  have "up \<noteq> up + 4096 + of_nat (4096 * j)" if "j < k" for j
    using unat_add_pages [OF bound, of "Suc j"] that unfolding next_up by auto
  then have "mapped P up n m' (take 4096 bs)" using rest(2) first(1) unfolding others_kept_def by blast
  moreover have "\<exists>n. mapped P (up + of_nat (4096 * Suc j)) n m' (take 4096 (drop (4096 * Suc j) bs))" if "j < k" for j
    using rest(1) that unfolding segment_mapped_def next_up by (simp add: add.commute)
  ultimately show "segment_mapped P up (Suc k) m' bs" unfolding segment_mapped_def by (auto simp: less_Suc_eq_0_disj)
  show "others_kept P up (Suc k) m m'"
    unfolding others_kept_def
  proof (intro allI impI)
    fix u n bs assume h: "mapped P u n m bs \<and> (\<forall>j < Suc k. u \<noteq> up + of_nat (4096 * j))"
    then have "u \<noteq> up" "\<forall>j < k. u \<noteq> up + 4096 + of_nat (4096 * j)" unfolding next_up by (auto simp: less_Suc_eq_0_disj)
    then show "mapped P u n m' bs" using h first(2) rest(2) unfolding others_kept_def by blast
  qed
qed

lemma segment_loop_unfold:
  assumes "palloc_get_page PAL_USER m = Some (a, m1)" and "a \<noteq> 0" and "r > 0 \<or> z > 0" and "pr = (if r < 4096 then r else 4096)"
    and "file_read f (int pr) fs = Some (bs, fs1)"
  shows "segment_loop f pd up r z w fs m = (
        if length bs \<noteq> pr then do { m \<leftarrow> palloc_free_page a (m1\<lparr>kmem := put_bytes (kmem m1) a bs\<rparr>); Some (False, fs1, m) }
        else do {
          (ok, m) \<leftarrow> install_page pd up a w (m1\<lparr>kmem := fill (put_bytes (kmem m1) a bs) (a + of_nat pr) 0 (4096 - pr)\<rparr>);
          if \<not> ok then do { m \<leftarrow> palloc_free_page a m; Some (False, fs1, m) }
          else segment_loop f pd (up + 4096) (r - pr) (z - (4096 - pr)) w fs1 m })"
proof -
  have sz: "PGSIZE = 4096" by (simp add: PGSIZE_def PGBITS_def)
  show ?thesis
    unfolding segment_loop.simps [of f pd up r z w fs m] Let_def sz assms(4) [symmetric] of_nat_numeral using assms(1-3,5) by simp
qed

lemma segment_loop_run:
  assumes "machine_wf m" and "pd_wf m P" and "page_addr P \<noteq> init_page_dir m" and "ram_ok m"
    and "file_at fs f d secs pos" and "contents (cch fs) d secs = C" and "round_robin_idx (cch fs) + int r \<le> INT_MAX"
    and "r + z = 4096 * k" and "pg_ofs up = 0" and "unat up + 4096 * k \<le> unat PHYS_BASE"
  shows "\<exists>ok fs' m'. segment_loop f (page_addr P) up r z w fs m = Some (ok, fs', m') \<and> contents (cch fs') d secs = C \<and> machine_wf m' \<and>
    (ok \<longrightarrow> pd_wf m' P \<and> r \<le> length C - pos \<and> segment_mapped P up k m' (segment_bytes C pos r z) \<and> others_kept P up k m m')"
  using assms
proof (induction k arbitrary: m fs up r z pos)
  case 0
  then show ?case by (subst segment_loop.simps) (auto simp: segment_mapped_def others_kept_def)
next
  case (Suc k)
  define pr where "pr = (if r < 4096 then r else 4096)"
  have pr: "pr \<le> 4096" "pr \<le> r" "4096 - pr \<le> z" "r - pr + (z - (4096 - pr)) = 4096 * k" using Suc.prems(8) by (auto simp: pr_def)
  have up: "is_user_vaddr up" using Suc.prems(10) by (simp add: is_user_vaddr_def word_less_nat_alt)
  have go: "r > 0 \<or> z > 0" using Suc.prems(8) by auto
  show ?case
  proof (cases rule: map_page_cases [OF Suc.prems(1-4) up Suc.prems(9), where w = w])
    case 1
    then show ?thesis using Suc.prems go by (subst segment_loop.simps) (auto simp: Let_def)
  next
    case (2 n m1)
    let ?bs = "take pr (drop pos C)"
    have "round_robin_idx (cch fs) + int pr \<le> INT_MAX" using Suc.prems(7) pr(2) by simp
    then obtain fs1 where fs1: "file_read f (int pr) fs = Some (?bs, fs1)" "file_at fs1 f d secs (pos + length ?bs)" "contents (cch fs1) d secs = C"
      "round_robin_idx (cch fs1) \<le> round_robin_idx (cch fs) + int pr"
      by (rule file_read_at_pos [OF Suc.prems(5), unfolded Suc.prems(6)])
    let ?x = "put_bytes (kmem m1) (page_addr n) ?bs" and ?y = "fill (put_bytes (kmem m1) (page_addr n) ?bs) (page_addr n + of_nat pr) 0 (4096 - pr)"
    note step = segment_loop_unfold [OF 2(1,2) go pr_def fs1(1), of "page_addr P" up w]
    show ?thesis
    proof (cases "length ?bs = pr")
      case False
      then show ?thesis using step free_page_ok [of "m1\<lparr>kmem := ?x\<rparr>" n] 2(3-5) fs1(3) by auto
    next
      case True
      note img = load_page_image [OF 2(3) True pr(1) refl, of "kmem m1"]
      from 2(6) [rule_format, OF img(2) [rule_format]] consider
          "install_page (page_addr P) up (page_addr n) w (m1\<lparr>kmem := ?y\<rparr>) = Some (False, m1\<lparr>kmem := ?y\<rparr>)"
        | m2 where "install_page (page_addr P) up (page_addr n) w (m1\<lparr>kmem := ?y\<rparr>) = Some (True, m2)" "machine_wf m2" "pd_wf m2 P" "same_cfg m m2"
          "mapped P up n m2 (?bs @ replicate (4096 - pr) 0)" "\<forall>u k bs. mapped P u k m bs \<and> u \<noteq> up \<longrightarrow> mapped P u k m2 bs"
        unfolding img(1) by blast
      then show ?thesis
      proof cases
        case 1
        then show ?thesis using step True free_page_ok [of "m1\<lparr>kmem := ?y\<rparr>" n] 2(3-5) fs1(3) by auto
      next
        case (2 m2)
        note sb = segment_bytes_step [OF pr_def pr(3) True]
        have "unat (up + 4096) = unat up + 4096" using unat_add_pages [OF Suc.prems(10), of 1] by simp
        then have "pg_ofs (up + 4096) = 0" "unat (up + 4096) + 4096 * k \<le> unat PHYS_BASE" using Suc.prems(9,10) by (simp_all add: pg_ofs_0)
        moreover have "round_robin_idx (cch fs1) + int (r - pr) \<le> INT_MAX" "page_addr P \<noteq> init_page_dir m2" "ram_ok m2"
          using fs1(4) Suc.prems(3,4,7) pr(2) ram_ok_cfg [OF 2(4)] by auto
        moreover have "file_at fs1 f d secs (pos + pr)" using fs1(2) True by simp
        ultimately obtain ok fs' m' where rest: "segment_loop f (page_addr P) (up + 4096) (r - pr) (z - (4096 - pr)) w fs1 m2 = Some (ok, fs', m')"
          "contents (cch fs') d secs = C" "machine_wf m'" "ok \<longrightarrow> pd_wf m' P \<and> r - pr \<le> length C - (pos + pr) \<and>
            segment_mapped P (up + 4096) k m' (drop 4096 (segment_bytes C pos r z)) \<and> others_kept P (up + 4096) k m2 m'"
          using Suc.IH [OF 2(2,3) _ _ _ fs1(3) _ pr(4)] unfolding sb(2) by blast
        have "segment_loop f (page_addr P) up r z w fs m = Some (ok, fs', m')" using step True 2(1) rest(1) by simp
        moreover have "r \<le> length C - pos" if "r - pr \<le> length C - (pos + pr)" using that True pr(2) by auto
        ultimately show ?thesis using rest segment_compose [OF Suc.prems(10) 2(5) [folded sb(1)] 2(6)] by blast
      qed
    qed
  qed
qed

section \<open>Segments accepted by the loader\<close>

lemma page_down: "x AND NOT PGMASK = page_addr (unat x div 4096)" "unat (x AND NOT PGMASK) = 4096 * (unat x div 4096)"
proof -
  show e: "x AND NOT PGMASK = page_addr (unat x div 4096)" using and_PTE_ADDR [of x] by (simp add: PTE_ADDR_eq PGMASK_eq)
  have "unat x div 4096 < 2 ^ 20" using unsigned_less [of x, where ?'a = nat] by (simp add: div_less_iff_less_mult)
  then show "unat (x AND NOT PGMASK) = 4096 * (unat x div 4096)" unfolding e by (rule unat_page_addr)
qed

lemma unat_round_up32: "unat x + 4095 < 2 ^ 32 \<Longrightarrow> unat (round_up32 x) = (unat x + 4095) div 4096 * 4096"
proof -
  assume a: "unat x + 4095 < 2 ^ 32"
  have sz: "(of_nat PGSIZE :: u32) = 4096" by (simp add: PGSIZE_def PGBITS_def)
  have e: "unat (x + 4095) = unat x + 4095" using unat_add_small [of x 4095] a by simp
  have "(unat x + 4095) div 4096 * 4096 \<le> unat x + 4095" by simp
  then have "(unat x + 4095) div 4096 * 4096 < 2 ^ 32" using a by linarith
  moreover have "unat ((x + 4095) div 4096) = (unat x + 4095) div 4096" by (simp add: unat_div e del: unat_plus_simple)
  ultimately have "unat ((x + 4095) div 4096 * 4096) = (unat x + 4095) div 4096 * 4096" by (subst unat_word_ariths(2)) simp
  then show ?thesis by (simp add: round_up32_def sz add.commute)
qed

lemma accepted_segment:
  assumes v: "validate_segment ph len" and len: "0 \<le> len" "len < 2 ^ 31" and rz: "read_zero_bytes ph = (r, z)"
  defines "ofs \<equiv> unat (p_vaddr ph) mod 4096"
  obtains k where "unat r + unat z = 4096 * k" "4096 * k < ofs + unat (p_memsz ph) + 4096" "unat r = (if p_filesz ph = 0 then 0 else ofs + unat (p_filesz ph))"
    "ofs + unat (p_memsz ph) \<le> 4096 * k" "unat (p_filesz ph) \<le> unat (p_memsz ph)" "unat (p_offset ph) mod 4096 = ofs"
    "unat (p_offset ph) \<le> nat len" "4096 * (unat (p_vaddr ph) div 4096) + 4096 * k \<le> unat PHYS_BASE" "4096 \<le> unat (p_vaddr ph)"
proof -
  let ?v = "unat (p_vaddr ph)" and ?M = "unat (p_memsz ph)" and ?F = "unat (p_filesz ph)"
  have sz: "(of_nat PGSIZE :: u32) = 4096" by (simp add: PGSIZE_def PGBITS_def)
  have h: "pg_ofs (p_offset ph) = pg_ofs (p_vaddr ph)" "p_offset ph \<le> word_of_int len" "p_filesz ph \<le> p_memsz ph"
    "is_user_vaddr (p_vaddr ph + p_memsz ph)" "p_vaddr ph \<le> p_vaddr ph + p_memsz ph" "4096 \<le> p_vaddr ph"
    using v sz by (simp_all add: validate_segment_def pg_ofs_def)
  have "unat (p_vaddr ph + p_memsz ph) = ?v + ?M" using h(5) unat_plus_simple by blast
  then have vm: "?v + ?M < 0xc0000000" using h(4) by (simp add: is_user_vaddr_def PHYS_BASE_def word_less_nat_alt)
  have F: "?F \<le> ?M" "4096 \<le> ?v" using h(3,6) by (simp_all add: word_le_nat_alt)
  have o: "unat (p_offset ph) mod 4096 = ofs" using h(1) unat_pg_ofs [of "p_offset ph"] unat_pg_ofs [of "p_vaddr ph"] by (simp add: ofs_def)
  define k where "k = (ofs + ?M + 4095) div 4096"
  have ofs: "ofs < 4096" "ofs \<le> ?v" "unat (p_vaddr ph AND PGMASK) = ofs" "4096 * (?v div 4096) + ofs = ?v"
    using unat_pg_ofs [of "p_vaddr ph"] by (simp_all add: ofs_def pg_ofs_def)
  have sum: "unat ((p_vaddr ph AND PGMASK) + p_memsz ph) = ofs + ?M" "unat ((p_vaddr ph AND PGMASK) + p_filesz ph) = ofs + ?F"
    using vm F ofs by (simp_all add: unat_add_lem [THEN iffD1])
  have ru: "unat (round_up32 ((p_vaddr ph AND PGMASK) + p_memsz ph)) = 4096 * k"
    using unat_round_up32 [of "(p_vaddr ph AND PGMASK) + p_memsz ph"] vm ofs(2) sum(1) by (simp add: k_def)
  have k: "ofs + ?M \<le> 4096 * k" "4096 * k < ofs + ?M + 4096" by (simp_all add: k_def)
  have "unat r + unat z = 4096 * k \<and> unat r = (if p_filesz ph = 0 then 0 else ofs + ?F)"
  proof (cases "p_filesz ph = 0")
    case True
    then show ?thesis using rz ru by (auto simp: read_zero_bytes_def Let_def)
  next
    case False
    then have r: "r = (p_vaddr ph AND PGMASK) + p_filesz ph" "z = round_up32 ((p_vaddr ph AND PGMASK) + p_memsz ph) - r"
      using rz by (auto simp: read_zero_bytes_def Let_def word_neq_0_conv)
    have "r \<le> round_up32 ((p_vaddr ph AND PGMASK) + p_memsz ph)" using k(1) F(1) sum(2) ru r(1) by (simp add: word_le_nat_alt)
    then have "unat z = 4096 * k - unat r" using r(2) ru by (simp add: unat_sub)
    then show ?thesis using False r(1) sum(2) k(1) F(1) by simp
  qed
  moreover have "4096 * (?v div 4096) + 4096 * k \<le> unat PHYS_BASE"
  proof -
    define q where "q = ?v div 4096"
    have "4096 * q + 4096 * k < 4096 * 786433" using k(2) ofs(4) vm unfolding q_def [symmetric] by simp
    then have "q + k < 786433" by linarith
    then show ?thesis unfolding q_def [symmetric] by (simp add: PHYS_BASE_def)
  qed
  moreover have "unat (p_offset ph) \<le> nat len"
  proof -
    have "(word_of_int len :: u32) = of_nat (nat len)" using len(1) by simp
    then have "unat (word_of_int len :: u32) = nat len" using unat_of_nat32 [of "nat len"] len by simp
    then show ?thesis using h(2) by (simp add: word_le_nat_alt)
  qed
  ultimately show ?thesis using that k F o by blast
qed

lemma segment_uread:
  assumes s: "segment_mapped P up k m bs" and i: "i < 4096 * k" and len: "length bs = 4096 * k"
  shows "uread (page_addr P) (up + of_nat i) m = Some (bs ! i)"
proof -
  define j t where "j = i div 4096" and "t = i mod 4096"
  have e: "i = 4096 * j + t" "t < 4096" "j < k" using i by (simp_all add: j_def t_def less_mult_imp_div_less mult.commute)
  obtain n where n: "user_page P (up + of_nat (4096 * j)) n m (take 4096 (drop (4096 * j) bs))"
    using s e(3) by (auto simp: segment_mapped_def mapped_def)
  have "4096 * j + 4096 \<le> 4096 * k" using e(3) by simp
  then have "take 4096 (drop (4096 * j) bs) ! t = bs ! i" using e(1,2) len by simp
  moreover have "up + of_nat i = up + of_nat (4096 * j) + of_nat t" by (simp add: e(1))
  ultimately show ?thesis using uread_user_page [OF n e(2)] by (simp only:)
qed

lemma segment_bytes_nth:
  assumes "r \<le> length C - pos" and "i < r + z"
  shows "segment_bytes C pos r z ! i = (if i < r then C ! (pos + i) else 0)"
  using assms by (simp add: segment_bytes_def nth_append)

lemma segment_view:
  assumes "segment_mapped P up k m (segment_bytes C pos r z)" and r: "r \<le> length C - pos" and rz: "r + z = 4096 * k" and i: "t + i < 4096 * k"
  shows "uread (page_addr P) (up + of_nat t + of_nat i) m = Some (if t + i < r then C ! (pos + t + i) else 0)"
proof -
  have "length (segment_bytes C pos r z) = 4096 * k" using r rz by (simp add: segment_bytes_def)
  from segment_uread [OF assms(1) i this] show ?thesis using segment_bytes_nth [OF r] rz i by (simp add: add.assoc)
qed

lemma others_outside:
  assumes k: "others_kept P up k m m'" "unat up + 4096 * k \<le> unat PHYS_BASE" "4096 * k < e + 4096"
    and u: "user_page P u n m bs" "page_used m n" "unat u < unat up \<or> unat up + e \<le> unat u"
  shows "user_page P u n m' bs"
proof -
  have "u \<noteq> up + of_nat (4096 * j)" if "j < k" for j
  proof -
    have "unat (up + of_nat (4096 * j)) = unat up + 4096 * j" "4096 * j + 4096 \<le> 4096 * k" using unat_add_pages [OF k(2), of j] that by simp_all
    then show ?thesis using u(3) k(3) by auto
  qed
  then have "mapped P u n m' bs" using k(1) u(1,2) unfolding others_kept_def mapped_def by blast
  then show ?thesis by (simp add: mapped_def)
qed

text \<open>The call of \<^verbatim>\<open>load_segment\<close> for a segment that passed \<^verbatim>\<open>validate_segment\<close>: no assertion fails.\<close>

lemma load_segment_run:
  assumes wf: "machine_wf m" "pd_wf m P" "page_addr P \<noteq> init_page_dir m" "ram_ok m"
    and fl: "cache_wf (cch fs)" "file_map (cch fs) d secs" "files fs f = Some fl" "idata fs (f_inode fl) = Some d"
    and rr: "round_robin_idx (cch fs) + int (unat r) \<le> INT_MAX"
    and rz: "unat r + unat z = 4096 * k" and up: "pg_ofs up = 0" "unat up + 4096 * k \<le> unat PHYS_BASE" and pos: "pos mod 4096 = 0"
  shows "\<exists>ok fs' m'. load_segment f (int pos) (page_addr P) up r z w fs m = Some (ok, fs', m') \<and>
    contents (cch fs') d secs = contents (cch fs) d secs \<and>
    (ok \<longrightarrow> pd_wf m' P \<and> unat r \<le> length (contents (cch fs) d secs) - pos \<and>
      segment_mapped P up k m' (segment_bytes (contents (cch fs) d secs) pos (unat r) (unat z)) \<and> others_kept P up k m m')"
proof -
  have sz: "PGSIZE = 4096" by (simp add: PGSIZE_def PGBITS_def)
  have "unat (r + z) = 4096 * k" using rz up(2) by (subst unat_word_ariths(1)) (simp add: PHYS_BASE_def)
  then have "unat ((r + z) mod 4096) = 0" by (simp add: unat_mod)
  then have a: "(r + z) mod of_nat PGSIZE = 0" by (simp add: sz unat_eq_0)
  have a': "int pos mod int PGSIZE = 0" using zmod_int [of pos 4096] pos by (simp add: sz)
  define fs1 where "fs1 = fs\<lparr>files := (files fs)(f \<mapsto> fl\<lparr>f_pos := int pos\<rparr>)\<rparr>"
  have "file_seek f (int pos) fs = Some fs1" using fl(3) by (simp add: file_seek_def fs1_def)
  then have "load_segment f (int pos) (page_addr P) up r z w fs m = segment_loop f (page_addr P) up (unat r) (unat z) w fs1 m"
    using a a' up(1) by (simp add: load_segment_def)
  moreover have "file_at fs1 f d secs pos" "cch fs1 = cch fs" using fl by (simp_all add: file_at_def fs1_def)
  ultimately show ?thesis using segment_loop_run [OF wf _ refl _ rz up, of fs1 f d secs pos w] rr by auto
qed

section \<open>Properties\<close>

text \<open>C4. A loadable segment of an executable: for a program header of type \<^verbatim>\<open>PT_LOAD\<close> that
  \<^verbatim>\<open>validate_segment\<close> accepts, no assertion of \<^verbatim>\<open>load_segment\<close> fails and the loader returns. When it reports
  success, the first \<^verbatim>\<open>p_filesz\<close> bytes at \<^verbatim>\<open>p_vaddr\<close> in the memory of the process are those of the file from
  \<^verbatim>\<open>p_offset\<close> on, all of which are within the file, the rest up to \<^verbatim>\<open>p_memsz\<close> is zero, the segment is in user
  space above page 0, every page mapped before at another address keeps its frame and contents, and the file
  is unchanged.\<close>

theorem load_phdr_segment:
  assumes "machine_wf m" and "pd_wf m P" and "page_addr P \<noteq> init_page_dir m"
    and "\<forall>k < bitmap_size (used_map (user_pool m)). of_nat (base_no (user_pool m) + k - 786432) < init_ram_pages m"
    and "cache_wf (cch fs)" and "file_map (cch fs) d secs" and "files fs f = Some fl" and "idata fs (f_inode fl) = Some d"
    and "in_int32 (id_length d)" and "p_type ph = PT_LOAD" and "validate_segment ph (id_length d)"
    and "round_robin_idx (cch fs) + int (unat (p_filesz ph)) + 4096 \<le> INT_MAX" and "C = contents (cch fs) d secs"
  shows "\<exists>ok fs' m'. load_phdr f (page_addr P) ph fs m = Some (ok, fs', m') \<and> contents (cch fs') d secs = C \<and>
    (ok \<longrightarrow> pd_wf m' P \<and> 4096 \<le> unat (p_vaddr ph) \<and> unat (p_vaddr ph) + unat (p_memsz ph) \<le> unat PHYS_BASE \<and>
      (0 < p_filesz ph \<longrightarrow> unat (p_offset ph) + unat (p_filesz ph) \<le> length C) \<and>
      (\<forall>i < unat (p_memsz ph). uread (page_addr P) (p_vaddr ph + of_nat i) m' =
        Some (if i < unat (p_filesz ph) then C ! (unat (p_offset ph) + i) else 0)) \<and>
      (\<forall>up n bs. user_page P up n m bs \<and> page_used m n \<and>
        (unat up < 4096 * (unat (p_vaddr ph) div 4096) \<or> unat (p_vaddr ph) + unat (p_memsz ph) \<le> unat up) \<longrightarrow>
        user_page P up n m' bs))"
proof -
  let ?v = "unat (p_vaddr ph)" and ?o = "unat (p_offset ph)" and ?up = "p_vaddr ph AND NOT PGMASK"
  obtain r z where rz: "read_zero_bytes ph = (r, z)" by fastforce
  have len: "0 \<le> id_length d" "id_length d < 2 ^ 31" using assms(6,9) by (simp_all add: file_map_def in_int32_def)
  obtain k where k: "unat r + unat z = 4096 * k" "4096 * k < ?v mod 4096 + unat (p_memsz ph) + 4096" "unat r = (if p_filesz ph = 0 then 0 else ?v mod 4096 + unat (p_filesz ph))"
    "?v mod 4096 + unat (p_memsz ph) \<le> 4096 * k" "unat (p_filesz ph) \<le> unat (p_memsz ph)" "?o mod 4096 = ?v mod 4096"
    "?o \<le> nat (id_length d)" "4096 * (?v div 4096) + 4096 * k \<le> unat PHYS_BASE" "4096 \<le> ?v"
    by (rule accepted_segment [OF assms(11) len rz])
  define pos where "pos = 4096 * (?o div 4096)"
  have "p_offset ph AND NOT PGMASK = of_nat pos" by (simp add: page_down(1) page_addr_def pos_def)
  moreover have "pos < 2 ^ 31" using k(7) len by (simp add: pos_def)
  ultimately have pos: "sint (p_offset ph AND NOT PGMASK) = int pos" by (simp add: signed_of_nat signed_take_bit_int_eq_self)
  have o: "pos + ?v mod 4096 = ?o" using mult_div_mod_eq [of 4096 ?o] k(6) by (simp add: pos_def)
  have up: "unat ?up = 4096 * (?v div 4096)" "pg_ofs ?up = 0" "?v = unat ?up + ?v mod 4096" by (simp_all add: page_down(2) pg_ofs_0)
  have "file_length fs f = Some (id_length d)" using assms(7,8) by (simp add: file_length_def inode_length_def)
  then have run: "load_phdr f (page_addr P) ph fs m = load_segment f (int pos) (page_addr P) ?up r z (p_flags ph AND PF_W \<noteq> 0) fs m"
    using assms(10,11) rz pos by (simp add: load_phdr_def PT_LOAD_def PT_DYNAMIC_def PT_INTERP_def PT_SHLIB_def)
  have c: "ram_ok m" "round_robin_idx (cch fs) + int (unat r) \<le> INT_MAX" "unat ?up + 4096 * k \<le> unat PHYS_BASE" "pos mod 4096 = 0"
    using assms(4,12) k(3,8) up(1) by (auto simp: ram_ok_def bitmap_size_def pos_def)
  obtain ok fs' m' where res: "load_phdr f (page_addr P) ph fs m = Some (ok, fs', m')" "contents (cch fs') d secs = C"
    "ok \<longrightarrow> pd_wf m' P \<and> unat r \<le> length C - pos \<and> segment_mapped P ?up k m' (segment_bytes C pos (unat r) (unat z)) \<and> others_kept P ?up k m m'"
    using load_segment_run [OF assms(1-3) c(1) assms(5-8) c(2) k(1) up(2) c(3,4)] unfolding run assms(13) by blast
  have va: "p_vaddr ph = ?up + of_nat (?v mod 4096)"
    using arg_cong [OF up(3), of "of_nat :: nat \<Rightarrow> u32"] by simp
  have mem: "uread (page_addr P) (p_vaddr ph + of_nat i) m' = Some (if i < unat (p_filesz ph) then C ! (?o + i) else 0)"
    if ok and "i < unat (p_memsz ph)" for i
    using segment_view [of P ?up k m' C pos "unat r" "unat z" "?v mod 4096" i] res(3) that k(1,3,4) o va by (auto simp: add.assoc)
  have "?v mod 4096 + unat (p_memsz ph) \<le> 4096 * k" using k(4) .
  then have b: "?v + unat (p_memsz ph) \<le> unat PHYS_BASE" using c(3) up(3) by linarith
  have "user_page P u n m' bs"
    if "ok" "user_page P u n m bs" "page_used m n" "unat u < 4096 * (?v div 4096) \<or> ?v + unat (p_memsz ph) \<le> unat u" for u n bs
    by (rule others_outside [OF _ c(3) k(2) that(2,3)]) (use res(3) that(1,4) up in auto)
  moreover have "?o + unat (p_filesz ph) \<le> length C" if ok "0 < p_filesz ph"
  proof -
    have "0 < unat (p_filesz ph)" "unat r = ?v mod 4096 + unat (p_filesz ph)" "unat r \<le> length C - pos"
      using that k(3) res(3) by (auto simp: unat_gt_0)
    then show ?thesis using o by linarith
  qed
  ultimately show ?thesis using res mem b k(9) by blast
qed

definition ex_phdr :: Elf32_Phdr where
  "ex_phdr = \<lparr>p_type = PT_LOAD, p_offset = 2, p_vaddr = 0x8048002, p_filesz = 2, p_memsz = 5, p_flags = 4\<rparr>"

lemma ex_phdr_valid: "validate_segment ex_phdr 4"
  by (simp add: validate_segment_def ex_phdr_def PGMASK_def BITMASK_def PGBITS_def is_user_vaddr_def PHYS_BASE_def PGSIZE_def)

theorem load_phdr_segment_witness:
  "\<exists>ok fs' m'. load_phdr 7 (page_addr ex_pd) ex_phdr ex_fs ex_machine = Some (ok, fs', m') \<and>
    (ok \<longrightarrow> uread (page_addr ex_pd) (0x8048002 + of_nat 1) m' = Some (contents (cch ex_fs) (ex_data 4 4) [4] ! 3) \<and>
      uread (page_addr ex_pd) (0x8048002 + of_nat 3) m' = Some 0)"
proof -
  have a: "page_addr ex_pd \<noteq> init_page_dir ex_machine" by (simp add: ex_machine_def ex_pd_def page_addr_def)
  have b: "cache_wf (cch ex_fs)" "file_map (cch ex_fs) (ex_data 4 4) [4]" using ex_cch_wf ex_file_map [of 4 4] by simp_all
  have c: "p_type ex_phdr = PT_LOAD" "validate_segment ex_phdr (id_length (ex_data 4 4))" "in_int32 (id_length (ex_data 4 4))"
    "round_robin_idx (cch ex_fs) + int (unat (p_filesz ex_phdr)) + 4096 \<le> INT_MAX" "idata ex_fs (f_inode \<lparr>f_inode = 8, f_pos = 0, deny_write = False\<rparr>) = Some (ex_data 4 4)"
    using ex_phdr_valid by (simp_all add: ex_fs_simps ex_phdr_def in_int32_def INT_MAX_def)
  note T = load_phdr_segment [OF ex_machine_wf ex_pd_wf a ex_ram b ex_fs_simps(8) c(5,3,1,2,4) refl]
  have e: "unat (p_memsz ex_phdr) = 5" "unat (p_filesz ex_phdr) = 2" "unat (p_offset ex_phdr) = 2" "p_vaddr ex_phdr = 0x8048002" by (simp_all add: ex_phdr_def)
  from T show ?thesis unfolding e by (elim ex_forward) (auto dest: spec [of _ "1 :: nat"] spec [of _ "3 :: nat"])
qed

end
