(* ===== verification/Syscall_Laws.thy ===== *)
theory Syscall_Laws
  imports Syscall Load_Laws Kernel_Props
begin

text \<open>
  What the system calls guarantee: the table of descriptors and the lock of the file system over every call, the
  checks of user buffers, and files written and read through descriptors.
\<close>

unbundle bit_operations_syntax

section \<open>The running process\<close>

lemma sys_fields [simp]:
  "file_lock (set_kfs f s) = file_lock s" "file_lock (set_mach m s) = file_lock s"
  "kfs (kern (set_kfs f s)) = f" "mach (kern (set_kfs f s)) = mach (kern s)"
  "mach (kern (set_mach m s)) = m" "kfs (kern (set_mach m s)) = kfs (kern s)"
  "running (kern (set_kfs f s)) = running (kern s)" "running (kern (set_mach m s)) = running (kern s)"
  by (simp_all add: set_kfs_def set_mach_def)

lemma thread_current_iff:
  "thread_current k = Some t \<longleftrightarrow> t = running k \<and> t \<noteq> 0 \<and> (\<exists>th. threads k t = Some th \<and> th_magic th = THREAD_MAGIC \<and> status th = THREAD_RUNNING)"
  by (auto simp: thread_current_def running_thread_def is_thread_def Let_def panic_iff split: option.splits bind_splits)

lemma cur_thread_iff:
  "cur_thread s = Some th \<longleftrightarrow> thread_current (kern s) = Some (running (kern s)) \<and> threads (kern s) (running (kern s)) = Some th"
  by (auto simp: cur_thread_def thread_current_iff bind_eq_Some_conv)

lemma cur_thread_simps [simp]:
  "cur_thread (s\<lparr>file_lock := l\<rparr>) = cur_thread s" "cur_thread (s\<lparr>console := c\<rparr>) = cur_thread s" "cur_thread (s\<lparr>stdin := i\<rparr>) = cur_thread s"
proof -
  show "cur_thread (s\<lparr>file_lock := l\<rparr>) = cur_thread s" "cur_thread (s\<lparr>console := c\<rparr>) = cur_thread s" "cur_thread (s\<lparr>stdin := i\<rparr>) = cur_thread s"
    by (simp_all add: cur_thread_def)
qed

lemma cur_thread_mach [simp]: "cur_thread (set_kfs f s) = cur_thread s" "cur_thread (set_mach m s) = cur_thread s"
proof -
  have "thread_current ((kern s)\<lparr>kfs := f\<rparr>) = thread_current (kern s)" "thread_current ((kern s)\<lparr>mach := m\<rparr>) = thread_current (kern s)"
    by (simp_all add: thread_current_def running_thread_def is_thread_def)
  then show "cur_thread (set_kfs f s) = cur_thread s" "cur_thread (set_mach m s) = cur_thread s"
    by (simp_all add: cur_thread_def set_kfs_def set_mach_def)
qed

text \<open>An update of the running thread that keeps it a running thread.\<close>

lemma upd_cur:
  assumes "cur_thread s = Some th" and "th_magic (f th) = th_magic th" and "status (f th) = status th"
  obtains k where "upd_th (running (kern s)) f (kern s) = Some k" "cur_thread (s\<lparr>kern := k\<rparr>) = Some (f th)" "running k = running (kern s)"
    "kfs k = kfs (kern s)" "mach k = mach (kern s)"
proof -
  let ?k = "(kern s)\<lparr>threads := (threads (kern s))(running (kern s) \<mapsto> f th)\<rparr>"
  have "upd_th (running (kern s)) f (kern s) = Some ?k" using assms(1) by (simp add: cur_thread_iff upd_th_def)
  moreover have "cur_thread (s\<lparr>kern := ?k\<rparr>) = Some (f th)" using assms by (auto simp: cur_thread_iff thread_current_iff)
  ultimately show ?thesis using that [of ?k] by simp
qed

lemma flock_acquire_iff: "flock_acquire s = Some s' \<longleftrightarrow> (\<exists>th. cur_thread s = Some th) \<and> file_lock s = 0 \<and> s' = s\<lparr>file_lock := running (kern s)\<rparr>"
  by (auto simp: flock_acquire_def cur_thread_iff thread_current_iff panic_iff bind_eq_Some_conv split: if_splits)

lemma flock_release_iff: "flock_release s = Some s' \<longleftrightarrow> (\<exists>th. cur_thread s = Some th) \<and> file_lock s = running (kern s) \<and> s' = s\<lparr>file_lock := 0\<rparr>"
  by (auto simp: flock_release_def cur_thread_iff thread_current_iff panic_iff bind_eq_Some_conv split: if_splits)

lemma run_fs_Some:
  assumes "run_fs op s = Some (x, s')" and th: "cur_thread s = Some th"
  shows "op ((kfs (kern s))\<lparr>current_dir := th_current_dir th\<rparr>) = Some (x, kfs (kern s'))" "mach (kern s') = mach (kern s)"
    "cur_thread s' = Some (th\<lparr>th_current_dir := current_dir (kfs (kern s'))\<rparr>)" "file_lock s' = file_lock s" "console s' = console s" "stdin s' = stdin s"
    "running (kern s') = running (kern s)"
proof -
  have t: "thread_current (kern s) = Some (running (kern s))" "threads (kern s) (running (kern s)) = Some th" using th by (simp_all add: cur_thread_iff)
  obtain f k where r: "op ((kfs (kern s))\<lparr>current_dir := th_current_dir th\<rparr>) = Some (x, f)"
    "upd_th (running (kern s)) (\<lambda>th. th\<lparr>th_current_dir := current_dir f\<rparr>) (kern s) = Some k" "s' = set_kfs f (s\<lparr>kern := k\<rparr>)"
    using assms(1) t by (auto simp: run_fs_def bind_eq_Some_conv)
  obtain k' where k: "upd_th (running (kern s)) (\<lambda>th. th\<lparr>th_current_dir := current_dir f\<rparr>) (kern s) = Some k'"
    "cur_thread (s\<lparr>kern := k'\<rparr>) = Some (th\<lparr>th_current_dir := current_dir f\<rparr>)" "running k' = running (kern s)" "mach k' = mach (kern s)"
    by (rule upd_cur [OF th, of "\<lambda>th. th\<lparr>th_current_dir := current_dir f\<rparr>"]) simp_all
  have e: "k' = k" using k(1) r(2) by simp
  have f: "kfs (kern s') = f" by (simp add: r(3))
  show "op ((kfs (kern s))\<lparr>current_dir := th_current_dir th\<rparr>) = Some (x, kfs (kern s'))" using r(1) by (simp add: f)
  show "cur_thread s' = Some (th\<lparr>th_current_dir := current_dir (kfs (kern s'))\<rparr>)" using k(2) by (simp add: f) (simp add: r(3) e)
  show "file_lock s' = file_lock s" "console s' = console s" "stdin s' = stdin s" "mach (kern s') = mach (kern s)" "running (kern s') = running (kern s)"
    using k(3,4) by (simp_all add: r(3) e set_kfs_def)
qed

section \<open>The invariant of the descriptors\<close>

definition fd_wf :: "file_struct list \<Rightarrow> bool" where
  "fd_wf l \<longleftrightarrow> sorted_wrt (<) (map fd l) \<and> (\<forall>e \<in> set l. 2 \<le> fd e \<and> fd e \<le> INT_LIMIT)"

text \<open>Between calls the lock is free; within a call the running thread may hold it.\<close>

definition proc_ok :: "sys \<Rightarrow> bool" where
  "proc_ok s \<longleftrightarrow> (\<exists>th. cur_thread s = Some th \<and> fd_wf (file_struct_list th))"

definition sys_ok :: "sys \<Rightarrow> bool" where
  "sys_ok s \<longleftrightarrow> proc_ok s \<and> file_lock s = 0"

definition held :: "sys \<Rightarrow> bool" where
  "held s \<longleftrightarrow> proc_ok s \<and> file_lock s = running (kern s)"

definition call_post :: "'a outcome \<Rightarrow> sys \<Rightarrow> bool" where
  "call_post r s \<longleftrightarrow> file_lock s = 0 \<and> (\<forall>v. r = Ret v \<longrightarrow> sys_ok s)"

lemma call_post_Ret [simp]: "call_post (Ret v) s \<longleftrightarrow> sys_ok s"
  by (auto simp: call_post_def sys_ok_def)

lemma fd_wf_append:
  assumes "fd_wf l" and "l = [] \<Longrightarrow> n = 2" and "l \<noteq> [] \<Longrightarrow> n = fd (last l) + 1 \<and> fd (last l) < INT_LIMIT"
  shows "fd_wf (l @ [\<lparr>fd = n, fs_file = p\<rparr>])"
proof (cases "l = []")
  case False
  then obtain xs x where l: "l = xs @ [x]" by (meson rev_exhaust)
  then show ?thesis using assms by (auto simp: fd_wf_def sorted_wrt_append)
qed (use assms in \<open>simp add: fd_wf_def INT_LIMIT_def\<close>)

lemma fd_wf_Cons: "fd_wf (a # l) \<longleftrightarrow> fd_wf l \<and> 2 \<le> fd a \<and> fd a \<le> INT_LIMIT \<and> (\<forall>e \<in> set l. fd a < fd e)"
  by (auto simp: fd_wf_def)

lemma fd_wf_remove: "fd_wf l \<Longrightarrow> fd_wf (remove1 e l)"
proof (induction l)
  case (Cons a l)
  have "\<forall>x \<in> set (remove1 e l). x \<in> set l" using set_remove1_subset by fast
  then show ?case using Cons by (simp add: fd_wf_Cons)
qed simp

lemma held_console [simp]: "held (s\<lparr>console := c\<rparr>) = held s" "sys_ok (s\<lparr>console := c\<rparr>) = sys_ok s" "sys_ok (s\<lparr>stdin := i\<rparr>) = sys_ok s"
  by (simp_all add: held_def sys_ok_def proc_ok_def)

text \<open>The steps of a call as rules that carry the invariants forward.\<close>

lemma acquire_keeps: "flock_acquire s = Some s' \<Longrightarrow> sys_ok s \<longrightarrow> held s'"
  by (auto simp: flock_acquire_iff sys_ok_def held_def proc_ok_def)

lemma release_keeps: "flock_release s = Some s' \<Longrightarrow> held s \<longrightarrow> sys_ok s'"
  by (auto simp: flock_release_iff sys_ok_def held_def proc_ok_def)

lemma run_fs_keeps: "run_fs op s = Some (x, s') \<Longrightarrow> (held s \<longrightarrow> held s') \<and> (sys_ok s \<longrightarrow> sys_ok s')"
proof (cases "cur_thread s")
  case (Some th)
  assume "run_fs op s = Some (x, s')"
  note r = run_fs_Some [OF this Some]
  show ?thesis using Some r(3,4,7) by (simp add: held_def sys_ok_def proc_ok_def)
qed (simp add: held_def sys_ok_def proc_ok_def)

lemma store_bytes_keeps: "store_bytes a bs s = Some s' \<Longrightarrow> (held s \<longrightarrow> held s') \<and> (sys_ok s \<longrightarrow> sys_ok s')"
  by (auto simp: store_bytes_def held_def sys_ok_def proc_ok_def bind_eq_Some_conv)

lemma set_fds_Some:
  assumes th: "cur_thread s = Some th" and s': "set_fds l s = Some s'"
  shows "cur_thread s' = Some (th\<lparr>file_struct_list := l\<rparr>)" "file_lock s' = file_lock s" "running (kern s') = running (kern s)"
    "kfs (kern s') = kfs (kern s)" "mach (kern s') = mach (kern s)"
proof -
  obtain k where k: "upd_th (running (kern s)) (\<lambda>th. th\<lparr>file_struct_list := l\<rparr>) (kern s) = Some k"
    "cur_thread (s\<lparr>kern := k\<rparr>) = Some (th\<lparr>file_struct_list := l\<rparr>)" "running k = running (kern s)" "kfs k = kfs (kern s)" "mach k = mach (kern s)"
    by (rule upd_cur [OF th, of "\<lambda>th. th\<lparr>file_struct_list := l\<rparr>"]) simp_all
  have "thread_current (kern s) = Some (running (kern s))" using th by (simp add: cur_thread_iff)
  then have "s' = s\<lparr>kern := k\<rparr>" using s' k(1) by (simp add: set_fds_def)
  then show "cur_thread s' = Some (th\<lparr>file_struct_list := l\<rparr>)" "file_lock s' = file_lock s" "running (kern s') = running (kern s)"
    "kfs (kern s') = kfs (kern s)" "mach (kern s') = mach (kern s)" using k(2-5) by simp_all
qed

lemma set_fds_keeps: "set_fds l s = Some s' \<Longrightarrow> held s \<and> fd_wf l \<longrightarrow> held s'"
proof (cases "cur_thread s")
  case (Some th)
  assume "set_fds l s = Some s'"
  from set_fds_Some [OF Some this] show ?thesis by (simp add: held_def proc_ok_def)
qed (simp add: held_def proc_ok_def)

lemma allocate_fd_wf:
  assumes "allocate_fd s = Some n" and "cur_thread s = Some th" and "held s"
  shows "fd_wf (file_struct_list th @ [\<lparr>fd = n, fs_file = p\<rparr>])"
  by (rule fd_wf_append) (use assms in \<open>auto simp: held_def proc_ok_def allocate_fd_def bind_eq_Some_conv panic_iff split: if_splits\<close>)

text \<open>A process that exits gives up the processor without the lock.\<close>

lemma sys_exit_post: "sys_exit st s = Some (r, s') \<Longrightarrow> sys_ok s \<Longrightarrow> call_post r s'"
  by (auto simp: sys_exit_def call_post_def sys_ok_def bind_eq_Some_conv Let_def)

lemmas call_keeps = acquire_keeps release_keeps run_fs_keeps store_bytes_keeps set_fds_keeps

lemma k_create_post: "k_create depth a z s = Some (r, s') \<Longrightarrow> sys_ok s \<Longrightarrow> call_post r s'"
  by (auto simp: k_create_def bind_eq_Some_conv split: if_splits intro: sys_exit_post dest!: call_keeps)

lemma k_remove_post: "k_remove depth a s = Some (r, s') \<Longrightarrow> sys_ok s \<Longrightarrow> call_post r s'"
  by (auto simp: k_remove_def bind_eq_Some_conv split: if_splits dest!: call_keeps)

lemma k_open_post: "k_open depth a s = Some (r, s') \<Longrightarrow> sys_ok s \<Longrightarrow> call_post r s'"
  by (auto simp: k_open_def bind_eq_Some_conv panic_iff split: if_splits dest!: call_keeps intro: allocate_fd_wf)

lemma k_filesize_post: "k_filesize n s = Some (r, s') \<Longrightarrow> sys_ok s \<Longrightarrow> call_post r s'"
  by (auto simp: k_filesize_def bind_eq_Some_conv split: if_splits dest!: call_keeps)

lemma k_write_post: "k_write depth n a z s = Some (r, s') \<Longrightarrow> sys_ok s \<Longrightarrow> call_post r s'"
  by (auto simp: k_write_def bind_eq_Some_conv split: if_splits option.splits intro: sys_exit_post dest!: call_keeps)

lemma read_keys_keeps: "read_keys a n s = Some s' \<Longrightarrow> sys_ok s \<Longrightarrow> sys_ok s'"
proof (induction n arbitrary: a s)
  case (Suc n)
  then show ?case by (fastforce simp: bind_eq_Some_conv split: list.splits dest!: store_bytes_keeps)
qed simp

lemma k_read_post: "k_read n a z s = Some (r, s') \<Longrightarrow> sys_ok s \<Longrightarrow> call_post r s'"
  by (auto simp: k_read_def bind_eq_Some_conv split: if_splits option.splits intro: sys_exit_post read_keys_keeps dest!: call_keeps)

lemma k_seek_post: "k_seek n pos s = Some (r, s') \<Longrightarrow> sys_ok s \<Longrightarrow> call_post r s'"
  by (auto simp: k_seek_def bind_eq_Some_conv split: if_splits dest!: call_keeps)

lemma k_tell_post: "k_tell n s = Some (r, s') \<Longrightarrow> sys_ok s \<Longrightarrow> call_post r s'"
  by (auto simp: k_tell_def bind_eq_Some_conv split: option.splits dest!: call_keeps)

lemma held_remove: "held s \<Longrightarrow> cur_thread s = Some th \<Longrightarrow> fd_wf (remove1 e (file_struct_list th))"
  by (simp add: held_def proc_ok_def fd_wf_remove)

lemma k_close_post: "k_close depth n s = Some (r, s') \<Longrightarrow> sys_ok s \<Longrightarrow> call_post r s'"
  by (auto simp: k_close_def bind_eq_Some_conv split: option.splits dest!: call_keeps intro: held_remove)

lemma k_dir_post:
  "k_chdir depth a s = Some (r, s') \<Longrightarrow> sys_ok s \<Longrightarrow> call_post r s'"
  "k_mkdir depth a s = Some (r, s') \<Longrightarrow> sys_ok s \<Longrightarrow> call_post r s'"
  "k_readdir n a s = Some (r, s') \<Longrightarrow> sys_ok s \<Longrightarrow> call_post r s'"
  "k_isdir n s = Some (r, s') \<Longrightarrow> sys_ok s \<Longrightarrow> call_post r s'"
  "k_inumber n s = Some (r, s') \<Longrightarrow> sys_ok s \<Longrightarrow> call_post r s'"
  by (auto simp: k_chdir_def k_mkdir_def k_readdir_def k_isdir_def k_inumber_def bind_eq_Some_conv split: option.splits if_splits dest!: call_keeps)

lemma upd_child_threads: "upd_child c f k = Some k' \<Longrightarrow> threads k' = threads k \<and> running k' = running k"
  by (auto simp: upd_child_def split: option.splits)

lemma process_wait_Inl: "process_wait c k = Some (Inl v, k') \<Longrightarrow> threads k' = threads k \<and> running k' = running k"
  unfolding process_wait_def bind_eq_Some_conv by (clarsimp split: if_splits simp: bind_eq_Some_conv) (metis upd_child_threads)

lemma proc_ok_threads: "threads k' = threads (kern s) \<and> running k' = running (kern s) \<Longrightarrow> proc_ok (s\<lparr>kern := k'\<rparr>) = proc_ok s"
  by (simp add: proc_ok_def cur_thread_iff thread_current_iff)

lemma sys_wait_post:
  assumes "sys_wait c s = Some (r, s')" and "sys_ok s"
  shows "call_post r s'"
proof -
  obtain q k where q: "process_wait c (kern s) = Some (q, k)" "s' = s\<lparr>kern := k\<rparr>"
    "r = (case q of Inl v \<Rightarrow> Ret (Some (word_of_int v)) | Inr c \<Rightarrow> Wait_exit c)"
    using assms(1) by (auto simp: sys_wait_def bind_eq_Some_conv)
  show ?thesis
  proof (cases q)
    case (Inl v)
    then show ?thesis using q assms(2) proc_ok_threads [of k s] process_wait_Inl [of c "kern s" v k] by (simp add: sys_ok_def)
  qed (use q assms(2) in \<open>simp add: call_post_def sys_ok_def\<close>)
qed

lemma sys_exec_post: "sys_exec depth a s = Some (r, s') \<Longrightarrow> sys_ok s \<Longrightarrow> call_post r s'"
  by (auto simp: sys_exec_def bind_eq_Some_conv call_post_def sys_ok_def split: option.splits)

lemma sets_eaxD: "sets_eax (q, t) = (r, s') \<Longrightarrow> t = s' \<and> call_post r s' = call_post q s'"
  by (cases q) (auto simp: sets_eax_def call_post_def)

lemma keeps_eaxD: "keeps_eax (q, t) = (r, s') \<Longrightarrow> t = s' \<and> call_post r s' = call_post q s'"
  by (cases q) (auto simp: keeps_eax_def call_post_def)

lemma with_args_post:
  assumes "with_args esp call s = Some (r, s')" and "sys_ok s"
    and "\<And>n a z r s'. call n a z s = Some (r, s') \<Longrightarrow> call_post r s'"
  shows "call_post r s'"
  using assms by (auto simp: with_args_def bind_eq_Some_conv split: option.splits intro: sys_exit_post dest!: sets_eaxD)

lemma with_name_post:
  assumes "with_name a call s = Some (r, s')" and "sys_ok s" and "\<And>r s'. call a s = Some (r, s') \<Longrightarrow> call_post r s'"
  shows "call_post r s'"
  using assms by (auto simp: with_name_def bind_eq_Some_conv split: if_splits intro: sys_exit_post)

lemmas call_posts = k_create_post k_remove_post k_open_post k_filesize_post k_write_post k_read_post k_seek_post k_tell_post k_close_post
  k_dir_post sys_wait_post sys_exec_post sys_exit_post

lemma dispatch_post:
  assumes "dispatch depth esp nr s = Some (r, s')" and "sys_ok s"
  shows "call_post r s'"
proof -
  have name: "call_post r s'" if "with_name a (\<lambda>a s. map_option sets_eax (k_open depth a s)) s = Some (r, s')" for a
    by (rule with_name_post [OF that assms(2)]) (use assms(2) in \<open>auto dest!: sets_eaxD intro: k_open_post\<close>)
  have ex: "call_post r s'" if "with_name a (sys_exec depth) s = Some (r, s')" for a
    by (rule with_name_post [OF that assms(2)]) (use assms(2) in \<open>auto intro: sys_exec_post\<close>)
  have rd: "with_args esp k_read s = Some (r, s') \<Longrightarrow> call_post r s'" "with_args esp (k_write depth) s = Some (r, s') \<Longrightarrow> call_post r s'"
    using with_args_post [OF _ assms(2)] k_read_post [OF _ assms(2)] k_write_post [OF _ assms(2)] by blast+
  have "thread_exit (kern s) = Some k \<Longrightarrow> call_post Exited (s\<lparr>kern := k\<rparr>)" for k using assms(2) by (simp add: call_post_def sys_ok_def)
  moreover have "call_post Halted s" using assms(2) by (simp add: call_post_def sys_ok_def)
  ultimately show ?thesis
    using assms name ex rd unfolding dispatch_def Let_def
    by (auto simp: bind_eq_Some_conv split: if_splits dest!: sets_eaxD keeps_eaxD intro: call_posts)
qed

lemma handler_post: "syscall_handler depth esp s = Some (r, s') \<Longrightarrow> sys_ok s \<Longrightarrow> call_post r s'"
  by (auto simp: syscall_handler_def bind_eq_Some_conv split: if_splits intro: sys_exit_post dispatch_post)

section \<open>A process between its calls\<close>

text \<open>User code changes the memory of the machine and makes calls that return.\<close>

inductive process_run :: "nat \<Rightarrow> sys \<Rightarrow> sys \<Rightarrow> bool" where
  run_start: "process_run depth s s"
| run_user: "process_run depth s s' \<Longrightarrow> process_run depth s (set_mach m s')"
| run_call: "process_run depth s s' \<Longrightarrow> syscall_handler depth esp s' = Some (Ret v, s'') \<Longrightarrow> process_run depth s s''"

lemma process_run_ok: "process_run depth s s' \<Longrightarrow> sys_ok s \<Longrightarrow> sys_ok s'"
proof (induction rule: process_run.induct)
  case (run_user depth s s' m)
  then show ?case by (simp add: sys_ok_def proc_ok_def)
next
  case (run_call depth s s' esp v s'')
  then show ?case using handler_post [of depth esp s' "Ret v" s''] by simp
qed simp

section \<open>Descriptors as a map\<close>

lemma find_fresh: "\<forall>e \<in> set l. fd e \<noteq> n \<Longrightarrow> find (\<lambda>e. fd e = j) (l @ [\<lparr>fd = n, fs_file = p\<rparr>]) = (if j = n then Some \<lparr>fd = n, fs_file = p\<rparr> else find (\<lambda>e. fd e = j) l)"
  by (induction l) auto

lemma find_remove:
  assumes "fd_wf l" and "find (\<lambda>e. fd e = n) l = Some e"
  shows "find (\<lambda>e. fd e = j) (remove1 e l) = (if j = n then None else find (\<lambda>e. fd e = j) l)"
  using assms
proof (induction l)
  case (Cons a l)
  show ?case
  proof (cases "fd a = n")
    case True
    then have "a = e" "\<forall>x \<in> set l. fd x \<noteq> n" using Cons.prems by (auto simp: fd_wf_Cons)
    then show ?thesis using True by (auto simp: find_None_iff)
  next
    case False
    then have "find (\<lambda>e. fd e = n) l = Some e" "fd_wf l" using Cons.prems by (auto simp: fd_wf_Cons)
    moreover have "fd e = n" using calculation(1) by (auto simp: find_Some_iff)
    ultimately show ?thesis using Cons.IH False by auto
  qed
qed simp

lemma fd_wf_fresh: "fd_wf l \<Longrightarrow> l \<noteq> [] \<Longrightarrow> e \<in> set l \<Longrightarrow> fd e < fd (last l) + 1"
proof (induction l)
  case (Cons a l)
  show ?case
  proof (cases "l = []")
    case False
    then have h: "fd a < fd (last l)" "fd_wf l" using Cons.prems(1) last_in_set [of l] by (simp_all add: fd_wf_Cons)
    show ?thesis
    proof (cases "e = a")
      case True
      then show ?thesis using h(1) False by simp
    qed (use Cons.IH [OF h(2) False] Cons.prems(3) False in simp)
  qed (use Cons.prems in simp)
qed simp

lemma allocate_fresh:
  assumes "allocate_fd s = Some n" and "cur_thread s = Some th" and "fd_wf (file_struct_list th)"
  shows "2 \<le> n" and "\<forall>e \<in> set (file_struct_list th). fd e \<noteq> n"
proof -
  have n: "n = (if file_struct_list th = [] then 2 else fd (last (file_struct_list th)) + 1)"
    using assms(1,2) by (auto simp: allocate_fd_def bind_eq_Some_conv panic_iff split: if_splits)
  show "\<forall>e \<in> set (file_struct_list th). fd e \<noteq> n" 
  proof (intro ballI)
    fix e assume e: "e \<in> set (file_struct_list th)"
    then have "file_struct_list th \<noteq> []" by auto
    then show "fd e \<noteq> n" using fd_wf_fresh [OF assms(3) _ e] n by simp
  qed
  have "file_struct_list th \<noteq> [] \<Longrightarrow> 2 \<le> fd (last (file_struct_list th))" using assms(3) last_in_set [of "file_struct_list th"] unfolding fd_wf_def by blast
  then show "2 \<le> n" using n by (auto split: if_splits)
qed

lemma get_fd: "cur_thread s = Some th \<Longrightarrow> get_file_struct_for_fd n s = Some (find (\<lambda>e. fd e = n) (file_struct_list th))"
  by (simp add: get_file_struct_for_fd_def)

lemma k_open_fds:
  assumes ok: "sys_ok s" and th: "cur_thread s = Some th" and run: "k_open depth a s = Some (Ret n, s')"
  shows "\<exists>th'. cur_thread s' = Some th' \<and> (n = -1 \<and> file_struct_list th' = file_struct_list th \<or>
    2 \<le> n \<and> (\<exists>p. p \<noteq> NULL \<and> file_struct_list th' = file_struct_list th @ [\<lparr>fd = n, fs_file = p\<rparr>] \<and> (\<forall>e \<in> set (file_struct_list th). fd e \<noteq> n)))"
proof -
  obtain v where v: "is_valid_filename s a = Some v" using run by (auto simp: k_open_def bind_eq_Some_conv)
  have wf: "fd_wf (file_struct_list th)" using ok th by (simp add: sys_ok_def proc_ok_def)
  show ?thesis
  proof (cases "v \<le> 0")
    case True
    then show ?thesis using run th v by (simp add: k_open_def)
  next
    case False
    obtain s1 name p s2 where o: "flock_acquire s = Some s1" "user_bytes s1 a (nat v) = Some name" "run_fs (filesys_open depth name) s1 = Some (p, s2)"
      using run v False by (auto simp: k_open_def bind_eq_Some_conv)
    have c1: "cur_thread s1 = Some th" using o(1) th by (auto simp: flock_acquire_iff)
    note c2 = run_fs_Some(3) [OF o(3) c1]
    show ?thesis
    proof (cases "p = NULL")
      case True
      then show ?thesis using run v False o c2 by (auto simp: k_open_def bind_eq_Some_conv flock_release_iff)
    next
      case p: False
      obtain q s3 s4 th3 where r: "run_fs (\<lambda>f. Some (malloc f)) s2 = Some (q, s3)" "allocate_fd s3 = Some n" "cur_thread s3 = Some th3"
        "set_fds (file_struct_list th3 @ [\<lparr>fd = n, fs_file = p\<rparr>]) s3 = Some s4" "flock_release s4 = Some s'"
        using run v False o p by (auto simp: k_open_def bind_eq_Some_conv)
      have l: "file_struct_list th3 = file_struct_list th" using run_fs_Some(3) [OF r(1) c2] r(3) by auto
      have "\<exists>th'. cur_thread s4 = Some th' \<and> file_struct_list th' = file_struct_list th3 @ [\<lparr>fd = n, fs_file = p\<rparr>]"
        using set_fds_Some(1) [OF r(3,4)] by simp
      then show ?thesis using r(5) p allocate_fresh [OF r(2,3)] wf l by (auto simp: flock_release_iff)
    qed
  qed
qed

lemma k_close_fds:
  assumes ok: "sys_ok s" and th: "cur_thread s = Some th" and run: "k_close depth n s = Some (r, s')"
  shows "\<exists>th'. cur_thread s' = Some th' \<and>
    (\<forall>j. find (\<lambda>e. fd e = j) (file_struct_list th') = (if j = n then None else find (\<lambda>e. fd e = j) (file_struct_list th)))"
proof -
  have wf: "fd_wf (file_struct_list th)" using ok th by (simp add: sys_ok_def proc_ok_def)
  show ?thesis
  proof (cases "find (\<lambda>e. fd e = n) (file_struct_list th)")
    case None
    then show ?thesis using run th by (auto simp: k_close_def get_fd)
  next
    case (Some e)
    obtain s1 x s2 th2 s3 where r: "flock_acquire s = Some s1"
      "run_fs (\<lambda>f. map_option (Pair ()) (file_close (free_map_release depth) (fs_file e) f)) s1 = Some (x, s2)" "cur_thread s2 = Some th2"
      "set_fds (remove1 e (file_struct_list th2)) s2 = Some s3" "flock_release s3 = Some s'"
      using run th Some by (auto simp: k_close_def get_fd bind_eq_Some_conv)
    have "cur_thread s1 = Some th" using r(1) th by (auto simp: flock_acquire_iff)
    then have "file_struct_list th2 = file_struct_list th" using run_fs_Some(3) [OF r(2)] r(3) by auto
    then have "cur_thread s' = Some (th2\<lparr>file_struct_list := remove1 e (file_struct_list th)\<rparr>)"
      using set_fds_Some(1) [OF r(3,4)] r(5) by (auto simp: flock_release_iff)
    then show ?thesis using find_remove [OF wf Some] by simp
  qed
qed

section \<open>Regular files behind a descriptor\<close>

lemma run_fs_run:
  assumes "cur_thread s = Some th" and "op ((kfs (kern s))\<lparr>current_dir := th_current_dir th\<rparr>) = Some (x, f)"
  obtains s' where "run_fs op s = Some (x, s')" "kfs (kern s') = f"
proof -
  obtain k where k: "upd_th (running (kern s)) (\<lambda>th. th\<lparr>th_current_dir := current_dir f\<rparr>) (kern s) = Some k"
    by (rule upd_cur [OF assms(1), of "\<lambda>th. th\<lparr>th_current_dir := current_dir f\<rparr>"]) simp_all
  have "run_fs op s = Some (x, set_kfs f (s\<lparr>kern := k\<rparr>))" using assms k by (simp add: run_fs_def cur_thread_iff)
  then show ?thesis using that by simp
qed

definition reg_file :: "fs \<Rightarrow> ptr \<Rightarrow> inode_disk \<Rightarrow> block_sector_t list \<Rightarrow> nat \<Rightarrow> bool" where
  "reg_file f p d secs pos \<longleftrightarrow> cache_wf (cch f) \<and> file_map (cch f) d secs \<and> dirs f p = None \<and> in_int32 (id_length d) \<and> \<not> is_dir d \<and>
     (\<exists>fl i. files f p = Some fl \<and> f_pos fl = int pos \<and> f_inode fl \<noteq> NULL \<and> idata f (f_inode fl) = Some d \<and>
        inodes f (f_inode fl) = Some i \<and> deny_write_cnt i = 0)"

lemma reg_file_cwd [simp]: "reg_file (f\<lparr>current_dir := c\<rparr>) p d secs pos = reg_file f p d secs pos"
  by (simp add: reg_file_def)

lemma as_file_reg: "reg_file f p d secs pos \<Longrightarrow> as_file p op f = op f"
  by (simp add: reg_file_def as_file_def)

lemma file_write_reg:
  assumes r: "reg_file f p d secs pos" and sz: "0 \<le> sz" "int pos + sz \<le> id_length d" "length bs = nat sz" and rr: "round_robin_idx (cch f) + sz \<le> INT_MAX"
  shows "\<exists>f'. file_write al p bs sz f = Some (sz, f') \<and> reg_file f' p d secs (pos + nat sz) \<and>
    contents (cch f') d secs = overwrite (contents (cch f) d secs) pos bs \<and> round_robin_idx (cch f') \<le> round_robin_idx (cch f) + sz"
proof -
  obtain fl i where fl: "cache_wf (cch f)" "file_map (cch f) d secs" "dirs f p = None" "in_int32 (id_length d)" "\<not> is_dir d" "files f p = Some fl"
    "f_pos fl = int pos" "f_inode fl \<noteq> NULL" "idata f (f_inode fl) = Some d" "inodes f (f_inode fl) = Some i" "deny_write_cnt i = 0"
    using r by (auto simp: reg_file_def)
  have len: "nat sz \<le> length bs" using sz(3) by simp
  obtain c where c: "inode_write_at al (f_inode fl) bs sz (int pos) f = Some (sz, f\<lparr>cch := c\<rparr>)" "cache_wf c" "csize c = csize (cch f)"
    "round_robin_idx c \<le> round_robin_idx (cch f) + sz" "contents c d secs = overwrite (contents (cch f) d secs) pos (take (nat sz) bs)" "file_map c d secs"
    "\<forall>t < csize (cch f). t \<notin> set secs \<longrightarrow> cview c t = cview (cch f) t" "\<forall>t. t \<notin> set secs \<longrightarrow> cached c t \<longrightarrow> cached (cch f) t"
    using inode_write_at_ok [OF fl(1,2,9,10,11) rr sz(1,2) len fl(4), of al] .
  let ?f = "f\<lparr>cch := c, files := (files f)(p \<mapsto> fl\<lparr>f_pos := int pos + sz\<rparr>)\<rparr>"
  have "file_write al p bs sz f = Some (sz, ?f)" using fl(6,7) c(1) by (simp add: file_write_def)
  moreover have "reg_file ?f p d secs (pos + nat sz)" using fl c(2,6) sz(1) by (simp add: reg_file_def)
  ultimately show ?thesis using c(4,5) sz(3) by (intro exI [of _ ?f]) simp
qed

lemma file_seek_reg:
  assumes "reg_file f p d secs pos"
  shows "\<exists>f'. file_seek p (int q) f = Some f' \<and> reg_file f' p d secs q \<and> cch f' = cch f"
  using assms by (auto simp: reg_file_def file_seek_def)

lemma file_read_reg:
  assumes r: "reg_file f p d secs pos" and rr: "round_robin_idx (cch f) + int k \<le> INT_MAX"
  shows "\<exists>f'. file_read p (int k) f = Some (take k (drop pos (contents (cch f) d secs)), f') \<and> contents (cch f') d secs = contents (cch f) d secs"
proof -
  have "file_at f p d secs pos" using r by (auto simp: reg_file_def file_at_def)
  from file_read_at_pos [OF this rr] show ?thesis by metis
qed

text \<open>A process with page directory \<open>pd\<close> whose descriptor \<open>n\<close> is the regular file \<open>p\<close> at a position.\<close>

definition proc_file :: "sys \<Rightarrow> u32 \<Rightarrow> int \<Rightarrow> ptr \<Rightarrow> inode_disk \<Rightarrow> block_sector_t list \<Rightarrow> nat \<Rightarrow> bool" where
  "proc_file s pd n p d secs pos \<longleftrightarrow> file_lock s = 0 \<and> p \<noteq> NULL \<and> reg_file (kfs (kern s)) p d secs pos \<and>
     (\<exists>th. cur_thread s = Some th \<and> pagedir th = pd \<and> find (\<lambda>e. fd e = n) (file_struct_list th) = Some \<lparr>fd = n, fs_file = p\<rparr>)"

lemma is_valid_ptr_cong:
  assumes "cur_thread s = Some th" and "cur_thread s' = Some th'" and "pagedir th' = pagedir th" and "mach (kern s') = mach (kern s)"
  shows "is_valid_ptr s' a = is_valid_ptr s a"
  using assms by (simp add: is_valid_ptr_def is_mapped_def)

lemma full_valid_cong:
  assumes "proc_file s pd n p d secs pos" and "proc_file s' pd n' p' d' secs' pos'" and "mach (kern s') = mach (kern s)"
  shows "is_full_valid_ptr s' a z = is_full_valid_ptr s a z"
proof -
  have "is_valid_ptr s' a = is_valid_ptr s a" for a using assms is_valid_ptr_cong unfolding proc_file_def by metis
  then have "full_valid_loop s' a i k = full_valid_loop s a i k" for i k by (induction k arbitrary: i) (simp_all cong: if_cong)
  then show ?thesis by (simp add: is_full_valid_ptr_def)
qed

lemma length_vread_bytes: "vread_bytes pd a k m = Some bs \<Longrightarrow> length bs = k"
  by (induction k arbitrary: a bs) (auto simp: bind_eq_Some_conv)

text \<open>An operation of the file system inside the lock.\<close>

lemma proc_file_step:
  assumes s: "proc_file s pd n p d secs pos" and op: "\<And>c. \<exists>f. op ((kfs (kern s))\<lparr>current_dir := c\<rparr>) = Some (x, f) \<and> reg_file f p d secs pos' \<and> Q f"
  obtains s0 s1 s2 where "flock_acquire s = Some s0" "cur_thread s0 = cur_thread s" "kern s0 = kern s" "run_fs op s0 = Some (x, s1)" "flock_release s1 = Some s2"
    "proc_file s2 pd n p d secs pos'" "mach (kern s2) = mach (kern s)" "Q (kfs (kern s2))"
proof -
  obtain th where th: "cur_thread s = Some th" "pagedir th = pd" "find (\<lambda>e. fd e = n) (file_struct_list th) = Some \<lparr>fd = n, fs_file = p\<rparr>"
    and l: "file_lock s = 0" "p \<noteq> NULL" using s by (auto simp: proc_file_def)
  define s0 where "s0 = s\<lparr>file_lock := running (kern s)\<rparr>"
  have a: "flock_acquire s = Some s0" "cur_thread s0 = Some th" "kern s0 = kern s" using th(1) l(1) by (auto simp: flock_acquire_iff s0_def)
  obtain f where f: "op ((kfs (kern s0))\<lparr>current_dir := th_current_dir th\<rparr>) = Some (x, f)" "reg_file f p d secs pos'" "Q f" using op a(3) by auto
  obtain s1 where r: "run_fs op s0 = Some (x, s1)" "kfs (kern s1) = f" by (rule run_fs_run [where op = op, OF a(2) f(1)])
  note R = run_fs_Some [OF r(1) a(2)]
  have rel: "flock_release s1 = Some (s1\<lparr>file_lock := 0\<rparr>)" using R(3,4,7) by (simp add: flock_release_iff s0_def)
  show ?thesis
    by (rule that [OF a(1) _ a(3) r(1) rel]) (use a th l f(2,3) r(2) R in \<open>auto simp: proc_file_def\<close>)
qed

lemma k_write_file:
  assumes s: "proc_file s pd n p d secs pos" and n: "2 \<le> n" and v: "is_full_valid_ptr s buf sz = Some True"
    and bs: "vread_bytes pd buf (nat (sint sz)) (mach (kern s)) = Some bs" and sz: "0 \<le> sint sz" "int pos + sint sz \<le> id_length d"
    and rr: "round_robin_idx (cch (kfs (kern s))) + sint sz \<le> INT_MAX"
  shows "\<exists>s1. k_write depth n buf sz s = Some (Ret (sint sz), s1) \<and> proc_file s1 pd n p d secs (pos + nat (sint sz)) \<and> mach (kern s1) = mach (kern s) \<and>
    contents (cch (kfs (kern s1))) d secs = overwrite (contents (cch (kfs (kern s))) d secs) pos bs \<and>
    round_robin_idx (cch (kfs (kern s1))) \<le> round_robin_idx (cch (kfs (kern s))) + sint sz"
proof -
  let ?C = "contents (cch (kfs (kern s))) d secs" and ?rr = "round_robin_idx (cch (kfs (kern s)))"
  have reg: "reg_file (kfs (kern s)) p d secs pos" using s by (simp add: proc_file_def)
  obtain th where th: "cur_thread s = Some th" "pagedir th = pd" "find (\<lambda>e. fd e = n) (file_struct_list th) = Some \<lparr>fd = n, fs_file = p\<rparr>"
    using s by (auto simp: proc_file_def)
  have op: "\<exists>f. as_file p (file_write (free_map_allocate depth) p bs (sint sz)) ((kfs (kern s))\<lparr>current_dir := c\<rparr>) = Some (sint sz, f) \<and>
      reg_file f p d secs (pos + nat (sint sz)) \<and> (contents (cch f) d secs = overwrite ?C pos bs \<and> round_robin_idx (cch f) \<le> ?rr + sint sz)" for c
    using file_write_reg [of "(kfs (kern s))\<lparr>current_dir := c\<rparr>" p d secs pos "sint sz" bs] reg sz rr length_vread_bytes [OF bs]
    by (simp add: as_file_reg [of "(kfs (kern s))\<lparr>current_dir := c\<rparr>" p d secs pos])
  obtain s0 s1 s2 where r: "flock_acquire s = Some s0" "cur_thread s0 = cur_thread s" "kern s0 = kern s"
    "run_fs (as_file p (file_write (free_map_allocate depth) p bs (sint sz))) s0 = Some (sint sz, s1)" "flock_release s1 = Some s2"
    "proc_file s2 pd n p d secs (pos + nat (sint sz))" "mach (kern s2) = mach (kern s)"
    "contents (cch (kfs (kern s2))) d secs = overwrite ?C pos bs \<and> round_robin_idx (cch (kfs (kern s2))) \<le> ?rr + sint sz"
    by (rule proc_file_step [OF s, where op = "as_file p (file_write (free_map_allocate depth) p bs (sint sz))" and
        Q = "\<lambda>f. contents (cch f) d secs = overwrite ?C pos bs \<and> round_robin_idx (cch f) \<le> ?rr + sint sz", OF op])
  obtain i where i: "object_inode (kfs (kern s0)) p = Some i" "i \<noteq> NULL" "inode_is_dir (kfs (kern s0)) i = Some False"
    using reg r(3) by (auto simp: reg_file_def object_inode_def inode_is_dir_def)
  have "user_bytes s0 buf (nat (sint sz)) = Some bs" using th r(2,3) bs by (simp add: user_bytes_def)
  moreover have "get_file_struct_for_fd n s0 = Some (Some \<lparr>fd = n, fs_file = p\<rparr>)" using th r(2) by (simp add: get_fd)
  ultimately have "k_write depth n buf sz s = Some (Ret (sint sz), s2)" using n v r(1,4,5) i by (simp add: k_write_def)
  then show ?thesis using r(6-8) by blast
qed

lemma k_seek_file:
  assumes s: "proc_file s pd n p d secs pos" and q: "q < 2 ^ 31"
  shows "\<exists>s1. k_seek n (of_nat q) s = Some (Ret (), s1) \<and> proc_file s1 pd n p d secs q \<and> mach (kern s1) = mach (kern s) \<and> cch (kfs (kern s1)) = cch (kfs (kern s))"
proof -
  have qi: "sint (of_nat q :: u32) = int q" using q by (simp add: signed_of_nat signed_take_bit_int_eq_self)
  have reg: "reg_file (kfs (kern s)) p d secs pos" "p \<noteq> NULL" using s by (simp_all add: proc_file_def)
  have op: "\<exists>f. as_file p (\<lambda>f. map_option (Pair ()) (file_seek p (int q) f)) ((kfs (kern s))\<lparr>current_dir := c\<rparr>) = Some ((), f) \<and>
      reg_file f p d secs q \<and> cch f = cch (kfs (kern s))" for c
    using file_seek_reg [of "(kfs (kern s))\<lparr>current_dir := c\<rparr>" p d secs pos q] reg
    by (auto simp: as_file_reg [of "(kfs (kern s))\<lparr>current_dir := c\<rparr>" p d secs pos])
  obtain s0 s1 s2 where r: "flock_acquire s = Some s0" "cur_thread s0 = cur_thread s" "kern s0 = kern s"
    "run_fs (as_file p (\<lambda>f. map_option (Pair ()) (file_seek p (int q) f))) s0 = Some ((), s1)" "flock_release s1 = Some s2"
    "proc_file s2 pd n p d secs q" "mach (kern s2) = mach (kern s)" "cch (kfs (kern s2)) = cch (kfs (kern s))"
    by (rule proc_file_step [OF s, where op = "as_file p (\<lambda>f. map_option (Pair ()) (file_seek p (int q) f))" and
        Q = "\<lambda>f. cch f = cch (kfs (kern s))", OF op])
  have "get_file_struct_for_fd n s0 = Some (Some \<lparr>fd = n, fs_file = p\<rparr>)" using s r(2) by (auto simp: proc_file_def get_fd)
  then have "k_seek n (of_nat q) s = Some (Ret (), s2)" using r(1,4,5) reg(2) by (simp add: k_seek_def qi)
  then show ?thesis using r(6-8) by blast
qed

section \<open>Buffers of the process\<close>

text \<open>A writable page of the process that can hold a buffer.\<close>

definition buffer_page :: "nat \<Rightarrow> u32 \<Rightarrow> nat \<Rightarrow> machine \<Rightarrow> u8 list \<Rightarrow> bool" where
  "buffer_page P up k m bs \<longleftrightarrow> user_page P up k m bs \<and> up \<noteq> 0 \<and> pte_val m P (unat (pd_no up)) (unat (pt_no up)) AND PTE_W \<noteq> 0"

lemma vread_bytes_buffer:
  "buffer_page P up k m bs \<Longrightarrow> j + n \<le> 4096 \<Longrightarrow> vread_bytes (page_addr P) (up + of_nat j) n m = Some (take n (drop j bs))"
proof (induction n arbitrary: j)
  case (Suc n)
  have u: "user_page P up k m bs" using Suc.prems(1) by (simp add: buffer_page_def)
  have j: "j < length bs" "j < 4096" using Suc.prems(2) u by (simp_all add: user_page_def)
  have "is_user_vaddr (up + of_nat j)" using user_addr_page(1) [of up j] u j(2) by (simp add: user_page_def)
  then have v: "vread (page_addr P) (up + of_nat j) m = Some (bs ! j)" using uread_user_page [OF u j(2)] by (simp add: vread_def)
  have "vread_bytes (page_addr P) (up + of_nat (j + 1)) n m = Some (take n (drop (j + 1) bs))" by (rule Suc.IH) (use Suc.prems in simp_all)
  moreover have va: "up + of_nat j + 1 = up + of_nat (j + 1)" by simp
  ultimately show ?case unfolding vread_bytes.simps va using v j(1) by (simp flip: Cons_nth_drop_Suc)
qed simp

lemma vwrite_buffer:
  assumes b: "buffer_page P up k m bs" and j: "j < 4096"
  obtains m' where "vwrite (page_addr P) (up + of_nat j) v m = Some m'" "buffer_page P up k m' (bs[j := v])"
proof -
  have u: "user_page P up k m bs" using b by (simp add: buffer_page_def)
  have a: "pd_wf m P" "data_page m P k" "is_user_vaddr up" "pg_ofs up = 0" using u by (simp_all add: user_page_def)
  note q = user_addr_page [OF a(3,4) j]
  obtain m' where m': "uwrite (page_addr P) (up + of_nat j) v m = Some m'" "user_page P up k m' (bs[j := v])" "stores k m m'"
    by (rule uwrite_user_page [OF u j])
  have fr: "\<forall>a. unat a div 4096 \<noteq> k \<longrightarrow> kmem m' a = kmem m a" "\<forall>k. page_used m k \<longrightarrow> page_used m' k" using m'(3) by (auto simp: stores_def)
  have "pte_bit PTE_W (page_addr P) (up + of_nat j) m = Some True"
    using pte_bit_eq [OF a(1) q(1)] q(2) b by (simp add: same_page_entry buffer_page_def)
  then have "vwrite (page_addr P) (up + of_nat j) v m = Some m'" using q(1) m'(1) by (simp add: vwrite_def)
  moreover have "buffer_page P up k m' (bs[j := v])"
    using b m'(2) data_page_store(4) [OF a(1,2) fr _ pt_no_less] pd_no_user a(3) by (simp add: buffer_page_def)
  ultimately show ?thesis using that by blast
qed

lemma vwrite_bytes_buffer:
  "buffer_page P up k m bs \<Longrightarrow> j + length xs \<le> 4096 \<Longrightarrow>
    \<exists>m'. vwrite_bytes (page_addr P) (up + of_nat j) xs m = Some m' \<and> buffer_page P up k m' (overwrite bs j xs)"
proof (induction xs arbitrary: j m bs)
  case Nil
  then show ?case by (simp add: overwrite_def)
next
  case (Cons x xs)
  have j: "j < 4096" "length bs = 4096" using Cons.prems by (simp_all add: buffer_page_def user_page_def)
  obtain m1 where m1: "vwrite (page_addr P) (up + of_nat j) x m = Some m1" "buffer_page P up k m1 (bs[j := x])"
    by (rule vwrite_buffer [OF Cons.prems(1) j(1)])
  obtain m' where m': "vwrite_bytes (page_addr P) (up + of_nat (j + 1)) xs m1 = Some m'" "buffer_page P up k m' (overwrite (bs[j := x]) (j + 1) xs)"
    using Cons.IH [OF m1(2), of "j + 1"] Cons.prems(2) by auto
  have "overwrite (bs[j := x]) (j + 1) xs = overwrite bs j (x # xs)"
    using Cons.prems(2) j by (intro nth_equalityI) (auto simp: nth_overwrite nth_list_update nth_Cons')
  moreover have va: "up + of_nat j + 1 = up + of_nat (j + 1)" by simp
  ultimately show ?case unfolding vwrite_bytes.simps va using m1 m' by simp
qed

lemma buffer_not_null:
  assumes "buffer_page P up k m bs" and "j < 4096"
  shows "up + of_nat j \<noteq> 0"
proof
  have a: "is_user_vaddr up" "pg_ofs up = 0" "up \<noteq> 0" using assms(1) by (simp_all add: buffer_page_def user_page_def)
  assume "up + of_nat j = 0"
  then have "pg_no up = 0" using user_addr_page(2) [OF a(1,2) assms(2)] by (simp add: pg_no_def)
  then show False using page_addr_pg_no [OF a(2)] a(3) by (simp add: page_addr_def)
qed

lemma valid_buffer:
  assumes th: "cur_thread s = Some th" "pagedir th = page_addr P" and b: "buffer_page P up k (mach (kern s)) bs" and n: "j + unat z \<le> 4096"
  shows "is_full_valid_ptr s (up + of_nat j) z = Some True"
proof -
  have u: "user_page P up k (mach (kern s)) bs" "up \<noteq> 0" using b by (simp_all add: buffer_page_def)
  then have a: "is_user_vaddr up" "pg_ofs up = 0" by (simp_all add: user_page_def)
  have v: "is_valid_ptr s (up + of_nat i) = Some True" if i: "i < 4096" for i
  proof -
    note q = user_addr_page [OF a i]
    have "up + of_nat i \<noteq> 0" by (rule buffer_not_null [OF b i])
    then show ?thesis using q(1) th user_page_translate [OF u(1) i] by (simp add: is_valid_ptr_def is_mapped_def)
  qed
  have "full_valid_loop s (up + of_nat j) i n = Some True" if "j + i + n \<le> 4096" for i n
    using that
  proof (induction n arbitrary: i)
    case (Suc n)
    have "up + of_nat j + of_nat i = up + of_nat (j + i)" by simp
    then show ?case using Suc.IH [of "i + 1"] Suc.prems v [of "j + i"] by (simp only: full_valid_loop.simps) simp
  qed simp
  from this [of 0 "unat z"] show ?thesis using n by (simp add: is_full_valid_ptr_def)
qed

lemma k_read_file:
  assumes s: "proc_file s (page_addr P) n p d secs pos" and n: "2 \<le> n" and b: "buffer_page P up k (mach (kern s)) bs"
    and j: "j < 4096" and z: "j + z \<le> 4096" and rr: "round_robin_idx (cch (kfs (kern s))) + int z \<le> INT_MAX"
  defines "data \<equiv> take z (drop pos (contents (cch (kfs (kern s))) d secs))"
  shows "\<exists>s1. k_read n (up + of_nat j) (of_nat z) s = Some (Ret (int (length data)), s1) \<and>
    buffer_page P up k (mach (kern s1)) (overwrite bs j data) \<and> file_lock s1 = 0"
proof -
  obtain th where th: "cur_thread s = Some th" "pagedir th = page_addr P" "find (\<lambda>e. fd e = n) (file_struct_list th) = Some \<lparr>fd = n, fs_file = p\<rparr>"
    and l: "file_lock s = 0" "p \<noteq> NULL" "reg_file (kfs (kern s)) p d secs pos" using s by (auto simp: proc_file_def)
  have zi: "sint (of_nat z :: u32) = int z" "unat (of_nat z :: u32) = z" using z by (simp_all add: signed_of_nat signed_take_bit_int_eq_self unat_of_nat)
  define s0 where "s0 = s\<lparr>file_lock := running (kern s)\<rparr>"
  have a: "flock_acquire s = Some s0" "cur_thread s0 = Some th" "kern s0 = kern s" using th(1) l(1) by (auto simp: flock_acquire_iff s0_def)
  let ?f = "(kfs (kern s0))\<lparr>current_dir := th_current_dir th\<rparr>"
  have reg: "reg_file ?f p d secs pos" using l(3) a(3) by simp
  obtain f where f: "as_file p (file_read p (int z)) ?f = Some (data, f)"
    using file_read_reg [OF reg, of z] rr a(3) unfolding as_file_reg [OF reg] data_def by auto
  obtain s1 where r: "run_fs (as_file p (file_read p (int z))) s0 = Some (data, s1)" by (rule run_fs_run [where op = "as_file p (file_read p (int z))", OF a(2) f])
  note R = run_fs_Some [OF r a(2)]
  have "j + length data \<le> 4096" using z by (simp add: data_def)
  moreover have "buffer_page P up k (mach (kern s1)) bs" using b R(2) a(3) by simp
  ultimately obtain m where m: "vwrite_bytes (page_addr P) (up + of_nat j) data (mach (kern s1)) = Some m" "buffer_page P up k m (overwrite bs j data)"
    using vwrite_bytes_buffer [of P up k "mach (kern s1)" bs j data] by blast
  have st: "store_bytes (up + of_nat j) data s1 = Some (set_mach m s1)" using R(3) th(2) m(1) by (simp add: store_bytes_def)
  have rel: "flock_release (set_mach m s1) = Some ((set_mach m s1)\<lparr>file_lock := 0\<rparr>)" using R(3,4,7) a(3) by (simp add: flock_release_iff s0_def)
  have v: "is_full_valid_ptr s (up + of_nat j) (of_nat z) = Some True" using valid_buffer [OF th(1,2) b] z zi(2) by simp
  have "k_read n (up + of_nat j) (of_nat z) s = Some (Ret (int (length data)), (set_mach m s1)\<lparr>file_lock := 0\<rparr>)"
    using n v get_fd [OF th(1)] th(3) l(2) a(1) r st rel zi(1) buffer_not_null [OF b j] by (simp add: k_read_def)
  then show ?thesis using m(2) by simp
qed

section \<open>A process with an open file\<close>

text \<open>Descriptor 2 is the file 7, which is open twice; one page at \<^verbatim>\<open>0x8048000\<close> is mapped in \<open>m\<close>.\<close>

definition ex_sys :: "machine \<Rightarrow> sys" where
  "ex_sys m = \<lparr>kern = ex_kernel\<lparr>mach := m, kfs := ex_fs\<lparr>inodes := (inodes ex_fs)(8 \<mapsto> (the (inodes ex_fs 8))\<lparr>in_open_cnt := 2\<rparr>)\<rparr>,
       threads := (threads ex_kernel)(0xc0100000 \<mapsto> (ex_thread 2 THREAD_RUNNING [])\<lparr>pagedir := page_addr ex_pd, file_struct_list := [\<lparr>fd = 2, fs_file = 7\<rparr>]\<rparr>)\<rparr>,
     file_lock = 0, console = [], stdin = []\<rparr>"

lemma ex_sys_simps:
  "file_lock (ex_sys m) = 0" "mach (kern (ex_sys m)) = m" "set_mach m' (ex_sys m) = ex_sys m'"
  "kfs (kern (ex_sys m)) = ex_fs\<lparr>inodes := (inodes ex_fs)(8 \<mapsto> (the (inodes ex_fs 8))\<lparr>in_open_cnt := 2\<rparr>)\<rparr>"
  "cur_thread (ex_sys m) = Some ((ex_thread 2 THREAD_RUNNING [])\<lparr>pagedir := page_addr ex_pd, file_struct_list := [\<lparr>fd = 2, fs_file = 7\<rparr>]\<rparr>)"
  by (simp_all add: ex_sys_def set_mach_def cur_thread_iff thread_current_iff ex_kernel_def ex_thread_def)

lemma ex_sys_file: "proc_file (ex_sys m) (page_addr ex_pd) 2 7 (ex_data 4 4) [4] 0"
proof -
  have "reg_file (kfs (kern (ex_sys m))) 7 (ex_data 4 4) [4] 0"
    using ex_cch_wf ex_file_map [of 4 4] unfolding reg_file_def ex_sys_simps
    by (simp add: ex_fs_simps in_int32_def) (simp add: ex_fs_def ex_data_def calloc_inode_disk_def)
  then show ?thesis by (simp add: proc_file_def ex_sys_simps ex_thread_def)
qed

lemma ex_buffer: obtains m where "buffer_page ex_pd 0x8048000 0xc0101 m (replicate 4096 0)"
proof -
  have a: "pagedir_get_page (page_addr ex_pd) 0x8048000 ex_machine = Some 0"
    by (simp add: pagedir_get_page_def lookup_page_def rd32_ex is_user_vaddr_def PHYS_BASE_def ex_pd_def page_addr_def Let_def)
  have c: "is_user_vaddr 0x8048000" "pg_ofs 0x8048000 = 0" "of_nat (0xc0101 - 786432) < init_ram_pages ex_machine" "page_addr ex_pd \<noteq> init_page_dir ex_machine"
    "2 < bitmap_size (used_map (kernel_pool ex_machine))"
    by (simp_all add: is_user_vaddr_def PHYS_BASE_def ex_pd_def page_addr_def pg_ofs_def PGMASK_def BITMASK_def PGBITS_def ex_machine_def bitmap_size_def)
  have u: "page_used ex_machine 0xc0101"
    by (simp add: ex_machine_def page_used_def pool_used_def base_no_def bm_bits_def elem_idx_def ELEM_BITS_def)
  show ?thesis
  proof (cases rule: set_page_cases [OF ex_machine_wf ex_pd_wf c(1,2) _ _ c(3,4) a, of True])
    case 3
    then show ?thesis using c(5) ex_free_page by blast
  next
    case (4 m)
    have "data_page ex_machine ex_pd 0xc0101" by (simp add: data_page_def ex_pd_def rd32_ex)
    then have k: "data_page m ex_pd 0xc0101" "\<forall>a. unat a div 4096 = 0xc0101 \<longrightarrow> kmem m a = kmem ex_machine a" using 4(5) u by (simp_all add: data_kept_def)
    have "user_page ex_pd 0x8048000 0xc0101 m (replicate 4096 0)"
      using 4(3,4) k c(1,2) unat_page_ofs [of "0xc0101"] by (simp add: user_page_def ex_machine_def)
    moreover have "user_entry (0xc0101 - 786432) True AND PTE_W \<noteq> 0" by (simp add: user_entry_def PTE_W_def PTE_P_def PTE_U_def page_addr_def)
    ultimately show ?thesis using that [of m] 4(7) by (simp add: buffer_page_def)
  qed simp_all
qed

section \<open>Properties\<close>

text \<open>C7. Over the life of a process, whatever system calls it makes in whatever order and whatever user code writes to memory in between: its open
  descriptors stay distinct and are at least 2, so that none is confused with the console, the file-system lock is free between the calls, and the next
  call leaves it free too, also one that ends the process.\<close>

theorem process_calls_invariant:
  assumes "process_run depth s s'" and "file_lock s = 0" and "cur_thread s = Some th" and "sorted_wrt (<) (map fd (file_struct_list th))"
    and "\<forall>e \<in> set (file_struct_list th). 2 \<le> fd e \<and> fd e \<le> INT_LIMIT"
  shows "file_lock s' = 0 \<and> (\<exists>th'. cur_thread s' = Some th' \<and> distinct (map fd (file_struct_list th')) \<and> (\<forall>e \<in> set (file_struct_list th'). 2 \<le> fd e \<and> fd e \<le> INT_LIMIT)) \<and>
    (\<forall>esp r s''. syscall_handler depth esp s' = Some (r, s'') \<longrightarrow> file_lock s'' = 0)"
proof -
  have "sys_ok s" using assms(2-5) by (simp add: sys_ok_def proc_ok_def fd_wf_def)
  then have ok: "sys_ok s'" by (rule process_run_ok [OF assms(1)])
  have "syscall_handler depth esp s' = Some (r, s'') \<Longrightarrow> file_lock s'' = 0" for esp r s'' using handler_post [of depth esp s' r s''] ok by (simp add: call_post_def)
  then show ?thesis using ok strict_sorted_iff unfolding sys_ok_def proc_ok_def fd_wf_def by blast
qed

theorem process_calls_invariant_witness:
  "\<exists>m m'. file_lock (ex_sys m) = 0 \<and> process_run 1 (ex_sys m) (ex_sys m') \<and> syscall_handler 1 0x8048000 (ex_sys m') = Some (Ret (Some 0), ex_sys m') \<and>
    file_lock (ex_sys m') = 0 \<and> (\<forall>esp r s''. syscall_handler 1 esp (ex_sys m') = Some (r, s'') \<longrightarrow> file_lock s'' = 0)"
proof -
  let ?up = "0x8048000 :: u32"
  obtain m where m: "buffer_page ex_pd ?up 0xc0101 m (replicate 4096 0)" by (rule ex_buffer)
  obtain m' where b: "buffer_page ex_pd ?up 0xc0101 m' (overwrite (replicate 4096 0) 0 [18])"
    using vwrite_bytes_buffer [OF m, of 0 "[18]"] by auto
  have arg: "vread32 (page_addr ex_pd) (?up + of_nat j) m' = Some (bytes_u32 (take 4 (drop j (overwrite (replicate 4096 0) 0 [18]))))" if "j + 4 \<le> 4096" for j
    using vread_bytes_buffer [OF b that] by (simp add: vread32_def)
  have "bytes_u32 (take 4 (drop 0 (overwrite (replicate 4096 0) 0 [18]))) = 18" "bytes_u32 (take 4 (drop 4 (overwrite (replicate 4096 0) 0 [18]))) = 0"
    by (simp_all add: overwrite_def bytes_u32_def)
  then have args: "stack_arg ?up 0 (ex_sys m') = Some 18" "stack_arg ?up 1 (ex_sys m') = Some 0"
    using arg [of 0] arg [of 4] by (simp_all add: stack_arg_def ex_sys_simps)
  have v: "is_mapped (ex_sys m') (?up + of_nat j) = Some True" if "j < 4096" for j
  proof -
    have u: "user_page ex_pd ?up 0xc0101 m' (overwrite (replicate 4096 0) 0 [18])" using b by (simp add: buffer_page_def)
    then have "is_user_vaddr (?up + of_nat j)" using user_addr_page(1) that by (simp add: user_page_def)
    then show ?thesis using user_page_translate [OF u that] by (simp add: is_mapped_def ex_sys_simps)
  qed
  have call: "syscall_handler 1 ?up (ex_sys m') = Some (Ret (Some 0), ex_sys m')"
    using args v [of 0] v [of 4]
    by (simp add: syscall_handler_def dispatch_def SYS_CHDIR_def SYS_MKDIR_def SYS_READDIR_def SYS_ISDIR_def k_isdir_def dir_of_fd_def
        get_file_struct_for_fd_def ex_sys_simps ex_thread_def of_bool_int_def sets_eax_def)
  have "process_run 1 (ex_sys m) (ex_sys m')" using run_user [OF run_start [of 1 "ex_sys m"], of m'] by (simp add: ex_sys_simps)
  then have run: "process_run 1 (ex_sys m) (ex_sys m')" using run_call call by blast
  have "sorted_wrt (<) (map fd (file_struct_list (the (cur_thread (ex_sys m)))))" "\<forall>e \<in> set (file_struct_list (the (cur_thread (ex_sys m)))). 2 \<le> fd e \<and> fd e \<le> INT_LIMIT"
    "cur_thread (ex_sys m) = Some (the (cur_thread (ex_sys m)))"
    by (simp_all add: ex_sys_simps INT_LIMIT_def)
  then show ?thesis using process_calls_invariant [OF run] run call ex_sys_simps(1) by metis
qed

text \<open>C6. Files through descriptors: a process writes bytes from its memory to an open regular file at its position, seeks back and reads them into
  another place of its memory.  All three calls return, the write and the read report every byte, the file holds exactly the old contents with these bytes
  written over them, and the memory page afterwards differs only in the target of the read, which holds the bytes written.\<close>

theorem write_seek_read:
  assumes s: "proc_file s (page_addr P) n p d secs pos" and n: "2 \<le> n" and b: "buffer_page P up k (mach (kern s)) bs"
    and ij: "i + z \<le> 4096" "j < 4096" "j + z \<le> 4096" and len: "int pos + int z \<le> id_length d"
    and rr: "round_robin_idx (cch (kfs (kern s))) + 2 * int z \<le> INT_MAX"
  shows "\<exists>s1 s2 s3. k_write depth n (up + of_nat i) (of_nat z) s = Some (Ret (int z), s1) \<and>
    contents (cch (kfs (kern s1))) d secs = overwrite (contents (cch (kfs (kern s))) d secs) pos (take z (drop i bs)) \<and>
    k_seek n (of_nat pos) s1 = Some (Ret (), s2) \<and> k_read n (up + of_nat j) (of_nat z) s2 = Some (Ret (int z), s3) \<and>
    buffer_page P up k (mach (kern s3)) (overwrite bs j (take z (drop i bs))) \<and> file_lock s3 = 0"
proof -
  have zi: "sint (of_nat z :: u32) = int z" "unat (of_nat z :: u32) = z" using ij(1) by (simp_all add: signed_of_nat signed_take_bit_int_eq_self unat_of_nat)
  obtain th where th: "cur_thread s = Some th" "pagedir th = page_addr P" using s by (auto simp: proc_file_def)
  have reg: "reg_file (kfs (kern s)) p d secs pos" using s by (simp add: proc_file_def)
  let ?C = "contents (cch (kfs (kern s))) d secs" and ?bs = "take z (drop i bs)"
  have C: "length ?C = nat (id_length d)" "length bs = 4096" using reg b length_contents by (auto simp: reg_file_def buffer_page_def user_page_def)
  have v: "is_full_valid_ptr s (up + of_nat i) (of_nat z) = Some True" using valid_buffer [OF th b] ij(1) zi(2) by simp
  obtain s1 where s1: "k_write depth n (up + of_nat i) (of_nat z) s = Some (Ret (int z), s1)" "proc_file s1 (page_addr P) n p d secs (pos + z)"
    "mach (kern s1) = mach (kern s)" "contents (cch (kfs (kern s1))) d secs = overwrite ?C pos ?bs"
    "round_robin_idx (cch (kfs (kern s1))) \<le> round_robin_idx (cch (kfs (kern s))) + int z"
    using k_write_file [OF s n v, of ?bs depth] vread_bytes_buffer [OF b ij(1)] zi len rr by auto
  have "pos < 2 ^ 31" using reg len by (auto simp: reg_file_def in_int32_def)
  from k_seek_file [OF s1(2) this] obtain s2 where s2: "k_seek n (of_nat pos) s1 = Some (Ret (), s2)" "proc_file s2 (page_addr P) n p d secs pos"
    "mach (kern s2) = mach (kern s1)" "cch (kfs (kern s2)) = cch (kfs (kern s1))" by blast
  have "take z (drop pos (overwrite ?C pos ?bs)) = ?bs" using C len ij(1) by (simp add: overwrite_def)
  then have rd: "take z (drop pos (contents (cch (kfs (kern s2))) d secs)) = ?bs" using s1(4) s2(4) by simp
  have "buffer_page P up k (mach (kern s2)) bs" "round_robin_idx (cch (kfs (kern s2))) + int z \<le> INT_MAX" using b s1(3,5) s2(3,4) rr by simp_all
  from k_read_file [OF s2(2) n this(1) ij(2,3) this(2)]
  obtain s3 where "k_read n (up + of_nat j) (of_nat z) s2 = Some (Ret (int z), s3)" "buffer_page P up k (mach (kern s3)) (overwrite bs j ?bs)" "file_lock s3 = 0"
    using C(2) ij(1) unfolding rd by auto
  then show ?thesis using s1(1,4) s2(1) by blast
qed

theorem write_seek_read_witness:
  "\<exists>m s1 s2 s3. k_write 1 2 (0x8048000 + of_nat 5) (of_nat 3) (ex_sys m) = Some (Ret (int 3), s1) \<and> k_seek 2 (of_nat 0) s1 = Some (Ret (), s2) \<and>
    k_read 2 (0x8048000 + of_nat 100) (of_nat 3) s2 = Some (Ret (int 3), s3) \<and>
    buffer_page ex_pd 0x8048000 0xc0101 (mach (kern s3)) (overwrite (overwrite (replicate 4096 0) 5 [1, 2, 3]) 100 [1, 2, 3])"
proof -
  obtain m0 where "buffer_page ex_pd 0x8048000 0xc0101 m0 (replicate 4096 0)" by (rule ex_buffer)
  from vwrite_bytes_buffer [OF this, of 5 "[1, 2, 3]"] obtain m where "buffer_page ex_pd 0x8048000 0xc0101 m (overwrite (replicate 4096 0) 5 [1, 2, 3])" by auto
  then have b: "buffer_page ex_pd 0x8048000 0xc0101 (mach (kern (ex_sys m))) (overwrite (replicate 4096 0) 5 [1, 2, 3])" by (simp add: ex_sys_simps)
  have a: "(5 :: nat) + 3 \<le> 4096" "(100 :: nat) < 4096" "(100 :: nat) + 3 \<le> 4096" "(2 :: int) \<le> 2" by simp_all
  have c: "int 0 + int 3 \<le> id_length (ex_data 4 4)" "round_robin_idx (cch (kfs (kern (ex_sys m)))) + 2 * int 3 \<le> INT_MAX"
    by (simp_all add: ex_sys_simps ex_fs_simps INT_MAX_def)
  have "take 3 (drop 5 (overwrite (replicate 4096 0) 5 [1, 2, 3 :: u8])) = [1, 2, 3]" by (simp add: overwrite_def)
  then show ?thesis using write_seek_read [OF ex_sys_file a(4) b a(1-3) c, of 1] by metis
qed



end
