(* ===== verification/Spec2Isabelle.thy ===== *)
theory Spec2Isabelle
  imports Fs_Laws List_Ordered Arith64 Stdlib Rc4 Hash Wait_Laws Keyboard Malloc Syscall_Laws
begin

text \<open>
  \<^bold>\<open>Verification of the Pintos kernel of this repository.\<close>

  The program is a small kernel for 32-bit x86 machines, written in C, below \<^verbatim>\<open>src/src\<close>.  User programs reach it through
  system calls (\<^verbatim>\<open>userprog/\<close>), which work on a file system (\<^verbatim>\<open>filesys/\<close>) above block devices (\<^verbatim>\<open>devices/\<close>), on page tables
  and memory allocators, and on threads that a round-robin scheduler runs (\<^verbatim>\<open>threads/\<close>).  All of them use the library in
  \<^verbatim>\<open>lib/\<close>: lists, bitmaps, hash tables, strings, formatted output, sorting, 64-bit division and random numbers.

  \<^bold>\<open>Conventions.\<close>  A C function is a HOL function on the state it reads and writes, with the result and the new state as
  its value.  A failed \<^verbatim>\<open>ASSERT\<close>, a \<^verbatim>\<open>PANIC\<close>, an access through an invalid pointer, undefined behaviour and not returning
  are all \<^term>\<open>None\<close>; so a theorem that a call is \<^term>\<open>Some x\<close> includes that no assertion fails and that it returns.
  Unsigned machine integers and addresses are words, or natural numbers with their wrap-around written out; \<^verbatim>\<open>int\<close> values are
  integers, with the places where they overflow made explicit where the code can reach them.  Loops are primitive recursion
  or recursion with a measure where the code bounds them, and \<^theory_text>\<open>partial_function\<close>s where they only end on good data;
  the theorems about these show that they do end.  The generic lemmas are in \<open>Prelude\<close>.

  \<^bold>\<open>Library.\<close>
  \<^item> \<open>Bitmap\<close>: lib/kernel/bitmap.c, on words; setting ranges, and scanning for the first free range.  The locale \<open>bit_pool\<close>
    is the contract that its clients use, interpreted on the operations.
  \<^item> \<open>Kernel_List\<close>, \<open>List_Ordered\<close>: lib/kernel/list.c, on an explicit store of \<^verbatim>\<open>prev\<close> and \<^verbatim>\<open>next\<close> pointers; the linked
    structure represents a sequence; the merge sort is a stable sort of it.  Other theories use the sequence.
  \<^item> \<open>Hash\<close>: lib/kernel/hash.c; with its locale \<open>element_table\<close>, the table refines a set through all resizes.
  \<^item> \<open>Kstring\<close> (lib/string.c), \<open>Stdlib\<close> (lib/stdlib.c, lib/ctype.h), \<open>Stdio\<close> (lib/stdio.c), \<open>Arith64\<close> (lib/arithmetic.c),
    \<open>Rc4\<close> (lib/random.c): each function, and its agreement with a reference definition.  In \<open>Stdio\<close> the output function is a
    parameter; the locale \<open>outfn_sim\<close> transfers results from one output function to another.

  \<^bold>\<open>Files.\<close>
  \<^item> \<open>Block\<close> (devices/block.c) and \<open>Buffer_Cache\<close> (filesys/buffer-cache.c): the locale \<open>sector_store\<close> is an array of sectors;
    any run of cache operations refines it, and writing back makes it durable.
  \<^item> \<open>Bytes\<close>, \<open>Inode\<close> (filesys/inode.c), \<open>Free_Map\<close> (filesys/file.c, filesys/free-map.c and the files of bitmap.c),
    \<open>Directory\<close> (filesys/directory.c), \<open>Filesys\<close> (filesys/filesys.c): all functions, on the state \<open>fs\<close>: the cache, the free map,
    and the kernel structures by address.
  \<^item> \<open>Inode_Data\<close>: what reading and writing do to the contents of a file.  \<open>Fs_Laws\<close>: allocation of sectors, growth of files,
    and what growth does on a full disk.

  \<^bold>\<open>Memory.\<close>
  \<^item> \<open>Vaddr\<close> (threads/vaddr.h, threads/pte.h), \<open>Palloc\<close> (threads/palloc.c), \<open>Pagedir\<close> (userprog/pagedir.c), \<open>User_Mem\<close>: addresses,
    the two pools of pages, two-level page tables in the memory of the machine, and accesses of the kernel to user memory.  The
    locale \<open>page_source\<close> is what the owners of threads' pages rely on, interpreted on the allocator.
  \<^item> \<open>Malloc\<close> (threads/malloc.c): blocks that are handed out are disjoint from each other, and releasing them gives them back.

  \<^bold>\<open>Threads.\<close>
  \<^item> \<open>Threads\<close> (threads/thread.c, threads/interrupt.c, userprog/tss.c), \<open>Synch\<close> (threads/synch.c, devices/timer.c), \<open>Process\<close>
    (parents and children in userprog/process.c and userprog/syscall.c).  What a thread has still to do when it runs again is a list of
    continuations in place of its kernel stack; the inductive relation \<open>kstep\<close> interleaves threads, timer ticks, device
    interrupts and calls.
  \<^item> \<open>Sched_Inv\<close>, \<open>Sched_Laws\<close>, \<open>Lock_View\<close>, \<open>Kernel_Steps\<close>, \<open>Kernel_Calls\<close>: the invariant \<open>sync_inv\<close> and that every step keeps it.
  \<^item> \<open>Kernel_Props\<close>: no assertion of the scheduler and of the semaphores fails in any run, locks exclude each other, wake-ups are not lost, and a ready thread runs after
    a bounded number of ticks.  \<open>Wait_Laws\<close>: waiting for a process that has ended.

  \<^bold>\<open>Devices.\<close>  \<open>Ports\<close> (threads/io.h), \<open>Intq\<close> (devices/intq.c), \<open>Serial\<close> (devices/input.c, devices/serial.c), \<open>Keyboard\<close>
  (devices/kbd.c): the circular queue is a bounded queue, and the serial interrupt handler delivers what was sent.

  \<^bold>\<open>Processes.\<close>
  \<^item> \<open>Load\<close>, \<open>Load_Laws\<close>: program loading in userprog/process.c; a loaded segment has the bytes of the file and zeros behind
    them, and the new stack has the arguments of the command line.
  \<^item> \<open>Syscall\<close>, \<open>Syscall_Laws\<close>: userprog/syscall.c, all calls with their checks and the dispatcher, on the kernel state with the
    lock of the file system.  The relation \<open>process_run\<close> is a process that computes and makes calls in any order; its descriptors
    and the lock keep their invariant, and files written through a descriptor are read back into user memory.

  \<^bold>\<open>Bounds.\<close>
  \<^item> \<open>depth\<close>, an argument of the operations that allocate sectors, bounds the nesting of \<^verbatim>\<open>free_map_allocate\<close> inside the growth of
    its own file.  The file is created at full length, so one level is enough (\<open>Fs_Laws\<close>).
  \<^item> The cache's \<^verbatim>\<open>round_robin_idx\<close> only grows; the laws on file data assume that it stays below \<^verbatim>\<open>INT_MAX\<close> during the operation.
  \<^item> Loops that poll a device have fuel: the device, a parameter, may never answer.  For the serial interrupt handler 64 rounds,
    the size of the queues, are always enough, as its theorem shows.
  \<^item> The values of uninitialised stack memory (\<open>stack_junk\<close>) and the outcome of each allocation in the file system (\<open>mem_ok\<close>) are
    parts of the state about which nothing is assumed unless a theorem says so.

  \<^bold>\<open>Not modelled.\<close>
  \<^item> Boot loader, start-up and stubs in assembly (threads/start.S, loader.S, intr-stubs.S, switch.S) and \<^verbatim>\<open>main\<close> in threads/init.c:
    what matters of the switch of stacks and of interrupt entry is in \<open>Threads\<close>.
  \<^item> Descriptor tables, the interrupt controller, and the handlers of userprog/exception.c: they program the processor, or print and
    end the process; a fault inside the kernel is \<^term>\<open>None\<close>.
  \<^item> The IDE driver, partitions, screen, speaker, clock chips and power: input and output of devices.  The block layer takes a driver
    as the list of its sectors; the console is the list of the bytes written to it.
  \<^item> Real time: calibrated delays of devices/timer.c.
  \<^item> filesys/fsutil.c and lib/ustar.c (commands of the kernel command line), the user library, examples, utilities and tests.
  \<^item> Concurrency inside the file system, the allocators and the system calls: each is under a lock of its own, and its operations are
    modelled from the point where the caller has that lock; that locks exclude each other is a theorem of \<open>Kernel_Props\<close>.
\<close>

end
